(* ===== verification/Prelude.thy ===== *)
theory Prelude
  imports Main "HOL-Library.Word"
begin

unbundle bit_operations_syntax

text \<open>
  The vocabulary every component shares: machine types, the outcomes of C code that do
  not return a value, byte regions as lists with \<open>memcpy\<close> as \<open>blit\<close>,
  the little-endian representation of integers, and the \<open>& (size - 1)\<close> idiom.

  A C function that may call \<open>exit\<close>, touch memory it does not own, or wait in a loop
  that nothing ends is a function into \<open>'a res\<close>. An operation that is total in the
  source stays a plain function.
\<close>

section \<open>Types and outcomes\<close>

type_synonym byte = "8 word"
type_synonym u32 = "32 word"
type_synonym u64 = "64 word"

text \<open>
  \<open>Exit\<close> is a call of \<open>exit\<close>; \<open>UB\<close> is behaviour the C standard leaves
  undefined (a dereference of \<open>NULL\<close> or of freed memory, an access past an object, a
  division by zero); \<open>Spin\<close> is a busy wait whose condition nothing will change.
\<close>

datatype fault = Exit | UB | Spin

type_synonym 'a res = "fault + 'a"

definition bindR :: "'a res \<Rightarrow> ('a \<Rightarrow> 'b res) \<Rightarrow> 'b res" where
  "bindR m f = (case m of Inl e \<Rightarrow> Inl e | Inr x \<Rightarrow> f x)"

definition guardR :: "bool \<Rightarrow> fault \<Rightarrow> 'a res \<Rightarrow> 'a res" where
  "guardR b e m = (if b then m else Inl e)"

section \<open>Byte regions\<close>

text \<open>\<open>blit off src dst\<close> is \<open>memcpy(dst + off, src, |src|)\<close>;
  \<open>bslice bs off n\<close> the bytes \<open>bs[off .. off + n)\<close>.\<close>

definition blit :: "nat \<Rightarrow> 'a list \<Rightarrow> 'a list \<Rightarrow> 'a list" where
  "blit off src dst = take off dst @ src @ drop (off + length src) dst"

definition bslice :: "'a list \<Rightarrow> nat \<Rightarrow> nat \<Rightarrow> 'a list" where
  "bslice bs off n = take n (drop off bs)"

section \<open>Integers in memory\<close>

fun le_bytes :: "nat \<Rightarrow> int \<Rightarrow> byte list" where
  "le_bytes 0 x = []"
| "le_bytes (Suc n) x = word_of_int x # le_bytes n (x div 256)"

fun le_val :: "byte list \<Rightarrow> int" where
  "le_val [] = 0"
| "le_val (b # bs) = uint b + 256 * le_val bs"

text \<open>An \<open>int\<close> object: four little-endian bytes, read back as two's complement.\<close>

definition int_bytes :: "int \<Rightarrow> byte list" where
  "int_bytes x = le_bytes 4 x"

definition bytes_int :: "byte list \<Rightarrow> int" where
  "bytes_int bs = signed_take_bit 31 (le_val bs)"

text \<open>The values of type \<open>int\<close>, in which a sum that leaves the range is undefined, and the conversion of a
  \<open>size_t\<close> to \<open>int\<close>, which keeps the low 32 bits.\<close>

definition in_int :: "int \<Rightarrow> bool" where
  "in_int x \<longleftrightarrow> - (2 ^ 31) \<le> x \<and> x < 2 ^ 31"

definition as_int :: "int \<Rightarrow> int" where
  "as_int x = signed_take_bit 31 x"

text \<open>C's \<open>%\<close> truncates towards zero.\<close>

definition crem :: "int \<Rightarrow> int \<Rightarrow> int" where
  "crem a b = sgn a * (\<bar>a\<bar> mod \<bar>b\<bar>)"

section \<open>C strings\<close>

text \<open>The string a pointer to \<open>bs\<close> denotes: the bytes before the first NUL,
  \<open>None\<close> when the object ends before one is met.\<close>

fun c_string :: "byte list \<Rightarrow> byte list option" where
  "c_string [] = None"
| "c_string (b # bs) = (if b = 0 then Some [] else map_option (Cons b) (c_string bs))"

section \<open>Collections and shared lemmas\<close>

named_theorems cres_simps "rewriting through the outcome type"
named_theorems region_simps "reading and writing byte regions"

lemma bindR_Inr [simp, cres_simps]: "bindR (Inr x) f = f x"
  by (simp add: bindR_def)

lemma bindR_Inl [simp, cres_simps]: "bindR (Inl e) f = Inl e"
  by (simp add: bindR_def)

lemma bindR_eq_Inr [cres_simps]: "bindR m f = Inr y \<longleftrightarrow> (\<exists>x. m = Inr x \<and> f x = Inr y)"
  by (cases m) auto

lemma guardR_True [simp, cres_simps]: "guardR True e m = m"
  by (simp add: guardR_def)

lemma guardR_False [simp, cres_simps]: "guardR False e m = Inl e"
  by (simp add: guardR_def)

lemma guardR_eq_Inr [cres_simps]: "guardR b e m = Inr y \<longleftrightarrow> b \<and> m = Inr y"
  by (simp add: guardR_def)

lemma length_blit [simp, region_simps]:
  "off + length src \<le> length dst \<Longrightarrow> length (blit off src dst) = length dst"
  by (simp add: blit_def)

lemma blit_Nil [simp, region_simps]: "blit off [] dst = dst"
  by (simp add: blit_def)

lemma nth_blit:
  assumes "off + length src \<le> length dst" and "i < length dst"
  shows "blit off src dst ! i
    = (if off \<le> i \<and> i < off + length src then src ! (i - off) else dst ! i)"
  using assms by (auto simp: blit_def nth_append min_def)

lemma length_bslice [simp, region_simps]:
  "off + n \<le> length bs \<Longrightarrow> length (bslice bs off n) = n"
  by (simp add: bslice_def)

lemma nth_bslice: "off + n \<le> length bs \<Longrightarrow> i < n \<Longrightarrow> bslice bs off n ! i = bs ! (off + i)"
  by (simp add: bslice_def)

lemma bslice_blit_same [region_simps]:
  "off + length src \<le> length dst \<Longrightarrow> bslice (blit off src dst) off (length src) = src"
  by (simp add: bslice_def blit_def)

lemma bslice_blit_other [region_simps]:
  assumes "off + length src \<le> length dst" and "a + n \<le> length dst"
    and "a + n \<le> off \<or> off + length src \<le> a"
  shows "bslice (blit off src dst) a n = bslice dst a n"
  using assms by (intro nth_equalityI) (auto simp: nth_bslice nth_blit)

lemma length_le_bytes [simp]: "length (le_bytes n x) = n"
  by (induction n arbitrary: x) auto

lemma le_val_le_bytes: "le_val (le_bytes n x) = x mod 256 ^ n"
proof (induction n arbitrary: x)
  case 0
  then show ?case by simp
next
  case (Suc n)
  have "uint (word_of_int x :: byte) = x mod 256"
    by (simp add: uint_word_of_int)
  with Suc show ?case
    by (simp add: zmod_zmult2_eq)
qed

lemma length_int_bytes [simp]: "length (int_bytes x) = 4"
  by (simp add: int_bytes_def)

lemma bytes_int_bytes:
  assumes "- (2 ^ 31) \<le> x" and "x < 2 ^ 31"
  shows "bytes_int (int_bytes x) = x"
proof -
  have "signed_take_bit 31 (x mod 2 ^ 32) = signed_take_bit 31 (take_bit 32 x)"
    by (simp add: take_bit_eq_mod)
  also have "\<dots> = signed_take_bit 31 x"
    by (simp add: signed_take_bit_take_bit)
  also have "\<dots> = x"
    using assms by (simp add: signed_take_bit_int_eq_self)
  finally show ?thesis
    by (simp add: bytes_int_def int_bytes_def le_val_le_bytes)
qed

lemma as_int_id [simp]: "0 \<le> x \<Longrightarrow> x < 2 ^ 31 \<Longrightarrow> as_int x = x"
  by (simp add: as_int_def signed_take_bit_int_eq_self)

lemma in_int_nonneg [simp]: "0 \<le> x \<Longrightarrow> in_int x \<longleftrightarrow> x < 2 ^ 31"
  by (simp add: in_int_def)

lemma crem_nonneg: "0 \<le> a \<Longrightarrow> 0 < b \<Longrightarrow> crem a b = a mod b"
  by (cases "a = 0") (auto simp: crem_def)

lemma and_mask_mod: "(x::int) AND (2 ^ k - 1) = x mod 2 ^ k"
  by (metis mask_eq_exp_minus_1 take_bit_eq_mask take_bit_eq_mod)

lemma mod_diff_wrap:
  assumes "0 \<le> a" "a < n" "0 \<le> b" "b < (n::int)"
  shows "(a - b) mod n = (if b \<le> a then a - b else a - b + n)"
proof (cases "b \<le> a")
  case True
  with assms show ?thesis by simp
next
  case False
  have "(a - b) mod n = (a - b + n) mod n" by simp
  also have "\<dots> = a - b + n" using False assms by (intro mod_pos_pos_trivial) auto
  finally show ?thesis using False by simp
qed

lemma crem_succ:
  "0 \<le> a \<Longrightarrow> a < n \<Longrightarrow> crem (a + 1) n = (if a + 1 = n then 0 else a + 1)"
  by (simp add: crem_nonneg)

lemma c_string_append_zero: "0 \<notin> set s \<Longrightarrow> c_string (s @ 0 # rest) = Some s"
  by (induction s) auto

lemma c_string_no_zero: "c_string bs = Some s \<Longrightarrow> 0 \<notin> set s"
  by (induction bs arbitrary: s) (auto split: if_splits)

end
