(* ===== verification/UnlockQueue.thy ===== *)
theory UnlockQueue
  imports Prelude
begin

text \<open>
  The bounded single-producer single-consumer queue of \<open>src/unlock_queue.c\<close> that
  links the threads of a node. \<open>unQueue\<close> is the struct of
  \<open>include/unlock_queue.h\<close>; the entries are copied in and out as whole
  \<open>entry_size\<close> blocks, so \<open>data\<close> is a list of slots, \<open>None\<close> for
  a slot that \<open>malloc\<close> returned and nothing has written. An index outside
  \<open>data\<close> and a zero \<open>len\<close> are \<open>UB\<close>.

  The lemmas show that on a well-formed queue no operation is \<open>UB\<close>, that the
  operations refine a list bounded by \<open>len - 1\<close>, and that a \<open>putQueue\<close>
  and a \<open>popQueue\<close> running in either order give the same queue. The contract is the
  locale \<open>fifo\<close>, which the log buffer uses.
\<close>

record 'a unQueue =
  entry_size :: nat
  len :: int
  wid :: int
  rid :: int
  data :: "'a option list"

definition initQueue :: "nat \<Rightarrow> int \<Rightarrow> 'a unQueue" where
  "initQueue es nums =
     \<lparr>entry_size = es, len = nums, wid = 0, rid = 0, data = replicate (nat (nums + 1)) None\<rparr>"

definition slot_ok :: "'a unQueue \<Rightarrow> int \<Rightarrow> bool" where
  "slot_ok q i \<longleftrightarrow> 0 \<le> i \<and> nat i < length (data q)"

definition putQueue :: "'a unQueue \<Rightarrow> 'a \<Rightarrow> (int \<times> 'a unQueue) res" where
  "putQueue q d =
     guardR (len q \<noteq> 0) UB
       (if crem (wid q + 1) (len q) = rid q then Inr (0, q)
        else guardR (slot_ok q (wid q)) UB
          (Inr (1, q\<lparr>data := (data q)[nat (wid q) := Some d],
                     wid := crem (wid q + 1) (len q)\<rparr>)))"

definition popQueue :: "'a unQueue \<Rightarrow> 'a unQueue res" where
  "popQueue q =
     (if wid q = rid q then Inr q
      else guardR (len q \<noteq> 0) UB (Inr (q\<lparr>rid := crem (rid q + 1) (len q)\<rparr>)))"

definition emptyQueue :: "'a unQueue \<Rightarrow> bool" where
  "emptyQueue q \<longleftrightarrow> wid q = rid q"

text \<open>\<open>topQueue\<close> copies the slot out without looking at \<open>wid\<close>:
  \<open>None\<close> is an indeterminate value.\<close>

definition topQueue :: "'a unQueue \<Rightarrow> 'a option res" where
  "topQueue q = guardR (slot_ok q (rid q)) UB (Inr (data q ! nat (rid q)))"

text \<open>\<open>freeQueue\<close> on a store of queues: the struct and its slots go together.\<close>

definition freeQueue :: "nat \<Rightarrow> (nat \<Rightarrow> 'a unQueue option) \<Rightarrow> (nat \<Rightarrow> 'a unQueue option) res" where
  "freeQueue q st = guardR (st q \<noteq> None) UB (Inr (st(q := None)))"

lemma freeQueue_twice: "bindR (freeQueue q st) (freeQueue q) = Inl UB"
  by (simp add: freeQueue_def guardR_def)

section \<open>Invariant and abstraction\<close>

definition used :: "'a unQueue \<Rightarrow> nat" where
  "used q = nat ((wid q - rid q) mod len q)"

definition slot_no :: "'a unQueue \<Rightarrow> nat \<Rightarrow> nat" where
  "slot_no q i = nat ((rid q + int i) mod len q)"

definition queue_wf :: "'a unQueue \<Rightarrow> bool" where
  "queue_wf q \<longleftrightarrow>
     0 < len q \<and> 0 \<le> wid q \<and> wid q < len q \<and> 0 \<le> rid q \<and> rid q < len q \<and>
     length (data q) = nat (len q + 1) \<and> (\<forall>i < used q. data q ! slot_no q i \<noteq> None)"

definition queue_items :: "'a unQueue \<Rightarrow> 'a list" where
  "queue_items q = map (\<lambda>i. the (data q ! slot_no q i)) [0..<used q]"

section \<open>The contract\<close>

locale fifo =
  fixes put :: "'q \<Rightarrow> 'a \<Rightarrow> (int \<times> 'q) res"
    and pop :: "'q \<Rightarrow> 'q res"
    and top :: "'q \<Rightarrow> 'a option res"
    and is_empty :: "'q \<Rightarrow> bool"
    and cap :: "'q \<Rightarrow> nat"
    and items :: "'q \<Rightarrow> 'a list"
    and ok :: "'q \<Rightarrow> bool"
  assumes put_room: "ok q \<Longrightarrow> length (items q) < cap q \<Longrightarrow>
        \<exists>q'. put q x = Inr (1, q') \<and> ok q' \<and> items q' = items q @ [x] \<and> cap q' = cap q"
    and put_full: "ok q \<Longrightarrow> length (items q) \<ge> cap q \<Longrightarrow> put q x = Inr (0, q)"
    and pop_items: "ok q \<Longrightarrow> \<exists>q'. pop q = Inr q' \<and> ok q' \<and> items q' = tl (items q) \<and> cap q' = cap q"
    and top_items: "ok q \<Longrightarrow> items q \<noteq> [] \<Longrightarrow> top q = Inr (Some (hd (items q)))"
    and empty_items: "ok q \<Longrightarrow> is_empty q \<longleftrightarrow> items q = []"
    and items_cap: "ok q \<Longrightarrow> length (items q) \<le> cap q"
begin

primrec put_all :: "'q \<Rightarrow> 'a list \<Rightarrow> 'q res" where
  "put_all q [] = Inr q"
| "put_all q (x # xs) = bindR (put q x) (\<lambda>(r, q'). put_all q' xs)"

primrec drain :: "nat \<Rightarrow> 'q \<Rightarrow> ('a option list \<times> 'q) res" where
  "drain 0 q = Inr ([], q)"
| "drain (Suc n) q =
     (if is_empty q then Inr ([], q)
      else bindR (top q) (\<lambda>x. bindR (pop q) (\<lambda>q'.
             bindR (drain n q') (\<lambda>(xs, q''). Inr (x # xs, q'')))))"

lemma put_all_room:
  "ok q \<Longrightarrow> length (items q) + length xs \<le> cap q \<Longrightarrow>
     \<exists>q'. put_all q xs = Inr q' \<and> ok q' \<and> items q' = items q @ xs \<and> cap q' = cap q"
proof (induction xs arbitrary: q)
  case Nil
  then show ?case by simp
next
  case (Cons x xs)
  then obtain q1 where q1: "put q x = Inr (1, q1)" "ok q1" "items q1 = items q @ [x]" "cap q1 = cap q"
    using put_room [of q x] by auto
  with Cons.IH [of q1] Cons.prems show ?case by auto
qed

lemma drain_items:
  "ok q \<Longrightarrow> length (items q) \<le> n \<Longrightarrow>
     \<exists>q'. drain n q = Inr (map Some (items q), q') \<and> ok q' \<and> items q' = []"
proof (induction n arbitrary: q)
  case 0
  then show ?case by auto
next
  case (Suc n)
  show ?case
  proof (cases "items q")
    case Nil
    with Suc.prems show ?thesis by (auto simp: empty_items)
  next
    case (Cons x xs)
    obtain q1 where q1: "pop q = Inr q1" "ok q1" "items q1 = xs"
      using pop_items [OF Suc.prems(1)] Cons by auto
    with Suc.IH [of q1] Suc.prems(2) Cons obtain q2
      where "drain n q1 = Inr (map Some xs, q2)" "ok q2" "items q2 = []" by auto
    with q1 Cons Suc.prems(1) show ?thesis
      by (auto simp: empty_items top_items)
  qed
qed

end

section \<open>The implementation meets the contract\<close>

lemma queue_wfD:
  assumes "queue_wf q"
  shows "0 < len q" "0 \<le> wid q" "wid q < len q" "0 \<le> rid q" "rid q < len q"
    "length (data q) = nat (len q + 1)"
  using assms by (auto simp: queue_wf_def)

lemma slot_no_less: "0 < len q \<Longrightarrow> slot_no q i < nat (len q)"
  by (simp add: slot_no_def)

lemma used_less: "queue_wf q \<Longrightarrow> used q < nat (len q)"
  by (auto simp: used_def dest: queue_wfD)

lemma slot_no_used: "queue_wf q \<Longrightarrow> slot_no q (used q) = nat (wid q)"
  using queue_wfD [of q] by (simp add: slot_no_def used_def mod_add_right_eq)

lemma slot_no_inj:
  assumes "queue_wf q" and "i < nat (len q)" and "j < nat (len q)" and "slot_no q i = slot_no q j"
  shows "i = j"
proof -
  note wf = queue_wfD [OF assms(1)]
  have "(rid q + int i) mod len q = (rid q + int j) mod len q"
    using assms(4) wf(1) by (simp add: slot_no_def eq_nat_nat_iff)
  then have "int i mod len q = int j mod len q"
    by (metis add.commute add_diff_cancel_left' mod_diff_left_eq)
  with assms(2,3) wf(1) show ?thesis
    by (simp add: zless_nat_eq_int_zless)
qed

lemma used_eq:
  "queue_wf q \<Longrightarrow> int (used q) = (if rid q \<le> wid q then wid q - rid q else wid q - rid q + len q)"
  using queue_wfD [of q] by (simp add: used_def mod_diff_wrap)

lemma put_full_iff:
  assumes wf: "queue_wf q"
  shows "crem (wid q + 1) (len q) = rid q \<longleftrightarrow> Suc (used q) = nat (len q)"
proof -
  have "Suc (used q) = nat (len q) \<longleftrightarrow> int (used q) + 1 = len q"
    using queue_wfD [OF wf] by linarith
  then show ?thesis
    using queue_wfD [OF wf] by (auto simp: crem_succ used_eq [OF wf])
qed

lemma length_queue_items [simp]: "length (queue_items q) = used q"
  by (simp add: queue_items_def)

lemma initQueue_wf:
  "0 < nums \<Longrightarrow> queue_wf (initQueue es nums) \<and> queue_items (initQueue es nums) = []"
  by (simp add: queue_wf_def initQueue_def used_def queue_items_def)

lemma putQueue_room:
  assumes wf: "queue_wf q" and room: "Suc (used q) < nat (len q)"
  shows "\<exists>q'. putQueue q x = Inr (1, q') \<and> queue_wf q' \<and>
     queue_items q' = queue_items q @ [x] \<and> len q' = len q"
proof -
  note w = queue_wfD [OF wf]
  define q' where "q' = q\<lparr>data := (data q)[nat (wid q) := Some x], wid := crem (wid q + 1) (len q)\<rparr>"
  have nf: "crem (wid q + 1) (len q) \<noteq> rid q"
    using room put_full_iff [OF wf] by simp
  have put: "putQueue q x = Inr (1, q')"
    using nf w by (simp add: putQueue_def q'_def slot_ok_def)
  have wid': "0 \<le> wid q'" "wid q' < len q"
    using w by (auto simp: q'_def crem_succ)
  have used': "used q' = Suc (used q)"
  proof -
    have "int (used q') = int (used q) + 1"
      using w nf used_eq [OF wf] wid' by (auto simp: used_def q'_def mod_diff_wrap crem_succ)
    then show ?thesis by simp
  qed
  have slot': "slot_no q' i = slot_no q i" for i
    by (simp add: slot_no_def q'_def)
  have old: "data q' ! slot_no q i = data q ! slot_no q i" if "i < used q" for i
  proof -
    have "slot_no q i \<noteq> slot_no q (used q)"
      using slot_no_inj [OF wf, of i "used q"] that used_less [OF wf] by auto
    then show ?thesis using slot_no_used [OF wf] by (simp add: q'_def)
  qed
  have new: "data q' ! slot_no q (used q) = Some x"
    using w by (simp add: q'_def slot_no_used [OF wf])
  have "queue_wf q'"
    unfolding queue_wf_def used' slot'
    using w wid' old new wf by (auto simp: less_Suc_eq queue_wf_def) (auto simp: q'_def)
  moreover have "queue_items q' = queue_items q @ [x]"
    using old new by (simp add: queue_items_def used' slot')
  ultimately show ?thesis using put by (simp add: q'_def)
qed

lemma putQueue_full:
  assumes wf: "queue_wf q" and full: "nat (len q) \<le> Suc (used q)"
  shows "putQueue q x = Inr (0, q)"
  using put_full_iff [OF wf] full used_less [OF wf] queue_wfD [OF wf]
  by (simp add: putQueue_def)

lemma popQueue_items:
  assumes wf: "queue_wf q"
  shows "\<exists>q'. popQueue q = Inr q' \<and> queue_wf q' \<and> queue_items q' = tl (queue_items q) \<and> len q' = len q"
proof (cases "wid q = rid q")
  case True
  then have "used q = 0" by (simp add: used_def)
  with True wf show ?thesis by (simp add: popQueue_def queue_items_def)
next
  case False
  note w = queue_wfD [OF wf]
  define q' where "q' = q\<lparr>rid := crem (rid q + 1) (len q)\<rparr>"
  have pop: "popQueue q = Inr q'"
    using False w by (simp add: popQueue_def q'_def)
  have rid': "0 \<le> rid q'" "rid q' < len q"
    using w by (auto simp: q'_def crem_succ)
  have used': "used q = Suc (used q')"
  proof -
    have "int (used q) = int (used q') + 1"
      using w False used_eq [OF wf] rid' by (auto simp: used_def q'_def mod_diff_wrap crem_succ)
    then show ?thesis by simp
  qed
  have slot': "slot_no q' i = slot_no q (Suc i)" for i
  proof -
    have "(rid q' + int i) mod len q = ((rid q + 1) mod len q + int i) mod len q"
      using w by (simp add: q'_def crem_nonneg)
    also have "\<dots> = (rid q + int (Suc i)) mod len q"
      unfolding mod_add_left_eq by (simp add: add.assoc)
    finally show ?thesis by (simp add: slot_no_def q'_def)
  qed
  have data': "data q' = data q" "len q' = len q" "wid q' = wid q"
    by (simp_all add: q'_def)
  have "queue_wf q'"
    unfolding queue_wf_def slot' data'
    using w rid' wf used' by (auto simp: queue_wf_def)
  moreover have "queue_items q' = tl (queue_items q)"
    by (simp add: queue_items_def used' slot' data' upt_conv_Cons map_Suc_upt [symmetric] del: upt_Suc)
  ultimately show ?thesis using pop data' by simp
qed

lemma topQueue_items:
  assumes wf: "queue_wf q" and ne: "queue_items q \<noteq> []"
  shows "topQueue q = Inr (Some (hd (queue_items q)))"
proof -
  note w = queue_wfD [OF wf]
  have u: "0 < used q" using ne by (metis length_greater_0_conv length_queue_items)
  have s: "slot_no q 0 = nat (rid q)" using w by (simp add: slot_no_def)
  have "data q ! nat (rid q) \<noteq> None"
    using wf u s by (metis queue_wf_def)
  moreover have "hd (queue_items q) = the (data q ! nat (rid q))"
    using u s by (simp add: queue_items_def upt_conv_Cons)
  ultimately show ?thesis using w by (auto simp: topQueue_def slot_ok_def)
qed

lemma emptyQueue_items: "queue_wf q \<Longrightarrow> emptyQueue q \<longleftrightarrow> queue_items q = []"
  using used_eq [of q] queue_wfD [of q]
  by (auto simp: emptyQueue_def queue_items_def split: if_splits)

interpretation uq: fifo putQueue popQueue topQueue emptyQueue "\<lambda>q. nat (len q) - 1" queue_items queue_wf
proof unfold_locales
  fix q :: "'a unQueue" and x
  assume wf: "queue_wf q"
  show "\<exists>q'. popQueue q = Inr q' \<and> queue_wf q' \<and> queue_items q' = tl (queue_items q) \<and>
      nat (len q') - 1 = nat (len q) - 1"
    using popQueue_items [OF wf] by auto
  show "emptyQueue q \<longleftrightarrow> queue_items q = []"
    by (rule emptyQueue_items [OF wf])
  show "length (queue_items q) \<le> nat (len q) - 1"
    using used_less [OF wf] by simp
  show "queue_items q \<noteq> [] \<Longrightarrow> topQueue q = Inr (Some (hd (queue_items q)))"
    by (rule topQueue_items [OF wf])
  show "length (queue_items q) < nat (len q) - 1 \<Longrightarrow> \<exists>q'. putQueue q x = Inr (1, q') \<and>
      queue_wf q' \<and> queue_items q' = queue_items q @ [x] \<and> nat (len q') - 1 = nat (len q) - 1"
    using putQueue_room [OF wf, of x] by fastforce
  show "nat (len q) - 1 \<le> length (queue_items q) \<Longrightarrow> putQueue q x = Inr (0, q)"
    using putQueue_full [OF wf] by simp
qed

section \<open>Properties\<close>

text \<open>A \<open>putQueue\<close> that finds room and a \<open>popQueue\<close> that finds an
  entry give the same queue in either order, memory included: the producer only writes
  \<open>wid\<close> and its slot, the consumer only \<open>rid\<close>, so the two threads need
  no lock.\<close>

lemma put_pop_commute:
  assumes wf: "queue_wf q" and ne: "\<not> emptyQueue q"
    and room: "length (queue_items q) < nat (len q) - 1"
  shows "bindR (putQueue q x) (\<lambda>(r, q'). popQueue q')
       = bindR (popQueue q) (\<lambda>q'. bindR (putQueue q' x) (\<lambda>(r, q''). Inr q''))"
proof -
  note w = queue_wfD [OF wf]
  have nf: "crem (wid q + 1) (len q) \<noteq> rid q"
    using room put_full_iff [OF wf] by simp
  have "wid q \<noteq> rid q" using ne by (simp add: emptyQueue_def)
  then have "crem (wid q + 1) (len q) \<noteq> crem (rid q + 1) (len q)"
    using w by (auto simp: crem_succ)
  with nf ne w show ?thesis
    by (simp add: putQueue_def popQueue_def emptyQueue_def slot_ok_def)
qed

lemma put_pop_commute_witness:
  "let q = \<lparr>entry_size = 8, len = 3, wid = 1, rid = 0, data = [Some (5::nat), None, None, None]\<rparr>
   in bindR (putQueue q 9) (\<lambda>(r, q'). popQueue q')
      = bindR (popQueue q) (\<lambda>q'. bindR (putQueue q' 9) (\<lambda>(r, q''). Inr q''))"
  unfolding Let_def
  by (rule put_pop_commute)
    (simp_all add: queue_wf_def emptyQueue_def queue_items_def used_def slot_no_def)

text \<open>Whatever fits is delivered: entries put on an empty queue of
  \<open>initQueue\<close> come out of the \<open>topQueue\<close>/\<open>popQueue\<close> loop in order,
  exactly once, and no access is out of range. The bound is \<open>nums - 1\<close>: one slot is
  kept free.\<close>

lemma queue_fifo:
  fixes xs :: "'a list"
  assumes "0 < nums" and "length xs < nat nums"
  shows "\<exists>q q'. uq.put_all (initQueue es nums) xs = Inr q \<and>
     uq.drain (length xs) q = Inr (map Some xs, q') \<and> queue_items q' = []"
proof -
  have i: "queue_wf (initQueue es nums :: 'a unQueue)" "queue_items (initQueue es nums :: 'a unQueue) = []"
    using initQueue_wf [OF assms(1)] by auto
  have c: "length (queue_items (initQueue es nums :: 'a unQueue)) + length xs
      \<le> nat (len (initQueue es nums :: 'a unQueue)) - 1"
    unfolding i(2) using assms by (simp add: initQueue_def)
  obtain q where q: "uq.put_all (initQueue es nums) xs = Inr q" "queue_wf q" "queue_items q = xs"
    using uq.put_all_room [OF i(1), of xs] i(2) c by auto
  with uq.drain_items [of q "length xs"] show ?thesis by auto
qed

lemma queue_fifo_witness:
  "\<exists>q q'. uq.put_all (initQueue 8 4) [1::nat, 2, 3] = Inr q \<and>
     uq.drain (length [1::nat, 2, 3]) q = Inr (map Some [1, 2, 3], q') \<and> queue_items q' = []"
  by (rule queue_fifo) simp_all

end
