(* ===== verification/QueueSteps.thy ===== *)
theory QueueSteps
  imports UnlockQueue
begin

text \<open>
  The queue of \<open>src/unlock_queue.c\<close> between two threads that take no lock. \<open>UnlockQueue\<close> treats a call as
  one step; here the producer in \<open>putQueue\<close> and the consumer in its loop of \<open>emptyQueue\<close>, \<open>topQueue\<close> and
  \<open>popQueue\<close> are interleaved at every access to the shared struct. Copying an entry takes two
  steps, between which the slot holds neither the old nor the new entry, and an entry that
  changes while it is copied out is torn (\<open>None\<close>). Accesses are sequentially consistent.
\<close>

section \<open>The steps of the two threads\<close>

text \<open>Where the producer is: outside, past the test for room, with the entry half copied, with the
  entry copied and not yet announced.\<close>

datatype 'a ppc = P_idle | P_room 'a | P_copying 'a | P_copied 'a

text \<open>Where the consumer is: outside, past the test for an entry, with the entry half copied, with the
  entry copied, past the test of \<open>popQueue\<close>.\<close>

datatype 'a cpc = C_idle | C_seen | C_reading "'a option" | C_read "'a option" | C_pop "'a option"

record 'a threads =
  shared :: "'a unQueue"
  producer :: "'a ppc"
  consumer :: "'a cpc"
  sent :: "'a list"
  got :: "'a option list"

definition put_step :: "'a \<Rightarrow> 'a threads \<Rightarrow> 'a threads res" where
  "put_step d s =
     (let q = shared s
      in case producer s of
           P_idle \<Rightarrow> guardR (len q \<noteq> 0) UB
             (Inr (if crem (wid q + 1) (len q) = rid q then s else s\<lparr>producer := P_room d\<rparr>))
         | P_room x \<Rightarrow> guardR (slot_ok q (wid q)) UB
             (Inr (s\<lparr>shared := q\<lparr>data := (data q)[nat (wid q) := None]\<rparr>, producer := P_copying x\<rparr>))
         | P_copying x \<Rightarrow> guardR (slot_ok q (wid q)) UB
             (Inr (s\<lparr>shared := q\<lparr>data := (data q)[nat (wid q) := Some x]\<rparr>, producer := P_copied x\<rparr>))
         | P_copied x \<Rightarrow> guardR (len q \<noteq> 0) UB
             (Inr (s\<lparr>shared := q\<lparr>wid := crem (wid q + 1) (len q)\<rparr>, producer := P_idle, sent := sent s @ [x]\<rparr>)))"

definition take_step :: "'a threads \<Rightarrow> 'a threads res" where
  "take_step s =
     (let q = shared s
      in case consumer s of
           C_idle \<Rightarrow> Inr (if wid q = rid q then s else s\<lparr>consumer := C_seen\<rparr>)
         | C_seen \<Rightarrow> guardR (slot_ok q (rid q)) UB (Inr (s\<lparr>consumer := C_reading (data q ! nat (rid q))\<rparr>))
         | C_reading v \<Rightarrow> guardR (slot_ok q (rid q)) UB
             (Inr (s\<lparr>consumer := C_read (if data q ! nat (rid q) = v then v else None)\<rparr>))
         | C_read v \<Rightarrow> Inr (if wid q = rid q then s\<lparr>consumer := C_idle, got := got s @ [v]\<rparr> else s\<lparr>consumer := C_pop v\<rparr>)
         | C_pop v \<Rightarrow> guardR (len q \<noteq> 0) UB
             (Inr (s\<lparr>shared := q\<lparr>rid := crem (rid q + 1) (len q)\<rparr>, consumer := C_idle, got := got s @ [v]\<rparr>)))"

definition threads_start :: "nat \<Rightarrow> int \<Rightarrow> 'a threads" where
  "threads_start es nums =
     \<lparr>shared = initQueue es nums, producer = P_idle, consumer = C_idle, sent = [], got = []\<rparr>"

text \<open>A schedule says whose turn it is: \<open>Some d\<close> for the producer, who offers \<open>d\<close> when it starts a call, \<open>None\<close> for the
  consumer.\<close>

fun run_threads :: "'a option list \<Rightarrow> 'a threads \<Rightarrow> 'a threads res" where
  "run_threads [] s = Inr s"
| "run_threads (Some d # ts) s = bindR (put_step d s) (run_threads ts)"
| "run_threads (None # ts) s = bindR (take_step s) (run_threads ts)"

text \<open>A thread that is not interrupted does what the call does.\<close>

lemma put_uninterrupted:
  assumes "producer s = P_idle" and "putQueue (shared s) d = Inr (1, q')"
  shows "bindR (put_step d s) (\<lambda>s. bindR (put_step d s) (\<lambda>s. bindR (put_step d s) (put_step d))) =
    Inr (s\<lparr>shared := q', sent := sent s @ [d]\<rparr>)"
proof -
  have "len (shared s) \<noteq> 0" "crem (wid (shared s) + 1) (len (shared s)) \<noteq> rid (shared s)" "slot_ok (shared s) (wid (shared s))"
      "q' = (shared s)\<lparr>data := (data (shared s))[nat (wid (shared s)) := Some d], wid := crem (wid (shared s) + 1) (len (shared s))\<rparr>"
    using assms(2) by (auto simp: putQueue_def guardR_eq_Inr split: if_splits)
  then show ?thesis using assms(1) by (simp add: put_step_def slot_ok_def Let_def)
qed

lemma take_uninterrupted:
  assumes "consumer s = C_idle" and "\<not> emptyQueue (shared s)" and "topQueue (shared s) = Inr v" and "popQueue (shared s) = Inr q'"
  shows "bindR (take_step s) (\<lambda>s. bindR (take_step s) (\<lambda>s. bindR (take_step s) (\<lambda>s. bindR (take_step s) take_step))) =
    Inr (s\<lparr>shared := q', got := got s @ [v]\<rparr>)"
  using assms by (simp add: take_step_def emptyQueue_def topQueue_def popQueue_def guardR_eq_Inr Let_def)

section \<open>The invariant\<close>

text \<open>What holds at each place of a thread, whatever the other one does: past the test the producer has
  room, and the consumer an entry, until they have used it.\<close>

fun producer_ok :: "'a unQueue \<Rightarrow> 'a ppc \<Rightarrow> bool" where
  "producer_ok q P_idle = True"
| "producer_ok q (P_room x) = (Suc (used q) < nat (len q))"
| "producer_ok q (P_copying x) = (Suc (used q) < nat (len q))"
| "producer_ok q (P_copied x) = (Suc (used q) < nat (len q) \<and> data q ! nat (wid q) = Some x)"

fun consumer_ok :: "'a unQueue \<Rightarrow> 'a cpc \<Rightarrow> bool" where
  "consumer_ok q C_idle = True"
| "consumer_ok q C_seen = (queue_items q \<noteq> [])"
| "consumer_ok q (C_reading v) = (queue_items q \<noteq> [] \<and> v = Some (hd (queue_items q)))"
| "consumer_ok q (C_read v) = (queue_items q \<noteq> [] \<and> v = Some (hd (queue_items q)))"
| "consumer_ok q (C_pop v) = (queue_items q \<noteq> [] \<and> v = Some (hd (queue_items q)))"

definition threads_inv :: "'a threads \<Rightarrow> bool" where
  "threads_inv s \<longleftrightarrow> queue_wf (shared s) \<and> producer_ok (shared s) (producer s) \<and> consumer_ok (shared s) (consumer s) \<and>
     got s @ map Some (queue_items (shared s)) = map Some (sent s)"

text \<open>The slot the producer copies into is not one of those in use.\<close>

lemma scribble:
  assumes wf: "queue_wf q"
  shows "queue_wf (q\<lparr>data := (data q)[nat (wid q) := x]\<rparr>)" "queue_items (q\<lparr>data := (data q)[nat (wid q) := x]\<rparr>) = queue_items q"
    "used (q\<lparr>data := (data q)[nat (wid q) := x]\<rparr>) = used q"
proof -
  let ?q = "q\<lparr>data := (data q)[nat (wid q) := x]\<rparr>"
  show u: "used ?q = used q" by (simp add: used_def)
  have s: "slot_no ?q i = slot_no q i" for i by (simp add: slot_no_def)
  have "slot_no q i \<noteq> nat (wid q)" if "i < used q" for i
    using slot_no_inj [OF wf, of i "used q"] that used_less [OF wf] slot_no_used [OF wf] by auto
  then have old: "data ?q ! slot_no q i = data q ! slot_no q i" if "i < used q" for i
    using that by (metis nth_list_update_neq unQueue.select_convs(5) unQueue.surjective unQueue.update_convs(5))
  then show "queue_items ?q = queue_items q" by (simp add: queue_items_def u s)
  show "queue_wf ?q" using wf old unfolding queue_wf_def u s by simp
qed

lemma publish:
  assumes wf: "queue_wf q" and room: "Suc (used q) < nat (len q)" and x: "data q ! nat (wid q) = Some x"
  shows "queue_wf (q\<lparr>wid := crem (wid q + 1) (len q)\<rparr>)" "queue_items (q\<lparr>wid := crem (wid q + 1) (len q)\<rparr>) = queue_items q @ [x]"
proof -
  have "(data q)[nat (wid q) := Some x] = data q" using x by (metis list_update_id)
  then have "putQueue q x = Inr (1, q\<lparr>wid := crem (wid q + 1) (len q)\<rparr>)"
    using putQueue_room [OF wf room, of x] by (auto simp: putQueue_def guardR_eq_Inr split: if_splits)
  then show "queue_wf (q\<lparr>wid := crem (wid q + 1) (len q)\<rparr>)" "queue_items (q\<lparr>wid := crem (wid q + 1) (len q)\<rparr>) = queue_items q @ [x]"
    using putQueue_room [OF wf room, of x] by auto
qed

lemma consume:
  assumes wf: "queue_wf q" and ne: "queue_items q \<noteq> []"
  shows "queue_wf (q\<lparr>rid := crem (rid q + 1) (len q)\<rparr>)" "queue_items (q\<lparr>rid := crem (rid q + 1) (len q)\<rparr>) = tl (queue_items q)"
    "wid q \<noteq> rid q" "Suc (used (q\<lparr>rid := crem (rid q + 1) (len q)\<rparr>)) = used q"
proof -
  show w: "wid q \<noteq> rid q" using emptyQueue_items [OF wf] ne by (simp add: emptyQueue_def)
  then have "popQueue q = Inr (q\<lparr>rid := crem (rid q + 1) (len q)\<rparr>)" using queue_wfD [OF wf] by (simp add: popQueue_def)
  then show i: "queue_wf (q\<lparr>rid := crem (rid q + 1) (len q)\<rparr>)"
    "queue_items (q\<lparr>rid := crem (rid q + 1) (len q)\<rparr>) = tl (queue_items q)"
    using popQueue_items [OF wf] by auto
  show "Suc (used (q\<lparr>rid := crem (rid q + 1) (len q)\<rparr>)) = used q"
    using arg_cong [OF i(2), of length] ne length_queue_items [of q] by (cases "queue_items q") auto
qed

lemma front_slot:
  assumes "queue_wf q" and "queue_items q \<noteq> []"
  shows "slot_ok q (rid q)" "data q ! nat (rid q) = Some (hd (queue_items q))"
  using topQueue_items [OF assms] by (auto simp: topQueue_def guardR_eq_Inr)

lemma back_slot: "queue_wf q \<Longrightarrow> slot_ok q (wid q)"
  using queue_wfD [of q] by (simp add: slot_ok_def)

lemma room_iff:
  assumes "queue_wf q"
  shows "crem (wid q + 1) (len q) \<noteq> rid q \<longleftrightarrow> Suc (used q) < nat (len q)"
  using put_full_iff [OF assms] used_less [OF assms] by linarith

lemma consumer_ok_mono:
  assumes "consumer_ok q c" and "queue_items q' = queue_items q @ xs"
  shows "consumer_ok q' c"
  using assms by (cases c) auto

lemma put_step_inv:
  assumes "threads_inv s"
  shows "\<exists>s'. put_step d s = Inr s' \<and> threads_inv s'"
proof -
  let ?q = "shared s"
  have wf: "queue_wf ?q" and c: "consumer_ok ?q (consumer s)" and l: "got s @ map Some (queue_items ?q) = map Some (sent s)"
    and p: "producer_ok ?q (producer s)" using assms by (auto simp: threads_inv_def)
  have n: "len ?q \<noteq> 0" using queue_wfD [OF wf] by simp
  show ?thesis
  proof (cases "producer s")
    case P_idle
    then show ?thesis using assms n room_iff [OF wf] by (auto simp: put_step_def threads_inv_def Let_def)
  next
    case (P_room x)
    then show ?thesis
      using p l back_slot [OF wf] scribble [OF wf, of None] consumer_ok_mono [OF c, of _ "[]"]
      by (simp add: put_step_def threads_inv_def Let_def)
  next
    case (P_copying x)
    have "data (?q\<lparr>data := (data ?q)[nat (wid ?q) := Some x]\<rparr>) ! nat (wid ?q) = Some x"
      using back_slot [OF wf] by (simp add: slot_ok_def)
    then show ?thesis
      using P_copying p l back_slot [OF wf] scribble [OF wf, of "Some x"] consumer_ok_mono [OF c, of _ "[]"]
      by (simp add: put_step_def threads_inv_def Let_def)
  next
    case (P_copied x)
    then show ?thesis
      using p l n publish [OF wf, of x] consumer_ok_mono [OF c, of _ "[x]"]
      by (simp add: put_step_def threads_inv_def Let_def flip: append_assoc)
  qed
qed

lemma take_step_inv:
  assumes "threads_inv s"
  shows "\<exists>s'. take_step s = Inr s' \<and> threads_inv s'"
proof -
  let ?q = "shared s"
  have wf: "queue_wf ?q" and c: "consumer_ok ?q (consumer s)" and l: "got s @ map Some (queue_items ?q) = map Some (sent s)"
    and p: "producer_ok ?q (producer s)" using assms by (auto simp: threads_inv_def)
  have n: "len ?q \<noteq> 0" using queue_wfD [OF wf] by simp
  show ?thesis
  proof (cases "consumer s")
    case C_idle
    then show ?thesis using assms emptyQueue_items [OF wf] by (auto simp: take_step_def threads_inv_def emptyQueue_def Let_def)
  next
    case C_seen
    then show ?thesis using c p l wf front_slot [OF wf] by (simp add: take_step_def threads_inv_def Let_def)
  next
    case (C_reading v)
    then show ?thesis using c p l wf front_slot [OF wf] by (simp add: take_step_def threads_inv_def Let_def)
  next
    case (C_read v)
    then show ?thesis using c p l wf consume(3) [OF wf] by (simp add: take_step_def threads_inv_def Let_def)
  next
    case (C_pop v)
    then have ne: "queue_items ?q \<noteq> []" "v = Some (hd (queue_items ?q))" using c by auto
    note t = consume [OF wf ne(1)]
    have "producer_ok (?q\<lparr>rid := crem (rid ?q + 1) (len ?q)\<rparr>) (producer s)" using p t(4) by (cases "producer s") auto
    moreover have "got s @ v # map Some (tl (queue_items ?q)) = map Some (sent s)" using l ne by (cases "queue_items ?q") auto
    ultimately show ?thesis using C_pop n t(1,2) by (simp add: take_step_def threads_inv_def Let_def)
  qed
qed

lemma threads_inv_start: "0 < nums \<Longrightarrow> threads_inv (threads_start es nums)"
  using initQueue_wf [of nums es] by (simp add: threads_inv_def threads_start_def)

lemma run_threads_inv:
  "threads_inv s \<Longrightarrow> \<exists>s'. run_threads ts s = Inr s' \<and> threads_inv s'"
proof (induction ts s rule: run_threads.induct)
  case (2 d ts s)
  then show ?case using put_step_inv [of s d] by auto
next
  case (3 ts s)
  then show ?case using take_step_inv [of s] by auto
qed simp

text \<open>The consumer alone takes out what there is: each of its steps brings it closer.\<close>

fun stage :: "'a cpc \<Rightarrow> nat" where
  "stage C_idle = 0"
| "stage C_seen = 1"
| "stage (C_reading v) = 2"
| "stage (C_read v) = 3"
| "stage (C_pop v) = 4"

lemma take_step_closer:
  assumes "threads_inv s" and "queue_items (shared s) \<noteq> []" and "take_step s = Inr s'"
  shows "5 * used (shared s') - stage (consumer s') < 5 * used (shared s) - stage (consumer s)" "sent s' = sent s"
proof -
  have wf: "queue_wf (shared s)" using assms(1) by (simp add: threads_inv_def)
  note t = consume [OF wf assms(2)]
  have u: "0 < used (shared s)" using assms(2) by (metis length_greater_0_conv length_queue_items)
  show "5 * used (shared s') - stage (consumer s') < 5 * used (shared s) - stage (consumer s)"
    using assms(3) t(3,4) u by (cases "consumer s") (auto simp: take_step_def Let_def guardR_eq_Inr)
  show "sent s' = sent s" using assms(3) by (cases "consumer s") (auto simp: take_step_def Let_def guardR_eq_Inr split: if_splits)
qed

lemma consumer_drains:
  assumes "threads_inv s"
  shows "\<exists>k s'. run_threads (replicate k None) s = Inr s' \<and> got s' = map Some (sent s)"
  using assms
proof (induction "5 * used (shared s) - stage (consumer s)" arbitrary: s rule: less_induct)
  case less
  show ?case
  proof (cases "queue_items (shared s) = []")
    case True
    then show ?thesis using less.prems by (intro exI [of _ 0]) (simp add: threads_inv_def)
  next
    case False
    obtain s1 where s1: "take_step s = Inr s1" "threads_inv s1" using take_step_inv [OF less.prems] by blast
    obtain k s' where "run_threads (replicate k None) s1 = Inr s'" "got s' = map Some (sent s)"
      using less.hyps [OF take_step_closer(1) [OF less.prems False s1(1)] s1(2)] take_step_closer(2) [OF less.prems False s1(1)] by auto
    then show ?thesis using s1(1) by (intro exI [of _ "Suc k"]) simp
  qed
qed

lemma run_threads_len: "run_threads ts s = Inr s' \<Longrightarrow> len (shared s') = len (shared s)"
proof (induction ts s rule: run_threads.induct)
  case (2 d ts s)
  then show ?case by (cases "producer s") (auto simp: bindR_eq_Inr put_step_def guardR_eq_Inr Let_def split: if_splits)
next
  case (3 ts s)
  then show ?case by (cases "consumer s") (auto simp: bindR_eq_Inr take_step_def guardR_eq_Inr Let_def split: if_splits)
qed simp

section \<open>Properties\<close>

text \<open>C13: One producer and one consumer need no lock. In every interleaving of their accesses, from a queue
  of \<open>initQueue\<close>, no access is out of range, no entry is read while it is being written, what the
  consumer has got and what is in the queue are together exactly what the producer has sent,
  in order and once, and the consumer can always go on alone until it has got all of it.\<close>

theorem queue_threads_deliver:
  assumes "0 < nums"
  shows "\<exists>s. run_threads schedule (threads_start es nums) = Inr s \<and>
    got s @ map Some (queue_items (shared s)) = map Some (sent s) \<and> length (queue_items (shared s)) < nat nums \<and>
    (\<exists>k s'. run_threads (replicate k None) s = Inr s' \<and> got s' = map Some (sent s))"
proof -
  obtain s where s: "run_threads schedule (threads_start es nums) = Inr s" "threads_inv s"
    using run_threads_inv [OF threads_inv_start [OF assms]] by blast
  have "len (shared s) = nums" using s(1) by (rule run_threads_len [THEN trans]) (simp add: threads_start_def initQueue_def)
  then have "length (queue_items (shared s)) < nat nums" using s(2) used_less [of "shared s"] by (simp add: threads_inv_def)
  then show ?thesis using s consumer_drains [OF s(2)] by (auto simp: threads_inv_def)
qed

theorem queue_threads_deliver_witness:
  "\<exists>s. run_threads [Some 7, Some 7, None, Some 7, None, Some 7, None, Some (9 :: nat)] (threads_start 8 3) = Inr s \<and>
     got s @ map Some (queue_items (shared s)) = map Some (sent s) \<and> length (queue_items (shared s)) < nat 3 \<and>
     (\<exists>k s'. run_threads (replicate k None) s = Inr s' \<and> got s' = map Some (sent s))"
  by (rule queue_threads_deliver) simp

end
