(* ===== verification/HashCodes.thy ===== *)
theory HashCodes
  imports Prelude
begin

unbundle bit_operations_syntax

text \<open>
  The two hash functions the program runs: \<open>defaultHashCode\<close> of
  \<open>src/mid_hashmap.c\<close>, which the dirty map is created with, and
  \<open>MurmurHash3_x86_32\<close> of \<open>src/murmur3_hash.c\<close>, which
  \<open>dhmp_hash_init\<close> installs as \<open>hash\<close> and \<open>dhmp_hash_in_client\<close>
  applies to an address. \<open>unsigned long\<close> is \<open>u64\<close> and \<open>uint32_t\<close>
  is \<open>u32\<close>, so that shifts drop bits and sums wrap as they do in C.

  The lemmas bound the bucket numbers, identify the shift-and-or rotation with
  \<open>word_rotl\<close>, and show that each block round and the final mix are injective, so
  that two keys of eight bytes that differ in one half only never collide.
\<close>

section \<open>defaultHashCode\<close>

text \<open>One turn of the \<open>while (*k)\<close> loop. \<open>char\<close> is signed, so \<open>*k\<close> is
  sign-extended to 64 bits.\<close>

definition hash_char :: "u64 \<Rightarrow> byte \<Rightarrow> u64" where
  "hash_char h c =
     (let h1 = push_bit 4 h + scast c;
          g = h1 AND 0xF0000000;
          h2 = (if g \<noteq> 0 then h1 XOR drop_bit 24 g else h1)
      in h2 AND NOT g)"

definition defaultHashCode :: "int \<Rightarrow> byte list \<Rightarrow> int" where
  "defaultHashCode listSize key =
     signed_take_bit 31 (uint (foldl hash_char 0 key mod word_of_int listSize))"

section \<open>MurmurHash3\<close>

definition rotl32 :: "u32 \<Rightarrow> nat \<Rightarrow> u32" where
  "rotl32 x r = push_bit r x OR drop_bit (32 - r) x"

definition fmix32 :: "u32 \<Rightarrow> u32" where
  "fmix32 h0 =
     (let h1 = h0 XOR drop_bit 16 h0;
          h2 = h1 * 0x85ebca6b;
          h3 = h2 XOR drop_bit 13 h2;
          h4 = h3 * 0xc2b2ae35
      in h4 XOR drop_bit 16 h4)"

text \<open>\<open>getblock32\<close> reads a little-endian word of the key.\<close>

definition getblock32 :: "byte list \<Rightarrow> nat \<Rightarrow> u32" where
  "getblock32 key i = word_of_int (le_val (bslice key (4 * i) 4))"

definition mix_k1 :: "u32 \<Rightarrow> u32" where
  "mix_k1 k = rotl32 (k * 0xcc9e2d51) 15 * 0x1b873593"

definition murmur_round :: "u32 \<Rightarrow> u32 \<Rightarrow> u32" where
  "murmur_round h1 k = rotl32 (h1 XOR mix_k1 k) 13 * 5 + 0xe6546b64"

definition murmur_body :: "byte list \<Rightarrow> nat \<Rightarrow> u32" where
  "murmur_body key nblocks = foldl (\<lambda>h i. murmur_round h (getblock32 key i)) 0 [0..<nblocks]"

text \<open>The \<open>switch (length & 3)\<close> falls through from 3 to 1.\<close>

definition murmur_tail :: "byte list \<Rightarrow> u32 \<Rightarrow> u32" where
  "murmur_tail tail h1 =
     (let b = (\<lambda>i. ucast (tail ! i) :: u32)
      in if length tail = 3 then h1 XOR mix_k1 ((push_bit 16 (b 2) XOR push_bit 8 (b 1)) XOR b 0)
         else if length tail = 2 then h1 XOR mix_k1 (push_bit 8 (b 1) XOR b 0)
         else if length tail = 1 then h1 XOR mix_k1 (b 0)
         else h1)"

definition MurmurHash3_x86_32 :: "byte list \<Rightarrow> u32" where
  "MurmurHash3_x86_32 key =
     (let nblocks = length key div 4
      in fmix32 (murmur_tail (drop (4 * nblocks) key) (murmur_body key nblocks)
                 XOR word_of_nat (length key)))"

definition DHMP_CLIENT_HT_SIZE :: nat where
  "DHMP_CLIENT_HT_SIZE = 50000"

text \<open>The key is the eight bytes of the pointer variable itself, \<open>hash(&addr, sizeof(void*))\<close>.\<close>

definition addr_bytes :: "u64 \<Rightarrow> byte list" where
  "addr_bytes a = le_bytes 8 (uint a)"

definition dhmp_hash_in_client :: "u64 \<Rightarrow> nat" where
  "dhmp_hash_in_client addr =
     (let key = MurmurHash3_x86_32 (addr_bytes addr)
      in (unat key mod DHMP_CLIENT_HT_SIZE + DHMP_CLIENT_HT_SIZE) mod DHMP_CLIENT_HT_SIZE)"

section \<open>Lemmas\<close>

lemma defaultHashCode_range:
  assumes "0 < n" and "n < 2 ^ 31"
  shows "0 \<le> defaultHashCode n key \<and> defaultHashCode n key < n"
proof -
  define h where "h = foldl hash_char 0 key"
  have n: "uint (word_of_int n :: u64) = n"
    using assms by (simp add: uint_word_of_int take_bit_int_eq_self)
  have "uint (h mod word_of_int n) = uint h mod n"
    by (simp add: uint_mod n)
  moreover have "0 \<le> uint h mod n" "uint h mod n < n"
    using assms(1) by auto
  moreover have "signed_take_bit 31 (uint h mod n) = uint h mod n"
    using assms calculation(2,3) by (intro signed_take_bit_int_eq_self) auto
  ultimately show ?thesis
    by (simp add: defaultHashCode_def h_def)
qed

lemma rotl32_word_rotl:
  assumes "0 < r" and "r < 32"
  shows "rotl32 x r = word_rotl r x"
proof (rule bit_word_eqI)
  fix n assume "n < LENGTH(32)"
  then have n: "n < 32" by simp
  have rhs: "bit (word_rotl r x) n = bit x ((n + (32 - r)) mod 32)"
    using n assms by (simp add: bit_word_rotl_iff)
  have lhs: "bit (rotl32 x r) n = ((r \<le> n \<and> bit x (n - r)) \<or> bit x (n + (32 - r)))"
    using n unfolding rotl32_def bit_or_iff bit_push_bit_iff bit_drop_bit_eq comp_def
    by (simp add: add.commute)
  show "bit (rotl32 x r) n = bit (word_rotl r x) n"
  proof (cases "n < r")
    case True
    then have "(n + (32 - r)) mod 32 = n + (32 - r)" using assms by (intro mod_less) arith
    with True show ?thesis unfolding lhs rhs by simp
  next
    case False
    then have "n + (32 - r) = n - r + 32" using n assms by simp
    then have "(n + (32 - r)) mod 32 = n - r" using n by (simp only: mod_add_self2) simp
    moreover have "\<not> bit x (n + (32 - r))"
      using False by (auto dest: bit_imp_le_length)
    ultimately show ?thesis using False unfolding lhs rhs by simp
  qed
qed

lemma u32_unit:
  assumes "numeral c * numeral d = (1 + 2 ^ 32 * k :: int)"
  shows "(numeral c :: u32) * numeral d = 1"
proof -
  have "(numeral c :: u32) * numeral d = of_int (numeral c * numeral d)"
    by simp
  also have "\<dots> = 1 + of_int (2 ^ 32) * of_int k"
    unfolding assms by (simp only: of_int_add of_int_mult of_int_1)
  also have "of_int (2 ^ 32) = (0 :: u32)"
    by simp
  also have "1 + 0 * of_int k = (1 :: u32)"
    by (simp only: mult_zero_left add_0_right)
  finally show ?thesis .
qed

lemma unit_fmix1: "(0x85ebca6b :: u32) * 2781581891 = 1"
  by (rule u32_unit [where k = 1455126516]) simp

lemma unit_fmix2: "(0xc2b2ae35 :: u32) * 2127672349 = 1"
  by (rule u32_unit [where k = 1618177690]) simp

lemma unit_c1: "(0xcc9e2d51 :: u32) * 3739302833 = 1"
  by (rule u32_unit [where k = 2988782088]) simp

lemma unit_c2: "(0x1b873593 :: u32) * 1458385051 = 1"
  by (rule u32_unit [where k = 156822886]) simp

lemma unit_five: "(5 :: u32) * 3435973837 = 1"
  by (rule u32_unit [where k = 4]) simp

lemma drop_bit_u32_zero: "32 \<le> n \<Longrightarrow> drop_bit n h = 0" for h :: u32
  by (rule bit_word_eqI) (auto simp: bit_simps dest: bit_imp_le_length)

lemma inj_rotl32: "0 < r \<Longrightarrow> r < 32 \<Longrightarrow> rotl32 x r = rotl32 y r \<Longrightarrow> x = y"
  by (metis rotl32_word_rotl word_rot_lr)

lemma inj_mult_unit:
  fixes a b c d :: u32
  assumes "a * c = b * c" and "c * d = 1"
  shows "a = b"
proof -
  have "a = a * c * d" by (simp only: mult.assoc assms(2) mult_1_right)
  also have "\<dots> = b * c * d" by (simp only: assms(1))
  also have "\<dots> = b" by (simp only: mult.assoc assms(2) mult_1_right)
  finally show ?thesis .
qed

lemma xorshift16_involutive: "h XOR drop_bit 16 h = k \<Longrightarrow> h = k XOR drop_bit 16 k" for h k :: u32
  by (auto simp: drop_bit_u32_zero xor.assoc)

lemma xorshift13_inverse:
  "h XOR drop_bit 13 h = k \<Longrightarrow> h = k XOR drop_bit 13 k XOR drop_bit 26 k" for h k :: u32
  by (auto simp: drop_bit_u32_zero xor.assoc)

lemma inj_mix_k1:
  assumes "mix_k1 a = mix_k1 b"
  shows "a = b"
proof -
  have "rotl32 (a * 0xcc9e2d51) 15 = rotl32 (b * 0xcc9e2d51) 15"
    by (rule inj_mult_unit [OF assms [unfolded mix_k1_def] unit_c2])
  then have "a * 0xcc9e2d51 = b * 0xcc9e2d51"
    by (rule inj_rotl32 [rotated 2]) simp_all
  then show ?thesis
    by (rule inj_mult_unit [OF _ unit_c1])
qed

lemma inj_xor_word: "a XOR k = b XOR k \<Longrightarrow> a = b" for a b k :: u32
  by (metis xor.assoc xor.right_neutral xor_self_eq)

lemma inj_xor_word_left: "k XOR a = k XOR b \<Longrightarrow> a = b" for a b k :: u32
  by (rule inj_xor_word [of a k b]) (simp only: xor.commute [of a k] xor.commute [of b k])

lemma murmur_round_eq:
  assumes "murmur_round h k = murmur_round h' k'"
  shows "h XOR mix_k1 k = h' XOR mix_k1 k'"
proof -
  have "rotl32 (h XOR mix_k1 k) 13 * 5 = rotl32 (h' XOR mix_k1 k') 13 * 5"
    using assms unfolding murmur_round_def by (rule add_right_imp_eq)
  then have "rotl32 (h XOR mix_k1 k) 13 = rotl32 (h' XOR mix_k1 k') 13"
    by (rule inj_mult_unit [OF _ unit_five])
  then show ?thesis by (rule inj_rotl32 [rotated 2]) simp_all
qed

lemma inj_murmur_round_h: "murmur_round h k = murmur_round h' k \<Longrightarrow> h = h'"
  by (drule murmur_round_eq) (rule inj_xor_word)

lemma inj_murmur_round_k: "murmur_round h k = murmur_round h k' \<Longrightarrow> k = k'"
  by (drule murmur_round_eq) (rule inj_mix_k1, rule inj_xor_word_left)

lemma MurmurHash3_8:
  assumes "length key = 8"
  shows "MurmurHash3_x86_32 key
    = fmix32 (murmur_round (murmur_round 0 (getblock32 key 0)) (getblock32 key 1) XOR 8)"
proof -
  have "[0..<2] = [0, 1 :: nat]" by (simp add: upt_rec)
  with assms show ?thesis
    by (simp add: MurmurHash3_x86_32_def murmur_body_def murmur_tail_def)
qed

lemma fmix32_injD:
  assumes eq: "fmix32 x = fmix32 y"
  shows "x = y"
proof -
  define m where "m = (\<lambda>x :: u32. (x XOR drop_bit 16 x) * 0x85ebca6b)"
  define n where "n = (\<lambda>x :: u32. (x XOR drop_bit 13 x) * 0xc2b2ae35)"
  have f: "fmix32 z = n (m z) XOR drop_bit 16 (n (m z))" for z
    by (simp add: fmix32_def m_def n_def Let_def)
  have "n (m x) = n (m y)"
    using eq unfolding f by (metis xorshift16_involutive)
  then have "m x XOR drop_bit 13 (m x) = m y XOR drop_bit 13 (m y)"
    unfolding n_def by (rule inj_mult_unit [OF _ unit_fmix2])
  then have "m x = m y" by (metis xorshift13_inverse)
  then have "x XOR drop_bit 16 x = y XOR drop_bit 16 y"
    unfolding m_def by (rule inj_mult_unit [OF _ unit_fmix1])
  then show ?thesis by (metis xorshift16_involutive)
qed

text \<open>The final avalanche \<open>fmix32\<close> loses nothing: it is a bijection of the 32-bit
  words, so distinct accumulators never collide in the last step of the hash.\<close>

lemma fmix32_bij: "bij fmix32"
proof -
  have "inj fmix32" by (rule injI) (rule fmix32_injD)
  then show ?thesis by (simp add: bij_def finite_UNIV_inj_surj)
qed

text \<open>Two pointers hashed by \<open>MurmurHash3_x86_32\<close> that agree in one 32-bit half
  and differ in the other have different hash values: only keys that differ in both halves
  can collide.\<close>

lemma MurmurHash3_half_collision:
  assumes "length key = 8" and "length key' = 8"
    and "(getblock32 key 0 = getblock32 key' 0) \<noteq> (getblock32 key 1 = getblock32 key' 1)"
  shows "MurmurHash3_x86_32 key \<noteq> MurmurHash3_x86_32 key'"
proof
  assume "MurmurHash3_x86_32 key = MurmurHash3_x86_32 key'"
  then have "murmur_round (murmur_round 0 (getblock32 key 0)) (getblock32 key 1)
      = murmur_round (murmur_round 0 (getblock32 key' 0)) (getblock32 key' 1)"
    using assms fmix32_injD by (simp only: MurmurHash3_8) (blast intro: inj_xor_word)
  then show False
    using assms(3) by (metis inj_murmur_round_h inj_murmur_round_k)
qed

lemma MurmurHash3_half_collision_witness:
  "MurmurHash3_x86_32 [1, 0, 0, 0, 7, 0, 0, 0] \<noteq> MurmurHash3_x86_32 [2, 0, 0, 0, 7, 0, 0, 0]"
  by (rule MurmurHash3_half_collision) (simp_all add: getblock32_def bslice_def)

text \<open>The bucket of an address in the client's table is in range for
  \<open>addr_info_ht[DHMP_CLIENT_HT_SIZE]\<close>, and the bucket of a key in the dirty map is in
  range for \<open>hash_list[listSize]\<close>, for every key and every positive
  \<open>int\<close> size.\<close>

lemma bucket_numbers_in_range:
  "dhmp_hash_in_client a < 50000 \<and>
   (0 < n \<and> n < 2 ^ 31 \<longrightarrow> 0 \<le> defaultHashCode n key \<and> defaultHashCode n key < n)"
  using defaultHashCode_range
  by (auto simp: dhmp_hash_in_client_def DHMP_CLIENT_HT_SIZE_def Let_def)

lemma bucket_numbers_in_range_witness:
  "dhmp_hash_in_client 0x7f00 < 50000 \<and> 0 \<le> defaultHashCode 1024 [107] \<and> defaultHashCode 1024 [107] < 1024"
  using bucket_numbers_in_range [of "0x7f00" 1024 "[107]"] by simp

end
