(* ===== verification/HashTable.thy ===== *)
theory HashTable
  imports HashCodes
begin

text \<open>
  The chained hash map of \<open>src/mid_hashmap.c\<close>. A bucket of \<open>hash_list\<close> is
  the list of its entries: \<open>[]\<close> when the \<open>key\<close> of the inline \<open>Entry\<close>
  is \<open>NULL\<close>, otherwise the inline entry followed by the chain of \<open>next\<close>. Keys are
  pointers: an entry keeps the pointer it was created with, and the function pointers
  \<open>hashCode\<close> and \<open>equal\<close> of the struct, arguments \<open>hc\<close> and \<open>eq\<close>
  here, look at what the pointer refers to. A read or write outside \<open>hash_list\<close> or
  \<open>tempList\<close>, a zero \<open>listSize\<close> and the overflow of \<open>listSize * 2\<close> are
  \<open>UB\<close>.

  \<open>defaultPut\<close> calls \<open>resetHashMap\<close>, which calls \<open>put\<close> again; the first
  argument of \<open>defaultPut\<close> bounds that nesting and running out of it is
  \<open>Spin\<close>. Two levels are enough on a well-formed map: a rehash never triggers another.

  The lemmas show that the operations refine a partial function from the strings the keys
  denote, through every rehash, and keep the invariant \<open>hm_wf\<close>.
\<close>

section \<open>Model\<close>

record ('k, 'v) HashMap =
  hsize :: int
  listSize :: int
  changeSize :: bool
  hash_list :: "('k \<times> 'v) list list"

definition DEFAULT_MAP_SIZE :: int where
  "DEFAULT_MAP_SIZE = 50"

definition bucket_ok :: "('k, 'v) HashMap \<Rightarrow> int \<Rightarrow> bool" where
  "bucket_ok m i \<longleftrightarrow> listSize m \<noteq> 0 \<and> 0 \<le> i \<and> i < int (length (hash_list m))"

text \<open>The walk that overwrites the value of the first equal entry.\<close>

fun chain_set :: "('k \<Rightarrow> 'k \<Rightarrow> bool) \<Rightarrow> 'k \<Rightarrow> 'v \<Rightarrow> ('k \<times> 'v) list \<Rightarrow> ('k \<times> 'v) list option" where
  "chain_set eq k v [] = None"
| "chain_set eq k v ((k', v') # es) =
     (if eq k k' then Some ((k', v) # es) else map_option (Cons (k', v')) (chain_set eq k v es))"

fun chain_find :: "('k \<Rightarrow> 'k \<Rightarrow> bool) \<Rightarrow> 'k \<Rightarrow> ('k \<times> 'v) list \<Rightarrow> 'v option" where
  "chain_find eq k [] = None"
| "chain_find eq k ((k', v') # es) = (if eq k' k then Some v' else chain_find eq k es)"

fun chain_del :: "('k \<Rightarrow> 'k \<Rightarrow> bool) \<Rightarrow> 'k \<Rightarrow> ('k \<times> 'v) list \<Rightarrow> ('k \<times> 'v) list option" where
  "chain_del eq k [] = None"
| "chain_del eq k ((k', v') # es) =
     (if eq k' k then Some es else map_option (Cons (k', v')) (chain_del eq k es))"

text \<open>\<open>defaultPut\<close> up to the resize check; the flag is the early \<open>return\<close>.\<close>

definition put_entry ::
    "('k \<Rightarrow> 'k \<Rightarrow> bool) \<Rightarrow> ('k, 'v) HashMap \<Rightarrow> nat \<Rightarrow> 'k \<Rightarrow> 'v \<Rightarrow> bool \<times> ('k, 'v) HashMap" where
  "put_entry eq m i k v =
     (case hash_list m ! i of
        [] \<Rightarrow> (False, m\<lparr>hsize := hsize m + 1, hash_list := (hash_list m)[i := [(k, v)]]\<rparr>)
      | e # es \<Rightarrow>
          (case chain_set eq k v (e # es) of
             Some b \<Rightarrow> (True, m\<lparr>hash_list := (hash_list m)[i := b]\<rparr>)
           | None \<Rightarrow> (False, m\<lparr>hsize := hsize m + 1,
                               hash_list := (hash_list m)[i := e # (k, v) # es]\<rparr>)))"

fun put_list :: "('m \<Rightarrow> 'k \<Rightarrow> 'v \<Rightarrow> 'm res) \<Rightarrow> ('k \<times> 'v) list \<Rightarrow> 'm \<Rightarrow> 'm res" where
  "put_list put [] m = Inr m"
| "put_list put ((k, v) # es) m = bindR (put m k v) (put_list put es)"

definition resetHashMap ::
    "(('k, 'v) HashMap \<Rightarrow> 'k \<Rightarrow> 'v \<Rightarrow> ('k, 'v) HashMap res) \<Rightarrow>
     ('k, 'v) HashMap \<Rightarrow> int \<Rightarrow> ('k, 'v) HashMap res" where
  "resetHashMap put m new_listSize =
     (if new_listSize < DEFAULT_MAP_SIZE then Inr m
      else let tempList = concat (hash_list m)
           in guardR (int (length tempList) = hsize m) UB
                (put_list put tempList
                   (m\<lparr>hsize := 0, listSize := new_listSize,
                      hash_list := replicate (nat new_listSize) []\<rparr>)))"

fun defaultPut ::
    "nat \<Rightarrow> (int \<Rightarrow> 'k \<Rightarrow> int) \<Rightarrow> ('k \<Rightarrow> 'k \<Rightarrow> bool) \<Rightarrow>
     ('k, 'v) HashMap \<Rightarrow> 'k \<Rightarrow> 'v \<Rightarrow> ('k, 'v) HashMap res" where
  "defaultPut 0 hc eq m k v = Inl Spin"
| "defaultPut (Suc d) hc eq m k v =
     (let i = hc (listSize m) k
      in guardR (bucket_ok m i) UB
           (let (returned, m') = put_entry eq m (nat i) k v
            in if returned then Inr m'
               else if listSize m' \<le> hsize m' \<and> changeSize m'
               then guardR (listSize m' * 2 < 2 ^ 31) UB
                      (resetHashMap (defaultPut d hc eq) m' (listSize m' * 2))
               else Inr m'))"

definition defaultExists ::
    "(int \<Rightarrow> 'k \<Rightarrow> int) \<Rightarrow> ('k \<Rightarrow> 'k \<Rightarrow> bool) \<Rightarrow> ('k, 'v) HashMap \<Rightarrow> 'k \<Rightarrow> bool res" where
  "defaultExists hc eq m k =
     (let i = hc (listSize m) k
      in guardR (bucket_ok m i) UB (Inr (chain_find eq k (hash_list m ! nat i) \<noteq> None)))"

text \<open>\<open>None\<close> is the \<open>NULL\<close> result.\<close>

definition defaultGet ::
    "(int \<Rightarrow> 'k \<Rightarrow> int) \<Rightarrow> ('k \<Rightarrow> 'k \<Rightarrow> bool) \<Rightarrow> ('k, 'v) HashMap \<Rightarrow> 'k \<Rightarrow> 'v option res" where
  "defaultGet hc eq m k =
     bindR (defaultExists hc eq m k) (\<lambda>e.
       if e then Inr (chain_find eq k (hash_list m ! nat (hc (listSize m) k))) else Inr None)"

definition defaultRemove ::
    "nat \<Rightarrow> (int \<Rightarrow> 'k \<Rightarrow> int) \<Rightarrow> ('k \<Rightarrow> 'k \<Rightarrow> bool) \<Rightarrow>
     ('k, 'v) HashMap \<Rightarrow> 'k \<Rightarrow> ('k option \<times> ('k, 'v) HashMap) res" where
  "defaultRemove d hc eq m k =
     (let i = hc (listSize m) k
      in guardR (bucket_ok m i) UB
           (case hash_list m ! nat i of
              [] \<Rightarrow> Inr (None, m)
            | e # es \<Rightarrow>
                (let (result, m') =
                       (case chain_del eq k (e # es) of
                          Some b \<Rightarrow> (True, m\<lparr>hsize := hsize m - 1, hash_list := (hash_list m)[nat i := b]\<rparr>)
                        | None \<Rightarrow> (False, m))
                 in if result \<and> hsize m' < listSize m' div 2 \<and> changeSize m'
                    then bindR (resetHashMap (defaultPut d hc eq) m' (listSize m' div 2))
                           (\<lambda>m''. Inr (Some (fst e), m''))
                    else Inr (Some (fst e), m'))))"

definition defaultClear :: "('k, 'v) HashMap \<Rightarrow> ('k, 'v) HashMap" where
  "defaultClear m = m\<lparr>hash_list := [], hsize := - 1, listSize := 0\<rparr>"

text \<open>A negative number of entries other than \<open>-1\<close> makes \<open>malloc\<close> fail, which is the
  \<open>NULL\<close> result.\<close>

definition createHashMap :: "int \<Rightarrow> ('k, 'v) HashMap option" where
  "createHashMap n =
     (let sz = (if n = - 1 then DEFAULT_MAP_SIZE else n)
      in if sz < 0 then None
         else Some \<lparr>hsize = 0, listSize = sz, changeSize = True, hash_list = replicate (nat sz) []\<rparr>)"

declare defaultPut.simps(2) [simp del]

section \<open>Invariant and abstraction\<close>

definition rdb :: "('k \<Rightarrow> 's) \<Rightarrow> ('k \<times> 'v) list \<Rightarrow> ('s \<times> 'v) list" where
  "rdb rd b = map (\<lambda>e. (rd (fst e), snd e)) b"

definition hm_map :: "('k \<Rightarrow> 's) \<Rightarrow> ('k, 'v) HashMap \<Rightarrow> 's \<Rightarrow> 'v option" where
  "hm_map rd m = map_of (rdb rd (concat (hash_list m)))"

definition buckets_wf ::
    "(int \<Rightarrow> 'k \<Rightarrow> int) \<Rightarrow> ('k \<Rightarrow> 's) \<Rightarrow> int \<Rightarrow> ('k \<times> 'v) list list \<Rightarrow> bool" where
  "buckets_wf hc rd n bs \<longleftrightarrow>
     (\<forall>i < length bs. (\<forall>(k, v) \<in> set (bs ! i). hc n k = int i) \<and> distinct (map (\<lambda>e. rd (fst e)) (bs ! i)))"

text \<open>\<open>hm_ok\<close> is the shape of the table; \<open>hm_wf\<close> adds what holds between calls:
  resizing is on and, from the smallest size a doubling can take effect at, the load stays
  below one.\<close>

definition hm_ok :: "(int \<Rightarrow> 'k \<Rightarrow> int) \<Rightarrow> ('k \<Rightarrow> 's) \<Rightarrow> ('k, 'v) HashMap \<Rightarrow> bool" where
  "hm_ok hc rd m \<longleftrightarrow>
     0 < listSize m \<and> listSize m < 2 ^ 31 \<and> length (hash_list m) = nat (listSize m) \<and>
     hsize m = int (length (concat (hash_list m))) \<and> buckets_wf hc rd (listSize m) (hash_list m)"

definition hm_wf :: "(int \<Rightarrow> 'k \<Rightarrow> int) \<Rightarrow> ('k \<Rightarrow> 's) \<Rightarrow> ('k, 'v) HashMap \<Rightarrow> bool" where
  "hm_wf hc rd m \<longleftrightarrow> hm_ok hc rd m \<and> changeSize m \<and> (25 \<le> listSize m \<longrightarrow> hsize m < listSize m)"

section \<open>Chains\<close>

lemma rdb_simps [simp]:
  "rdb rd [] = []" "rdb rd (e # es) = (rd (fst e), snd e) # rdb rd es"
  "rdb rd (xs @ ys) = rdb rd xs @ rdb rd ys" "length (rdb rd xs) = length xs"
  by (simp_all add: rdb_def)

lemma rdb_eq_Nil [simp]: "rdb rd b = [] \<longleftrightarrow> b = []"
  by (simp add: rdb_def)

lemma rdb_keys: "fst ` set (rdb rd b) = rd ` fst ` set b" "map fst (rdb rd b) = map (\<lambda>e. rd (fst e)) b"
  by (simp_all add: rdb_def image_image comp_def)

lemma map_of_rdb_None: "map_of (rdb rd b) s = None \<longleftrightarrow> s \<notin> rd ` fst ` set b"
  by (simp add: map_of_eq_None_iff rdb_keys)

lemma chain_find_map_of:
  "chain_find (\<lambda>a b. rd a = rd b) k b = map_of (rdb rd b) (rd k)"
  by (induction b) auto

lemma chain_set_None:
  "chain_set (\<lambda>a b. rd a = rd b) k v b = None \<longleftrightarrow> rd k \<notin> rd ` fst ` set b"
  by (induction b) (auto split: if_splits)

lemma chain_set_Some:
  "chain_set (\<lambda>a b. rd a = rd b) k v b = Some b' \<Longrightarrow>
     map_of (rdb rd b') = (map_of (rdb rd b))(rd k \<mapsto> v) \<and>
     map fst b' = map fst b \<and> rd k \<in> rd ` fst ` set b"
proof (induction b arbitrary: b')
  case Nil
  then show ?case by simp
next
  case (Cons e es)
  obtain k' v' where e: "e = (k', v')" by (cases e)
  show ?case
    using Cons by (auto simp: e split: if_splits)
qed

lemma chain_del_None:
  "chain_del (\<lambda>a b. rd a = rd b) k b = None \<longleftrightarrow> rd k \<notin> rd ` fst ` set b"
  by (induction b) (auto split: if_splits)

lemma chain_del_Some:
  "chain_del (\<lambda>a b. rd a = rd b) k b = Some b' \<Longrightarrow> distinct (map (\<lambda>e. rd (fst e)) b) \<Longrightarrow>
     map_of (rdb rd b') = (map_of (rdb rd b))(rd k := None) \<and>
     set b' \<subseteq> set b \<and> distinct (map (\<lambda>e. rd (fst e)) b') \<and> Suc (length b') = length b"
proof (induction b arbitrary: b')
  case Nil
  then show ?case by simp
next
  case (Cons e es)
  obtain k' v' where e: "e = (k', v')" by (cases e)
  show ?case
  proof (cases "rd k' = rd k")
    case True
    with Cons.prems have "b' = es" "rd k \<notin> rd ` fst ` set es" by (auto simp: e)
    with True Cons.prems show ?thesis
      by (auto simp: e fun_upd_idem_iff map_of_rdb_None)
  next
    case False
    with Cons.prems obtain b1 where b1: "chain_del (\<lambda>a b. rd a = rd b) k es = Some b1" "b' = (k', v') # b1"
      by (auto simp: e)
    with Cons have IH: "map_of (rdb rd b1) = (map_of (rdb rd es))(rd k := None)"
      "set b1 \<subseteq> set es" "distinct (map (\<lambda>e. rd (fst e)) b1)" "Suc (length b1) = length es"
      by (auto simp: e)
    have "rd k' \<notin> rd ` fst ` set b1"
      using Cons.prems(2) IH(2) by (auto simp: e)
    with IH False b1(2) show ?thesis by (auto simp: e fun_upd_def)
  qed
qed

section \<open>Tables\<close>

lemma length_concat_update:
  "i < length bs \<Longrightarrow> length (concat (bs[i := b])) + length (bs ! i) = length (concat bs) + length b"
  by (induction bs arbitrary: i) (auto split: nat.splits)

lemma map_of_concat_bucket:
  "i < length bs \<Longrightarrow> (\<And>j. j < length bs \<Longrightarrow> j \<noteq> i \<Longrightarrow> s \<notin> rd ` fst ` set (bs ! j)) \<Longrightarrow>
     map_of (rdb rd (concat bs)) s = map_of (rdb rd (bs ! i)) s"
proof (induction bs arbitrary: i)
  case Nil
  then show ?case by simp
next
  case (Cons b bs)
  show ?case
  proof (cases i)
    case 0
    have "s \<notin> rd ` fst ` set c" if c: "c \<in> set bs" for c
    proof -
      from c obtain j where "j < length bs" "c = bs ! j" by (auto simp: in_set_conv_nth)
      then show ?thesis using Cons.prems(2) [of "Suc j"] 0 by simp
    qed
    then have "map_of (rdb rd (concat bs)) s = None"
      unfolding map_of_rdb_None by auto
    with 0 show ?thesis by (simp add: map_add_def split: option.splits)
  next
    case (Suc n)
    then have "map_of (rdb rd b) s = None"
      using Cons.prems(2) [of 0] by (simp add: map_of_rdb_None)
    moreover have "map_of (rdb rd (concat bs)) s = map_of (rdb rd (bs ! n)) s"
    proof (rule Cons.IH)
      show "n < length bs" using Cons.prems(1) Suc by simp
    next
      fix j assume "j < length bs" "j \<noteq> n"
      then show "s \<notin> rd ` fst ` set (bs ! j)"
        using Cons.prems(2) [of "Suc j"] Suc by simp
    qed
    ultimately show ?thesis using Suc by (simp add: map_add_def split: option.splits)
  qed
qed

lemma distinct_concat_buckets:
  "(\<And>i. i < length bs \<Longrightarrow> distinct (map f (bs ! i))) \<Longrightarrow>
   (\<And>i j. i < j \<Longrightarrow> j < length bs \<Longrightarrow> f ` set (bs ! i) \<inter> f ` set (bs ! j) = {}) \<Longrightarrow>
     distinct (map f (concat bs))"
proof (induction bs)
  case Nil
  then show ?case by simp
next
  case (Cons b bs)
  have "distinct (map f b)" using Cons.prems(1) [of 0] by simp
  moreover have "distinct (map f (concat bs))"
    using Cons.prems(1) [of "Suc i" for i] Cons.prems(2) [of "Suc i" "Suc j" for i j]
    by (intro Cons.IH) auto
  moreover have "f ` set b \<inter> f ` set c = {}" if "c \<in> set bs" for c
    using that Cons.prems(2) [of 0 "Suc j" for j] by (fastforce simp: in_set_conv_nth)
  ultimately show ?case by (auto simp: distinct_append)
qed

section \<open>The contract of the function pointers, and the map they give\<close>

locale keyed_hash =
  fixes hc :: "int \<Rightarrow> 'k \<Rightarrow> int"
    and eq :: "'k \<Rightarrow> 'k \<Rightarrow> bool"
    and rd :: "'k \<Rightarrow> 's"
  assumes eq_rd: "eq a b \<longleftrightarrow> rd a = rd b"
    and hc_cong: "rd a = rd b \<Longrightarrow> hc n a = hc n b"
    and hc_range: "0 < n \<Longrightarrow> n < 2 ^ 31 \<Longrightarrow> 0 \<le> hc n a \<and> hc n a < n"
begin

lemma eq_fun: "eq = (\<lambda>a b. rd a = rd b)"
  by (intro ext) (rule eq_rd)

lemma bucket_ok_wf: "hm_ok hc rd m \<Longrightarrow> bucket_ok m (hc (listSize m) k)"
  using hc_range [of "listSize m" k] by (auto simp: hm_ok_def bucket_ok_def)

lemma index_less: "hm_ok hc rd m \<Longrightarrow> nat (hc (listSize m) k) < length (hash_list m)"
  using bucket_ok_wf [of m k] by (auto simp: bucket_ok_def nat_less_iff)

lemma bucket_key:
  "hm_ok hc rd m \<Longrightarrow> j < length (hash_list m) \<Longrightarrow> rd k \<in> rd ` fst ` set (hash_list m ! j) \<Longrightarrow>
     j = nat (hc (listSize m) k)"
proof -
  assume ok: "hm_ok hc rd m" and j: "j < length (hash_list m)"
    and "rd k \<in> rd ` fst ` set (hash_list m ! j)"
  then obtain k' v' where e: "(k', v') \<in> set (hash_list m ! j)" "rd k = rd k'" by auto
  have "\<forall>(k, v) \<in> set (hash_list m ! j). hc (listSize m) k = int j"
    using ok j by (auto simp: hm_ok_def buckets_wf_def)
  with e hc_cong [OF e(2)] show ?thesis by auto
qed

lemma hm_map_bucket:
  assumes ok: "hm_ok hc rd m"
  shows "hm_map rd m (rd k) = map_of (rdb rd (hash_list m ! nat (hc (listSize m) k))) (rd k)"
  unfolding hm_map_def
  using bucket_key [OF ok] index_less [OF ok] by (intro map_of_concat_bucket) auto

lemma hm_map_range: "s \<notin> range rd \<Longrightarrow> hm_map rd m s = None"
  unfolding hm_map_def by (auto simp: map_of_rdb_None)

lemma distinct_entries:
  assumes ok: "hm_ok hc rd m"
  shows "distinct (map (\<lambda>e. rd (fst e)) (concat (hash_list m)))"
proof (rule distinct_concat_buckets)
  fix i assume "i < length (hash_list m)"
  then show "distinct (map (\<lambda>e. rd (fst e)) (hash_list m ! i))"
    using ok by (simp add: hm_ok_def buckets_wf_def)
next
  fix i j assume "i < j" "j < length (hash_list m)"
  then show "(\<lambda>e. rd (fst e)) ` set (hash_list m ! i) \<inter> (\<lambda>e. rd (fst e)) ` set (hash_list m ! j) = {}"
    using bucket_key [OF ok, of i] bucket_key [OF ok, of j]
    by (force simp: image_image)
qed

lemma update_bucket:
  assumes ok: "hm_ok hc rd m" and i: "i = nat (hc (listSize m) k)" and b: "b = hash_list m ! i"
    and sub: "rd ` fst ` set b' \<subseteq> insert (rd k) (rd ` fst ` set b)"
    and dist: "distinct (map (\<lambda>e. rd (fst e)) b')"
    and upd: "map_of (rdb rd b') = (map_of (rdb rd b))(rd k := x)"
    and m': "m' = m\<lparr>hsize := hsize m + int (length b') - int (length b), hash_list := (hash_list m)[i := b']\<rparr>"
  shows "hm_ok hc rd m' \<and> hm_map rd m' = (hm_map rd m)(rd k := x)"
proof
  have il: "i < length (hash_list m)" using index_less [OF ok] i by simp
  have hk: "hc (listSize m) k' = int i" if "(k', v') \<in> set b'" for k' v'
  proof -
    have "rd k' \<in> insert (rd k) (rd ` fst ` set b)" using that sub by force
    then have "hc (listSize m) k' = hc (listSize m) k \<or> i = nat (hc (listSize m) k')"
      using bucket_key [OF ok il] b hc_cong by blast
    moreover have "0 \<le> hc (listSize m) k" "0 \<le> hc (listSize m) k'"
      using bucket_ok_wf [OF ok] by (auto simp: bucket_ok_def)
    ultimately show ?thesis using i by auto
  qed
  have len: "length (concat ((hash_list m)[i := b'])) + length b = length (concat (hash_list m)) + length b'"
    using length_concat_update [OF il] b by simp
  have nth: "(hash_list m)[i := b'] ! j = (if j = i then b' else hash_list m ! j)" for j
    using il by simp
  show ok': "hm_ok hc rd m'"
    using ok len hk dist by (auto simp: hm_ok_def m' buckets_wf_def nth)
  show "hm_map rd m' = (hm_map rd m)(rd k := x)"
  proof
    fix s
    show "hm_map rd m' s = ((hm_map rd m)(rd k := x)) s"
    proof (cases "s \<in> range rd")
      case True
      then obtain k2 where s: "s = rd k2" by auto
      let ?j = "nat (hc (listSize m) k2)"
      have l: "hm_map rd m' s = map_of (rdb rd (hash_list m' ! ?j)) s"
        using hm_map_bucket [OF ok', of k2] s by (simp add: m')
      have r: "hm_map rd m s = map_of (rdb rd (hash_list m ! ?j)) s"
        using hm_map_bucket [OF ok, of k2] s by simp
      show ?thesis
      proof (cases "?j = i")
        case True
        with l r upd b il show ?thesis by (simp add: m')
      next
        case False
        then have "rd k2 \<noteq> rd k" using i hc_cong by metis
        with False l r s show ?thesis by (simp add: m')
      qed
    qed (auto simp: hm_map_range)
  qed
qed

lemma put_entry_correct:
  assumes ok: "hm_ok hc rd m" and i: "i = nat (hc (listSize m) k)"
    and put: "put_entry eq m i k v = (r, m')"
  shows "hm_ok hc rd m'" "hm_map rd m' = (hm_map rd m)(rd k \<mapsto> v)"
    "listSize m' = listSize m" "changeSize m' = changeSize m"
    "hsize m' = (if r then hsize m else hsize m + 1)"
proof -
  define b where "b = hash_list m ! i"
  have dist: "distinct (map (\<lambda>e. rd (fst e)) b)"
    using ok index_less [OF ok] i by (simp add: hm_ok_def buckets_wf_def b_def)
  obtain b' where b': "m' = m\<lparr>hsize := hsize m + int (length b') - int (length b), hash_list := (hash_list m)[i := b']\<rparr>"
    and upd: "map_of (rdb rd b') = (map_of (rdb rd b))(rd k := Some v)"
    and sub: "rd ` fst ` set b' \<subseteq> insert (rd k) (rd ` fst ` set b)"
    and dist': "distinct (map (\<lambda>e. rd (fst e)) b')"
    and len: "length b' = length b + (if r then 0 else 1)"
  proof (cases "b = []")
    case True
    with put that [of "[(k, v)]"] show ?thesis
      by (auto simp: put_entry_def b_def [symmetric])
  next
    case False
    then obtain e es where e: "b = e # es" by (cases b) auto
    show ?thesis
    proof (cases "chain_set eq k v b")
      case None
      then have nk: "rd k \<notin> rd ` fst ` set b" by (simp add: eq_fun chain_set_None)
      with None put e dist show ?thesis
        by (intro that [of "e # (k, v) # es"])
           (auto simp: put_entry_def b_def [symmetric] fun_upd_twist)
    next
      case (Some b1)
      from chain_set_Some [OF Some [unfolded eq_fun]] have c:
        "map_of (rdb rd b1) = (map_of (rdb rd b))(rd k \<mapsto> v)" "map fst b1 = map fst b" by auto
      have l: "length b1 = length b" using c(2) by (metis length_map)
      have f: "map (\<lambda>e. rd (fst e)) b1 = map (\<lambda>e. rd (fst e)) b"
        using arg_cong [OF c(2), of "map rd"] by (simp add: comp_def)
      have "fst ` set b1 = fst ` set b" using c(2) by (metis set_map)
      with Some put e dist c(1) l f show ?thesis
        by (intro that [of b1]) (auto simp: put_entry_def b_def [symmetric])
    qed
  qed
  note u = update_bucket [OF ok i b_def sub dist' upd b']
  show "hm_ok hc rd m'" "hm_map rd m' = (hm_map rd m)(rd k \<mapsto> v)" using u by auto
  show "listSize m' = listSize m" "changeSize m' = changeSize m" using b' by auto
  show "hsize m' = (if r then hsize m else hsize m + 1)" using b' len by simp
qed

lemma put_small:
  assumes ok: "hm_ok hc rd m" and small: "hsize m + 1 < listSize m"
  shows "\<exists>m'. defaultPut (Suc d) hc eq m k v = Inr m' \<and> hm_ok hc rd m' \<and>
     hm_map rd m' = (hm_map rd m)(rd k \<mapsto> v) \<and> listSize m' = listSize m \<and>
     changeSize m' = changeSize m \<and> hsize m' \<le> hsize m + 1"
proof -
  obtain r m' where put: "put_entry eq m (nat (hc (listSize m) k)) k v = (r, m')" by fastforce
  note c = put_entry_correct [OF ok refl put]
  show ?thesis
    using put c small bucket_ok_wf [OF ok]
    by (intro exI [of _ m']) (auto simp: defaultPut.simps(2))
qed

lemma put_list_small:
  "hm_ok hc rd m \<Longrightarrow> hsize m + int (length es) < listSize m \<Longrightarrow>
     \<exists>m'. put_list (defaultPut (Suc d) hc eq) es m = Inr m' \<and> hm_ok hc rd m' \<and>
       hm_map rd m' = hm_map rd m ++ map_of (rev (rdb rd es)) \<and>
       listSize m' = listSize m \<and> changeSize m' = changeSize m \<and> hsize m' \<le> hsize m + int (length es)"
proof (induction es arbitrary: m)
  case Nil
  then show ?case by simp
next
  case (Cons e es)
  obtain k v where e: "e = (k, v)" by (cases e)
  from Cons.prems obtain m1 where m1: "defaultPut (Suc d) hc eq m k v = Inr m1" "hm_ok hc rd m1"
    "hm_map rd m1 = (hm_map rd m)(rd k \<mapsto> v)" "listSize m1 = listSize m"
    "changeSize m1 = changeSize m" "hsize m1 \<le> hsize m + 1"
    using put_small [of m d k v] by auto
  have "hsize m1 + int (length es) < listSize m1"
    using m1(4,6) Cons.prems(2) by simp
  from Cons.IH [OF m1(2) this, unfolded m1(3-5)] obtain m2 where m2:
    "put_list (defaultPut (Suc d) hc eq) es m1 = Inr m2" "hm_ok hc rd m2"
    "hm_map rd m2 = (hm_map rd m)(rd k \<mapsto> v) ++ map_of (rev (rdb rd es))"
    "listSize m2 = listSize m" "changeSize m2 = changeSize m" "hsize m2 \<le> hsize m1 + int (length es)"
    by blast
  have "hm_map rd m2 = hm_map rd m ++ map_of (rev (rdb rd (e # es)))"
    unfolding m2(3) by (simp add: e)
  with m1 m2 show ?case by (intro exI [of _ m2]) (simp add: e)
qed

lemma hm_ok_empty:
  "0 < n \<Longrightarrow> n < 2 ^ 31 \<Longrightarrow>
     hm_ok hc rd (m\<lparr>hsize := 0, listSize := n, hash_list := replicate (nat n) []\<rparr>) \<and>
     hm_map rd (m\<lparr>hsize := 0, listSize := n, hash_list := replicate (nat n) []\<rparr>) = Map.empty"
  by (auto simp: hm_ok_def buckets_wf_def hm_map_def)

lemma reset_correct:
  assumes ok: "hm_ok hc rd m" and small: "hsize m < n" and n: "n < 2 ^ 31"
  shows "\<exists>m'. resetHashMap (defaultPut (Suc d) hc eq) m n = Inr m' \<and> hm_ok hc rd m' \<and>
     hm_map rd m' = hm_map rd m \<and> changeSize m' = changeSize m \<and>
     (if n < 50 then m' = m else listSize m' = n \<and> hsize m' \<le> hsize m)"
proof (cases "n < 50")
  case True
  with ok show ?thesis by (simp add: resetHashMap_def DEFAULT_MAP_SIZE_def)
next
  case False
  define m0 where "m0 = m\<lparr>hsize := 0, listSize := n, hash_list := replicate (nat n) []\<rparr>"
  define es where "es = concat (hash_list m)"
  have cnt: "int (length es) = hsize m" using ok by (simp add: hm_ok_def es_def)
  have m0: "hm_ok hc rd m0" "hm_map rd m0 = Map.empty"
    using hm_ok_empty [of n m] False n by (auto simp: m0_def)
  obtain m' where m': "put_list (defaultPut (Suc d) hc eq) es m0 = Inr m'" "hm_ok hc rd m'"
    "hm_map rd m' = map_of (rev (rdb rd es))" "listSize m' = n" "changeSize m' = changeSize m"
    "hsize m' \<le> hsize m"
    using put_list_small [OF m0(1), of es d] m0(2) cnt small by (auto simp: m0_def)
  have "distinct (map fst (rdb rd es))"
    using distinct_entries [OF ok] by (simp add: rdb_keys es_def)
  then have "map_of (rev (rdb rd es)) = map_of (rdb rd es)"
    by (subst map_of_inject_set) (auto simp: rev_map [symmetric] rdb_def)
  with m' cnt False show ?thesis
    by (simp add: resetHashMap_def DEFAULT_MAP_SIZE_def es_def [symmetric] m0_def [symmetric]
        hm_map_def [of rd m] Let_def)
qed

lemma put_correct:
  assumes wf: "hm_wf hc rd m" and bound: "hsize m < 2 ^ 30 - 1"
  shows "\<exists>m'. defaultPut (Suc (Suc d)) hc eq m k v = Inr m' \<and> hm_wf hc rd m' \<and>
     hm_map rd m' = (hm_map rd m)(rd k \<mapsto> v) \<and> hsize m' \<le> hsize m + 1"
proof -
  have ok: "hm_ok hc rd m" and ch: "changeSize m" and load: "25 \<le> listSize m \<longrightarrow> hsize m < listSize m"
    using wf by (auto simp: hm_wf_def)
  obtain r m1 where put: "put_entry eq m (nat (hc (listSize m) k)) k v = (r, m1)" by fastforce
  note c = put_entry_correct [OF ok refl put]
  have b: "bucket_ok m (hc (listSize m) k)" by (rule bucket_ok_wf [OF ok])
  show ?thesis
  proof (cases "r \<or> hsize m1 < listSize m1")
    case True
    then show ?thesis
      using put b c ch load
      by (intro exI [of _ m1]) (auto simp: defaultPut.simps(2) hm_wf_def Let_def)
  next
    case False
    have dbl: "listSize m1 * 2 < 2 ^ 31"
      using False c(3,5) load bound by (cases "25 \<le> listSize m") auto
    have eqr: "defaultPut (Suc (Suc d)) hc eq m k v
        = resetHashMap (defaultPut (Suc d) hc eq) m1 (listSize m1 * 2)"
      using put b False dbl c(4) ch by (simp add: defaultPut.simps(2) [of "Suc d"] Let_def)
    show ?thesis
    proof (cases "listSize m1 * 2 < 50")
      case True
      then show ?thesis
        using eqr c ch False by (intro exI [of _ m1])
          (auto simp: resetHashMap_def DEFAULT_MAP_SIZE_def hm_wf_def)
    next
      case big: False
      then have "hsize m1 < listSize m1 * 2" using load c(3,5) False by auto
      from reset_correct [OF c(1) this dbl, of d] obtain m2 where m2:
        "resetHashMap (defaultPut (Suc d) hc eq) m1 (listSize m1 * 2) = Inr m2" "hm_ok hc rd m2"
        "hm_map rd m2 = hm_map rd m1" "changeSize m2 = changeSize m1"
        "listSize m2 = listSize m1 * 2" "hsize m2 \<le> hsize m1"
        using big by auto
      with eqr c ch big \<open>hsize m1 < listSize m1 * 2\<close> False show ?thesis
        by (intro exI [of _ m2]) (auto simp: hm_wf_def)
    qed
  qed
qed

lemma find_eq: "chain_find eq k b = map_of (rdb rd b) (rd k)"
  by (simp add: eq_fun chain_find_map_of)

lemma exists_correct:
  "hm_wf hc rd m \<Longrightarrow> defaultExists hc eq m k = Inr (hm_map rd m (rd k) \<noteq> None)"
  using bucket_ok_wf [of m k] hm_map_bucket [of m k]
  by (simp add: hm_wf_def defaultExists_def Let_def find_eq)

lemma get_correct:
  "hm_wf hc rd m \<Longrightarrow> defaultGet hc eq m k = Inr (hm_map rd m (rd k))"
  using hm_map_bucket [of m k]
  by (auto simp: defaultGet_def exists_correct find_eq hm_wf_def [THEN iffD1])

lemma remove_correct:
  assumes wf: "hm_wf hc rd m"
  shows "\<exists>r m'. defaultRemove (Suc d) hc eq m k = Inr (r, m') \<and> hm_wf hc rd m' \<and>
     hm_map rd m' = (hm_map rd m)(rd k := None) \<and> hsize m' \<le> hsize m"
proof -
  have ok: "hm_ok hc rd m" and ch: "changeSize m" and load: "25 \<le> listSize m \<longrightarrow> hsize m < listSize m"
    using wf by (auto simp: hm_wf_def)
  define i where "i = nat (hc (listSize m) k)"
  define b where "b = hash_list m ! i"
  have bk: "bucket_ok m (hc (listSize m) k)" by (rule bucket_ok_wf [OF ok])
  have dist: "distinct (map (\<lambda>e. rd (fst e)) b)"
    using ok index_less [OF ok] by (simp add: hm_ok_def buckets_wf_def b_def i_def)
  have look: "hm_map rd m (rd k) = map_of (rdb rd b) (rd k)"
    using hm_map_bucket [OF ok] by (simp add: b_def i_def)
  show ?thesis
  proof (cases "chain_del eq k b")
    case None
    then have "hm_map rd m (rd k) = None"
      using look by (simp add: eq_fun chain_del_None map_of_rdb_None)
    then have "(hm_map rd m)(rd k := None) = hm_map rd m" by (simp add: fun_upd_idem)
    with None bk wf show ?thesis
      by (cases b) (simp_all add: defaultRemove_def Let_def i_def [symmetric] b_def [symmetric]
          del: chain_del.simps)
  next
    case (Some b')
    then obtain e es where e: "b = e # es" by (cases b) auto
    from chain_del_Some [OF Some [unfolded eq_fun] dist] have c:
      "map_of (rdb rd b') = (map_of (rdb rd b))(rd k := None)" "set b' \<subseteq> set b"
      "distinct (map (\<lambda>e. rd (fst e)) b')" "Suc (length b') = length b" by auto
    define m1 where "m1 = m\<lparr>hsize := hsize m - 1, hash_list := (hash_list m)[i := b']\<rparr>"
    have sub: "rd ` fst ` set b' \<subseteq> insert (rd k) (rd ` fst ` set b)" using c(2) by auto
    have m1: "hm_ok hc rd m1 \<and> hm_map rd m1 = (hm_map rd m)(rd k := None)"
      using c(4) by (intro update_bucket [OF ok i_def b_def sub c(3) c(1)]) (auto simp: m1_def)
    have fields: "listSize m1 = listSize m" "changeSize m1" "hsize m1 = hsize m - 1"
      using ch by (auto simp: m1_def)
    have rem: "defaultRemove (Suc d) hc eq m k
       = (if hsize m1 < listSize m1 div 2
          then bindR (resetHashMap (defaultPut (Suc d) hc eq) m1 (listSize m1 div 2)) (\<lambda>m''. Inr (Some (fst e), m''))
          else Inr (Some (fst e), m1))"
      using bk Some fields e
      by (simp add: defaultRemove_def Let_def i_def [symmetric] b_def [symmetric] m1_def [symmetric])
    show ?thesis
    proof (cases "hsize m1 < listSize m1 div 2")
      case True
      have "0 < listSize m" "listSize m < 2 ^ 31" using ok by (auto simp: hm_ok_def)
      then have "listSize m1 div 2 < 2 ^ 31" using fields(1) by linarith
      from reset_correct [OF conjunct1 [OF m1] True this, of d] obtain m2 where m2:
        "resetHashMap (defaultPut (Suc d) hc eq) m1 (listSize m1 div 2) = Inr m2" "hm_ok hc rd m2"
        "hm_map rd m2 = hm_map rd m1" "changeSize m2 = changeSize m1"
        "if listSize m1 div 2 < 50 then m2 = m1 else listSize m2 = listSize m1 div 2 \<and> hsize m2 \<le> hsize m1"
        by auto
      with True rem m1 fields load show ?thesis
        by (auto simp: hm_wf_def split: if_splits)
    next
      case False
      with rem m1 fields load show ?thesis by (auto simp: hm_wf_def)
    qed
  qed
qed

end

section \<open>The functions createHashMap installs\<close>

text \<open>\<open>rd\<close> is the memory at the time of the call: the string a key pointer refers to.
  \<open>hashCode\<close> is \<open>defaultHashCode\<close> and \<open>equal\<close> is \<open>defaultEqual\<close>.\<close>

definition hashCode_of :: "('k \<Rightarrow> byte list) \<Rightarrow> int \<Rightarrow> 'k \<Rightarrow> int" where
  "hashCode_of rd n k = defaultHashCode n (rd k)"

definition defaultEqual :: "('k \<Rightarrow> byte list) \<Rightarrow> 'k \<Rightarrow> 'k \<Rightarrow> bool" where
  "defaultEqual rd a b \<longleftrightarrow> rd a = rd b"

interpretation sh: keyed_hash "hashCode_of rd" "defaultEqual rd" rd for rd :: "'k \<Rightarrow> byte list"
  by unfold_locales (use defaultHashCode_range in \<open>auto simp: hashCode_of_def defaultEqual_def\<close>)

abbreviation map_put :: "('k \<Rightarrow> byte list) \<Rightarrow> ('k, 'v) HashMap \<Rightarrow> 'k \<Rightarrow> 'v \<Rightarrow> ('k, 'v) HashMap res" where
  "map_put rd \<equiv> defaultPut 2 (hashCode_of rd) (defaultEqual rd)"

abbreviation map_remove :: "('k \<Rightarrow> byte list) \<Rightarrow> ('k, 'v) HashMap \<Rightarrow> 'k \<Rightarrow> ('k option \<times> ('k, 'v) HashMap) res" where
  "map_remove rd \<equiv> defaultRemove 2 (hashCode_of rd) (defaultEqual rd)"

abbreviation map_exists :: "('k \<Rightarrow> byte list) \<Rightarrow> ('k, 'v) HashMap \<Rightarrow> 'k \<Rightarrow> bool res" where
  "map_exists rd \<equiv> defaultExists (hashCode_of rd) (defaultEqual rd)"

abbreviation map_get :: "('k \<Rightarrow> byte list) \<Rightarrow> ('k, 'v) HashMap \<Rightarrow> 'k \<Rightarrow> 'v option res" where
  "map_get rd \<equiv> defaultGet (hashCode_of rd) (defaultEqual rd)"

abbreviation map_wf :: "('k \<Rightarrow> byte list) \<Rightarrow> ('k, 'v) HashMap \<Rightarrow> bool" where
  "map_wf rd \<equiv> hm_wf (hashCode_of rd) rd"

lemma createHashMap_wf:
  assumes "0 < n" and "n < 2 ^ 31"
  shows "\<exists>m. createHashMap n = Some m \<and> map_wf rd m \<and> hm_map rd m = Map.empty \<and> hsize m = 0"
  using assms by (auto simp: createHashMap_def Let_def hm_wf_def hm_ok_def buckets_wf_def hm_map_def)

section \<open>Properties\<close>

text \<open>C35: \<open>defaultPut\<close> returns, keeps the invariant and binds exactly the string its key
  points to, whether it overwrites, appends to a chain or doubles the table; re-inserting
  during a rehash never starts another one (two levels of nesting, or any larger number,
  give a result).\<close>

theorem defaultPut_refines_update:
  assumes "hm_wf (hashCode_of rd) rd m" and "hsize m < 2 ^ 30 - 1"
  shows "\<exists>m'. defaultPut (Suc (Suc d)) (hashCode_of rd) (defaultEqual rd) m k v = Inr m' \<and>
     hm_wf (hashCode_of rd) rd m' \<and> hm_map rd m' = (hm_map rd m)(rd k \<mapsto> v)"
  using sh.put_correct [OF assms] by blast

theorem defaultPut_refines_update_witness:
  "let rd = (\<lambda>k::nat. [of_nat k] :: byte list);
       m = \<lparr>hsize = 0, listSize = 2, changeSize = True, hash_list = [[], []]\<rparr>
   in \<exists>m'. defaultPut (Suc (Suc 0)) (hashCode_of rd) (defaultEqual rd) m 7 (1::nat) = Inr m' \<and>
        hm_wf (hashCode_of rd) rd m' \<and> hm_map rd m' = (hm_map rd m)(rd 7 \<mapsto> 1)"
  unfolding Let_def
  by (rule defaultPut_refines_update)
    (simp_all add: hm_wf_def hm_ok_def buckets_wf_def All_less_Suc)

text \<open>\<open>defaultRemove\<close> returns, keeps the invariant and unbinds exactly the string its
  key points to, shrinking included; on an absent key the map is unchanged.\<close>

lemma defaultRemove_refines_delete:
  assumes "hm_wf (hashCode_of rd) rd m"
  shows "\<exists>r m'. defaultRemove (Suc d) (hashCode_of rd) (defaultEqual rd) m k = Inr (r, m') \<and>
     hm_wf (hashCode_of rd) rd m' \<and> hm_map rd m' = (hm_map rd m)(rd k := None)"
  using sh.remove_correct [OF assms] by blast

lemma defaultRemove_refines_delete_witness:
  "let rd = (\<lambda>k::nat. [of_nat k] :: byte list);
       m = \<lparr>hsize = 1, listSize = 1, changeSize = True, hash_list = [[(7, 3::nat)]]\<rparr>
   in \<exists>r m'. defaultRemove (Suc 0) (hashCode_of rd) (defaultEqual rd) m 7 = Inr (r, m') \<and>
        hm_wf (hashCode_of rd) rd m' \<and> hm_map rd m' = (hm_map rd m)(rd 7 := None)"
  unfolding Let_def
  by (rule defaultRemove_refines_delete)
    (simp add: hm_wf_def hm_ok_def buckets_wf_def hashCode_of_def defaultHashCode_def Let_def)

text \<open>After \<open>defaultPut\<close> of a key, \<open>defaultGet\<close> through any pointer to the
  same string returns the value and \<open>defaultExists\<close> holds; pointers to other strings see
  what they saw before.\<close>

lemma put_then_get:
  assumes "hm_wf (hashCode_of rd) rd m" and "hsize m < 2 ^ 30 - 1"
    and "defaultPut 2 (hashCode_of rd) (defaultEqual rd) m k v = Inr m'"
  shows "defaultGet (hashCode_of rd) (defaultEqual rd) m' k'
         = (if rd k' = rd k then Inr (Some v)
            else defaultGet (hashCode_of rd) (defaultEqual rd) m k') \<and>
     defaultExists (hashCode_of rd) (defaultEqual rd) m' k'
         = (if rd k' = rd k then Inr True
            else defaultExists (hashCode_of rd) (defaultEqual rd) m k')"
  using sh.put_correct [OF assms(1,2), of 0 k v] assms
  by (auto simp: sh.get_correct sh.exists_correct numeral_2_eq_2)

lemma put_then_get_witness:
  "let rd = (\<lambda>k::nat. [of_nat (k mod 8)] :: byte list);
       m' = \<lparr>hsize = 1, listSize = 1, changeSize = True, hash_list = [[(7, 3::nat)]]\<rparr>
   in defaultGet (hashCode_of rd) (defaultEqual rd) m' 15 = Inr (Some 3)"
  unfolding Let_def
  using put_then_get [where rd = "\<lambda>k::nat. [of_nat (k mod 8)] :: byte list" and k = 7 and k' = 15
      and v = "3::nat" and m = "\<lparr>hsize = 0, listSize = 1, changeSize = True, hash_list = [[]]\<rparr>"
      and m' = "\<lparr>hsize = 1, listSize = 1, changeSize = True, hash_list = [[(7, 3)]]\<rparr>"]
  by (simp add: hm_wf_def hm_ok_def buckets_wf_def numeral_2_eq_2 defaultPut.simps bucket_ok_def
      put_entry_def hashCode_of_def defaultHashCode_def Let_def resetHashMap_def DEFAULT_MAP_SIZE_def)

section \<open>Keys are pointers\<close>

text \<open>The table only depends on what its own keys point to: a change of memory that leaves
  those strings alone keeps the invariant and the contents.\<close>

definition stored_keys :: "('k, 'v) HashMap \<Rightarrow> 'k set" where
  "stored_keys m = fst ` set (concat (hash_list m))"

lemma nth_bucket_stored: "i < length (hash_list m) \<Longrightarrow> e \<in> set (hash_list m ! i) \<Longrightarrow> fst e \<in> stored_keys m"
  unfolding stored_keys_def by (metis UN_I image_eqI nth_mem set_concat)

lemma hm_wf_memory_cong:
  assumes same: "\<And>k. k \<in> stored_keys m \<Longrightarrow> rd' k = rd k" and wf: "map_wf rd m"
  shows "map_wf rd' m \<and> hm_map rd' m = hm_map rd m"
proof
  have mp: "map (\<lambda>e. rd' (fst e)) (hash_list m ! i) = map (\<lambda>e. rd (fst e)) (hash_list m ! i)"
    if "i < length (hash_list m)" for i
    using nth_bucket_stored [OF that] same by (intro map_cong) auto
  have hc: "hashCode_of rd' n (fst e) = hashCode_of rd n (fst e)"
    if "i < length (hash_list m)" "e \<in> set (hash_list m ! i)" for i e n
    using same [OF nth_bucket_stored [OF that]] by (simp add: hashCode_of_def)
  have "buckets_wf (hashCode_of rd') rd' (listSize m) (hash_list m)
      = buckets_wf (hashCode_of rd) rd (listSize m) (hash_list m)"
    unfolding buckets_wf_def split_beta using hc by (simp add: mp del: map_eq_conv cong: conj_cong)
  then show "map_wf rd' m" using wf unfolding hm_wf_def hm_ok_def by blast
  have "rdb rd' (concat (hash_list m)) = rdb rd (concat (hash_list m))"
    unfolding rdb_def using same by (intro map_cong) (auto simp: stored_keys_def)
  then show "hm_map rd' m = hm_map rd m" by (simp add: hm_map_def)
qed

text \<open>An operation only stores the key it was given.\<close>

lemma stored_update:
  assumes "i < length (hash_list m)" and "fst ` set b \<subseteq> insert k (fst ` set (hash_list m ! i))"
  shows "stored_keys (m\<lparr>hsize := n, hash_list := (hash_list m)[i := b]\<rparr>) \<subseteq> insert k (stored_keys m)"
proof -
  have "set (concat ((hash_list m)[i := b])) \<subseteq> set b \<union> set (concat (hash_list m))"
    using set_update_subset_insert [of "hash_list m" i b] by auto
  then have "fst ` set (concat ((hash_list m)[i := b])) \<subseteq> fst ` (set b \<union> set (concat (hash_list m)))"
    by (rule image_mono)
  moreover have "fst ` set b \<subseteq> insert k (stored_keys m)"
    using assms(2) nth_bucket_stored [OF assms(1)] by auto
  ultimately have "fst ` set (concat ((hash_list m)[i := b])) \<subseteq> insert k (stored_keys m)"
    by (simp only: image_Un stored_keys_def [of m, symmetric]) (rule order.trans, assumption, simp add: subset_insertI)
  then show ?thesis by (simp add: stored_keys_def)
qed

lemma chain_set_keys: "chain_set eq k v b = Some b' \<Longrightarrow> map fst b' = map fst b"
  by (induction eq k v b arbitrary: b' rule: chain_set.induct) (auto split: if_splits)

lemma chain_del_keys: "chain_del eq k b = Some b' \<Longrightarrow> set b' \<subseteq> set b"
  by (induction eq k b arbitrary: b' rule: chain_del.induct) (auto split: if_splits)

lemma put_entry_stored:
  assumes "i < length (hash_list m)" and "put_entry eq m i k v = (r, m')"
  shows "stored_keys m' \<subseteq> insert k (stored_keys m) \<and> listSize m' = listSize m"
proof -
  obtain n b where "m' = m\<lparr>hsize := n, hash_list := (hash_list m)[i := b]\<rparr>"
    "fst ` set b \<subseteq> insert k (fst ` set (hash_list m ! i))"
  proof (cases "hash_list m ! i")
    case Nil
    with assms(2) that [where n = "hsize m + 1" and b = "[(k, v)]"] show ?thesis by (auto simp: put_entry_def)
  next
    case (Cons e es)
    show ?thesis
    proof (cases "chain_set eq k v (e # es)")
      case None
      with Cons assms(2) that [where n = "hsize m + 1" and b = "e # (k, v) # es"] show ?thesis
        by (auto simp: put_entry_def)
    next
      case (Some b)
      have "fst ` set b = fst ` set (hash_list m ! i)"
        using arg_cong [OF chain_set_keys [OF Some], of set] Cons by simp
      with Cons Some assms(2) that [where n = "hsize m" and b = b] show ?thesis
        by (auto simp: put_entry_def)
    qed
  qed
  with stored_update [OF assms(1)] show ?thesis by simp
qed

lemma put_list_stored:
  assumes "\<And>m k v m'. put m k v = Inr m' \<Longrightarrow> stored_keys m' \<subseteq> insert k (stored_keys m)"
  shows "put_list put es m = Inr m' \<Longrightarrow> stored_keys m' \<subseteq> fst ` set es \<union> stored_keys m"
proof (induction es arbitrary: m)
  case (Cons e es)
  obtain k v where e: "e = (k, v)" by (cases e)
  with Cons.prems obtain m1 where m1: "put m k v = Inr m1" "put_list put es m1 = Inr m'"
    by (auto simp: bindR_eq_Inr)
  show ?case using Cons.IH [OF m1(2)] assms [OF m1(1)] e by auto
qed simp

lemma reset_stored:
  assumes "\<And>m k v m'. put m k v = Inr m' \<Longrightarrow> stored_keys m' \<subseteq> insert k (stored_keys m)"
    and "resetHashMap put m n = Inr m'"
  shows "stored_keys m' \<subseteq> stored_keys m"
proof (cases "n < DEFAULT_MAP_SIZE")
  case False
  let ?m = "m\<lparr>hsize := 0, listSize := n, hash_list := replicate (nat n) []\<rparr>"
  have "put_list put (concat (hash_list m)) ?m = Inr m'"
    using assms(2) False by (simp add: resetHashMap_def Let_def guardR_eq_Inr)
  then have "stored_keys m' \<subseteq> fst ` set (concat (hash_list m)) \<union> stored_keys ?m"
    using put_list_stored [of put] assms(1) by blast
  then show ?thesis by (auto simp: stored_keys_def)
qed (use assms(2) in \<open>simp add: resetHashMap_def\<close>)

lemma put_stored: "defaultPut d hc eq m k v = Inr m' \<Longrightarrow> stored_keys m' \<subseteq> insert k (stored_keys m)"
proof (induction d arbitrary: m k v m')
  case (Suc d)
  let ?i = "hc (listSize m) k"
  obtain r m1 where pe: "put_entry eq m (nat ?i) k v = (r, m1)" by fastforce
  have ok: "bucket_ok m ?i"
    using Suc.prems by (auto simp: defaultPut.simps(2) Let_def guardR_eq_Inr)
  then have "nat ?i < length (hash_list m)" by (auto simp: bucket_ok_def)
  note st = put_entry_stored [OF this pe]
  have "m' = m1 \<or> resetHashMap (defaultPut d hc eq) m1 (listSize m1 * 2) = Inr m'"
    using Suc.prems ok pe by (auto simp: defaultPut.simps(2) Let_def guardR_eq_Inr split: if_splits)
  then show ?case
    using st reset_stored [of "defaultPut d hc eq" m1 "listSize m1 * 2" m'] Suc.IH by blast
qed simp

lemma remove_stored:
  assumes "defaultRemove d hc eq m k = Inr (r, m')"
  shows "stored_keys m' \<subseteq> stored_keys m"
proof -
  let ?i = "nat (hc (listSize m) k)"
  have ok: "bucket_ok m (hc (listSize m) k)"
    using assms by (auto simp: defaultRemove_def Let_def guardR_eq_Inr)
  then have il: "?i < length (hash_list m)" by (auto simp: bucket_ok_def)
  show ?thesis
  proof (cases "hash_list m ! ?i")
    case Nil
    with assms ok show ?thesis by (simp add: defaultRemove_def Let_def)
  next
    case (Cons e es)
    show ?thesis
    proof (cases "chain_del eq k (e # es)")
      case None
      with Cons assms ok show ?thesis by (simp add: defaultRemove_def Let_def)
    next
      case (Some b)
      let ?m = "m\<lparr>hsize := hsize m - 1, hash_list := (hash_list m)[?i := b]\<rparr>"
      have e: "fst e \<in> stored_keys m" using nth_bucket_stored [OF il] Cons by simp
      have "fst ` set b \<subseteq> insert (fst e) (fst ` set (hash_list m ! ?i))"
        using chain_del_keys [OF Some] Cons by auto
      then have "stored_keys ?m \<subseteq> stored_keys m"
        using stored_update [OF il, of b "fst e"] e by (auto simp: insert_absorb)
      moreover have "m' = ?m \<or> resetHashMap (defaultPut d hc eq) ?m (listSize ?m div 2) = Inr m'"
        using assms ok Cons Some
        by (auto simp: defaultRemove_def Let_def bindR_eq_Inr split: if_splits)
      ultimately show ?thesis
        using reset_stored [of "defaultPut d hc eq" ?m "listSize ?m div 2" m'] put_stored [of d hc eq]
        by fast
    qed
  qed
qed

lemma stored_bound: "k \<in> stored_keys m \<Longrightarrow> hm_map rd m (rd k) \<noteq> None"
  by (auto simp: stored_keys_def hm_map_def map_of_rdb_None image_image)

lemma hsize_card:
  assumes "map_wf rd m"
  shows "hsize m = int (card (dom (hm_map rd m)))"
proof -
  have ok: "hm_ok (hashCode_of rd) rd m" using assms by (simp add: hm_wf_def)
  have "dom (hm_map rd m) = set (map (\<lambda>e. rd (fst e)) (concat (hash_list m)))"
    by (auto simp: hm_map_def dom_map_of_conv_image_fst rdb_keys image_image)
  with distinct_card [OF sh.distinct_entries [OF ok]] ok show ?thesis
    by (simp add: hm_ok_def)
qed

end
