(* ===== verification/DirtyTable.thy ===== *)
theory DirtyTable
  imports HashTable "HOL-Library.Multiset"
begin

text \<open>
  The dirty table of \<open>src/log_buffer.c\<close>: how many logs in flight carry each key.
  \<open>mark_dirty\<close> is the critical section of \<open>read_log_key\<close>,
  \<open>unmark_dirty\<close> that of \<open>clean_log\<close>, \<open>judge_key_dirty\<close> the query the
  upper layer calls; each runs under \<open>dirty_lock\<close>, so it is one step. The value a
  \<open>void*\<close> carries is the count, at least one and far below \<open>2 ^ 64\<close>, hence a
  \<open>nat\<close>.

  The locale \<open>count_map\<close> states what these clients need of the map, and proves once
  that the table is the multiset of keys in flight. The hash map is its instance.
\<close>

definition mark_dirty :: "('k \<Rightarrow> byte list) \<Rightarrow> ('k, nat) HashMap \<Rightarrow> 'k \<Rightarrow> ('k, nat) HashMap res" where
  "mark_dirty rd m k =
     bindR (map_exists rd m k) (\<lambda>e.
       if \<not> e then map_put rd m k 1
       else bindR (map_get rd m k) (\<lambda>c. map_put rd m k (case c of None \<Rightarrow> 1 | Some n \<Rightarrow> n + 1)))"

text \<open>A key that is not in the table is the \<open>exit(0)\<close> branch.\<close>

definition unmark_dirty :: "('k \<Rightarrow> byte list) \<Rightarrow> ('k, nat) HashMap \<Rightarrow> 'k \<Rightarrow> ('k, nat) HashMap res" where
  "unmark_dirty rd m k =
     bindR (map_exists rd m k) (\<lambda>e.
       if e then bindR (map_get rd m k) (\<lambda>c.
              let count = (case c of None \<Rightarrow> 0 | Some n \<Rightarrow> n) - 1
              in if count = 0 then bindR (map_remove rd m k) (\<lambda>(r, m'). Inr m')
                 else map_put rd m k count)
       else Inl Exit)"

definition judge_key_dirty :: "('k \<Rightarrow> byte list) \<Rightarrow> ('k, nat) HashMap \<Rightarrow> 'k \<Rightarrow> bool res" where
  "judge_key_dirty rd m k = map_exists rd m k"

section \<open>The contract\<close>

locale count_map =
  fixes texists :: "'m \<Rightarrow> 'k \<Rightarrow> bool res"
    and tget :: "'m \<Rightarrow> 'k \<Rightarrow> nat option res"
    and tput :: "'m \<Rightarrow> 'k \<Rightarrow> nat \<Rightarrow> 'm res"
    and tremove :: "'m \<Rightarrow> 'k \<Rightarrow> ('r \<times> 'm) res"
    and ok :: "'m \<Rightarrow> bool"
    and room :: "'m \<Rightarrow> bool"
    and tmap :: "'m \<Rightarrow> 's \<Rightarrow> nat option"
    and str :: "'k \<Rightarrow> 's"
  assumes texists_map: "ok m \<Longrightarrow> texists m k = Inr (tmap m (str k) \<noteq> None)"
    and tget_map: "ok m \<Longrightarrow> tget m k = Inr (tmap m (str k))"
    and tput_map: "ok m \<Longrightarrow> room m \<Longrightarrow> \<exists>m'. tput m k c = Inr m' \<and> ok m' \<and> tmap m' = (tmap m)(str k \<mapsto> c)"
    and tremove_map: "ok m \<Longrightarrow> \<exists>r m'. tremove m k = Inr (r, m') \<and> ok m' \<and> tmap m' = (tmap m)(str k := None)"
begin

definition counts :: "'m \<Rightarrow> 's multiset \<Rightarrow> bool" where
  "counts m M \<longleftrightarrow> ok m \<and> (\<forall>s. tmap m s = (if s \<in># M then Some (count M s) else None))"

definition bump :: "'m \<Rightarrow> 'k \<Rightarrow> 'm res" where
  "bump m k =
     bindR (texists m k) (\<lambda>e.
       if \<not> e then tput m k 1
       else bindR (tget m k) (\<lambda>c. tput m k (case c of None \<Rightarrow> 1 | Some n \<Rightarrow> n + 1)))"

definition unbump :: "'m \<Rightarrow> 'k \<Rightarrow> 'm res" where
  "unbump m k =
     bindR (texists m k) (\<lambda>e.
       if e then bindR (tget m k) (\<lambda>c.
              let count = (case c of None \<Rightarrow> 0 | Some n \<Rightarrow> n) - 1
              in if count = 0 then bindR (tremove m k) (\<lambda>(r, m'). Inr m')
                 else tput m k count)
       else Inl Exit)"

lemma bump_counts:
  assumes "counts m M" and "room m"
  shows "\<exists>m'. bump m k = Inr m' \<and> counts m' (add_mset (str k) M)"
proof -
  have ok: "ok m" and t: "\<And>s. tmap m s = (if s \<in># M then Some (count M s) else None)"
    using assms(1) by (auto simp: counts_def)
  obtain m' where "tput m k (count M (str k) + 1) = Inr m'" "ok m'"
    "tmap m' = (tmap m)(str k \<mapsto> count M (str k) + 1)"
    using tput_map [OF ok assms(2)] by blast
  then show ?thesis
    using ok t
    by (cases "str k \<in># M") (auto simp: bump_def texists_map tget_map counts_def not_in_iff)
qed

lemma unbump_counts:
  assumes "counts m M" and "room m" and "str k \<in># M"
  shows "\<exists>m'. unbump m k = Inr m' \<and> counts m' (M - {#str k#})"
proof -
  have ok: "ok m" and t: "\<And>s. tmap m s = (if s \<in># M then Some (count M s) else None)"
    using assms(1) by (auto simp: counts_def)
  show ?thesis
  proof (cases "count M (str k) - 1 = 0")
    case True
    obtain r m' where m': "tremove m k = Inr (r, m')" "ok m'" "tmap m' = (tmap m)(str k := None)"
      using tremove_map [OF ok] by blast
    have "str k \<notin># M - {#str k#}" using True by (simp add: not_in_iff)
    with True m' ok t assms(3) show ?thesis
      by (auto simp: unbump_def texists_map tget_map counts_def in_diff_count)
  next
    case False
    obtain m' where m': "tput m k (count M (str k) - 1) = Inr m'" "ok m'"
      "tmap m' = (tmap m)(str k \<mapsto> count M (str k) - 1)"
      using tput_map [OF ok assms(2)] by blast
    with False ok t assms(3) show ?thesis
      by (auto simp: unbump_def texists_map tget_map counts_def in_diff_count)
  qed
qed

lemma unbump_absent: "counts m M \<Longrightarrow> str k \<notin># M \<Longrightarrow> unbump m k = Inl Exit"
  by (simp add: counts_def unbump_def texists_map)

end

section \<open>The hash map meets it\<close>

abbreviation map_room :: "('k, 'v) HashMap \<Rightarrow> bool" where
  "map_room m \<equiv> hsize m < 2 ^ 30 - 1"

interpretation dt: count_map "map_exists rd" "map_get rd" "map_put rd" "map_remove rd"
  "map_wf rd" map_room "hm_map rd" rd for rd :: "'k \<Rightarrow> byte list"
proof unfold_locales
  fix m :: "('k, nat) HashMap" and k c
  assume wf: "map_wf rd m"
  show "map_exists rd m k = Inr (hm_map rd m (rd k) \<noteq> None)" by (rule sh.exists_correct [OF wf])
  show "map_get rd m k = Inr (hm_map rd m (rd k))" by (rule sh.get_correct [OF wf])
  show "map_room m \<Longrightarrow> \<exists>m'. map_put rd m k c = Inr m' \<and> map_wf rd m' \<and> hm_map rd m' = (hm_map rd m)(rd k \<mapsto> c)"
    using sh.put_correct [OF wf, of 0 k c] by (auto simp: numeral_2_eq_2)
  show "\<exists>r m'. map_remove rd m k = Inr (r, m') \<and> map_wf rd m' \<and> hm_map rd m' = (hm_map rd m)(rd k := None)"
    using sh.remove_correct [OF wf, of 1 k] by (auto simp: numeral_2_eq_2)
qed

lemma mark_dirty_bump: "mark_dirty rd = dt.bump rd"
  by (intro ext) (simp add: mark_dirty_def dt.bump_def)

lemma unmark_dirty_unbump: "unmark_dirty rd = dt.unbump rd"
  by (intro ext) (simp add: unmark_dirty_def dt.unbump_def)

text \<open>The table holds exactly the keys of \<open>M\<close>, with multiplicity.\<close>

definition dirty_counts :: "('k \<Rightarrow> byte list) \<Rightarrow> ('k, nat) HashMap \<Rightarrow> byte list multiset \<Rightarrow> bool" where
  "dirty_counts rd m M \<longleftrightarrow> map_wf rd m \<and>
     (\<forall>s. hm_map rd m s = (if s \<in># M then Some (count M s) else None))"

lemma dirty_counts_dt: "dirty_counts rd m M \<longleftrightarrow> dt.counts rd m M"
  by (simp add: dirty_counts_def dt.counts_def)

lemma dirty_counts_create:
  fixes m :: "('k, nat) HashMap"
  assumes "createHashMap 1024 = Some m"
  shows "dirty_counts rd m {#} \<and> map_room m"
proof -
  obtain m' :: "('k, nat) HashMap"
    where "createHashMap 1024 = Some m'" "map_wf rd m'" "hm_map rd m' = Map.empty" "hsize m' = 0"
    using createHashMap_wf [of 1024 rd] by auto
  with assms show ?thesis by (simp add: dirty_counts_def)
qed

lemma mark_dirty_counts:
  "dirty_counts rd m M \<Longrightarrow> map_room m \<Longrightarrow>
     \<exists>m'. mark_dirty rd m k = Inr m' \<and> dirty_counts rd m' (add_mset (rd k) M)"
  unfolding dirty_counts_dt mark_dirty_bump by (rule dt.bump_counts)

lemma unmark_dirty_counts:
  "dirty_counts rd m M \<Longrightarrow> map_room m \<Longrightarrow> rd k \<in># M \<Longrightarrow>
     \<exists>m'. unmark_dirty rd m k = Inr m' \<and> dirty_counts rd m' (M - {#rd k#})"
  unfolding dirty_counts_dt unmark_dirty_unbump by (rule dt.unbump_counts)

lemma unmark_dirty_absent: "dirty_counts rd m M \<Longrightarrow> rd k \<notin># M \<Longrightarrow> unmark_dirty rd m k = Inl Exit"
  unfolding dirty_counts_dt unmark_dirty_unbump by (rule dt.unbump_absent)

lemma mark_dirty_stored: "mark_dirty rd m k = Inr m' \<Longrightarrow> stored_keys m' \<subseteq> insert k (stored_keys m)"
  unfolding mark_dirty_def
  by (auto simp: bindR_eq_Inr split: if_splits option.splits dest!: put_stored)

text \<open>What stays stored after the last occurrence of a key is taken away.\<close>

lemma unmark_dirty_stored:
  assumes "unmark_dirty rd m k = Inr m'" and "dirty_counts rd m M" and "map_room m"
    and "count M (rd k) = 1"
  shows "stored_keys m' \<subseteq> {k' \<in> stored_keys m. rd k' \<noteq> rd k}"
proof -
  have in_M: "rd k \<in># M" using assms(4) by (metis count_eq_zero_iff zero_neq_one)
  have c: "dirty_counts rd m' (M - {#rd k#})"
    using unmark_dirty_counts [OF assms(2,3) in_M] assms(1) by auto
  have "rd k \<notin># M - {#rd k#}" using assms(4) by (simp add: not_in_iff)
  with c have "hm_map rd m' (rd k) = None" by (simp add: dirty_counts_def)
  then have no: "k' \<in> stored_keys m' \<Longrightarrow> rd k' \<noteq> rd k" for k'
    using stored_bound [of k' m' rd] by auto
  have "\<exists>r. map_remove rd m k = Inr (r, m')"
    using assms in_M
    by (auto simp: unmark_dirty_def dirty_counts_def sh.exists_correct sh.get_correct bindR_eq_Inr)
  then obtain r where "map_remove rd m k = Inr (r, m')" ..
  from remove_stored [OF this] no show ?thesis by auto
qed

lemma dirty_counts_cong:
  assumes "dirty_counts rd m M" and "\<And>k. k \<in> stored_keys m \<Longrightarrow> rd' k = rd k"
  shows "dirty_counts rd' m M"
  using assms(1) hm_wf_memory_cong [of m rd' rd, OF assms(2)] by (auto simp: dirty_counts_def)

lemma dirty_counts_hsize:
  assumes "dirty_counts rd m M"
  shows "hsize m \<le> int (size M)"
proof -
  have "dom (hm_map rd m) = set_mset M" using assms by (auto simp: dirty_counts_def split: if_splits)
  moreover have "card (set_mset M) \<le> size M"
    using size_mset_mono [OF mset_set_set_mset_msubset [of M]] by simp
  ultimately show ?thesis using hsize_card [of rd m] assms by (simp add: dirty_counts_def)
qed

section \<open>Properties\<close>

text \<open>C36: The dirty table is the multiset of keys in flight. Marking a key adds one
  occurrence, unmarking a key in flight takes one away and reaches \<open>exit(0)\<close> otherwise,
  and \<open>judge_key_dirty\<close> answers membership.\<close>

theorem dirty_table_is_multiset:
  assumes "dirty_counts rd m M" and "hsize m < 2 ^ 30 - 1"
  shows "(\<exists>m'. mark_dirty rd m k = Inr m' \<and> dirty_counts rd m' (add_mset (rd k) M)) \<and>
     (if rd k \<in># M then \<exists>m'. unmark_dirty rd m k = Inr m' \<and> dirty_counts rd m' (M - {#rd k#})
      else unmark_dirty rd m k = Inl Exit) \<and>
     judge_key_dirty rd m k = Inr (rd k \<in># M)"
  using mark_dirty_counts [OF assms] unmark_dirty_counts [OF assms] unmark_dirty_absent [OF assms(1)]
    assms(1)
  by (auto simp: judge_key_dirty_def dirty_counts_def sh.exists_correct)

theorem dirty_table_is_multiset_witness:
  "let rd = (\<lambda>k::nat. [of_nat k] :: byte list);
       m = \<lparr>hsize = 1, listSize = 1, changeSize = True, hash_list = [[(7, 2)]]\<rparr>
   in (\<exists>m'. unmark_dirty rd m 7 = Inr m' \<and> dirty_counts rd m' {#rd 7#}) \<and>
      judge_key_dirty rd m 7 = Inr True"
  unfolding Let_def
  using dirty_table_is_multiset [where rd = "\<lambda>k::nat. [of_nat k] :: byte list" and k = 7
      and M = "{#[7], [7]#}"
      and m = "\<lparr>hsize = 1, listSize = 1, changeSize = True, hash_list = [[(7, 2)]]\<rparr>"]
  by (simp add: dirty_counts_def hm_map_def hm_wf_def hm_ok_def buckets_wf_def hashCode_of_def
      defaultHashCode_def Let_def)

end
