(* ===== verification/RingBuffer.thy ===== *)
theory RingBuffer
  imports Prelude
begin

text \<open>
  The circular log buffer: the inline functions of \<open>include/log_copy.h\<close> and the
  reading and writing primitives of \<open>src/log_buffer.c\<close>.

  \<open>LocalRingbuff\<close> and \<open>RemoteRingbuff\<close> extend the record \<open>Ringbuff\<close>, which is what
  the cast \<open>(Ringbuff *)\<close> of the code relies on. \<open>buff_addr\<close> holds the bytes the pointer
  refers to, an address inside the buffer is its offset. A node that writes keeps a
  \<open>RemoteRingbuff\<close>; what it writes arrives in the \<open>LocalRingbuff\<close> of the next node,
  the \<open>peer\<close> of the operations. Their effect on the peer is the list of one-sided
  operations they post, in order: \<open>BuffWrite\<close> is \<open>dhmp_write(remote_buff->buff, ...)\<close>
  and \<open>WrWrite\<close> is \<open>update_wr_remote\<close>, four bytes at offset 0 of the peer's struct. A
  transport that is not connected drops each of them, and refuses the read of the remote
  \<open>rd_pointer\<close>. An access outside the registered region completes with an error,
  on which \<open>dhmp_rdma_write\<close> waits forever, hence \<open>Spin\<close>.

  The reference definitions \<open>ring_at\<close> and \<open>ring_put\<close> read and write a byte string at a
  position modulo the size; the lemmas show which of the two-part copies of the code
  compute them.
\<close>

section \<open>Model\<close>

record Ringbuff =
  wr_pointer :: int
  rd_pointer :: int
  rsize :: int

record LocalRingbuff = Ringbuff +
  buff_addr :: "byte list"
  rd_key_pointer :: int

record RemoteRingbuff = Ringbuff +
  node_id :: int

definition TOTAL_SIZE :: int where
  "TOTAL_SIZE = 64"

text \<open>\<open>sizeof(logMateData)\<close> and \<open>sizeof(logEntry)\<close> for 32-bit \<open>int\<close> and 64-bit
  pointers.\<close>

definition sizeof_logMateData :: int where
  "sizeof_logMateData = 8"

definition sizeof_logEntry :: int where
  "sizeof_logEntry = 32"

definition rb_data_size :: "'a Ringbuff_scheme \<Rightarrow> int" where
  "rb_data_size rb = (wr_pointer rb - rd_pointer rb) AND (rsize rb - 1)"

definition rb_free_size :: "'a Ringbuff_scheme \<Rightarrow> int" where
  "rb_free_size rb = rsize rb - 1 - rb_data_size rb"

definition rb_count_size :: "'a Ringbuff_scheme \<Rightarrow> int \<Rightarrow> int" where
  "rb_count_size rb pos = (wr_pointer rb - pos) AND (rsize rb - 1)"

definition update_wr_local :: "int \<Rightarrow> RemoteRingbuff \<Rightarrow> RemoteRingbuff" where
  "update_wr_local new_ptr rb = rb\<lparr>wr_pointer := new_ptr\<rparr>"

definition test_done :: "byte \<Rightarrow> bool" where
  "test_done c \<longleftrightarrow> c XOR 1 = 0"

subsection \<open>The writing side\<close>

datatype rop = BuffWrite int "byte list" | WrWrite int

definition update_wr_remote :: "RemoteRingbuff \<Rightarrow> rop" where
  "update_wr_remote rb = WrWrite (wr_pointer rb)"

text \<open>The write of \<open>wr_pointer\<close> is the whole word; a buffer write must lie inside the
  registered region.\<close>

fun rop_apply :: "rop \<Rightarrow> LocalRingbuff \<Rightarrow> LocalRingbuff res" where
  "rop_apply (BuffWrite off bs) peer =
     guardR (0 \<le> off \<and> off + int (length bs) \<le> int (length (buff_addr peer))) Spin
       (Inr (peer\<lparr>buff_addr := blit (nat off) bs (buff_addr peer)\<rparr>))"
| "rop_apply (WrWrite p) peer = Inr (peer\<lparr>wr_pointer := p\<rparr>)"

fun run_rops :: "rop list \<Rightarrow> LocalRingbuff \<Rightarrow> LocalRingbuff res" where
  "run_rops [] peer = Inr peer"
| "run_rops (r # rs) peer = bindR (rop_apply r peer) (run_rops rs)"

definition check_remote_size ::
    "bool \<Rightarrow> LocalRingbuff \<Rightarrow> RemoteRingbuff \<Rightarrow> int \<Rightarrow> bool \<times> RemoteRingbuff" where
  "check_remote_size connected peer rb waitWriteLen =
     (if \<not> connected then (False, rb)
      else let rb' = rb\<lparr>rd_pointer := rd_pointer peer\<rparr>
           in (\<not> waitWriteLen > rb_free_size rb', rb'))"

text \<open>\<open>upper_api_buf\<close> holds the bytes from the pointer on. The lengths and \<open>totalLen\<close> are of type \<open>int\<close>: a sum that
  leaves it is undefined. The sums behind the check do not leave it when the lengths are not negative: a log that was
  admitted is shorter than the ring, the size of which is an \<open>int\<close> and a power of two.\<close>

definition rb_write_mate ::
    "bool \<Rightarrow> LocalRingbuff \<Rightarrow> RemoteRingbuff \<Rightarrow> byte list \<Rightarrow> int \<Rightarrow> int \<Rightarrow> (int \<times> RemoteRingbuff \<times> rop list) res" where
  "rb_write_mate connected peer rb upper_api_buf mateLen dataLen =
     guardR (in_int (mateLen + dataLen)) UB
     (let totalLen = mateLen + dataLen;
          log_pos = wr_pointer rb;
          (room, rb1) = check_remote_size connected peer rb totalLen
      in if \<not> room then Inr (- 1, rb1, [])
         else
           let pos = wr_pointer rb1;
               (ops1, buf, mateLen, pos) =
                 (if pos + mateLen > rsize rb1
                  then let left_size = rsize rb1 - pos
                       in ([BuffWrite pos (take (nat left_size) upper_api_buf)],
                           drop (nat left_size) upper_api_buf, mateLen - left_size, 0)
                  else ([], upper_api_buf, mateLen, pos));
               ops2 = [BuffWrite pos (take (nat mateLen) buf)];
               rb2 = update_wr_local (pos + mateLen) rb1;
               pos = wr_pointer rb2;
               (dataLen, pos) =
                 (if pos + dataLen > rsize rb2
                  then let left_size = rsize rb2 - pos in (dataLen - left_size, 0)
                  else (dataLen, pos));
               rb3 = update_wr_local (pos + dataLen) rb2
           in Inr (log_pos, rb3, ops1 @ ops2 @ [update_wr_remote rb3]))"

definition rb_write_data :: "RemoteRingbuff \<Rightarrow> byte list \<Rightarrow> int \<Rightarrow> int \<Rightarrow> rop list" where
  "rb_write_data rb upper_api_buf log_pos dataLen =
     (let pos = log_pos
      in if pos + dataLen > rsize rb
         then let left_size = rsize rb - pos
              in [BuffWrite pos (take (nat left_size) upper_api_buf),
                  BuffWrite 0 (take (nat (dataLen - left_size)) (drop (nat left_size) upper_api_buf))]
         else [BuffWrite pos (take (nat dataLen) upper_api_buf)])"

definition rb_write ::
    "bool \<Rightarrow> LocalRingbuff \<Rightarrow> RemoteRingbuff \<Rightarrow> byte list \<Rightarrow> int \<Rightarrow> bool \<times> RemoteRingbuff \<times> rop list" where
  "rb_write connected peer rb upper_api_buf ln =
     (let (room, rb1) = check_remote_size connected peer rb ln
      in if \<not> room then (False, rb1, [])
         else
           let pos = wr_pointer rb1;
               (ops1, buf, ln, pos) =
                 (if pos + ln > rsize rb1
                  then let left_size = rsize rb1 - pos
                       in ([BuffWrite 0 (take (nat left_size) upper_api_buf)],
                           drop (nat left_size) upper_api_buf, ln - left_size, 0)
                  else ([], upper_api_buf, ln, pos));
               rb2 = update_wr_local (pos + ln) rb1
           in (True, rb2, ops1 @ [BuffWrite pos (take (nat ln) buf), update_wr_remote rb2]))"

subsection \<open>The reading side\<close>

definition in_buff :: "LocalRingbuff \<Rightarrow> int \<Rightarrow> int \<Rightarrow> bool" where
  "in_buff lb pos n \<longleftrightarrow> 0 \<le> pos \<and> 0 \<le> n \<and> pos + n \<le> int (length (buff_addr lb))"

text \<open>One \<open>memcpy\<close> out of the buffer and, unless \<open>isCopy\<close>, the \<open>memset\<close> after it.\<close>

definition read_part :: "bool \<Rightarrow> bool \<Rightarrow> int \<Rightarrow> int \<Rightarrow> LocalRingbuff \<Rightarrow> (byte list \<times> LocalRingbuff) res" where
  "read_part has_buf isCopy pos n lb =
     (if \<not> has_buf then Inr ([], lb)
      else guardR (in_buff lb pos n) UB
        (Inr (bslice (buff_addr lb) (nat pos) (nat n),
              if isCopy then lb
              else lb\<lparr>buff_addr := blit (nat pos) (replicate (nat n) 0) (buff_addr lb)\<rparr>)))"

text \<open>\<open>None\<close> is the result \<open>false\<close>, \<open>Some bs\<close> the result \<open>true\<close> with \<open>bs\<close> in
  \<open>buf\<close>; \<open>has_buf\<close> tells whether \<open>buf\<close> is not \<open>NULL\<close>.\<close>

definition rb_read ::
    "LocalRingbuff \<Rightarrow> bool \<Rightarrow> int \<Rightarrow> int \<Rightarrow> bool \<Rightarrow> (byte list option \<times> LocalRingbuff) res" where
  "rb_read lb has_buf start ln isCopy =
     (if ln > rb_data_size lb then Inr (None, lb)
      else
        let buff_size = rsize lb;
            pos = (if start = - 1 then rd_pointer lb else start);
            left_size = buff_size - pos;
            cut = pos + ln > buff_size
        in bindR (if cut then read_part has_buf isCopy pos left_size lb else Inr ([], lb)) (\<lambda>(b1, lb1).
             let pos' = (if cut then 0 else pos);
                 ln' = (if cut then ln - left_size else ln)
             in bindR (read_part has_buf isCopy pos' ln' lb1) (\<lambda>(b2, lb2).
                  Inr (Some (b1 @ b2), if isCopy then lb2 else lb2\<lparr>rd_pointer := pos' + ln'\<rparr>))))"

definition memcpy_buffer :: "LocalRingbuff \<Rightarrow> int \<Rightarrow> int \<Rightarrow> byte list res" where
  "memcpy_buffer lb src ln =
     (let pos = src; buff_size = rsize lb
      in if rb_count_size lb pos < ln then Inl Exit
         else if pos + ln > buff_size
         then let left_size = buff_size - pos
              in guardR (in_buff lb 0 left_size \<and> in_buff lb 0 (ln - left_size)) UB
                   (Inr (bslice (buff_addr lb) 0 (nat left_size) @
                         bslice (buff_addr lb) 0 (nat (ln - left_size))))
         else guardR (in_buff lb pos ln) UB (Inr (bslice (buff_addr lb) (nat pos) (nat ln))))"

definition get_char :: "LocalRingbuff \<Rightarrow> int \<Rightarrow> byte res" where
  "get_char lb pos = guardR (in_buff lb pos 1) UB (Inr (buff_addr lb ! nat pos))"

definition next_byte :: "LocalRingbuff \<Rightarrow> int \<Rightarrow> int" where
  "next_byte lb pos = (pos + 1) AND (rsize lb - 1)"

definition next_char :: "LocalRingbuff \<Rightarrow> int \<Rightarrow> byte res" where
  "next_char lb pos =
     (let next_pos = (pos + 1) AND (rsize lb - 1)
      in guardR (in_buff lb next_pos 1) UB (Inr (buff_addr lb ! nat next_pos)))"

definition index_char :: "LocalRingbuff \<Rightarrow> int \<Rightarrow> int \<Rightarrow> byte res" where
  "index_char lb pos offset =
     (if rb_count_size lb pos < offset then Inl Exit
      else let pos = (pos + offset) AND (rsize lb - 1)
           in guardR (in_buff lb pos 1) UB (Inr (buff_addr lb ! nat pos)))"

text \<open>\<open>KEY_LEN\<close> and \<open>VALUE_LEN\<close> of the eight bytes of a \<open>logMateData\<close>.\<close>

definition mate_key_len :: "byte list \<Rightarrow> int" where
  "mate_key_len bs = bytes_int (bslice bs 0 4)"

definition mate_value_len :: "byte list \<Rightarrow> int" where
  "mate_value_len bs = bytes_int (bslice bs 4 4)"

definition read_one_log :: "LocalRingbuff \<Rightarrow> bool \<Rightarrow> (byte list option \<times> LocalRingbuff) res" where
  "read_one_log lb upperAddr =
     (if \<not> upperAddr then Inr (None, lb)
      else if rb_data_size lb < sizeof_logMateData then Inr (None, lb)
      else bindR (rb_read lb True (- 1) sizeof_logMateData True) (\<lambda>(m, lb1).
        let log = (case m of None \<Rightarrow> replicate 8 0 | Some bs \<Rightarrow> bs);
            offset = sizeof_logEntry + mate_key_len log + mate_value_len log - 1
        in bindR (get_char lb1 (rd_pointer lb1 + offset)) (\<lambda>c.
             if test_done c
             then bindR (rb_read lb1 False (- 1) (sizeof_logEntry + mate_key_len log) False) (\<lambda>(r, lb2).
                    bindR (rb_read lb2 True (- 1) (mate_value_len log) False) (\<lambda>(v, lb3).
                      Inr (Some (case v of None \<Rightarrow> [] | Some bs \<Rightarrow> bs), lb3)))
             else Inr (None, lb1))))"

section \<open>Reference definitions and the invariant\<close>

definition ring_at :: "'a list \<Rightarrow> int \<Rightarrow> nat \<Rightarrow> 'a list" where
  "ring_at buff pos n = map (\<lambda>i. buff ! nat ((pos + int i) mod int (length buff))) [0..<n]"

definition ring_put :: "'a list \<Rightarrow> int \<Rightarrow> 'a list \<Rightarrow> 'a list" where
  "ring_put buff pos bs =
     map (\<lambda>j. let k = nat ((int j - pos) mod int (length buff))
              in if k < length bs then bs ! k else buff ! j) [0..<length buff]"

definition ring_wf :: "'a Ringbuff_scheme \<Rightarrow> bool" where
  "ring_wf rb \<longleftrightarrow> (\<exists>k. rsize rb = 2 ^ k) \<and> 0 \<le> wr_pointer rb \<and> wr_pointer rb \<le> rsize rb \<and>
     0 \<le> rd_pointer rb \<and> rd_pointer rb \<le> rsize rb"

definition local_wf :: "LocalRingbuff \<Rightarrow> bool" where
  "local_wf lb \<longleftrightarrow> ring_wf lb \<and> int (length (buff_addr lb)) = rsize lb"

text \<open>What the reader may look at: the bytes from \<open>rd_pointer\<close> to \<open>wr_pointer\<close>.\<close>

definition unread :: "LocalRingbuff \<Rightarrow> byte list" where
  "unread lb = ring_at (buff_addr lb) (rd_pointer lb) (nat (rb_data_size lb))"

section \<open>Rings\<close>

lemma ring_index:
  "j < length buff \<Longrightarrow> 0 \<le> x mod int (length buff) \<and> x mod int (length buff) < int (length buff) \<and>
     nat (x mod int (length buff)) < length buff"
  by (cases "length buff") (auto simp: nat_less_iff)

lemma length_ring_at [simp]: "length (ring_at buff pos n) = n"
  by (simp add: ring_at_def)

lemma nth_ring_at: "i < n \<Longrightarrow> ring_at buff pos n ! i = buff ! nat ((pos + int i) mod int (length buff))"
  by (simp add: ring_at_def)

lemma length_ring_put [simp]: "length (ring_put buff pos bs) = length buff"
  by (simp add: ring_put_def)

lemma nth_ring_put:
  "j < length buff \<Longrightarrow> ring_put buff pos bs ! j
     = (let k = nat ((int j - pos) mod int (length buff)) in if k < length bs then bs ! k else buff ! j)"
  by (simp add: ring_put_def Let_def)

lemma ring_at_add: "ring_at buff pos (a + b) = ring_at buff pos a @ ring_at buff (pos + int a) b"
  by (intro nth_equalityI) (auto simp: nth_ring_at nth_append algebra_simps)

lemma ring_at_mod: "ring_at buff (pos mod int (length buff)) n = ring_at buff pos n"
  by (simp add: ring_at_def mod_add_left_eq)

lemma ring_at_flat:
  "0 \<le> pos \<Longrightarrow> nat pos + n \<le> length buff \<Longrightarrow> ring_at buff pos n = bslice buff (nat pos) n"
  by (intro nth_equalityI) (auto simp: nth_ring_at nth_bslice nat_add_distrib)

lemma ring_at_cut:
  assumes "0 \<le> pos" "nat pos + a = length buff" "b \<le> length buff"
  shows "ring_at buff pos (a + b) = bslice buff (nat pos) a @ bslice buff 0 b"
proof -
  have "pos + int a = int (length buff)" using assms by linarith
  then have "ring_at buff (pos + int a) b = ring_at buff 0 b"
    using ring_at_mod [of buff "int (length buff)" b] by simp
  with assms show ?thesis by (simp add: ring_at_add ring_at_flat)
qed

lemma ring_put_flat:
  assumes "0 \<le> pos" "nat pos + length bs \<le> length buff"
  shows "ring_put buff pos bs = blit (nat pos) bs buff"
proof (intro nth_equalityI)
  fix j assume "j < length (ring_put buff pos bs)"
  then have j: "j < length buff" by simp
  have "(int j - pos) mod int (length buff)
      = (if pos \<le> int j then int j - pos else int j - pos + int (length buff))"
    if "bs \<noteq> []"
  proof -
    have "pos < int (length buff)" using assms that by (cases bs) auto
    with assms(1) j show ?thesis by (intro mod_diff_wrap) auto
  qed
  moreover have "pos \<le> int (length buff) - int (length bs)" using assms by linarith
  ultimately show "ring_put buff pos bs ! j = blit (nat pos) bs buff ! j"
    using assms j
    by (cases "bs = []") (auto simp: nth_ring_put nth_blit Let_def nat_diff_distrib nat_less_iff)
qed (use assms in simp)

lemma ring_put_Nil [simp]: "ring_put buff pos [] = buff"
  by (simp add: ring_put_def map_nth)

lemma ring_put_append:
  assumes "length xs + length ys \<le> length buff"
  shows "ring_put buff pos (xs @ ys) = ring_put (ring_put buff pos xs) (pos + int (length xs)) ys"
proof (cases "ys = []")
  case False
  then have xs: "length xs < length buff" using assms by (cases ys) auto
  show ?thesis
  proof (intro nth_equalityI)
    fix j assume "j < length (ring_put buff pos (xs @ ys))"
    then have j: "j < length buff" by simp
    let ?N = "int (length buff)"
    define k where "k = (int j - pos) mod ?N"
    have k: "0 \<le> k" "k < ?N" using ring_index [OF j] by (auto simp: k_def)
    have "(int j - (pos + int (length xs))) mod ?N = (k - int (length xs)) mod ?N"
      by (simp add: k_def mod_diff_left_eq algebra_simps)
    also have "\<dots> = (if int (length xs) \<le> k then k - int (length xs) else k - int (length xs) + ?N)"
      using k xs by (intro mod_diff_wrap) auto
    finally show "ring_put buff pos (xs @ ys) ! j
        = ring_put (ring_put buff pos xs) (pos + int (length xs)) ys ! j"
      using j k assms
      by (auto simp: nth_ring_put Let_def nth_append k_def [symmetric] nat_diff_distrib)
  qed simp
qed simp

lemma ring_put_mod: "ring_put buff (pos mod int (length buff)) bs = ring_put buff pos bs"
  by (simp add: ring_put_def mod_diff_right_eq)

lemma ring_put_cut:
  assumes "0 \<le> pos" "nat pos + length xs = length buff" "length xs + length ys \<le> length buff"
  shows "ring_put buff pos (xs @ ys) = blit 0 ys (blit (nat pos) xs buff)"
proof -
  have "pos + int (length xs) = int (length buff)" using assms by linarith
  then have "ring_put b (pos + int (length xs)) ys = ring_put b 0 ys" if "length b = length buff" for b
    using ring_put_mod [of b "int (length buff)" ys] that by simp
  with assms show ?thesis by (simp add: ring_put_append ring_put_flat)
qed

lemma ring_at_put_same:
  assumes "length bs \<le> length buff"
  shows "ring_at (ring_put buff pos bs) pos (length bs) = bs"
proof (intro nth_equalityI)
  fix i assume "i < length (ring_at (ring_put buff pos bs) pos (length bs))"
  then have i: "i < length bs" by simp
  then have "((pos + int i) mod int (length buff) - pos) mod int (length buff) = int i"
    using assms by (simp add: mod_diff_left_eq)
  moreover have "0 \<le> (pos + int i) mod int (length buff)"
      "nat ((pos + int i) mod int (length buff)) < length buff"
    using ring_index [of i buff] assms i by simp_all
  ultimately show "ring_at (ring_put buff pos bs) pos (length bs) ! i = bs ! i"
    using i assms by (simp add: nth_ring_at nth_ring_put Let_def)
qed simp

lemma ring_at_put_other:
  assumes "int n \<le> (w - r) mod int (length buff)"
    and "(w - r) mod int (length buff) + int (length bs) \<le> int (length buff)"
  shows "ring_at (ring_put buff w bs) r n = ring_at buff r n"
proof (intro nth_equalityI)
  fix i assume "i < length (ring_at (ring_put buff w bs) r n)"
  then have i: "i < n" by simp
  let ?N = "int (length buff)"
  let ?d = "(w - r) mod ?N"
  have N: "0 < ?N" using assms i by (cases "buff = []") auto
  have d: "0 \<le> ?d" "?d < ?N" using N by auto
  have "((r + int i) mod ?N - w) mod ?N = (int i - ?d) mod ?N"
    by (simp add: mod_diff_left_eq mod_diff_right_eq algebra_simps)
  also have "\<dots> = (if ?d \<le> int i then int i - ?d else int i - ?d + ?N)"
    using d i assms(1) by (intro mod_diff_wrap) auto
  finally have k: "((r + int i) mod ?N - w) mod ?N = int i - ?d + ?N"
    using i assms(1) by simp
  have "nat ((r + int i) mod ?N) < length buff" using N by (simp add: nat_less_iff)
  moreover have "\<not> nat (int i - ?d + ?N) < length bs" using assms d by linarith
  moreover have "0 \<le> (r + int i) mod ?N" using N by simp
  ultimately show "ring_at (ring_put buff w bs) r n ! i = ring_at buff r n ! i"
    using k i by (simp add: nth_ring_at nth_ring_put Let_def)
qed simp


section \<open>Sizes\<close>

lemma ring_wf_pos: "ring_wf rb \<Longrightarrow> 0 < rsize rb"
  by (auto simp: ring_wf_def)

lemma ring_sizes:
  assumes "ring_wf rb"
  shows "rb_data_size rb = (wr_pointer rb - rd_pointer rb) mod rsize rb"
    and "rb_count_size rb pos = (wr_pointer rb - pos) mod rsize rb"
    and "x AND (rsize rb - 1) = x mod rsize rb"
  using assms by (auto simp: ring_wf_def rb_data_size_def rb_count_size_def and_mask_mod)

lemma data_size_range: "ring_wf rb \<Longrightarrow> 0 \<le> rb_data_size rb \<and> rb_data_size rb < rsize rb"
  using ring_wf_pos [of rb] by (simp add: ring_sizes)

definition wrap_ptr :: "int \<Rightarrow> int \<Rightarrow> int" where
  "wrap_ptr sz p = (if p > sz then p - sz else p)"

lemma wrap_ptr_range: "0 \<le> p \<Longrightarrow> p \<le> 2 * sz \<Longrightarrow> 0 \<le> wrap_ptr sz p \<and> wrap_ptr sz p \<le> sz"
  by (auto simp: wrap_ptr_def)

lemma wrap_ptr_mod [simp]: "(wrap_ptr sz p - q) mod sz = (p - q) mod sz"
  by (auto simp: wrap_ptr_def diff_right_commute)

lemma data_size_grow:
  assumes "(w - r) mod sz + n < (sz::int)" and "0 \<le> n" and "0 < sz"
  shows "(w + n - r) mod sz = (w - r) mod sz + n"
proof -
  have "(w + n - r) mod sz = ((w - r) mod sz + n) mod sz"
    using mod_add_left_eq [of "w - r" sz n] by (simp add: algebra_simps)
  with assms show ?thesis by (simp add: mod_pos_pos_trivial)
qed

lemma data_size_shrink:
  assumes "n \<le> (w - r) mod (sz::int)" and "0 \<le> n" and "0 < sz"
  shows "(w - (r + n)) mod sz = (w - r) mod sz - n"
proof -
  have "(w - (r + n)) mod sz = ((w - r) mod sz - n) mod sz"
    by (simp add: mod_diff_left_eq algebra_simps)
  moreover have "(w - r) mod sz < sz" using assms by simp
  ultimately show ?thesis using assms by (simp add: mod_pos_pos_trivial)
qed

section \<open>Reading\<close>

lemma local_wf_len: "local_wf lb \<Longrightarrow> length (buff_addr lb) = nat (rsize lb) \<and> 0 < rsize lb \<and> ring_wf lb"
  by (auto simp: local_wf_def dest: ring_wf_pos)

text \<open>Both parts of a read, and of a consuming read.\<close>

lemma two_part_read:
  assumes len: "int (length buff) = sz" and pos: "0 \<le> pos" "pos \<le> sz" and n: "0 \<le> n" "n \<le> sz"
  shows "ring_at buff pos (nat n)
    = (if pos + n > sz then bslice buff (nat pos) (nat (sz - pos)) @ bslice buff 0 (nat (n - (sz - pos)))
       else bslice buff (nat pos) (nat n))"
proof (cases "pos + n > sz")
  case True
  then have "nat n = nat (sz - pos) + nat (n - (sz - pos))" using pos by linarith
  moreover have "nat pos + nat (sz - pos) = length buff" using pos len by linarith
  ultimately show ?thesis
    using ring_at_cut [of pos "nat (sz - pos)" buff "nat (n - (sz - pos))"] True pos n len by simp
next
  case False
  then show ?thesis using ring_at_flat [of pos "nat n" buff] pos n len by simp
qed

lemma two_part_write:
  assumes len: "int (length buff) = sz" and pos: "0 \<le> pos" "pos \<le> sz"
    and n: "int (length bs) \<le> sz"
  shows "ring_put buff pos bs
    = (if pos + int (length bs) > sz
       then blit 0 (drop (nat (sz - pos)) bs) (blit (nat pos) (take (nat (sz - pos)) bs) buff)
       else blit (nat pos) bs buff)"
proof (cases "pos + int (length bs) > sz")
  case True
  then have "length (take (nat (sz - pos)) bs) = nat (sz - pos)" by simp
  moreover have "nat pos + nat (sz - pos) = length buff" using pos len by linarith
  ultimately have "ring_put buff pos (take (nat (sz - pos)) bs @ drop (nat (sz - pos)) bs)
      = blit 0 (drop (nat (sz - pos)) bs) (blit (nat pos) (take (nat (sz - pos)) bs) buff)"
    using pos n len True by (intro ring_put_cut) auto
  with True show ?thesis by simp
next
  case False
  then show ?thesis using ring_put_flat [of pos bs buff] pos n len by simp
qed

lemma rb_read_copy:
  assumes wf: "local_wf lb" and pos: "0 \<le> pos" "pos \<le> rsize lb"
    and n: "0 \<le> n" "n \<le> rb_data_size lb"
  shows "rb_read lb True pos n True = Inr (Some (ring_at (buff_addr lb) pos (nat n)), lb)"
proof -
  have len: "int (length (buff_addr lb)) = rsize lb" using wf by (simp add: local_wf_def)
  have "n \<le> rsize lb" using n data_size_range [of lb] wf by (simp add: local_wf_def)
  with two_part_read [OF len pos n(1)] show ?thesis
    using pos n len by (auto simp: rb_read_def read_part_def in_buff_def Let_def)
qed

lemma blit_zero_parts:
  "drop a (replicate n (0::byte)) = replicate (n - a) 0" "take a (replicate n (0::byte)) = replicate (min n a) 0"
  by (simp_all add: min.commute)

lemma rb_read_consume:
  assumes wf: "local_wf lb" and n: "0 \<le> n" "n \<le> rb_data_size lb"
  shows "rb_read lb True (- 1) n False
    = Inr (Some (ring_at (buff_addr lb) (rd_pointer lb) (nat n)),
           lb\<lparr>buff_addr := ring_put (buff_addr lb) (rd_pointer lb) (replicate (nat n) 0),
              rd_pointer := wrap_ptr (rsize lb) (rd_pointer lb + n)\<rparr>)"
proof -
  have len: "int (length (buff_addr lb)) = rsize lb" using wf by (simp add: local_wf_def)
  have pos: "0 \<le> rd_pointer lb" "rd_pointer lb \<le> rsize lb"
    using wf by (auto simp: local_wf_def ring_wf_def)
  have sz: "n \<le> rsize lb" using n data_size_range [of lb] wf by (simp add: local_wf_def)
  note r = two_part_read [OF len pos n(1) sz]
  have w: "int (length (replicate (nat n) (0::byte))) \<le> rsize lb" using n sz by simp
  note p = two_part_write [OF len pos w]
  show ?thesis
  proof (cases "rd_pointer lb + n > rsize lb")
    case True
    have b: "bslice (blit (nat (rd_pointer lb)) (replicate (nat (rsize lb - rd_pointer lb)) 0) (buff_addr lb))
         0 (nat (n - (rsize lb - rd_pointer lb))) = bslice (buff_addr lb) 0 (nat (n - (rsize lb - rd_pointer lb)))"
    proof (rule bslice_blit_other)
      have "n - (rsize lb - rd_pointer lb) \<le> rd_pointer lb" using sz by linarith
      then show "0 + nat (n - (rsize lb - rd_pointer lb)) \<le> nat (rd_pointer lb) \<or>
         nat (rd_pointer lb) + length (replicate (nat (rsize lb - rd_pointer lb)) (0::byte)) \<le> 0"
        by linarith
    qed (use pos n sz len True in auto)
    have m: "min (nat n) (nat (rsize lb - rd_pointer lb)) = nat (rsize lb - rd_pointer lb)"
      "nat n - nat (rsize lb - rd_pointer lb) = nat (n - (rsize lb - rd_pointer lb))"
      using True pos by linarith+
    show ?thesis
      using True n pos len sz r p b m
      by (simp add: rb_read_def read_part_def in_buff_def Let_def wrap_ptr_def blit_zero_parts)
  next
    case False
    with n pos len r p show ?thesis
      by (simp add: rb_read_def read_part_def in_buff_def Let_def wrap_ptr_def)
  qed
qed

section \<open>Writing\<close>

lemma run_rops_append: "run_rops (xs @ ys) peer = bindR (run_rops xs peer) (run_rops ys)"
  by (induction xs arbitrary: peer) (auto simp: bindR_def split: sum.splits)

text \<open>The pair of writes of \<open>rb_write_mate\<close> and \<open>rb_write_data\<close> is \<open>ring_put\<close>.\<close>

lemma run_two_part:
  assumes wf: "local_wf peer" and pos: "0 \<le> pos" "pos \<le> rsize peer" and n: "int (length bs) \<le> rsize peer"
    and sz: "rsize rb = rsize peer"
  shows "run_rops (rb_write_data rb bs pos (int (length bs))) peer
    = Inr (peer\<lparr>buff_addr := ring_put (buff_addr peer) pos bs\<rparr>)"
proof -
  have len: "int (length (buff_addr peer)) = rsize peer" using wf by (simp add: local_wf_def)
  show ?thesis
  proof (cases "pos + int (length bs) > rsize peer")
    case True
    have "take (nat (int (length bs) - (rsize peer - pos))) (drop (nat (rsize peer - pos)) bs)
        = drop (nat (rsize peer - pos)) bs"
      using True pos by simp
    with True two_part_write [OF len pos n] pos n len sz show ?thesis
      by (simp add: rb_write_data_def Let_def nat_diff_distrib)
  next
    case False
    with two_part_write [OF len pos n] pos len sz show ?thesis
      by (simp add: rb_write_data_def Let_def)
  qed
qed

lemma rb_write_mate_refused:
  "\<not> connected \<or> mateLen + dataLen > rb_free_size (rb\<lparr>rd_pointer := rd_pointer peer\<rparr>) \<Longrightarrow> in_int (mateLen + dataLen) \<Longrightarrow>
     \<exists>rb'. rb_write_mate connected peer rb buf mateLen dataLen = Inr (- 1, rb', []) \<and> wr_pointer rb' = wr_pointer rb"
  by (auto simp: rb_write_mate_def check_remote_size_def Let_def)

lemma rb_write_mate_ops:
  assumes "mateLen + dataLen \<le> rb_free_size (rb\<lparr>rd_pointer := rd_pointer peer\<rparr>)"
    and "int (length buf) = mateLen" and "in_int (mateLen + dataLen)"
  shows "rb_write_mate True peer rb buf mateLen dataLen
    = (let wr = wrap_ptr (rsize rb) (wrap_ptr (rsize rb) (wr_pointer rb + mateLen) + dataLen)
       in Inr (wr_pointer rb, rb\<lparr>rd_pointer := rd_pointer peer, wr_pointer := wr\<rparr>,
           rb_write_data rb buf (wr_pointer rb) mateLen @ [WrWrite wr]))"
  using assms
  by (auto simp: rb_write_mate_def check_remote_size_def rb_write_data_def update_wr_local_def
      update_wr_remote_def wrap_ptr_def Let_def algebra_simps)

text \<open>The writer's cached \<open>wr_pointer\<close> is the peer's.\<close>

definition in_sync :: "RemoteRingbuff \<Rightarrow> LocalRingbuff \<Rightarrow> bool" where
  "in_sync rb peer \<longleftrightarrow> local_wf peer \<and> rsize rb = rsize peer \<and> wr_pointer rb = wr_pointer peer"

lemma in_sync_free:
  "in_sync rb peer \<Longrightarrow> rb_free_size (rb\<lparr>rd_pointer := rd_pointer peer\<rparr>) = rb_free_size peer"
  by (simp add: in_sync_def rb_free_size_def rb_data_size_def)

lemma unread_grow:
  assumes wf: "local_wf peer" and n: "int (length bs) + m \<le> rb_free_size peer" "0 \<le> m"
    and wr: "wr mod rsize peer = (wr_pointer peer + int (length bs) + m) mod rsize peer" "0 \<le> wr" "wr \<le> rsize peer"
  defines "peer' \<equiv> peer\<lparr>buff_addr := ring_put (buff_addr peer) (wr_pointer peer) bs, wr_pointer := wr\<rparr>"
  shows "local_wf peer' \<and> rb_data_size peer' = rb_data_size peer + int (length bs) + m \<and>
    (\<exists>reserved. unread peer' = unread peer @ bs @ reserved \<and> length reserved = nat m)"
proof -
  note l = local_wf_len [OF wf]
  have rwf: "ring_wf peer" and rwf': "ring_wf peer'"
    using wf wr by (auto simp: local_wf_def ring_wf_def peer'_def)
  let ?d = "(wr_pointer peer - rd_pointer peer) mod rsize peer"
  have d: "0 \<le> ?d" using l by simp
  have free: "?d + (int (length bs) + m) < rsize peer"
    using n by (simp add: rb_free_size_def ring_sizes [OF rwf])
  have "(wr - rd_pointer peer) mod rsize peer
      = (wr_pointer peer + (int (length bs) + m) - rd_pointer peer) mod rsize peer"
    using wr(1) by (metis add.assoc mod_diff_left_eq)
  then have size': "rb_data_size peer' = ?d + int (length bs) + m"
    unfolding ring_sizes(1) [OF rwf'] using data_size_grow [OF free] n l by (simp add: peer'_def)
  let ?buff = "ring_put (buff_addr peer) (wr_pointer peer) bs"
  have len: "int (length (buff_addr peer)) = rsize peer" using l by simp
  have split: "nat (rb_data_size peer') = nat ?d + (length bs + nat m)"
    unfolding size' using d n by simp
  have at: "ring_at ?buff (rd_pointer peer + int (nat ?d)) (length bs) = bs"
  proof -
    have "(rd_pointer peer + ?d) mod rsize peer = wr_pointer peer mod rsize peer"
      by (simp add: mod_add_right_eq)
    then have "ring_at ?buff (rd_pointer peer + int (nat ?d)) (length bs) = ring_at ?buff (wr_pointer peer) (length bs)"
      using ring_at_mod [of ?buff] len d by (metis int_nat_eq length_ring_put)
    also have "\<dots> = bs" using free d len n by (intro ring_at_put_same) linarith
    finally show ?thesis .
  qed
  have old: "ring_at ?buff (rd_pointer peer) (nat ?d) = unread peer"
    unfolding unread_def ring_sizes [OF rwf] using d free n len
    by (intro ring_at_put_other) auto
  have "unread peer' = unread peer @ bs @
      ring_at ?buff (rd_pointer peer + int (nat ?d) + int (length bs)) (nat m)"
    unfolding unread_def [of peer'] split ring_at_add
    using at old by (simp add: peer'_def)
  then have "\<exists>reserved. unread peer' = unread peer @ bs @ reserved \<and> length reserved = nat m"
    by (metis length_ring_at)
  moreover have "local_wf peer'" using rwf' len by (simp add: local_wf_def peer'_def)
  ultimately show ?thesis using size' by (simp add: ring_sizes [OF rwf])
qed

lemma rb_write_mate_run:
  assumes sync: "in_sync rb peer" and len: "int (length buf) = mateLen" and data: "0 \<le> dataLen"
    and room: "mateLen + dataLen \<le> rb_free_size peer"
  defines "wr \<equiv> wrap_ptr (rsize rb) (wrap_ptr (rsize rb) (wr_pointer rb + mateLen) + dataLen)"
  shows "run_rops (rb_write_data rb buf (wr_pointer rb) mateLen) peer
      = Inr (peer\<lparr>buff_addr := ring_put (buff_addr peer) (wr_pointer peer) buf\<rparr>)"
    and "wr mod rsize peer = (wr_pointer peer + int (length buf) + dataLen) mod rsize peer"
    and "0 \<le> wr \<and> wr \<le> rsize peer"
proof -
  have wf: "local_wf peer" and sz: "rsize rb = rsize peer" and wrp: "wr_pointer rb = wr_pointer peer"
    using sync by (auto simp: in_sync_def)
  then have rwf: "ring_wf peer" by (simp add: local_wf_def)
  have pos: "0 \<le> wr_pointer peer" "wr_pointer peer \<le> rsize peer" using rwf by (auto simp: ring_wf_def)
  have fit: "mateLen + dataLen < rsize peer"
    using room data_size_range [OF rwf] by (simp add: rb_free_size_def)
  have w: "int (length buf) \<le> rsize peer" using fit len data by simp
  show "run_rops (rb_write_data rb buf (wr_pointer rb) mateLen) peer
      = Inr (peer\<lparr>buff_addr := ring_put (buff_addr peer) (wr_pointer peer) buf\<rparr>)"
    using run_two_part [OF wf pos w sz] len wrp by simp
  have "wr mod rsize peer = (wrap_ptr (rsize peer) (wr_pointer peer + mateLen) + dataLen) mod rsize peer"
    using wrap_ptr_mod [of "rsize peer" _ 0] by (simp add: wr_def sz wrp)
  also have "\<dots> = (wr_pointer peer + mateLen + dataLen) mod rsize peer"
    using wrap_ptr_mod [of "rsize peer" _ "- dataLen"] by simp
  finally show "wr mod rsize peer = (wr_pointer peer + int (length buf) + dataLen) mod rsize peer"
    using len by simp
  have "0 \<le> wrap_ptr (rsize peer) (wr_pointer peer + mateLen) \<and> wrap_ptr (rsize peer) (wr_pointer peer + mateLen) \<le> rsize peer"
    using pos fit data len by (intro wrap_ptr_range) auto
  then show "0 \<le> wr \<and> wr \<le> rsize peer"
    unfolding wr_def sz wrp using fit data len by (intro wrap_ptr_range) auto
qed

lemma no_publish:
  assumes "\<forall>r \<in> set ops. \<exists>off bs. r = BuffWrite off bs" and "run_rops ops peer = Inr p"
  shows "wr_pointer p = wr_pointer peer \<and> rd_pointer p = rd_pointer peer \<and> rsize p = rsize peer"
  using assms
proof (induction ops arbitrary: peer)
  case (Cons r ops)
  then obtain off bs where r: "r = BuffWrite off bs" by auto
  with Cons.prems obtain p1 where "rop_apply r peer = Inr p1" "run_rops ops p1 = Inr p"
    by (auto simp: bindR_eq_Inr)
  with Cons r show ?case by (auto simp: guardR_eq_Inr)
qed simp

lemma rb_write_data_BuffWrite: "r \<in> set (rb_write_data rb bs pos n) \<Longrightarrow> \<exists>off bs. r = BuffWrite off bs"
  by (auto simp: rb_write_data_def Let_def split: if_splits)

text \<open>A prefix of the posted buffer writes writes a prefix of the bytes.\<close>

lemma prefix_run:
  assumes wf: "local_wf peer" and sz: "rsize rb = rsize peer" and pos: "0 \<le> pos" "pos \<le> rsize peer"
    and fit: "int (length bs) \<le> rsize peer" and run: "run_rops (take i (rb_write_data rb bs pos (int (length bs)))) peer = Inr p"
  shows "\<exists>n \<le> length bs. p = peer\<lparr>buff_addr := ring_put (buff_addr peer) pos (take n bs)\<rparr>"
proof -
  let ?ops = "rb_write_data rb bs pos (int (length bs))"
  have full: "run_rops ?ops peer = Inr (peer\<lparr>buff_addr := ring_put (buff_addr peer) pos bs\<rparr>)"
    by (rule run_two_part [OF wf pos fit sz])
  have all: ?thesis if "take i ?ops = ?ops"
    using that run full by (intro exI [of _ "length bs"]) auto
  have none: ?thesis if "i = 0" using that run by (intro exI [of _ 0]) auto
  show ?thesis
  proof (cases "pos + int (length bs) > rsize peer \<and> i = 1")
    case True
    let ?l = "nat (rsize peer - pos)"
    have "take i ?ops = [BuffWrite pos (take ?l bs)]"
      using True sz by (simp add: rb_write_data_def Let_def)
    with run have p: "p = peer\<lparr>buff_addr := blit (nat pos) (take ?l bs) (buff_addr peer)\<rparr>"
      by (simp add: guardR_eq_Inr bindR_eq_Inr)
    have "ring_put (buff_addr peer) pos (take ?l bs) = blit (nat pos) (take ?l bs) (buff_addr peer)"
      using True pos local_wf_len [OF wf] by (intro ring_put_flat) auto
    with p True pos show ?thesis by (intro exI [of _ ?l]) auto
  next
    case False
    then have "i = 0 \<or> take i ?ops = ?ops"
      using sz by (auto simp: rb_write_data_def Let_def)
    with all none show ?thesis by blast
  qed
qed

lemma prefix_unread:
  assumes wf: "local_wf peer" and sync: "rsize rb = rsize peer \<and> wr_pointer rb = wr_pointer peer"
    and run: "run_rops (take i (rb_write_data rb bs (wr_pointer rb) n)) peer = Inr p"
    and n: "int (length bs) = n" and free: "int (length bs) < rsize peer - rb_data_size peer"
  shows "unread p = unread peer"
proof -
  have rwf: "ring_wf peer" using wf by (simp add: local_wf_def)
  have pos: "0 \<le> wr_pointer peer" "wr_pointer peer \<le> rsize peer" using rwf by (auto simp: ring_wf_def)
  have fit: "int (length bs) \<le> rsize peer" using free data_size_range [OF rwf] by simp
  obtain k where k: "k \<le> length bs" "p = peer\<lparr>buff_addr := ring_put (buff_addr peer) (wr_pointer peer) (take k bs)\<rparr>"
    using prefix_run [OF wf _ pos fit, of rb i p] sync run n by auto
  have "rb_data_size p = rb_data_size peer" by (simp add: k rb_data_size_def)
  moreover have "ring_at (buff_addr p) (rd_pointer peer) (nat (rb_data_size peer)) = unread peer"
    unfolding unread_def k using free k(1) local_wf_len [OF wf] data_size_range [OF rwf]
    by (simp add: ring_sizes [OF rwf]) (intro ring_at_put_other, auto)
  ultimately show ?thesis by (simp add: unread_def k)
qed

text \<open>Filling a range of the unread bytes that was reserved earlier.\<close>

lemma unread_fill:
  assumes wf: "local_wf peer" and split: "unread peer = pre @ old @ post" and len: "length bs = length old"
    and pos: "pos mod rsize peer = (rd_pointer peer + int (length pre)) mod rsize peer"
  shows "unread (peer\<lparr>buff_addr := ring_put (buff_addr peer) pos bs\<rparr>) = pre @ bs @ post"
proof -
  let ?r = "rd_pointer peer" and ?buff = "buff_addr peer" and ?N = "rsize peer"
  let ?new = "ring_put ?buff pos bs"
  note l = local_wf_len [OF wf]
  have N: "int (length ?buff) = ?N" using l by simp
  have n: "nat (rb_data_size peer) = length pre + (length bs + length post)"
    using arg_cong [OF split, of length] len by (simp add: unread_def)
  have total: "int (length pre) + int (length bs) + int (length post) < ?N"
    using n data_size_range [of peer] l by linarith
  have eqs: "ring_at ?buff ?r (length pre) = pre"
      "ring_at ?buff (?r + int (length pre) + int (length bs)) (length post) = post"
    using split len unfolding unread_def n ring_at_add by (auto simp: append_eq_append_conv)
  have d: "(pos - ?r) mod ?N = int (length pre)"
    using pos total by (metis add_diff_cancel_left' mod_diff_left_eq mod_pos_pos_trivial
        add_increasing2 of_nat_0_le_iff add_strict_increasing2 le_less_trans of_nat_add le_add1 of_nat_mono)
  have a: "ring_at ?new ?r (length pre) = pre"
    using ring_at_put_other [of "length pre" pos ?r ?buff bs] d N total eqs by simp
  have b: "ring_at ?new (?r + int (length pre)) (length bs) = bs"
  proof -
    have "ring_at ?new (?r + int (length pre)) (length bs) = ring_at ?new pos (length bs)"
      using pos ring_at_mod [of ?new] N by (metis length_ring_put)
    then show ?thesis using ring_at_put_same [of bs ?buff pos] N total by simp
  qed
  have c: "ring_at ?new (?r + int (length pre) + int (length bs)) (length post) = post"
  proof (cases "bs = []")
    case False
    let ?q = "?r + int (length pre) + int (length bs)"
    have "(pos - ?q) mod ?N = (int (length pre) - (int (length pre) + int (length bs))) mod ?N"
      using d mod_diff_left_eq [of "pos - ?r" ?N "int (length pre) + int (length bs)"]
      by (simp add: algebra_simps)
    also have "\<dots> = ?N - int (length bs)"
      using False total by (subst mod_diff_wrap) auto
    finally show ?thesis
      using ring_at_put_other [of "length post" pos ?q ?buff bs] N total eqs by simp
  qed (use eqs in simp)
  have "rb_data_size (peer\<lparr>buff_addr := ?new\<rparr>) = rb_data_size peer" by (simp add: rb_data_size_def)
  then show ?thesis using a b c by (simp add: unread_def n ring_at_add)
qed

lemma pow2_4: "\<exists>k. (4::int) = 2 ^ k"
  by (rule exI [of _ 2]) simp

lemma rb_read_take:
  assumes wf: "local_wf lb" and n: "0 \<le> n" "n \<le> rb_data_size lb"
    and lb': "lb' = lb\<lparr>buff_addr := ring_put (buff_addr lb) (rd_pointer lb) (replicate (nat n) 0),
        rd_pointer := wrap_ptr (rsize lb) (rd_pointer lb + n)\<rparr>"
  shows "local_wf lb'" and "rb_data_size lb' = rb_data_size lb - n" and "unread lb' = drop (nat n) (unread lb)"
proof -
  note l = local_wf_len [OF wf]
  have rwf: "ring_wf lb" using wf by (simp add: local_wf_def)
  have pos: "0 \<le> rd_pointer lb" "rd_pointer lb \<le> rsize lb" using rwf by (auto simp: ring_wf_def)
  have lt: "n < rsize lb" using n data_size_range [OF rwf] by simp
  have "0 \<le> wrap_ptr (rsize lb) (rd_pointer lb + n) \<and> wrap_ptr (rsize lb) (rd_pointer lb + n) \<le> rsize lb"
    using pos n lt by (intro wrap_ptr_range) auto
  then show wf': "local_wf lb'"
    using wf by (auto simp: lb' local_wf_def ring_wf_def)
  then have rwf': "ring_wf lb'" by (simp add: local_wf_def)
  let ?w = "wr_pointer lb" and ?r = "rd_pointer lb" and ?N = "rsize lb"
  have N: "int (length (buff_addr lb)) = ?N" using l by simp
  have m: "(?w - wrap_ptr ?N (?r + n)) mod ?N = (?w - (?r + n)) mod ?N"
    using wrap_ptr_mod [of ?N "?r + n" 0] by (metis diff_zero mod_diff_right_eq)
  show size': "rb_data_size lb' = rb_data_size lb - n"
    unfolding ring_sizes(1) [OF rwf'] ring_sizes(1) [OF rwf]
    using data_size_shrink [of n ?w ?r ?N] n l m by (simp add: lb' ring_sizes(1) [OF rwf])
  have split: "nat (rb_data_size lb) = nat n + nat (rb_data_size lb')"
    using n size' by linarith
  have at: "ring_at b (wrap_ptr ?N (?r + n)) k = ring_at b (?r + n) k" if "int (length b) = ?N" for b k
    using ring_at_mod [of b "wrap_ptr ?N (?r + n)" k] ring_at_mod [of b "?r + n" k] that
      wrap_ptr_mod [of ?N "?r + n" 0] by simp
  have "ring_at (ring_put (buff_addr lb) ?r (replicate (nat n) 0)) (?r + n) (nat (rb_data_size lb'))
      = ring_at (buff_addr lb) (?r + n) (nat (rb_data_size lb'))"
  proof (cases "n = 0")
    case False
    have "(?r - (?r + n)) mod ?N = ?N - n"
      using False n lt mod_diff_wrap [of 0 ?N n] by simp
    then show ?thesis
      using n size' data_size_range [OF rwf] N by (intro ring_at_put_other) auto
  qed simp
  then have "ring_at (ring_put (buff_addr lb) ?r (replicate (nat n) 0)) (wrap_ptr ?N (?r + n)) (nat (rb_data_size lb'))
      = ring_at (buff_addr lb) (?r + n) (nat (rb_data_size lb'))"
    using at [of "ring_put (buff_addr lb) ?r (replicate (nat n) 0)"] N by simp
  then show "unread lb' = drop (nat n) (unread lb)"
    unfolding unread_def [of lb] split ring_at_add using n by (simp add: unread_def lb')
qed

section \<open>Properties\<close>

lemma rb_write_mate_result:
  assumes "in_sync rb peer" and "int (length buf) = mateLen" and "0 \<le> dataLen" and "mateLen + dataLen < 2 ^ 31"
  shows "\<exists>log_pos rb' ops. rb_write_mate True peer rb buf mateLen dataLen = Inr (log_pos, rb', ops) \<and>
    (if mateLen + dataLen \<le> rb_free_size peer
     then log_pos = wr_pointer peer \<and>
       (\<exists>peer' reserved. run_rops ops peer = Inr peer' \<and> in_sync rb' peer' \<and>
          unread peer' = unread peer @ buf @ reserved \<and> length reserved = nat dataLen)
     else log_pos = - 1 \<and> ops = [])"
proof (cases "mateLen + dataLen \<le> rb_free_size peer")
  case True
  note run = rb_write_mate_run [OF assms(1-3) True]
  have wf: "local_wf peer" using assms(1) by (simp add: in_sync_def)
  have g: "int (length buf) + dataLen \<le> rb_free_size peer" using True assms(2) by simp
  note grow = unread_grow [OF wf g assms(3) run(2)] run(3)
  show ?thesis
    using True assms run(1) grow rb_write_mate_ops [where rb = rb and peer = peer and mateLen = mateLen and dataLen = dataLen and buf = buf]
    by (auto simp: in_sync_free run_rops_append in_sync_def Let_def)
next
  case False
  with assms rb_write_mate_refused [where connected = True and rb = rb and peer = peer and mateLen = mateLen and dataLen = dataLen and buf = buf] show ?thesis
    by (auto simp: in_sync_free)
qed

text \<open>The size of a ring is an \<open>int\<close> and a power of two, so it is at most 2^30, and past the check of the total length no
  sum of a position and a length overflows.\<close>

lemma ring_sums_fit:
  assumes "in_sync rb peer" and "rsize peer < 2 ^ 31" and "0 \<le> mateLen" and "0 \<le> dataLen"
    and "mateLen + dataLen \<le> rb_free_size peer" and "0 \<le> pos" and "pos \<le> rsize peer"
  shows "in_int (pos + mateLen)" and "in_int (pos + dataLen)"
proof -
  have wf: "ring_wf peer" using assms(1) by (simp add: in_sync_def local_wf_def)
  obtain k where k: "rsize peer = 2 ^ k" using assms(1) by (auto simp: in_sync_def local_wf_def ring_wf_def)
  have "(2 :: int) ^ k < 2 ^ 31" using assms(2) k by simp
  then have "k \<le> 30" using power_strict_increasing_iff [of "2 :: int" k 31] by simp
  then have "rsize peer \<le> 2 ^ 30" using k power_increasing [of k 30 "2 :: int"] by simp
  moreover have "mateLen + dataLen < rsize peer"
    using assms(5) data_size_range [OF wf] by (simp add: rb_free_size_def)
  ultimately show "in_int (pos + mateLen)" "in_int (pos + dataLen)" using assms(3,4,6,7) by (auto simp: in_int_def)
qed

text \<open>C9: \<open>rb_write_mate\<close> admits a log exactly when it fits in the free space of the
  peer, and then appends it: when its operations have run, the reader sees the old unread
  bytes, then the header and key, then \<open>dataLen\<close> reserved bytes, the writer's pointer is
  again the peer's, and the position it returns is where the log starts. Otherwise it
  returns \<open>-1\<close> and posts nothing. All this holds when the lengths add up to less than 2^31; the \<open>int\<close>
  sum of larger ones overflows before anything is checked, and the call is undefined.\<close>

theorem rb_write_mate_appends:
  assumes "in_sync rb peer" and "int (length buf) = mateLen" and "0 \<le> dataLen"
  shows "if mateLen + dataLen < 2 ^ 31
    then \<exists>log_pos rb' ops. rb_write_mate True peer rb buf mateLen dataLen = Inr (log_pos, rb', ops) \<and>
      (if mateLen + dataLen \<le> rb_free_size peer
       then log_pos = wr_pointer peer \<and>
         (\<exists>peer' reserved. run_rops ops peer = Inr peer' \<and> in_sync rb' peer' \<and>
            unread peer' = unread peer @ buf @ reserved \<and> length reserved = nat dataLen)
       else log_pos = - 1 \<and> ops = [])
    else rb_write_mate True peer rb buf mateLen dataLen = Inl UB"
  using rb_write_mate_result [OF assms] assms(2,3) by (auto simp: rb_write_mate_def guardR_def)

theorem rb_write_mate_appends_witness:
  "let rb = \<lparr>wr_pointer = 3, rd_pointer = 0, rsize = 4, node_id = 1\<rparr>;
       peer = \<lparr>wr_pointer = 3, rd_pointer = 3, rsize = 4, buff_addr = [0, 0, 0, 0], rd_key_pointer = 3\<rparr>
   in (\<exists>rb' ops peer' reserved. rb_write_mate True peer rb [7, 8] 2 1 = Inr (3, rb', ops) \<and>
        run_rops ops peer = Inr peer' \<and> in_sync rb' peer' \<and> unread peer' = [7, 8] @ reserved \<and> length reserved = nat 1) \<and>
      rb_write_mate True peer rb [7, 8] 2 (2 ^ 31 - 1) = Inl UB"
proof -
  let ?rb = "\<lparr>wr_pointer = 3, rd_pointer = 0, rsize = 4, node_id = 1\<rparr>"
  let ?peer = "\<lparr>wr_pointer = 3, rd_pointer = 3, rsize = 4, buff_addr = [0, 0, 0, 0], rd_key_pointer = 3\<rparr>"
  have k: "\<exists>k. (4::int) = 2 ^ k" by (rule exI [of _ 2]) simp
  have "in_sync ?rb ?peer" using k by (simp add: in_sync_def local_wf_def ring_wf_def)
  moreover have "rb_free_size ?peer = 3" "unread ?peer = []"
    by (simp_all add: rb_free_size_def rb_data_size_def unread_def ring_at_def)
  ultimately show ?thesis
    using rb_write_mate_appends [of ?rb ?peer "[7, 8]" 2 1] rb_write_mate_appends [of ?rb ?peer "[7, 8]" 2 "2 ^ 31 - 1"]
    by (simp add: Let_def)
qed

text \<open>C10: The remote write pointer moves last. After any number of the posted operations
  short of all of them the peer's pointers and the bytes its reader may look at are what
  they were, so a reader that runs in between never sees a partly written header or key,
  and unread data is never overwritten.\<close>

theorem rb_write_mate_publishes_last:
  assumes sync: "in_sync rb peer" and len: "int (length buf) = mateLen" and data: "0 \<le> dataLen"
    and call: "rb_write_mate True peer rb buf mateLen dataLen = Inr (log_pos, rb', ops)"
    and i: "i < length ops"
  shows "\<exists>p. run_rops (take i ops) peer = Inr p \<and> wr_pointer p = wr_pointer peer \<and>
    rd_pointer p = rd_pointer peer \<and> unread p = unread peer"
proof -
  have wf: "local_wf peer" using sync by (simp add: in_sync_def)
  have fits: "in_int (mateLen + dataLen)" using call by (simp add: rb_write_mate_def guardR_eq_Inr)
  then have room: "mateLen + dataLen \<le> rb_free_size peer"
    using rb_write_mate_refused [where connected = True and rb = rb and peer = peer and mateLen = mateLen and dataLen = dataLen and buf = buf] call i
    by (cases "mateLen + dataLen \<le> rb_free_size peer") (auto simp: in_sync_free [OF sync])
  let ?ops = "rb_write_data rb buf (wr_pointer rb) mateLen"
  have ops: "\<exists>w. ops = ?ops @ [WrWrite w]"
    using call rb_write_mate_ops [where rb = rb and peer = peer and mateLen = mateLen and dataLen = dataLen and buf = buf] room len fits by (auto simp: in_sync_free [OF sync] Let_def)
  have t: "take i ops = take i ?ops" using ops i by auto
  obtain q where q: "run_rops ?ops peer = Inr q"
    using rb_write_mate_run(1) [OF sync len data room] by blast
  then obtain p where p: "run_rops (take i ?ops) peer = Inr p" "run_rops (drop i ?ops) p = Inr q"
    by (metis append_take_drop_id bindR_eq_Inr run_rops_append)
  have same: "wr_pointer p = wr_pointer peer \<and> rd_pointer p = rd_pointer peer \<and> rsize p = rsize peer"
    using no_publish [OF _ p(1)] rb_write_data_BuffWrite by (meson in_set_takeD)
  have free: "int (length buf) < rsize peer - rb_data_size peer"
    using room len data by (simp add: rb_free_size_def)
  have "unread p = unread peer"
    using prefix_unread [OF wf _ p(1)] sync len free by (simp add: in_sync_def)
  with t p same show ?thesis by auto
qed

theorem rb_write_mate_publishes_last_witness:
  "let peer = \<lparr>wr_pointer = 3, rd_pointer = 2, rsize = 4, buff_addr = [0, 0, 5, 0], rd_key_pointer = 3\<rparr>
   in \<exists>p. run_rops (take 1 [BuffWrite 3 [7], BuffWrite 0 [8], WrWrite 1]) peer = Inr p \<and>
        wr_pointer p = wr_pointer peer \<and> rd_pointer p = rd_pointer peer \<and> unread p = unread peer"
  unfolding Let_def
  by (rule rb_write_mate_publishes_last [where rb = "\<lparr>wr_pointer = 3, rd_pointer = 0, rsize = 4, node_id = 1\<rparr>"
        and buf = "[7, 8]" and mateLen = 2 and dataLen = 0 and log_pos = 3
        and rb' = "\<lparr>wr_pointer = 1, rd_pointer = 2, rsize = 4, node_id = 1\<rparr>"])
    (use pow2_4 in \<open>simp_all add: in_sync_def local_wf_def ring_wf_def rb_write_mate_def check_remote_size_def
      rb_free_size_def rb_data_size_def update_wr_local_def update_wr_remote_def\<close>)

text \<open>C11: \<open>rb_write_data\<close> fills the bytes \<open>rb_write_mate\<close> reserved and nothing else: if the
  reserved range starts \<open>length pre\<close> bytes after the read pointer, the reader then sees the
  value there, with the bytes before and after it as they were, cut at the end of the
  buffer or not.\<close>

theorem rb_write_data_fills:
  assumes wf: "local_wf peer" and sz: "rsize rb = rsize peer"
    and split: "unread peer = pre @ reserved @ post" and len: "length bs = length reserved"
    and pos: "pos = (rd_pointer peer + int (length pre)) mod rsize peer"
  shows "\<exists>peer'. run_rops (rb_write_data rb bs pos (int (length bs))) peer = Inr peer' \<and>
    unread peer' = pre @ bs @ post \<and> wr_pointer peer' = wr_pointer peer \<and> local_wf peer'"
proof -
  have rwf: "ring_wf peer" and N: "0 < rsize peer" using local_wf_len [OF wf] by auto
  have "0 \<le> pos" "pos \<le> rsize peer" using pos N by (simp_all add: order.strict_implies_order)
  moreover have "int (length bs) \<le> rsize peer"
    using arg_cong [OF split, of length] len data_size_range [OF rwf] unfolding unread_def
    by (simp only: length_ring_at length_append) linarith
  ultimately have "run_rops (rb_write_data rb bs pos (int (length bs))) peer
      = Inr (peer\<lparr>buff_addr := ring_put (buff_addr peer) pos bs\<rparr>)"
    by (rule run_two_part [OF wf]) (rule sz)
  moreover have "unread (peer\<lparr>buff_addr := ring_put (buff_addr peer) pos bs\<rparr>) = pre @ bs @ post"
    by (rule unread_fill [OF wf split len]) (simp add: pos)
  ultimately show ?thesis using wf by (auto simp: local_wf_def ring_wf_def)
qed

theorem rb_write_data_fills_witness:
  "let peer = \<lparr>wr_pointer = 1, rd_pointer = 2, rsize = 4, buff_addr = [0, 9, 5, 0], rd_key_pointer = 3\<rparr>;
       rb = \<lparr>wr_pointer = 1, rd_pointer = 2, rsize = 4, node_id = 1\<rparr>
   in \<exists>peer'. run_rops (rb_write_data rb [7, 8] 3 (int (length [7::byte, 8]))) peer = Inr peer' \<and>
        unread peer' = [5] @ [7, 8] @ [] \<and> wr_pointer peer' = wr_pointer peer \<and> local_wf peer'"
  unfolding Let_def
  by (rule rb_write_data_fills [where reserved = "[0, 0]"])
    (use pow2_4 in \<open>simp_all add: local_wf_def ring_wf_def unread_def rb_data_size_def ring_at_def upt_rec\<close>)

text \<open>C12: A consuming \<open>rb_read\<close> hands out the first \<open>len\<close> unread bytes and leaves
  the rest unread; a copying one reads \<open>len\<close> bytes at \<open>start\<close> modulo the size and changes
  nothing; both refuse more than the data there is. No access is out of range.\<close>

theorem rb_read_correct:
  assumes wf: "local_wf lb" and n: "0 \<le> n" and start: "0 \<le> start" "start \<le> rsize lb"
  shows "if n \<le> rb_data_size lb
    then rb_read lb True start n True = Inr (Some (ring_at (buff_addr lb) start (nat n)), lb) \<and>
      (\<exists>lb'. rb_read lb True (- 1) n False = Inr (Some (take (nat n) (unread lb)), lb') \<and>
         local_wf lb' \<and> unread lb' = drop (nat n) (unread lb))
    else rb_read lb True start n True = Inr (None, lb) \<and> rb_read lb True (- 1) n False = Inr (None, lb)"
proof (cases "n \<le> rb_data_size lb")
  case True
  have "ring_at (buff_addr lb) (rd_pointer lb) (nat n) = take (nat n) (unread lb)"
    unfolding unread_def using True n
    by (intro nth_equalityI) (auto simp: nth_ring_at)
  with True rb_read_copy [OF wf start n] rb_read_consume [OF wf n] rb_read_take [OF wf n] show ?thesis
    by auto
qed (simp add: rb_read_def)

theorem rb_read_correct_witness:
  "let lb = \<lparr>wr_pointer = 1, rd_pointer = 2, rsize = 4, buff_addr = [7, 9, 5, 6], rd_key_pointer = 3\<rparr>
   in rb_read lb True 3 2 True = Inr (Some [6, 7], lb) \<and>
      (\<exists>lb'. rb_read lb True (- 1) 2 False = Inr (Some [5, 6], lb') \<and> local_wf lb' \<and> unread lb' = [7])"
  using rb_read_correct [of "\<lparr>wr_pointer = 1, rd_pointer = 2, rsize = 4, buff_addr = [7, 9, 5, 6], rd_key_pointer = 3\<rparr>" 2 3] pow2_4
  by (simp add: local_wf_def ring_wf_def unread_def rb_data_size_def ring_at_def upt_rec)

text \<open>\<open>memcpy_buffer\<close> copies the bytes at its source when they do not run past the end
  of the buffer. When they do, its first \<open>memcpy\<close> starts at \<open>buff_addr\<close>, not at the source, so
  the result starts with the front of the buffer. More than the readable bytes is
  \<open>exit(0)\<close>.\<close>

lemma memcpy_buffer_result:
  assumes wf: "local_wf lb" and pos: "0 \<le> pos" "pos \<le> rsize lb" and n: "0 \<le> n"
  shows "memcpy_buffer lb pos n =
    (if rb_count_size lb pos < n then Inl Exit
     else if pos + n \<le> rsize lb then Inr (ring_at (buff_addr lb) pos (nat n))
     else Inr (take (nat (rsize lb - pos)) (buff_addr lb) @ take (nat (pos + n - rsize lb)) (buff_addr lb)))"
proof -
  note l = local_wf_len [OF wf]
  have len: "int (length (buff_addr lb)) = rsize lb" using l by simp
  have rwf: "ring_wf lb" using l by simp
  have fit: "n \<le> rsize lb" if "\<not> rb_count_size lb pos < n"
  proof -
    have "rb_count_size lb pos < rsize lb" using l by (simp add: ring_sizes [OF rwf])
    with that show ?thesis by simp
  qed
  show ?thesis
    using two_part_read [OF len pos n] fit pos n len
    by (auto simp: memcpy_buffer_def Let_def in_buff_def bslice_def algebra_simps)
qed

lemma memcpy_buffer_result_witness:
  "memcpy_buffer \<lparr>wr_pointer = 1, rd_pointer = 2, rsize = 4, buff_addr = [7, 9, 5, 6], rd_key_pointer = 3\<rparr> 2 3
     = Inr [7, 9, 7] \<and>
   ring_at [7::byte, 9, 5, 6] 2 3 = [5, 6, 7]"
  using memcpy_buffer_result [of "\<lparr>wr_pointer = 1, rd_pointer = 2, rsize = 4, buff_addr = [7, 9, 5, 6], rd_key_pointer = 3\<rparr>" 2 3] pow2_4
  by (simp add: local_wf_def ring_wf_def rb_count_size_def ring_at_def upt_rec)

text \<open>\<open>rb_write\<close> appends what it is given when the bytes do not run past the end of the
  buffer. When they do, both parts go to offset 0: the second overwrites the first and
  the bytes the reader is told to read keep their old contents.\<close>

lemma rb_write_result:
  assumes sync: "in_sync rb peer" and fit: "int (length bs) \<le> rb_free_size peer"
  shows "let (ok, rb', ops) = rb_write True peer rb bs (int (length bs)); pos = wr_pointer peer
    in ok \<and> (\<exists>peer'. run_rops ops peer = Inr peer' \<and> wr_pointer peer' = wr_pointer rb' \<and>
      (if pos + int (length bs) \<le> rsize peer then in_sync rb' peer' \<and> unread peer' = unread peer @ bs
       else let left_size = nat (rsize peer - pos)
            in buff_addr peer' = blit 0 (drop left_size bs) (blit 0 (take left_size bs) (buff_addr peer))))"
proof -
  have wf: "local_wf peer" and sz: "rsize rb = rsize peer" and wrp: "wr_pointer rb = wr_pointer peer"
    using sync by (auto simp: in_sync_def)
  note l = local_wf_len [OF wf]
  have rwf: "ring_wf peer" and len: "int (length (buff_addr peer)) = rsize peer" using l by auto
  have pos: "0 \<le> wr_pointer peer" "wr_pointer peer \<le> rsize peer" using rwf by (auto simp: ring_wf_def)
  have less: "int (length bs) < rsize peer" using fit data_size_range [OF rwf] by (simp add: rb_free_size_def)
  show ?thesis
  proof (cases "wr_pointer peer + int (length bs) \<le> rsize peer")
    case True
    let ?wr = "wr_pointer peer + int (length bs)"
    have g: "int (length bs) + 0 \<le> rb_free_size peer" using fit by simp
    have m: "?wr mod rsize peer = (wr_pointer peer + int (length bs) + 0) mod rsize peer" by simp
    have w: "0 \<le> ?wr" "?wr \<le> rsize peer" using True pos by auto
    note grow = unread_grow [OF wf g _ m w]
    have "ring_put (buff_addr peer) (wr_pointer peer) bs = blit (nat (wr_pointer peer)) bs (buff_addr peer)"
      using True pos len by (intro ring_put_flat) auto
    with True grow sync fit len pos show ?thesis
      by (auto simp: rb_write_def check_remote_size_def in_sync_free update_wr_local_def
          update_wr_remote_def in_sync_def Let_def)
  next
    case False
    have "rsize peer - wr_pointer peer \<le> int (length bs)" "int (length bs) - (rsize peer - wr_pointer peer) \<le> rsize peer"
      using False pos less by auto
    with False sync fit len pos sz wrp less show ?thesis
      by (simp add: rb_write_def check_remote_size_def in_sync_free update_wr_local_def
          update_wr_remote_def Let_def nat_diff_distrib)
  qed
qed

lemma rb_write_result_witness:
  "let rb = \<lparr>wr_pointer = 2, rd_pointer = 0, rsize = 4, node_id = 1\<rparr>;
       peer = \<lparr>wr_pointer = 2, rd_pointer = 2, rsize = 4, buff_addr = [0, 0, 0, 0], rd_key_pointer = 3\<rparr>;
       (ok, rb', ops) = rb_write True peer rb [7, 8, 9] (int (length [7::byte, 8, 9]))
   in ok \<and> (\<exists>peer'. run_rops ops peer = Inr peer' \<and> wr_pointer peer' = wr_pointer rb' \<and>
        buff_addr peer' = [9, 8, 0, 0])"
proof -
  let ?rb = "\<lparr>wr_pointer = 2, rd_pointer = 0, rsize = 4, node_id = 1\<rparr>"
  let ?peer = "\<lparr>wr_pointer = 2, rd_pointer = 2, rsize = 4, buff_addr = [0, 0, 0, 0], rd_key_pointer = 3\<rparr>"
  have "in_sync ?rb ?peer" using pow2_4 by (simp add: in_sync_def local_wf_def ring_wf_def)
  moreover have "rb_free_size ?peer = 3"
    by (simp add: rb_free_size_def rb_data_size_def)
  ultimately show ?thesis
    using rb_write_result [of ?rb ?peer "[7, 8, 9]"] by (simp add: blit_def Let_def)
qed

text \<open>The byte accessors follow the ring: \<open>next_byte\<close> and \<open>next_char\<close> step to the
  next position modulo the size, and \<open>index_char\<close> up to the readable length gives
  \<open>addr[offset]\<close> of the circular contents.\<close>

lemma char_accessors_follow_ring:
  assumes wf: "local_wf lb" and pos: "0 \<le> pos" and off: "0 \<le> offset" "offset < rb_count_size lb pos"
  shows "index_char lb pos offset = Inr (ring_at (buff_addr lb) pos (nat (rb_count_size lb pos)) ! nat offset) \<and>
    next_char lb pos = get_char lb (next_byte lb pos) \<and>
    next_char lb pos = Inr (ring_at (buff_addr lb) pos 2 ! 1)"
proof -
  note l = local_wf_len [OF wf]
  have rwf: "ring_wf lb" using l by simp
  have "0 \<le> x mod rsize lb" "x mod rsize lb + 1 \<le> rsize lb" for x
    using l by (auto simp: zless_imp_add1_zle)
  then show ?thesis
    using off l by (auto simp: index_char_def next_char_def get_char_def next_byte_def ring_sizes [OF rwf]
        in_buff_def Let_def nth_ring_at)
qed

lemma char_accessors_sample:
  "let lb = \<lparr>wr_pointer = 1, rd_pointer = 2, rsize = 4, buff_addr = [7, 9, 5, 6], rd_key_pointer = 3\<rparr>
   in index_char lb 3 1 = Inr 7 \<and> next_char lb 3 = Inr 7"
  using char_accessors_follow_ring [of "\<lparr>wr_pointer = 1, rd_pointer = 2, rsize = 4, buff_addr = [7, 9, 5, 6], rd_key_pointer = 3\<rparr>" 3 1] pow2_4
  by (auto simp: local_wf_def ring_wf_def rb_count_size_def ring_at_def upt_rec Let_def)

end
