(* ===== verification/LogBuffer.thy ===== *)
theory LogBuffer
  imports UnlockQueue DirtyTable RingBuffer
begin

text \<open>
  The log pipeline of \<open>src/log_buffer.c\<close>. A \<open>Node\<close> holds the globals of one process: the
  buffer the upstream node writes into, the cached state of the downstream buffer, the
  dirty map and the four queues. The structs \<open>malloc\<close> returns are the store \<open>logs\<close> from
  identifiers to \<open>logEntry\<close>, the blocks for keys and values the store \<open>heap\<close>; a queue
  entry is a \<open>logEntry *\<close>, hence an identifier, so that the queues share the structs as
  the code does and a freed struct is noticed. \<open>next_id\<close> is the next address \<open>malloc\<close>
  returns; it does not fail here.

  A \<open>void *\<close> is \<open>Null\<close>, an offset into the receive buffer or a heap block. The string at
  an address is defined when a NUL comes before the end of the object. The dirty map is
  only used while the key and every stored key pointer are readable; this is stricter
  than C, where only comparing with an unreadable key is undefined.
\<close>

section \<open>State\<close>

datatype addr = Null | Ring int | Heap nat

record logEntry =
  key_length :: int
  value_length :: int
  log_pos :: int
  key_is_cut :: bool
  value_is_cut :: bool
  key_addr :: addr
  value_addr :: addr

datatype nodeClass = HEAD | NORMAL | TAIL

record Node =
  node_class :: nodeClass
  local_recv_buff :: LocalRingbuff
  remote_buff :: RemoteRingbuff
  logs :: "nat \<Rightarrow> logEntry option"
  heap :: "nat \<Rightarrow> byte list option"
  next_id :: nat
  dirty_map :: "(addr, nat) HashMap"
  value_peeding_queue :: "nat unQueue"
  executing_queue :: "nat unQueue"
  sending_queue :: "nat unQueue"
  dirty_queue :: "nat unQueue"

definition QUEUE_SIZE :: int where
  "QUEUE_SIZE = 2048"

definition key_offset :: int where
  "key_offset = sizeof_logEntry"

definition value_offset :: "logEntry \<Rightarrow> int" where
  "value_offset l = sizeof_logEntry + key_length l"

definition value_tag_offset :: "logEntry \<Rightarrow> int" where
  "value_tag_offset l = sizeof_logEntry + key_length l + value_length l - 1"

definition next_offset :: "logEntry \<Rightarrow> int" where
  "next_offset l = sizeof_logEntry + key_length l + value_length l"

text \<open>The bytes from an address to the end of its object.\<close>

definition mem_from :: "Node \<Rightarrow> addr \<Rightarrow> byte list option" where
  "mem_from nd a =
     (case a of
        Null \<Rightarrow> None
      | Ring off \<Rightarrow> if 0 \<le> off \<and> off \<le> int (length (buff_addr (local_recv_buff nd)))
                   then Some (drop (nat off) (buff_addr (local_recv_buff nd))) else None
      | Heap i \<Rightarrow> heap nd i)"

definition str_at :: "Node \<Rightarrow> addr \<Rightarrow> byte list option" where
  "str_at nd a = Option.bind (mem_from nd a) c_string"

definition rd_str :: "Node \<Rightarrow> addr \<Rightarrow> byte list" where
  "rd_str nd a = (case str_at nd a of Some s \<Rightarrow> s | None \<Rightarrow> [])"

definition table_readable :: "Node \<Rightarrow> addr \<Rightarrow> bool" where
  "table_readable nd k \<longleftrightarrow> str_at nd k \<noteq> None \<and>
     (\<forall>e \<in> set (concat (hash_list (dirty_map nd))). str_at nd (fst e) \<noteq> None)"

section \<open>The receiving side\<close>

definition get_key_addr :: "Node \<Rightarrow> logEntry \<Rightarrow> addr" where
  "get_key_addr nd l =
     (if key_addr l \<noteq> Null then key_addr l
      else Ring ((log_pos l + key_offset) AND (rsize (local_recv_buff nd) - 1)))"

definition get_value_addr :: "Node \<Rightarrow> logEntry \<Rightarrow> addr" where
  "get_value_addr nd l =
     (if value_addr l \<noteq> Null then value_addr l
      else Ring ((log_pos l + value_offset l) AND (rsize (local_recv_buff nd) - 1)))"

definition dirty_mark :: "Node \<Rightarrow> addr \<Rightarrow> Node res" where
  "dirty_mark nd k =
     guardR (table_readable nd k) UB
       (bindR (mark_dirty (rd_str nd) (dirty_map nd) k) (\<lambda>m. Inr (nd\<lparr>dirty_map := m\<rparr>)))"

definition dirty_unmark :: "Node \<Rightarrow> addr \<Rightarrow> Node res" where
  "dirty_unmark nd k =
     guardR (table_readable nd k) UB
       (bindR (unmark_dirty (rd_str nd) (dirty_map nd) k) (\<lambda>m. Inr (nd\<lparr>dirty_map := m\<rparr>)))"

text \<open>The place a key or value is kept at: copied to a fresh block when it touches the end
  of the buffer. A read that \<open>rb_read\<close> refuses leaves the block indeterminate.\<close>

definition copy_if_cut :: "Node \<Rightarrow> int \<Rightarrow> int \<Rightarrow> (bool \<times> addr \<times> Node) res" where
  "copy_if_cut nd pos n =
     (if pos + n \<ge> rsize (local_recv_buff nd)
      then guardR (0 \<le> n) UB
        (bindR (rb_read (local_recv_buff nd) True pos n True) (\<lambda>(r, lb).
           case r of
             None \<Rightarrow> Inl UB
           | Some bs \<Rightarrow> Inr (True, Heap (next_id nd),
               nd\<lparr>local_recv_buff := lb, heap := (heap nd)(next_id nd \<mapsto> bs), next_id := next_id nd + 1\<rparr>)))
      else Inr (False, Ring pos, nd))"

text \<open>The body of the loop of \<open>read_log_key\<close>; \<open>None\<close> is the \<open>break\<close> for lack of data.\<close>

definition read_one_key :: "Node \<Rightarrow> int \<Rightarrow> (Node \<times> int) option res" where
  "read_one_key nd pos =
     (let lb = local_recv_buff nd; buff_size = rsize lb
      in if rb_count_size lb pos < sizeof_logMateData then Inr None
         else bindR (rb_read lb True pos sizeof_logMateData True) (\<lambda>(m, lb1).
           let mate = (case m of None \<Rightarrow> replicate 8 0 | Some bs \<Rightarrow> bs);
               i = next_id nd;
               nd1 = nd\<lparr>local_recv_buff := lb1, next_id := i + 1\<rparr>;
               key_pos = (pos + key_offset) AND (buff_size - 1)
           in bindR (copy_if_cut nd1 key_pos (mate_key_len mate)) (\<lambda>(cut, ka, nd2).
                let log = \<lparr>key_length = mate_key_len mate, value_length = mate_value_len mate,
                           log_pos = pos, key_is_cut = cut, value_is_cut = False,
                           key_addr = ka, value_addr = Null\<rparr>;
                    nd3 = nd2\<lparr>logs := (logs nd2)(i \<mapsto> log)\<rparr>;
                    pos' = (pos + next_offset log) AND (buff_size - 1)
                in bindR (dirty_mark nd3 ka) (\<lambda>nd4.
                     bindR (putQueue (dirty_queue nd4) i) (\<lambda>(r1, dq).
                       bindR (putQueue (value_peeding_queue nd4) i) (\<lambda>(r2, vq).
                         if r2 = 0 then Inl Exit
                         else Inr (Some (nd4\<lparr>dirty_queue := dq, value_peeding_queue := vq\<rparr>, pos'))))))))"

fun read_keys :: "nat \<Rightarrow> Node \<Rightarrow> int \<Rightarrow> (nat \<times> Node \<times> int) res" where
  "read_keys 0 nd pos = Inr (0, nd, pos)"
| "read_keys (Suc n) nd pos =
     bindR (read_one_key nd pos) (\<lambda>r.
       case r of
         None \<Rightarrow> Inr (0, nd, pos)
       | Some (nd', pos') \<Rightarrow> bindR (read_keys n nd' pos') (\<lambda>(k, nd'', pos''). Inr (Suc k, nd'', pos'')))"

definition read_log_key :: "nat \<Rightarrow> Node \<Rightarrow> (nat \<times> Node) res" where
  "read_log_key limits nd =
     bindR (read_keys limits nd (rd_key_pointer (local_recv_buff nd))) (\<lambda>(n, nd', pos).
       Inr (n, nd'\<lparr>local_recv_buff := (local_recv_buff nd')\<lparr>rd_key_pointer := pos\<rparr>\<rparr>))"

text \<open>The body of the loop of \<open>read_log_value\<close> on a non-empty queue; \<open>None\<close> is a turn that
  finds the tag unset and goes round again.\<close>

definition read_one_value :: "Node \<Rightarrow> Node option res" where
  "read_one_value nd =
     bindR (topQueue (value_peeding_queue nd)) (\<lambda>t.
       case Option.bind t (logs nd) of
         None \<Rightarrow> Inl UB
       | Some log \<Rightarrow>
           let lb = local_recv_buff nd;
               tag_pos = (log_pos log + value_tag_offset log) AND (rsize lb - 1);
               value_pos = (log_pos log + value_offset log) AND (rsize lb - 1)
           in bindR (get_char lb tag_pos) (\<lambda>c.
                if test_done c
                then bindR (copy_if_cut nd value_pos (value_length log)) (\<lambda>(cut, va, nd1).
                       let i = the t;
                           nd2 = nd1\<lparr>logs := (logs nd1)(i \<mapsto> log\<lparr>value_is_cut := cut, value_addr := va\<rparr>)\<rparr>
                       in bindR (putQueue (executing_queue nd2) i) (\<lambda>(r, eq).
                            if r = 0 then Inl Exit
                            else bindR (popQueue (value_peeding_queue nd2)) (\<lambda>vq.
                              Inr (Some (nd2\<lparr>executing_queue := eq, value_peeding_queue := vq\<rparr>)))))
                else Inr None))"

text \<open>With the memory as it is, a turn that finds the tag unset repeats forever: the call
  returns only after the upstream node has written the tag.\<close>

fun read_log_value :: "nat \<Rightarrow> Node \<Rightarrow> (nat \<times> Node) res" where
  "read_log_value 0 nd = Inr (0, nd)"
| "read_log_value (Suc n) nd =
     (if emptyQueue (value_peeding_queue nd) then Inr (0, nd)
      else bindR (read_one_value nd) (\<lambda>r.
        case r of
          None \<Rightarrow> Inl Spin
        | Some nd' \<Rightarrow> bindR (read_log_value n nd') (\<lambda>(k, nd''). Inr (Suc k, nd''))))"

definition top_log :: "Node \<Rightarrow> addr res" where
  "top_log nd =
     (if emptyQueue (executing_queue nd) then Inr Null
      else bindR (topQueue (executing_queue nd)) (\<lambda>t.
        case Option.bind t (logs nd) of None \<Rightarrow> Inl UB | Some log \<Rightarrow> Inr (get_value_addr nd log)))"

definition send_log :: "Node \<Rightarrow> Node res" where
  "send_log nd =
     (if emptyQueue (executing_queue nd) then Inr nd
      else bindR (topQueue (executing_queue nd)) (\<lambda>t.
        case t of None \<Rightarrow> Inl UB | Some i \<Rightarrow>
          bindR (popQueue (executing_queue nd)) (\<lambda>eq.
            if node_class nd \<noteq> TAIL
            then bindR (putQueue (sending_queue nd) i) (\<lambda>(r, sq).
                   Inr (nd\<lparr>executing_queue := eq, sending_queue := sq\<rparr>))
            else Inr (nd\<lparr>executing_queue := eq\<rparr>))))"

text \<open>\<open>free\<close> of a pointer that is not an allocated block is undefined; \<open>free(NULL)\<close> is not.\<close>

definition free_block :: "addr \<Rightarrow> Node \<Rightarrow> Node res" where
  "free_block a nd =
     (case a of
        Null \<Rightarrow> Inr nd
      | Ring off \<Rightarrow> Inl UB
      | Heap i \<Rightarrow> guardR (heap nd i \<noteq> None) UB (Inr (nd\<lparr>heap := (heap nd)(i := None)\<rparr>)))"

definition free_log :: "nat \<Rightarrow> Node \<Rightarrow> Node res" where
  "free_log i nd =
     (case logs nd i of
        None \<Rightarrow> Inl UB
      | Some log \<Rightarrow>
          let lb = local_recv_buff nd;
              nd1 = (if node_class nd \<noteq> HEAD
                     then nd\<lparr>local_recv_buff := lb\<lparr>rd_pointer := (rd_pointer lb + next_offset log) AND (rsize lb - 1)\<rparr>\<rparr>
                     else nd)
          in bindR (if key_is_cut log then free_block (key_addr log) nd1 else Inr nd1) (\<lambda>nd2.
               bindR (if value_is_cut log then free_block (value_addr log) nd2 else Inr nd2) (\<lambda>nd3.
                 Inr (nd3\<lparr>logs := (logs nd3)(i := None)\<rparr>))))"

definition clean_log :: "Node \<Rightarrow> Node res" where
  "clean_log nd =
     (if emptyQueue (dirty_queue nd) then Inr nd
      else bindR (topQueue (dirty_queue nd)) (\<lambda>t.
        bindR (popQueue (dirty_queue nd)) (\<lambda>dq.
          case t of None \<Rightarrow> Inl UB | Some i \<Rightarrow>
            (case logs nd i of
               None \<Rightarrow> Inl UB
             | Some log \<Rightarrow>
                 bindR (dirty_unmark (nd\<lparr>dirty_queue := dq\<rparr>) (get_key_addr nd log)) (free_log i)))))"

text \<open>One turn of the loop of \<open>reader_thread\<close>, with the values it hands to the upper layer:
  the address \<open>top_log\<close> gives and the bytes there when it is used.\<close>

definition serve_log :: "Node \<Rightarrow> (byte list option \<times> Node) res" where
  "serve_log nd =
     bindR (top_log nd) (\<lambda>va. bindR (send_log nd) (\<lambda>nd1.
       let v = str_at nd1 va
       in bindR (clean_log nd1) (\<lambda>nd2. Inr (v, nd2))))"

fun serve_logs :: "nat \<Rightarrow> Node \<Rightarrow> (byte list option list \<times> Node) res" where
  "serve_logs 0 nd = Inr ([], nd)"
| "serve_logs (Suc n) nd =
     bindR (serve_log nd) (\<lambda>(v, nd1). bindR (serve_logs n nd1) (\<lambda>(vs, nd2). Inr (v # vs, nd2)))"

definition reader_turn :: "Node \<Rightarrow> (byte list option list \<times> Node) res" where
  "reader_turn nd =
     bindR (read_log_key 1024 nd) (\<lambda>(k, nd1).
       bindR (read_log_value 1 nd1) (\<lambda>(can_parse_log_nums, nd2).
         if can_parse_log_nums < 1 then Inr ([], nd2) else serve_logs can_parse_log_nums nd2))"

section \<open>The sending side\<close>

text \<open>The header in memory: \<open>key_length\<close>, \<open>value_length\<close> and the 24 bytes of the struct the
  peer ignores, whose contents (unset fields, pointers, padding) are the argument
  \<open>rest\<close>.\<close>

definition header_bytes :: "int \<Rightarrow> int \<Rightarrow> byte list \<Rightarrow> byte list" where
  "header_bytes key_len value_len rest = int_bytes key_len @ int_bytes value_len @ rest"

definition tagged_value :: "byte list \<Rightarrow> byte list" where
  "tagged_value value = value @ [0, 1]"

text \<open>\<open>key\<close> and \<open>value\<close> are the characters of the C strings. \<open>peer1\<close> and \<open>peer2\<close> are the
  downstream node's struct at the two reads of its \<open>rd_pointer\<close>. The lengths are computed as \<open>size_t\<close> and
  become \<open>int\<close> in the header and as arguments.\<close>

definition head_node_write_log ::
    "bool \<Rightarrow> LocalRingbuff \<Rightarrow> LocalRingbuff \<Rightarrow> byte list \<Rightarrow> Node \<Rightarrow> byte list \<Rightarrow> byte list \<Rightarrow> (bool \<times> Node \<times> rop list) res" where
  "head_node_write_log connected peer1 peer2 rest nd key value =
     (let key_len = int (length key) + 1;
          value_len = int (length value) + 1 + 1;
          send_len = sizeof_logEntry + key_len;
          i = next_id nd;
          nd1 = nd\<lparr>heap := (heap nd)(i + 1 \<mapsto> tagged_value value), next_id := i + 2\<rparr>;
          log = \<lparr>key_length = as_int key_len, value_length = as_int value_len, log_pos = 0, key_is_cut = False,
                 value_is_cut = False, key_addr = Null, value_addr = Heap (i + 1)\<rparr>;
          (room, rb1) = check_remote_size connected peer1 (remote_buff nd1) (as_int (send_len + value_len))
      in if \<not> room then Inr (False, nd1\<lparr>remote_buff := rb1, logs := (logs nd1)(i \<mapsto> log)\<rparr>, [])
         else
           bindR (rb_write_mate connected peer2 rb1
                    (header_bytes (key_length log) (value_length log) rest @ key @ [0]) (as_int send_len) (as_int value_len))
             (\<lambda>(pos, rb2, ops).
                let nd2 = nd1\<lparr>remote_buff := rb2, logs := (logs nd1)(i \<mapsto> log\<lparr>log_pos := pos\<rparr>)\<rparr>
                in if pos = - 1 then Inr (False, nd2, ops)
                   else bindR (putQueue (sending_queue nd2) i) (\<lambda>(r, sq).
                          Inr (r \<noteq> 0, nd2\<lparr>sending_queue := sq\<rparr>, ops))))"

text \<open>One turn of the loop of \<open>NIC_thread\<close> that finds an entry.\<close>

definition NIC_turn :: "Node \<Rightarrow> (Node \<times> rop list) res" where
  "NIC_turn nd =
     (if emptyQueue (sending_queue nd) then Inr (nd, [])
      else bindR (topQueue (sending_queue nd)) (\<lambda>t.
        bindR (popQueue (sending_queue nd)) (\<lambda>sq.
          case Option.bind t (logs nd) of
            None \<Rightarrow> Inl UB
          | Some log \<Rightarrow>
              (case mem_from nd (value_addr log) of
                 None \<Rightarrow> Inl UB
               | Some bs \<Rightarrow>
                   guardR (0 \<le> value_length log \<and> value_length log \<le> int (length bs)) UB
                     (let value_pos = (log_pos log + value_offset log) AND (rsize (remote_buff nd) - 1)
                      in Inr (nd\<lparr>sending_queue := sq\<rparr>,
                              rb_write_data (remote_buff nd) bs value_pos (value_length log)))))))"

section \<open>Start-up\<close>

text \<open>\<open>buff_init\<close> up to the threads it starts: the queues, the dirty map of a node that
  receives and the cached state of the remote buffer of a node that sends. \<open>remote_ok\<close>
  tells whether \<open>dhmp_buff_malloc\<close> filled both addresses. The reader and \<open>NIC_thread\<close> are
  started according to \<open>node_class\<close>.\<close>

definition buff_init :: "nodeClass \<Rightarrow> int \<Rightarrow> bool \<Rightarrow> LocalRingbuff \<Rightarrow> Node res" where
  "buff_init nc server_id remote_ok lb =
     (let q = initQueue 8 QUEUE_SIZE;
          m0 = \<lparr>hsize = 0, listSize = 0, changeSize = False, hash_list = []\<rparr>;
          rb0 = \<lparr>wr_pointer = 0, rd_pointer = 0, rsize = 0, node_id = 0\<rparr>;
          nd = \<lparr>node_class = nc, local_recv_buff = lb, remote_buff = rb0,
                logs = (\<lambda>_. None), heap = (\<lambda>_. None), next_id = 0, dirty_map = m0,
                value_peeding_queue = q, executing_queue = q, sending_queue = q, dirty_queue = q\<rparr>;
          with_map = (\<lambda>n. case createHashMap 1024 of None \<Rightarrow> n | Some m \<Rightarrow> n\<lparr>dirty_map := m\<rparr>)
      in if nc = TAIL then Inr (with_map nd)
         else if \<not> remote_ok then Inl Exit
         else let nd1 = nd\<lparr>remote_buff := rb0\<lparr>node_id := server_id + 1, rsize := TOTAL_SIZE\<rparr>\<rparr>
              in if nc = HEAD then Inr nd1 else Inr (with_map nd1))"

end
