(* ===== verification/LogFrames.thy ===== *)
theory LogFrames
  imports LogBuffer
begin

text \<open>
  What the bytes between \<open>rd_pointer\<close> and \<open>wr_pointer\<close> mean: a sequence of frames, each the
  header, the key with its NUL and the reserved bytes of the value with its NUL and tag.
  \<open>glog\<close> is a log as its writer meant it, with a flag that tells whether the value has
  arrived. The lemmas say how the frames change when a log is appended, filled or
  consumed, and what the parser of \<open>read_log_key\<close> finds at the start of a frame.
\<close>

record glog =
  g_key :: "byte list"
  g_value :: "byte list"
  g_done :: bool

definition key_field :: "glog \<Rightarrow> byte list" where
  "key_field g = g_key g @ [0]"

definition value_field :: "glog \<Rightarrow> byte list" where
  "value_field g = tagged_value (g_value g)"

definition glog_ok :: "glog \<Rightarrow> bool" where
  "glog_ok g \<longleftrightarrow> 0 \<notin> set (g_key g) \<and> 0 \<notin> set (g_value g) \<and>
     length (g_key g) < 2 ^ 30 \<and> length (g_value g) < 2 ^ 30"

definition flen :: "glog \<Rightarrow> nat" where
  "flen g = 32 + length (key_field g) + length (value_field g)"

definition foff :: "glog list \<Rightarrow> nat" where
  "foff gs = sum_list (map flen gs)"

text \<open>The fields of one frame at the start of \<open>bs\<close>.\<close>

definition frame_at :: "byte list \<Rightarrow> glog \<Rightarrow> bool" where
  "frame_at bs g \<longleftrightarrow> flen g \<le> length bs \<and>
     mate_key_len bs = int (length (key_field g)) \<and> mate_value_len bs = int (length (value_field g)) \<and>
     bslice bs 32 (length (key_field g)) = key_field g \<and>
     (g_done g \<longrightarrow> bslice bs (32 + length (key_field g)) (length (value_field g)) = value_field g)"

fun framed :: "byte list \<Rightarrow> glog list \<Rightarrow> bool" where
  "framed bs [] \<longleftrightarrow> bs = []"
| "framed bs (g # gs) \<longleftrightarrow> frame_at bs g \<and> framed (drop (flen g) bs) gs"

lemma foff_simps [simp]: "foff [] = 0" "foff (g # gs) = flen g + foff gs" "foff (xs @ ys) = foff xs + foff ys"
  by (simp_all add: foff_def)

lemma flen_ge: "35 \<le> flen g"
  by (simp add: flen_def key_field_def value_field_def tagged_value_def)

lemma field_lengths [simp]:
  "length (key_field g) = Suc (length (g_key g))" "length (value_field g) = Suc (Suc (length (g_value g)))"
  by (simp_all add: key_field_def value_field_def tagged_value_def)

lemma bslice_append_left: "off + n \<le> length xs \<Longrightarrow> bslice (xs @ ys) off n = bslice xs off n"
  by (simp add: bslice_def)

lemma bslice_take: "off + n \<le> k \<Longrightarrow> bslice (take k xs) off n = bslice xs off n"
  by (simp add: bslice_def drop_take min_def)

lemma frame_at_take: "k \<ge> flen g \<Longrightarrow> frame_at (take k bs) g \<longleftrightarrow> frame_at bs g"
proof -
  assume k: "k \<ge> flen g"
  then have "32 + length (key_field g) + length (value_field g) \<le> k" by (simp add: flen_def)
  then show ?thesis
    unfolding frame_at_def mate_key_len_def mate_value_len_def
    using flen_ge [of g] k by (auto simp: bslice_take)
qed

lemma frame_at_append: "flen g \<le> length bs \<Longrightarrow> frame_at (bs @ cs) g \<longleftrightarrow> frame_at bs g"
  using frame_at_take [of g "length bs" "bs @ cs"] by simp

lemma framed_append: "framed bs gs \<Longrightarrow> framed cs hs \<Longrightarrow> framed (bs @ cs) (gs @ hs)"
proof (induction gs arbitrary: bs)
  case (Cons g gs)
  have l: "flen g \<le> length bs" using Cons.prems by (simp add: frame_at_def)
  with Cons show ?case by (simp add: frame_at_append)
qed simp

lemma framed_length: "framed bs gs \<Longrightarrow> length bs = foff gs"
proof (induction gs arbitrary: bs)
  case (Cons g gs)
  then have "flen g \<le> length bs" by (simp add: frame_at_def)
  moreover have "length (drop (flen g) bs) = foff gs" using Cons by (intro Cons.IH) simp
  ultimately show ?case by simp
qed simp

lemma framed_drop: "framed bs (xs @ ys) \<Longrightarrow> framed (drop (foff xs) bs) ys"
proof (induction xs arbitrary: bs)
  case (Cons g xs)
  then have "framed (drop (foff xs) (drop (flen g) bs)) ys" by (intro Cons.IH) simp
  then show ?case by (simp add: add.commute)
qed simp

lemma framed_nth: "framed bs (xs @ g # ys) \<Longrightarrow> frame_at (drop (foff xs) bs) g"
  using framed_drop [of bs xs "g # ys"] by simp

lemma framed_split: "framed bs (xs @ ys) \<Longrightarrow> framed (take (foff xs) bs) xs"
proof (induction xs arbitrary: bs)
  case (Cons g xs)
  then have f: "frame_at bs g" "framed (drop (flen g) bs) (xs @ ys)" by auto
  have "frame_at (take (flen g + foff xs) bs) g" using f(1) by (simp add: frame_at_take)
  moreover have "framed (take (foff xs) (drop (flen g) bs)) xs" by (rule Cons.IH [OF f(2)])
  ultimately show ?case by (simp add: drop_take)
qed simp

lemma mate_lens_append:
  assumes "length bs = 32"
  shows "mate_key_len (bs @ cs) = mate_key_len bs" "mate_value_len (bs @ cs) = mate_value_len bs"
  using assms by (simp_all add: mate_key_len_def mate_value_len_def bslice_append_left)

lemma header_lens:
  assumes "length rest = 24" "- (2 ^ 31) \<le> a" "a < 2 ^ 31" "- (2 ^ 31) \<le> b" "b < 2 ^ 31"
  shows "mate_key_len (header_bytes a b rest @ cs) = a" "mate_value_len (header_bytes a b rest @ cs) = b"
  using assms bytes_int_bytes [of a] bytes_int_bytes [of b]
  by (simp_all add: header_bytes_def mate_key_len_def mate_value_len_def bslice_def)

lemma length_header: "length rest = 24 \<Longrightarrow> length (header_bytes a b rest) = 32"
  by (simp add: header_bytes_def)

text \<open>A log as it is appended: the value bytes are not written yet.\<close>

lemma frame_new:
  assumes "length rest = 24" and "glog_ok g" and "\<not> g_done g" and "length reserved = length (value_field g)"
  shows "framed (header_bytes (int (length (key_field g))) (int (length (value_field g))) rest
      @ key_field g @ reserved) [g]"
proof -
  let ?h = "header_bytes (int (length (key_field g))) (int (length (value_field g))) rest"
  have h: "length ?h = 32" by (rule length_header [OF assms(1)])
  have "frame_at (?h @ key_field g @ reserved) g"
    unfolding frame_at_def
    using assms h header_lens [OF assms(1), of "int (length (key_field g))" "int (length (value_field g))"]
    by (auto simp: flen_def glog_ok_def bslice_def)
  then show ?thesis using h assms(4) by (simp add: flen_def)
qed

text \<open>Filling the value of a frame completes it and leaves the others alone.\<close>

lemma frame_fill:
  assumes "frame_at (pre @ old @ post) g" and "length pre = 32 + length (key_field g)"
    and "length old = length (value_field g)"
  shows "frame_at (pre @ value_field g @ post) (g\<lparr>g_done := True\<rparr>)"
proof -
  have "32 + length (key_field g) \<le> length pre" using assms(2) by simp
  then show ?thesis
    using assms unfolding frame_at_def
    by (simp add: flen_def mate_key_len_def mate_value_len_def bslice_append_left key_field_def
        value_field_def) (simp add: bslice_def)
qed

lemma framed_fill:
  assumes "framed (pre @ old @ post) (xs @ g # ys)"
    and "length pre = foff xs + 32 + length (key_field g)" and "length old = length (value_field g)"
  shows "framed (pre @ value_field g @ post) (xs @ g\<lparr>g_done := True\<rparr> # ys)"
proof -
  let ?g = "g\<lparr>g_done := True\<rparr>"
  have fl: "flen ?g = flen g" by (simp add: flen_def key_field_def value_field_def)
  have "framed (take (foff xs) (pre @ old @ post)) xs" by (rule framed_split [OF assms(1)])
  then have a: "framed (take (foff xs) pre) xs" using assms(2) by simp
  have "framed (drop (foff xs) (pre @ old @ post)) (g # ys)" by (rule framed_drop [OF assms(1)])
  then have b: "framed (drop (foff xs) pre @ old @ post) (g # ys)" using assms(2) by simp
  have "frame_at (drop (foff xs) pre @ value_field g @ post) ?g"
    using b assms(2,3) by (intro frame_fill [where old = old]) auto
  moreover have "drop (flen g) (drop (foff xs) pre @ value_field g @ post)
      = drop (flen g) (drop (foff xs) pre @ old @ post)"
    using assms(2,3) by (simp add: flen_def)
  ultimately have "framed (drop (foff xs) pre @ value_field g @ post) (?g # ys)"
    using b fl by simp
  from framed_append [OF a this] show ?thesis by (simp add: append_assoc [symmetric] del: append_assoc)
qed

text \<open>Reading a part of the unread bytes straight from the ring.\<close>

lemma bslice_ring_at:
  assumes "o' + n \<le> d"
  shows "bslice (ring_at buff pos d) o' n = ring_at buff (pos + int o') n"
  using assms by (intro nth_equalityI) (auto simp: nth_bslice nth_ring_at algebra_simps)

lemma bslice_drop: "bslice (drop a bs) off n = bslice bs (a + off) n"
  by (simp add: bslice_def add.commute)

end
