(* ===== verification/LogTail.thy ===== *)
theory LogTail
  imports LogFrames
begin

text \<open>
  The receiving end of the pipeline on a tail node, where \<open>send_log\<close> forwards nothing. The
  unread bytes are frames in three groups: \<open>ge\<close>, parsed with their value found complete
  (the logs of \<open>executing_queue\<close>), \<open>gp\<close>, parsed only (the logs of
  \<open>value_peeding_queue\<close>), and \<open>gr\<close>, not parsed yet. The invariant \<open>tail_inv\<close> ties the
  structs in the queues, the heap blocks they own and the dirty map to the frames; the
  lemmas show that each step of the reader moves one frame to the next group and never
  faults.
\<close>

section \<open>Structs and frames\<close>

definition placed :: "Node \<Rightarrow> int \<Rightarrow> byte list \<Rightarrow> bool \<Rightarrow> addr \<Rightarrow> bool" where
  "placed nd pos fld is_cut a \<longleftrightarrow>
     (if is_cut then \<exists>h. a = Heap h \<and> heap nd h = Some fld
      else a = Ring (pos mod rsize (local_recv_buff nd)) \<and>
           pos mod rsize (local_recv_buff nd) + int (length fld) < rsize (local_recv_buff nd))"

definition entry_for :: "Node \<Rightarrow> int \<Rightarrow> glog \<Rightarrow> logEntry \<Rightarrow> bool" where
  "entry_for nd pos g l \<longleftrightarrow>
     key_length l = int (length (key_field g)) \<and> value_length l = int (length (value_field g)) \<and>
     log_pos l mod rsize (local_recv_buff nd) = pos mod rsize (local_recv_buff nd) \<and>
     placed nd (pos + 32) (key_field g) (key_is_cut l) (key_addr l)"

definition new_entry :: "Node \<Rightarrow> int \<Rightarrow> glog \<Rightarrow> logEntry \<Rightarrow> bool" where
  "new_entry nd pos g l \<longleftrightarrow> entry_for nd pos g l \<and> value_addr l = Null \<and> \<not> value_is_cut l"

definition done_entry :: "Node \<Rightarrow> int \<Rightarrow> glog \<Rightarrow> logEntry \<Rightarrow> bool" where
  "done_entry nd pos g l \<longleftrightarrow> entry_for nd pos g l \<and> g_done g \<and>
     placed nd (pos + 32 + int (length (key_field g))) (value_field g) (value_is_cut l) (value_addr l)"

fun parsed :: "(Node \<Rightarrow> int \<Rightarrow> glog \<Rightarrow> logEntry \<Rightarrow> bool) \<Rightarrow> Node \<Rightarrow> int \<Rightarrow> nat list \<Rightarrow> glog list \<Rightarrow> bool" where
  "parsed P nd pos [] [] \<longleftrightarrow> True"
| "parsed P nd pos (i # is) (g # gs) \<longleftrightarrow>
     (\<exists>l. logs nd i = Some l \<and> P nd pos g l) \<and> parsed P nd (pos + int (flen g)) is gs"
| "parsed P nd pos _ _ \<longleftrightarrow> False"

definition owned :: "logEntry \<Rightarrow> addr list" where
  "owned l = (if key_is_cut l then [key_addr l] else []) @ (if value_is_cut l then [value_addr l] else [])"

definition blocks :: "Node \<Rightarrow> nat list \<Rightarrow> addr list" where
  "blocks nd is = concat (map (\<lambda>i. case logs nd i of None \<Rightarrow> [] | Some l \<Rightarrow> owned l) is)"

definition ids_ok :: "Node \<Rightarrow> nat list \<Rightarrow> bool" where
  "ids_ok nd is \<longleftrightarrow> distinct is \<and> (\<forall>i \<in> set is. i < next_id nd) \<and> distinct (blocks nd is) \<and>
     (\<forall>a \<in> set (blocks nd is). \<exists>h. a = Heap h \<and> h < next_id nd)"

definition key_addrs :: "Node \<Rightarrow> nat list \<Rightarrow> addr set" where
  "key_addrs nd is = {key_addr l | i l. i \<in> set is \<and> logs nd i = Some l}"

definition q_ok :: "nat unQueue \<Rightarrow> bool" where
  "q_ok q \<longleftrightarrow> queue_wf q \<and> len q = QUEUE_SIZE"

definition ring_inv :: "LocalRingbuff \<Rightarrow> glog list \<Rightarrow> bool" where
  "ring_inv lb gs \<longleftrightarrow> local_wf lb \<and> rsize lb \<le> 65536 \<and> framed (unread lb) gs \<and> list_all glog_ok gs \<and>
     distinct (map g_key gs)"

definition log_inv :: "Node \<Rightarrow> nat list \<Rightarrow> nat list \<Rightarrow> glog list \<Rightarrow> glog list \<Rightarrow> glog list \<Rightarrow> bool" where
  "log_inv nd E P ge gp gr \<longleftrightarrow>
     ring_inv (local_recv_buff nd) (ge @ gp @ gr) \<and>
     parsed done_entry nd (rd_pointer (local_recv_buff nd)) E ge \<and>
     parsed new_entry nd (rd_pointer (local_recv_buff nd) + int (foff ge)) P gp \<and> ids_ok nd (E @ P)"

definition dirty_inv :: "Node \<Rightarrow> nat list \<Rightarrow> glog list \<Rightarrow> bool" where
  "dirty_inv nd is gs \<longleftrightarrow> dirty_counts (rd_str nd) (dirty_map nd) (mset (map g_key gs)) \<and>
     stored_keys (dirty_map nd) \<subseteq> key_addrs nd is"

definition queues_inv :: "Node \<Rightarrow> nat list \<Rightarrow> nat list \<Rightarrow> bool" where
  "queues_inv nd E P \<longleftrightarrow> node_class nd = TAIL \<and>
     q_ok (executing_queue nd) \<and> q_ok (value_peeding_queue nd) \<and> q_ok (dirty_queue nd) \<and>
     queue_items (executing_queue nd) = E \<and> queue_items (value_peeding_queue nd) = P \<and>
     queue_items (dirty_queue nd) = E @ P"

definition tail_inv :: "Node \<Rightarrow> int \<Rightarrow> glog list \<Rightarrow> glog list \<Rightarrow> glog list \<Rightarrow> bool" where
  "tail_inv nd kp ge gp gr \<longleftrightarrow>
     (\<exists>E P. queues_inv nd E P \<and> log_inv nd E P ge gp gr \<and> dirty_inv nd (E @ P) (ge @ gp)) \<and>
     kp = (rd_pointer (local_recv_buff nd) + int (foff (ge @ gp))) mod rsize (local_recv_buff nd)"

lemma tail_invI:
  "queues_inv nd E P \<Longrightarrow> log_inv nd E P ge gp gr \<Longrightarrow> dirty_inv nd (E @ P) (ge @ gp) \<Longrightarrow>
   kp = (rd_pointer (local_recv_buff nd) + int (foff (ge @ gp))) mod rsize (local_recv_buff nd) \<Longrightarrow>
     tail_inv nd kp ge gp gr"
  by (auto simp: tail_inv_def)

lemma parsed_Cons: "parsed P nd pos (i # is) gs \<longleftrightarrow>
    (\<exists>g gs' l. gs = g # gs' \<and> logs nd i = Some l \<and> P nd pos g l \<and> parsed P nd (pos + int (flen g)) is gs')"
  by (cases gs) auto

lemma parsed_Nil [simp]: "parsed P nd pos [] gs \<longleftrightarrow> gs = []"
  by (cases gs) auto

lemma parsed_Nil2 [simp]: "parsed P nd pos is [] \<longleftrightarrow> is = []"
  by (cases "is") auto

lemma parsed_append:
  "length is = length gs \<Longrightarrow> parsed P nd pos (is @ js) (gs @ hs) \<longleftrightarrow>
     parsed P nd pos is gs \<and> parsed P nd (pos + int (foff gs)) js hs"
  by (induction "is" gs arbitrary: pos rule: list_induct2) (auto simp: algebra_simps)

lemma parsed_length: "parsed P nd pos is gs \<Longrightarrow> length is = length gs"
  by (induction "is" arbitrary: pos gs) (auto simp: parsed_Cons)

lemma parsed_mono:
  assumes "parsed P nd pos is gs" and "\<And>i. i \<in> set is \<Longrightarrow> logs nd' i = logs nd i"
    and "\<And>i l pos g. i \<in> set is \<Longrightarrow> logs nd i = Some l \<Longrightarrow> P nd pos g l \<Longrightarrow> Q nd' pos g l"
  shows "parsed Q nd' pos is gs"
  using assms by (induction "is" arbitrary: pos gs) (fastforce simp: parsed_Cons)+

lemma parsed_mod:
  assumes "\<And>pos pos' g l. pos' mod N = pos mod N \<Longrightarrow> P nd pos g l \<Longrightarrow> P nd pos' g l"
  shows "parsed P nd pos is gs \<Longrightarrow> pos' mod N = pos mod N \<Longrightarrow> parsed P nd pos' is gs"
proof (induction "is" arbitrary: pos pos' gs)
  case (Cons i "is")
  then obtain g gs' l where *: "gs = g # gs'" "logs nd i = Some l" "P nd pos g l"
    "parsed P nd (pos + int (flen g)) is gs'" by (auto simp: parsed_Cons)
  have "(pos' + int (flen g)) mod N = (pos + int (flen g)) mod N"
    using Cons.prems(2) by (metis mod_add_left_eq)
  with Cons.IH [OF *(4)] * assms [OF Cons.prems(2)] show ?case by (auto simp: parsed_Cons)
qed simp

text \<open>Where the struct of a parsed frame stands.\<close>

lemma parsed_mem:
  "parsed P nd pos is gs \<Longrightarrow> i \<in> set is \<Longrightarrow>
     \<exists>xs g ys l. gs = xs @ g # ys \<and> logs nd i = Some l \<and> P nd (pos + int (foff xs)) g l"
proof (induction "is" arbitrary: pos gs)
  case (Cons j js)
  then obtain g gs' l where *: "gs = g # gs'" "logs nd j = Some l" "P nd pos g l"
    "parsed P nd (pos + int (flen g)) js gs'" by (auto simp: parsed_Cons)
  show ?case
  proof (cases "i = j")
    case True
    with * show ?thesis by (intro exI [of _ "[]"] exI [of _ g] exI [of _ gs']) auto
  next
    case False
    with Cons.prems Cons.IH [OF *(4)] obtain xs h ys l' where "gs' = xs @ h # ys" "logs nd i = Some l'"
      "P nd (pos + int (flen g) + int (foff xs)) h l'" by auto
    with * show ?thesis
      by (intro exI [of _ "g # xs"] exI [of _ h] exI [of _ ys] exI [of _ l']) (simp add: algebra_simps)
  qed
qed simp

text \<open>Whether the value has arrived does not matter to a struct that only knows the key.\<close>

lemma done_irrelevant [simp]:
  "key_field (g\<lparr>g_done := b\<rparr>) = key_field g" "value_field (g\<lparr>g_done := b\<rparr>) = value_field g"
  "flen (g\<lparr>g_done := b\<rparr>) = flen g" "glog_ok (g\<lparr>g_done := b\<rparr>) = glog_ok g"
  by (simp_all add: key_field_def value_field_def flen_def glog_ok_def)

lemma new_entry_done [simp]: "new_entry nd pos (g\<lparr>g_done := b\<rparr>) l = new_entry nd pos g l"
  by (simp add: new_entry_def entry_for_def)

section \<open>Reading the fields of a frame\<close>

lemma ring_unread:
  assumes "local_wf lb" and "framed (unread lb) (xs @ g # ys)" and "a + n \<le> flen g"
  shows "bslice (drop (foff xs) (unread lb)) a n = ring_at (buff_addr lb) (rd_pointer lb + int (foff xs) + int a) n"
    and "foff xs + flen g \<le> nat (rb_data_size lb)"
proof -
  have "flen g \<le> length (drop (foff xs) (unread lb))"
    using framed_nth [OF assms(2)] by (simp add: frame_at_def)
  then show d: "foff xs + flen g \<le> nat (rb_data_size lb)"
    using flen_ge [of g] by (simp add: unread_def)
  show "bslice (drop (foff xs) (unread lb)) a n = ring_at (buff_addr lb) (rd_pointer lb + int (foff xs) + int a) n"
    unfolding bslice_drop unread_def using d assms(3)
    by (subst bslice_ring_at) (auto simp: algebra_simps)
qed

lemma frame_key:
  assumes "local_wf lb" and "framed (unread lb) (xs @ g # ys)"
  shows "ring_at (buff_addr lb) (rd_pointer lb + int (foff xs) + 32) (length (key_field g)) = key_field g"
  using framed_nth [OF assms(2)] ring_unread(1) [OF assms, of 32 "length (key_field g)"]
  by (simp add: frame_at_def flen_def)

lemma frame_value:
  assumes "local_wf lb" and "framed (unread lb) (xs @ g # ys)" and "g_done g"
  shows "ring_at (buff_addr lb) (rd_pointer lb + int (foff xs) + 32 + int (length (key_field g))) (length (value_field g))
    = value_field g"
  using framed_nth [OF assms(2)] assms(3)
    ring_unread(1) [OF assms(1,2), of "32 + length (key_field g)" "length (value_field g)"]
  by (simp add: frame_at_def flen_def algebra_simps)

lemma frame_mate:
  assumes "local_wf lb" and "framed (unread lb) (xs @ g # ys)"
  shows "mate_key_len (ring_at (buff_addr lb) (rd_pointer lb + int (foff xs)) 8) = int (length (key_field g)) \<and>
    mate_value_len (ring_at (buff_addr lb) (rd_pointer lb + int (foff xs)) 8) = int (length (value_field g))"
proof -
  have f: "frame_at (drop (foff xs) (unread lb)) g" by (rule framed_nth [OF assms(2)])
  have 8: "ring_at (buff_addr lb) (rd_pointer lb + int (foff xs)) 8 = take 8 (drop (foff xs) (unread lb))"
    using ring_unread(1) [OF assms, of 0 8] flen_ge [of g] by (simp add: bslice_def)
  show ?thesis
    using f unfolding 8 frame_at_def mate_key_len_def mate_value_len_def by (simp add: bslice_take)
qed

text \<open>A field that does not touch the end of the buffer is read in place.\<close>

lemma placed_mem:
  assumes wf: "local_wf (local_recv_buff nd)" and "placed nd pos fld c a"
    and at: "ring_at (buff_addr (local_recv_buff nd)) pos (length fld) = fld"
  shows "\<exists>rest. mem_from nd a = Some (fld @ rest)"
proof (cases c)
  case True
  then show ?thesis using assms(2) by (auto simp: placed_def mem_from_def)
next
  case False
  let ?lb = "local_recv_buff nd" and ?p = "pos mod rsize (local_recv_buff nd)"
  have l: "length (buff_addr ?lb) = nat (rsize ?lb)" "0 < rsize ?lb" using local_wf_len [OF wf] by auto
  have p: "0 \<le> ?p" "?p + int (length fld) < rsize ?lb" "a = Ring ?p"
    using False assms(2) l by (auto simp: placed_def)
  have "ring_at (buff_addr ?lb) pos (length fld) = ring_at (buff_addr ?lb) ?p (length fld)"
    using ring_at_mod [of "buff_addr ?lb" pos "length fld"] l by simp
  also have "\<dots> = bslice (buff_addr ?lb) (nat ?p) (length fld)"
    using p l by (intro ring_at_flat) linarith+
  finally have "take (length fld) (drop (nat ?p) (buff_addr ?lb)) = fld"
    using at by (simp add: bslice_def)
  then have "drop (nat ?p) (buff_addr ?lb) = fld @ drop (length fld) (drop (nat ?p) (buff_addr ?lb))"
    by (metis append_take_drop_id)
  with p l show ?thesis by (auto simp: mem_from_def)
qed

lemma key_str:
  assumes "local_wf (local_recv_buff nd)" and "framed (unread (local_recv_buff nd)) (xs @ g # ys)" and "glog_ok g"
    and "entry_for nd (rd_pointer (local_recv_buff nd) + int (foff xs)) g l"
  shows "str_at nd (key_addr l) = Some (g_key g)"
proof -
  obtain rest where "mem_from nd (key_addr l) = Some (key_field g @ rest)"
    using placed_mem [OF assms(1) _ frame_key [OF assms(1,2)]] assms(4) by (auto simp: entry_for_def)
  with assms(3) show ?thesis
    by (simp add: str_at_def key_field_def glog_ok_def c_string_append_zero)
qed

lemma value_str:
  assumes "local_wf (local_recv_buff nd)" and "framed (unread (local_recv_buff nd)) (xs @ g # ys)" and "glog_ok g"
    and "done_entry nd (rd_pointer (local_recv_buff nd) + int (foff xs)) g l"
  shows "str_at nd (value_addr l) = Some (g_value g)"
proof -
  have d: "g_done g" using assms(4) by (simp add: done_entry_def)
  obtain rest where "mem_from nd (value_addr l) = Some (value_field g @ rest)"
    using placed_mem [OF assms(1) _ frame_value [OF assms(1,2) d]] assms(4) by (auto simp: done_entry_def)
  with assms(3) show ?thesis
    by (simp add: str_at_def value_field_def tagged_value_def glog_ok_def c_string_append_zero)
qed

section \<open>Transfer between states\<close>

lemma str_at_cong:
  "local_recv_buff nd' = local_recv_buff nd \<Longrightarrow> heap nd' = heap nd \<Longrightarrow> str_at nd' a = str_at nd a"
  by (cases a) (simp_all add: str_at_def mem_from_def cong: if_cong)

lemma entry_transfer:
  assumes "\<And>h. Heap h \<in> set (owned l) \<Longrightarrow> heap nd' h = heap nd h"
    and "rsize (local_recv_buff nd') = rsize (local_recv_buff nd)"
  shows "entry_for nd pos g l \<Longrightarrow> entry_for nd' pos g l" and "new_entry nd pos g l \<Longrightarrow> new_entry nd' pos g l"
    and "done_entry nd pos g l \<Longrightarrow> done_entry nd' pos g l"
  using assms
  by (auto simp: entry_for_def new_entry_def done_entry_def placed_def owned_def split: if_splits)

lemma owned_blocks: "i \<in> set is \<Longrightarrow> logs nd i = Some l \<Longrightarrow> set (owned l) \<subseteq> set (blocks nd is)"
  by (induction "is") (auto simp: blocks_def)

lemma blocks_simps [simp]:
  "blocks nd [] = []" "blocks nd (is @ js) = blocks nd is @ blocks nd js"
  "blocks nd (i # is) = (case logs nd i of None \<Rightarrow> [] | Some l \<Rightarrow> owned l) @ blocks nd is"
  by (simp_all add: blocks_def)

lemma blocks_cong: "(\<And>i. i \<in> set is \<Longrightarrow> logs nd' i = logs nd i) \<Longrightarrow> blocks nd' is = blocks nd is"
  by (induction "is") auto

lemma parsed_transfer:
  assumes "\<And>i. i \<in> set is \<Longrightarrow> logs nd' i = logs nd i"
    and "\<And>h. Heap h \<in> set (blocks nd is) \<Longrightarrow> heap nd' h = heap nd h"
    and "rsize (local_recv_buff nd') = rsize (local_recv_buff nd)"
  shows "parsed entry_for nd pos is gs \<Longrightarrow> parsed entry_for nd' pos is gs"
    and "parsed new_entry nd pos is gs \<Longrightarrow> parsed new_entry nd' pos is gs"
    and "parsed done_entry nd pos is gs \<Longrightarrow> parsed done_entry nd' pos is gs"
  by (rule parsed_mono, assumption, rule assms(1), assumption,
      rule entry_transfer [where nd = nd], use owned_blocks assms(2,3) in \<open>blast+\<close>)+

lemma placed_mod:
  assumes "pos' mod rsize (local_recv_buff nd) = pos mod rsize (local_recv_buff nd)"
  shows "placed nd (pos' + c) fld b a = placed nd (pos + c) fld b a"
proof -
  have "(pos' + c) mod rsize (local_recv_buff nd) = (pos + c) mod rsize (local_recv_buff nd)"
    using assms by (metis mod_add_left_eq)
  then show ?thesis by (simp add: placed_def)
qed

lemma entry_mod:
  assumes "pos' mod rsize (local_recv_buff nd) = pos mod rsize (local_recv_buff nd)"
  shows "new_entry nd pos g l \<Longrightarrow> new_entry nd pos' g l" and "done_entry nd pos g l \<Longrightarrow> done_entry nd pos' g l"
  unfolding new_entry_def done_entry_def entry_for_def add.assoc placed_mod [OF assms] using assms by simp_all

lemma parsed_shift:
  assumes "pos' mod rsize (local_recv_buff nd) = pos mod rsize (local_recv_buff nd)"
  shows "parsed new_entry nd pos is gs \<Longrightarrow> parsed new_entry nd pos' is gs"
    and "parsed done_entry nd pos is gs \<Longrightarrow> parsed done_entry nd pos' is gs"
  by (erule parsed_mod [where N = "rsize (local_recv_buff nd)", rotated, OF _ assms], erule entry_mod, assumption)+

section \<open>Consequences of the invariant\<close>

lemma tail_entries:
  assumes "parsed done_entry nd r E ge" and "parsed new_entry nd (r + int (foff ge)) P gp"
  shows "parsed entry_for nd r (E @ P) (ge @ gp)"
proof -
  have "parsed entry_for nd r E ge"
    by (rule parsed_mono [OF assms(1)]) (auto simp: done_entry_def)
  moreover have "parsed entry_for nd (r + int (foff ge)) P gp"
    by (rule parsed_mono [OF assms(2)]) (auto simp: new_entry_def)
  ultimately show ?thesis using parsed_length [OF assms(1)] by (simp add: parsed_append)
qed

lemma parsed_key_str:
  assumes "ring_inv (local_recv_buff nd) (gs @ gr)" and "parsed entry_for nd (rd_pointer (local_recv_buff nd)) is gs"
    and "k \<in> key_addrs nd is"
  shows "\<exists>g \<in> set gs. str_at nd k = Some (g_key g)"
proof -
  obtain i l where i: "i \<in> set is" "logs nd i = Some l" "k = key_addr l" using assms(3) by (auto simp: key_addrs_def)
  obtain xs g ys where g: "gs = xs @ g # ys" "entry_for nd (rd_pointer (local_recv_buff nd) + int (foff xs)) g l"
    using parsed_mem [OF assms(2) i(1)] i(2) by auto
  have "str_at nd (key_addr l) = Some (g_key g)"
    using assms(1) g by (intro key_str [where xs = xs and ys = "ys @ gr"]) (auto simp: ring_inv_def)
  with i g show ?thesis by auto
qed

lemma split_like:
  assumes "length gs = length (js @ i # ks)"
  shows "\<exists>xs g ys. gs = xs @ g # ys \<and> length xs = length js \<and> length ys = length ks"
  using assms id_take_nth_drop [of "length js" gs]
  by (intro exI [of _ "take (length js) gs"] exI [of _ "gs ! length js"] exI [of _ "drop (Suc (length js)) gs"]) auto

text \<open>The strings of the stored keys in two states whose structs describe the same frames;
  in the first, frames \<open>g0\<close> may come before them.\<close>

lemma key_strs_agree:
  assumes "ring_inv (local_recv_buff nd) (g0 @ gs @ gr)"
    and "parsed entry_for nd (rd_pointer (local_recv_buff nd) + int (foff g0)) is gs"
    and "ring_inv (local_recv_buff nd') (gs' @ gr')" and "parsed entry_for nd' (rd_pointer (local_recv_buff nd')) is gs'"
    and "\<And>i l. i \<in> set is \<Longrightarrow> logs nd i = Some l \<Longrightarrow> \<exists>l'. logs nd' i = Some l' \<and> key_addr l' = key_addr l"
    and "map g_key gs' = map g_key gs" and "k \<in> key_addrs nd is"
  shows "str_at nd' k = str_at nd k"
proof -
  obtain i l where i: "i \<in> set is" "logs nd i = Some l" "k = key_addr l" using assms(7) by (auto simp: key_addrs_def)
  obtain js ks where "is": "is = js @ i # ks" using i(1) by (auto simp: in_set_conv_decomp)
  let ?r = "rd_pointer (local_recv_buff nd)"
  obtain xs g ys where g: "gs = xs @ g # ys" "length xs = length js" "length ys = length ks"
    using split_like [of _ js i ks] parsed_length [OF assms(2)] "is" by metis
  obtain xs' g' ys' where g': "gs' = xs' @ g' # ys'" "length xs' = length js" "length ys' = length ks"
    using split_like [of _ js i ks] parsed_length [OF assms(4)] "is" by metis
  have "entry_for nd (?r + int (foff (g0 @ xs))) g l"
    using assms(2) i(2) "is" g by (auto simp: parsed_append parsed_Cons add.assoc)
  then have "str_at nd k = Some (g_key g)"
    using assms(1) g i(3) key_str [of nd "g0 @ xs" g "ys @ gr" l] by (simp add: ring_inv_def)
  moreover obtain l' where l': "logs nd' i = Some l'" "key_addr l' = key_addr l"
    using assms(5) [OF i(1,2)] by blast
  then have "entry_for nd' (rd_pointer (local_recv_buff nd') + int (foff xs')) g' l'"
    using assms(4) "is" g' by (auto simp: parsed_append parsed_Cons)
  then have "str_at nd' k = Some (g_key g')"
    using assms(3) g' i(3) l'(2) [symmetric] key_str [of nd' xs' g' "ys' @ gr'" l'] by (simp add: ring_inv_def)
  moreover have "g_key g' = g_key g" using assms(6) g g' by simp
  ultimately show ?thesis by simp
qed

lemma same_key_strs:
  assumes "ring_inv (local_recv_buff nd) (gs @ gr)" and "parsed entry_for nd (rd_pointer (local_recv_buff nd)) is gs"
    and "ring_inv (local_recv_buff nd') (gs' @ gr')" and "parsed entry_for nd' (rd_pointer (local_recv_buff nd)) is gs'"
    and "rd_pointer (local_recv_buff nd') = rd_pointer (local_recv_buff nd)"
    and "\<And>i l. i \<in> set is \<Longrightarrow> logs nd i = Some l \<Longrightarrow> \<exists>l'. logs nd' i = Some l' \<and> key_addr l' = key_addr l"
    and "map g_key gs' = map g_key gs" and "k \<in> key_addrs nd is"
  shows "str_at nd' k = str_at nd k"
  using key_strs_agree [of nd "[]" gs gr "is" nd' gs' gr' k] assms by simp

lemma count_at:
  assumes "local_wf lb" and "framed (unread lb) (xs @ ys)"
  shows "rb_count_size lb ((rd_pointer lb + int (foff xs)) mod rsize lb) = int (foff ys)"
    and "rb_data_size lb = int (foff xs + foff ys)"
proof -
  note l = local_wf_len [OF assms(1)]
  then have rwf: "ring_wf lb" by simp
  show d: "rb_data_size lb = int (foff xs + foff ys)"
    using framed_length [OF assms(2)] data_size_range [OF rwf] unfolding unread_def
    by (simp only: length_ring_at foff_simps) linarith
  have "rb_count_size lb ((rd_pointer lb + int (foff xs)) mod rsize lb)
      = (wr_pointer lb - (rd_pointer lb + int (foff xs))) mod rsize lb"
    by (simp add: ring_sizes [OF rwf] mod_diff_right_eq)
  also have "\<dots> = rb_data_size lb - int (foff xs)"
    unfolding ring_sizes(1) [OF rwf] using d l by (intro data_size_shrink) (simp_all add: ring_sizes [OF rwf])
  finally show "rb_count_size lb ((rd_pointer lb + int (foff xs)) mod rsize lb) = int (foff ys)"
    using d by simp
qed

lemma few_frames:
  assumes "ring_inv lb gs"
  shows "length gs \<le> 1872"
proof -
  have "35 * length gs \<le> foff gs"
  proof (induction gs)
    case (Cons g gs)
    then show ?case using flen_ge [of g] by simp
  qed simp
  moreover have "int (foff gs) < 65536"
    using count_at(2) [of lb gs "[]"] data_size_range [of lb] assms local_wf_len [of lb]
    by (auto simp: ring_inv_def)
  ultimately show ?thesis by linarith
qed

section \<open>Queues and copies\<close>

lemma q_ok_put:
  assumes "q_ok q" and "queue_items q = xs" and "length xs < 2047"
  shows "\<exists>q'. putQueue q x = Inr (1, q') \<and> q_ok q' \<and> queue_items q' = xs @ [x]"
  using putQueue_room [of q x] assms by (auto simp: q_ok_def QUEUE_SIZE_def)

lemma q_ok_pop: "q_ok q \<Longrightarrow> \<exists>q'. popQueue q = Inr q' \<and> q_ok q' \<and> queue_items q' = tl (queue_items q)"
  using popQueue_items [of q] by (auto simp: q_ok_def)

lemma q_ok_top: "q_ok q \<Longrightarrow> queue_items q = x # xs \<Longrightarrow> topQueue q = Inr (Some x) \<and> \<not> emptyQueue q"
  using topQueue_items [of q] emptyQueue_items [of q] by (auto simp: q_ok_def)

lemma q_ok_empty: "q_ok q \<Longrightarrow> emptyQueue q \<longleftrightarrow> queue_items q = []"
  using emptyQueue_items [of q] by (auto simp: q_ok_def)

lemma copy_if_cut_placed:
  assumes wf: "local_wf (local_recv_buff nd)" and p: "p = pos mod rsize (local_recv_buff nd)"
    and at: "ring_at (buff_addr (local_recv_buff nd)) pos (length fld) = fld"
    and n: "int (length fld) \<le> rb_data_size (local_recv_buff nd)"
  shows "\<exists>c a hp ni. copy_if_cut nd p (int (length fld)) = Inr (c, a, nd\<lparr>heap := hp, next_id := ni\<rparr>) \<and>
    placed (nd\<lparr>heap := hp, next_id := ni\<rparr>) pos fld c a \<and> next_id nd \<le> ni \<and>
    (\<forall>h < next_id nd. hp h = heap nd h) \<and> (c \<longrightarrow> a = Heap (next_id nd) \<and> next_id nd < ni)"
proof -
  let ?lb = "local_recv_buff nd"
  note l = local_wf_len [OF wf]
  have r: "0 \<le> p" "p \<le> rsize ?lb" using l p by (simp_all add: order.strict_implies_order)
  have "ring_at (buff_addr ?lb) p (length fld) = fld"
    using ring_at_mod [of "buff_addr ?lb" pos "length fld"] at l p by simp
  then have rd: "rb_read ?lb True p (int (length fld)) True = Inr (Some fld, ?lb)"
    using rb_read_copy [OF wf r _ n] by simp
  show ?thesis
  proof (cases "p + int (length fld) \<ge> rsize ?lb")
    case True
    then show ?thesis
      using rd p
      by (intro exI [of _ True] exI [of _ "Heap (next_id nd)"] exI [of _ "(heap nd)(next_id nd \<mapsto> fld)"]
          exI [of _ "next_id nd + 1"]) (simp add: copy_if_cut_def placed_def)
  next
    case False
    then show ?thesis
      using p by (intro exI [of _ False] exI [of _ "Ring p"] exI [of _ "heap nd"] exI [of _ "next_id nd"])
        (simp add: copy_if_cut_def placed_def)
  qed
qed

lemma log_inv_lengths:
  assumes "log_inv nd E P ge gp gr"
  shows "length E = length ge" "length P = length gp" "length (ge @ gp @ gr) \<le> 1872"
  using assms few_frames [of "local_recv_buff nd" "ge @ gp @ gr"]
  by (auto simp: log_inv_def dest: parsed_length)

lemma log_inv_entries:
  "log_inv nd E P ge gp gr \<Longrightarrow> parsed entry_for nd (rd_pointer (local_recv_buff nd)) (E @ P) (ge @ gp)"
  unfolding log_inv_def by (blast intro: tail_entries)

lemma log_inv_key:
  assumes "log_inv nd E P ge gp gr" and "k \<in> key_addrs nd (E @ P)"
  shows "\<exists>g \<in> set (ge @ gp). str_at nd k = Some (g_key g)"
  using parsed_key_str [OF _ log_inv_entries [OF assms(1)] assms(2), of gr] assms(1)
  by (simp add: log_inv_def)

text \<open>The map and the queues are no part of it.\<close>

lemma log_inv_cong:
  assumes "log_inv nd E P ge gp gr" and "local_recv_buff nd' = local_recv_buff nd" and "logs nd' = logs nd"
    and "heap nd' = heap nd" and "next_id nd' = next_id nd"
  shows "log_inv nd' E P ge gp gr"
proof -
  have "blocks nd' (E @ P) = blocks nd (E @ P)" using assms(3) by (intro blocks_cong) simp
  then have "ids_ok nd' (E @ P)" using assms by (simp add: log_inv_def ids_ok_def)
  moreover have "parsed done_entry nd' (rd_pointer (local_recv_buff nd)) E ge"
    using assms by (intro parsed_transfer(3) [of E nd' nd]) (simp_all add: log_inv_def)
  moreover have "parsed new_entry nd' (rd_pointer (local_recv_buff nd) + int (foff ge)) P gp"
    using assms by (intro parsed_transfer(2) [of P nd' nd]) (simp_all add: log_inv_def)
  ultimately show ?thesis using assms by (simp add: log_inv_def)
qed

section \<open>The dirty map\<close>

lemma key_addrs_simps [simp]:
  "key_addrs nd [] = {}" "key_addrs nd (is @ js) = key_addrs nd is \<union> key_addrs nd js"
  "logs nd i = Some l \<Longrightarrow> key_addrs nd (i # is) = insert (key_addr l) (key_addrs nd is)"
  by (auto simp: key_addrs_def)

lemma key_addrs_cong: "(\<And>i. i \<in> set is \<Longrightarrow> logs nd' i = logs nd i) \<Longrightarrow> key_addrs nd' is = key_addrs nd is"
  unfolding key_addrs_def by metis

lemma key_addrs_Cons: "key_addrs nd (i # is) = set_option (map_option key_addr (logs nd i)) \<union> key_addrs nd is"
  by (cases "logs nd i") (auto simp: key_addrs_def)

lemma key_addrs_update:
  assumes "logs nd i = Some l" and "logs nd' = (logs nd)(i \<mapsto> l')" and "key_addr l' = key_addr l"
  shows "key_addrs nd' is = key_addrs nd is"
  using assms by (induction "is") (auto simp: key_addrs_Cons)

lemma dirty_inv_transfer:
  assumes "dirty_inv nd is gs" and "dirty_map nd' = dirty_map nd" and "key_addrs nd' is = key_addrs nd is"
    and "\<And>k. k \<in> key_addrs nd is \<Longrightarrow> str_at nd' k = str_at nd k"
  shows "dirty_inv nd' is gs"
proof -
  have "dirty_counts (rd_str nd') (dirty_map nd) (mset (map g_key gs))"
  proof (rule dirty_counts_cong)
    show "dirty_counts (rd_str nd) (dirty_map nd) (mset (map g_key gs))"
      using assms(1) unfolding dirty_inv_def ..
    fix k assume "k \<in> stored_keys (dirty_map nd)"
    then have "k \<in> key_addrs nd is" using assms(1) unfolding dirty_inv_def by (elim conjE subsetD)
    then show "rd_str nd' k = rd_str nd k" unfolding rd_str_def using assms(4) by simp
  qed
  then show ?thesis
    using assms(1,2,3) by (simp add: dirty_inv_def)
qed

lemma table_readable:
  assumes "log_inv nd E P ge gp gr" and "dirty_inv nd is gs" and "set is \<subseteq> set (E @ P)"
    and "i \<in> set (E @ P)" and "logs nd i = Some l"
  shows "table_readable nd (key_addr l)"
proof -
  have k: "str_at nd k \<noteq> None" if "k \<in> key_addrs nd (E @ P)" for k
    using log_inv_key [OF assms(1) that] by auto
  have "key_addr l \<in> key_addrs nd (E @ P)" using assms(4,5) unfolding key_addrs_def by blast
  moreover have "fst e \<in> key_addrs nd (E @ P)" if "e \<in> set (concat (hash_list (dirty_map nd)))" for e
  proof -
    have "fst e \<in> stored_keys (dirty_map nd)" using that unfolding stored_keys_def by (rule imageI)
    with assms(2,3) show ?thesis unfolding dirty_inv_def key_addrs_def by blast
  qed
  ultimately show ?thesis using k unfolding table_readable_def by blast
qed

lemma dirty_room:
  assumes "dirty_inv nd is gs" and "length gs \<le> 1872"
  shows "hsize (dirty_map nd) < 2 ^ 30 - 1"
proof -
  have "hsize (dirty_map nd) \<le> int (size (mset (map g_key gs)))"
    using dirty_counts_hsize [of "rd_str nd"] assms(1) unfolding dirty_inv_def by blast
  with assms(2) show ?thesis by simp
qed

lemma dirty_mark_inv:
  assumes inv: "log_inv nd E P ge gp gr" and dirty: "dirty_inv nd is gs" and sub: "set is \<subseteq> set (E @ P)"
    and few: "length gs \<le> 1872" and i: "i \<in> set (E @ P)" "logs nd i = Some l"
    and str: "str_at nd (key_addr l) = Some (g_key g)"
  shows "\<exists>m. dirty_mark nd (key_addr l) = Inr (nd\<lparr>dirty_map := m\<rparr>) \<and> dirty_inv (nd\<lparr>dirty_map := m\<rparr>) (is @ [i]) (gs @ [g])"
proof -
  have c: "dirty_counts (rd_str nd) (dirty_map nd) (mset (map g_key gs))"
    and st: "stored_keys (dirty_map nd) \<subseteq> key_addrs nd is" using dirty by (simp_all add: dirty_inv_def)
  have k: "rd_str nd (key_addr l) = g_key g" using str by (simp add: rd_str_def)
  obtain m where m: "mark_dirty (rd_str nd) (dirty_map nd) (key_addr l) = Inr m"
      "dirty_counts (rd_str nd) m (add_mset (g_key g) (mset (map g_key gs)))"
    using mark_dirty_counts [OF c dirty_room [OF dirty few], of "key_addr l"] k by auto
  have rd: "rd_str (nd\<lparr>dirty_map := m\<rparr>) = rd_str nd"
    by (intro ext) (simp add: rd_str_def str_at_def mem_from_def split: addr.splits)
  have "stored_keys m \<subseteq> insert (key_addr l) (key_addrs nd is)"
    using mark_dirty_stored [OF m(1)] st by blast
  moreover have "key_addrs (nd\<lparr>dirty_map := m\<rparr>) (is @ [i]) = insert (key_addr l) (key_addrs nd is)"
    using i(2) key_addrs_cong [of "is" "nd\<lparr>dirty_map := m\<rparr>" nd] by simp
  ultimately have "dirty_inv (nd\<lparr>dirty_map := m\<rparr>) (is @ [i]) (gs @ [g])"
    using m(2) unfolding dirty_inv_def rd by simp
  moreover have "dirty_mark nd (key_addr l) = Inr (nd\<lparr>dirty_map := m\<rparr>)"
    using table_readable [OF inv dirty sub i] m(1) by (simp add: dirty_mark_def)
  ultimately show ?thesis by blast
qed

section \<open>read_log_key\<close>

text \<open>A struct for the next frame, at a fresh identifier, with a fresh block for a cut key.\<close>

lemma log_inv_new:
  assumes inv: "log_inv nd E P ge gp (g # gr)"
    and nd': "local_recv_buff nd' = local_recv_buff nd" "logs nd' = (logs nd)(next_id nd \<mapsto> l)"
      "\<And>h. h < next_id nd + 1 \<Longrightarrow> heap nd' h = heap nd h" "next_id nd < next_id nd'"
    and l: "new_entry nd' (rd_pointer (local_recv_buff nd) + int (foff (ge @ gp))) g l"
      "key_is_cut l \<Longrightarrow> key_addr l = Heap (next_id nd + 1) \<and> next_id nd + 1 < next_id nd'"
  shows "log_inv nd' E (P @ [next_id nd]) ge (gp @ [g]) gr"
proof -
  let ?i = "next_id nd" and ?r = "rd_pointer (local_recv_buff nd)"
  have ids: "ids_ok nd (E @ P)" and d: "parsed done_entry nd ?r E ge"
    and n: "parsed new_entry nd (?r + int (foff ge)) P gp"
    and rg: "ring_inv (local_recv_buff nd) (ge @ gp @ g # gr)"
    using inv by (simp_all add: log_inv_def)
  have lt: "i < ?i" if "i \<in> set (E @ P)" for i using ids that unfolding ids_ok_def by blast
  have same: "logs nd' i = logs nd i" if "i \<in> set (E @ P)" for i using lt [OF that] nd'(2) by simp
  have heap: "heap nd' h = heap nd h" if "Heap h \<in> set (blocks nd (E @ P))" for h
    using ids that nd'(3) unfolding ids_ok_def by fastforce
  have "parsed done_entry nd' ?r E ge"
    using same heap nd'(1) by (intro parsed_transfer(3) [OF _ _ _ d]) auto
  moreover have p: "parsed new_entry nd' (?r + int (foff ge)) P gp"
    using same heap nd'(1) by (intro parsed_transfer(2) [OF _ _ _ n]) auto
  moreover have "parsed new_entry nd' (?r + int (foff ge)) (P @ [?i]) (gp @ [g])"
    using p l(1) nd'(2) parsed_length [OF p] by (simp add: parsed_append parsed_Cons add.assoc)
  moreover have "ids_ok nd' (E @ P @ [?i])"
  proof -
    have bl: "blocks nd' (E @ P) = blocks nd (E @ P)" by (rule blocks_cong) (rule same)
    have own: "owned l = (if key_is_cut l then [Heap (?i + 1)] else [])"
      using l by (simp add: owned_def new_entry_def)
    have all: "blocks nd' (E @ P @ [?i]) = blocks nd (E @ P) @ owned l"
      using bl nd'(2) by simp
    have old: "\<exists>h. a = Heap h \<and> h < ?i" if "a \<in> set (blocks nd (E @ P))" for a
      using ids that unfolding ids_ok_def by blast
    have fresh: "Heap (?i + 1) \<notin> set (blocks nd (E @ P))" using old by fastforce
    show ?thesis unfolding ids_ok_def all
    proof (intro conjI ballI)
      show "distinct (E @ P @ [?i])" using ids lt unfolding ids_ok_def by auto
      show "distinct (blocks nd (E @ P) @ owned l)" using ids fresh own unfolding ids_ok_def by auto
    next
      fix i assume "i \<in> set (E @ P @ [?i])"
      then have "i \<in> set (E @ P) \<or> i = ?i" by auto
      then show "i < next_id nd'" using lt nd'(4) less_trans by blast
    next
      fix a assume "a \<in> set (blocks nd (E @ P) @ owned l)"
      then have "a \<in> set (blocks nd (E @ P)) \<or> a = Heap (?i + 1) \<and> key_is_cut l"
        using own by (auto split: if_splits)
      then show "\<exists>h. a = Heap h \<and> h < next_id nd'" using old l(2) nd'(4) less_trans by blast
    qed
  qed
  ultimately show ?thesis
    using rg nd'(1) by (simp add: log_inv_def)
qed

lemma read_one_key_none:
  assumes "tail_inv nd kp ge gp []"
  shows "read_one_key nd kp = Inr None"
proof -
  have "rb_count_size (local_recv_buff nd) kp = 0"
    using assms count_at(1) [of "local_recv_buff nd" "ge @ gp" "[]"]
    by (auto simp: tail_inv_def log_inv_def ring_inv_def)
  then show ?thesis by (simp add: read_one_key_def sizeof_logMateData_def)
qed

text \<open>What the loop body reads at the start of a frame.\<close>

lemma parse_frame:
  assumes wf: "local_wf lb" and fr: "framed (unread lb) (xs @ g # gr)"
    and kp: "kp = (rd_pointer lb + int (foff xs)) mod rsize lb"
  shows "\<not> rb_count_size lb kp < sizeof_logMateData"
    and "\<exists>bs. rb_read lb True kp sizeof_logMateData True = Inr (Some bs, lb) \<and>
      mate_key_len bs = int (length (key_field g)) \<and> mate_value_len bs = int (length (value_field g))"
    and "(kp + key_offset) AND (rsize lb - 1) = (rd_pointer lb + int (foff xs) + 32) mod rsize lb"
    and "(kp + int (flen g)) AND (rsize lb - 1) = (rd_pointer lb + int (foff (xs @ [g]))) mod rsize lb"
proof -
  let ?pos = "rd_pointer lb + int (foff xs)"
  note l = local_wf_len [OF wf]
  have rwf: "ring_wf lb" using l by simp
  have kpr: "0 \<le> kp" "kp \<le> rsize lb" using kp l by (simp_all add: order.strict_implies_order)
  have fits: "foff xs + flen g \<le> nat (rb_data_size lb)" using ring_unread(2) [OF wf fr, of 0 0] by simp
  show "\<not> rb_count_size lb kp < sizeof_logMateData"
    using count_at(1) [OF wf fr] flen_ge [of g] kp by (simp add: sizeof_logMateData_def)
  have at: "ring_at (buff_addr lb) kp 8 = ring_at (buff_addr lb) ?pos 8"
    using ring_at_mod [of "buff_addr lb" ?pos 8] l kp by simp
  have "rb_read lb True kp 8 True = Inr (Some (ring_at (buff_addr lb) ?pos 8), lb)"
    using rb_read_copy [OF wf kpr, of 8] fits flen_ge [of g] at by simp
  with frame_mate [OF wf fr] show "\<exists>bs. rb_read lb True kp sizeof_logMateData True = Inr (Some bs, lb) \<and>
      mate_key_len bs = int (length (key_field g)) \<and> mate_value_len bs = int (length (value_field g))"
    by (simp add: sizeof_logMateData_def)
  show "(kp + key_offset) AND (rsize lb - 1) = (?pos + 32) mod rsize lb"
    using ring_sizes(3) [OF rwf] kp by (simp add: mod_add_left_eq key_offset_def sizeof_logEntry_def)
  show "(kp + int (flen g)) AND (rsize lb - 1) = (rd_pointer lb + int (foff (xs @ [g]))) mod rsize lb"
    using ring_sizes(3) [OF rwf] kp by (simp add: mod_add_left_eq add.assoc)
qed

text \<open>The struct is made before the map and the queues are touched.\<close>

lemma read_one_key_struct:
  assumes li: "log_inv nd E P ge gp (g # gr)"
    and kp: "kp = (rd_pointer (local_recv_buff nd) + int (foff (ge @ gp))) mod rsize (local_recv_buff nd)"
  shows "\<exists>hp ni log. let nd3 = nd\<lparr>heap := hp, next_id := ni, logs := (logs nd)(next_id nd \<mapsto> log)\<rparr> in
    log_inv nd3 E (P @ [next_id nd]) ge (gp @ [g]) gr \<and>
    new_entry nd3 (rd_pointer (local_recv_buff nd) + int (foff (ge @ gp))) g log \<and>
    read_one_key nd kp = bindR (dirty_mark nd3 (key_addr log)) (\<lambda>nd4.
      bindR (putQueue (dirty_queue nd4) (next_id nd)) (\<lambda>(r1, dq).
        bindR (putQueue (value_peeding_queue nd4) (next_id nd)) (\<lambda>(r2, vq).
          if r2 = 0 then Inl Exit
          else Inr (Some (nd4\<lparr>dirty_queue := dq, value_peeding_queue := vq\<rparr>,
            (rd_pointer (local_recv_buff nd) + int (foff (ge @ gp @ [g]))) mod rsize (local_recv_buff nd))))))"
proof -
  let ?lb = "local_recv_buff nd" and ?i = "next_id nd"
  let ?pos = "rd_pointer (local_recv_buff nd) + int (foff (ge @ gp))"
  have wf: "local_wf ?lb" and fr: "framed (unread ?lb) ((ge @ gp) @ g # gr)"
    using li by (simp_all add: log_inv_def ring_inv_def)
  note parse = parse_frame [OF wf fr kp]
  obtain bs where bs: "rb_read ?lb True kp sizeof_logMateData True = Inr (Some bs, ?lb)"
      "mate_key_len bs = int (length (key_field g))" "mate_value_len bs = int (length (value_field g))"
    using parse(2) by blast
  define nd1 where "nd1 = nd\<lparr>next_id := Suc ?i\<rparr>"
  have nd1: "local_recv_buff nd1 = ?lb" "next_id nd1 = ?i + 1" "heap nd1 = heap nd" "logs nd1 = logs nd"
    by (simp_all add: nd1_def)
  have "int (length (key_field g)) \<le> rb_data_size (local_recv_buff nd1)"
    using ring_unread(2) [OF wf fr, of 0 0] by (simp add: nd1 flen_def)
  then obtain c a hp ni where cc:
      "copy_if_cut nd1 ((?pos + 32) mod rsize ?lb) (int (length (key_field g))) = Inr (c, a, nd1\<lparr>heap := hp, next_id := ni\<rparr>)"
      "placed (nd1\<lparr>heap := hp, next_id := ni\<rparr>) (?pos + 32) (key_field g) c a" "?i + 1 \<le> ni"
      "\<And>h. h < ?i + 1 \<Longrightarrow> hp h = heap nd h" "c \<Longrightarrow> a = Heap (?i + 1) \<and> ?i + 1 < ni"
    using copy_if_cut_placed [of nd1 _ "?pos + 32" "key_field g"] wf frame_key [OF wf fr] nd1 by auto
  define log where "log = \<lparr>key_length = 1 + int (length (g_key g)), value_length = 2 + int (length (g_value g)),
      log_pos = kp, key_is_cut = c, value_is_cut = False, key_addr = a, value_addr = Null\<rparr>"
  define nd3 where "nd3 = nd\<lparr>heap := hp, next_id := ni, logs := (logs nd)(?i \<mapsto> log)\<rparr>"
  have nd3: "nd1\<lparr>heap := hp, next_id := ni, logs := (logs nd)(?i \<mapsto> log)\<rparr> = nd3" by (simp add: nd3_def nd1_def)
  have ne: "new_entry nd3 ?pos g log"
    using cc(2) kp by (cases c) (simp_all add: new_entry_def entry_for_def log_def nd3_def nd1_def placed_def)
  have "log_inv nd3 E (P @ [?i]) ge (gp @ [g]) gr"
    using cc(3,4,5) ne by (intro log_inv_new [OF li]) (auto simp: nd3_def log_def)
  moreover have "key_addr log = a" "next_offset log = int (flen g)"
    by (simp_all add: next_offset_def log_def flen_def sizeof_logEntry_def)
  ultimately show ?thesis
    using parse(1,3,4) bs cc(1) ne
    by (intro exI [of _ hp] exI [of _ ni] exI [of _ log], unfold Let_def)
      (simp add: read_one_key_def nd1_def [symmetric] log_def [symmetric] nd3_def [symmetric] nd3 nd1 Let_def
        cong: if_cong)
qed

lemma read_one_key_some:
  assumes inv: "tail_inv nd kp ge gp (g # gr)"
  shows "\<exists>nd' kp'. read_one_key nd kp = Inr (Some (nd', kp')) \<and> tail_inv nd' kp' ge (gp @ [g]) gr \<and>
    local_recv_buff nd' = local_recv_buff nd"
proof -
  let ?i = "next_id nd" and ?r = "rd_pointer (local_recv_buff nd)"
  obtain E P where q: "queues_inv nd E P" and li: "log_inv nd E P ge gp (g # gr)"
    and di: "dirty_inv nd (E @ P) (ge @ gp)"
    and kp: "kp = (?r + int (foff (ge @ gp))) mod rsize (local_recv_buff nd)"
    using inv by (auto simp: tail_inv_def)
  obtain hp ni log where st: "let nd3 = nd\<lparr>heap := hp, next_id := ni, logs := (logs nd)(?i \<mapsto> log)\<rparr> in
    log_inv nd3 E (P @ [?i]) ge (gp @ [g]) gr \<and> new_entry nd3 (?r + int (foff (ge @ gp))) g log \<and>
    read_one_key nd kp = bindR (dirty_mark nd3 (key_addr log)) (\<lambda>nd4.
      bindR (putQueue (dirty_queue nd4) ?i) (\<lambda>(r1, dq).
        bindR (putQueue (value_peeding_queue nd4) ?i) (\<lambda>(r2, vq).
          if r2 = 0 then Inl Exit
          else Inr (Some (nd4\<lparr>dirty_queue := dq, value_peeding_queue := vq\<rparr>,
            (?r + int (foff (ge @ gp @ [g]))) mod rsize (local_recv_buff nd))))))"
    using read_one_key_struct [OF li kp] by blast
  define nd3 where "nd3 = nd\<lparr>heap := hp, next_id := ni, logs := (logs nd)(?i \<mapsto> log)\<rparr>"
  have li3: "log_inv nd3 E (P @ [?i]) ge (gp @ [g]) gr" and ne: "new_entry nd3 (?r + int (foff (ge @ gp))) g log"
    using st by (simp_all add: Let_def nd3_def)
  have same: "\<And>i. i \<in> set (E @ P) \<Longrightarrow> logs nd3 i = logs nd i"
    using li by (auto simp: log_inv_def ids_ok_def nd3_def)
  have en3: "parsed entry_for nd3 ?r (E @ P) (ge @ gp)"
    using log_inv_entries [OF li3] log_inv_lengths [OF li] by (simp add: nd3_def parsed_append flip: append_assoc)
  have di3: "dirty_inv nd3 (E @ P) (ge @ gp)"
  proof (rule dirty_inv_transfer [OF di])
    show "str_at nd3 k = str_at nd k" if "k \<in> key_addrs nd (E @ P)" for k
      using same_key_strs [OF _ log_inv_entries [OF li] _ en3 _ _ _ that, of "g # gr" "g # gr"] li same
      by (simp add: log_inv_def nd3_def)
    show "key_addrs nd3 (E @ P) = key_addrs nd (E @ P)" using same by (rule key_addrs_cong)
  qed (simp add: nd3_def)
  have str: "str_at nd3 (key_addr log) = Some (g_key g)"
    using key_str [of nd3 "ge @ gp" g gr log] li ne by (simp add: nd3_def log_inv_def ring_inv_def new_entry_def)
  have "\<exists>m. dirty_mark nd3 (key_addr log) = Inr (nd3\<lparr>dirty_map := m\<rparr>) \<and>
      dirty_inv (nd3\<lparr>dirty_map := m\<rparr>) ((E @ P) @ [?i]) ((ge @ gp) @ [g])"
    using log_inv_lengths [OF li] str by (intro dirty_mark_inv [OF li3 di3]) (auto simp: nd3_def)
  then obtain m where m: "dirty_mark nd3 (key_addr log) = Inr (nd3\<lparr>dirty_map := m\<rparr>)"
      "dirty_inv (nd3\<lparr>dirty_map := m\<rparr>) ((E @ P) @ [?i]) ((ge @ gp) @ [g])" by blast
  obtain dq where dq: "putQueue (dirty_queue nd) ?i = Inr (1, dq)" "q_ok dq" "queue_items dq = E @ P @ [?i]"
    using q_ok_put [of "dirty_queue nd" "E @ P" ?i] q log_inv_lengths [OF li]
    unfolding queues_inv_def by auto
  obtain vq where vq: "putQueue (value_peeding_queue nd) ?i = Inr (1, vq)" "q_ok vq" "queue_items vq = P @ [?i]"
    using q_ok_put [of "value_peeding_queue nd" P ?i] q log_inv_lengths [OF li]
    unfolding queues_inv_def by auto
  let ?nd' = "nd3\<lparr>dirty_map := m, dirty_queue := dq, value_peeding_queue := vq\<rparr>"
  have "log_inv ?nd' E (P @ [?i]) ge (gp @ [g]) gr" by (rule log_inv_cong [OF li3]) simp_all
  moreover have "dirty_inv ?nd' (E @ P @ [?i]) (ge @ gp @ [g])"
    by (intro dirty_inv_transfer [OF m(2) [simplified]] str_at_cong key_addrs_cong) simp_all
  moreover have "queues_inv ?nd' E (P @ [?i])"
    using q dq vq by (simp add: queues_inv_def nd3_def)
  ultimately show ?thesis
    using st m(1) dq(1) vq(1) by (auto simp: tail_inv_def Let_def nd3_def [symmetric]) (auto simp: nd3_def)
qed

section \<open>Changes of the buffer from outside\<close>

definition fills :: "glog \<Rightarrow> glog \<Rightarrow> bool" where
  "fills g g' \<longleftrightarrow> g' = g \<or> g' = g\<lparr>g_done := True\<rparr>"

lemma fills_fields:
  "fills g g' \<Longrightarrow> g_key g' = g_key g \<and> flen g' = flen g \<and> key_field g' = key_field g \<and> value_field g' = value_field g"
  by (auto simp: fills_def)

lemma fills_lists: "list_all2 fills gs gs' \<Longrightarrow> map g_key gs' = map g_key gs \<and> map flen gs' = map flen gs \<and> foff gs' = foff gs"
  by (induction rule: list_all2_induct) (auto simp: fills_fields foff_def)

lemma parsed_fills: "list_all2 fills gs gs' \<Longrightarrow> parsed new_entry nd pos is gs \<Longrightarrow> parsed new_entry nd pos is gs'"
proof (induction arbitrary: pos "is" rule: list_all2_induct)
  case Nil
  then show ?case by simp
next
  case (Cons g gs g' gs')
  then obtain i js l where *: "is = i # js" "logs nd i = Some l" "new_entry nd pos g l"
    "parsed new_entry nd (pos + int (flen g)) js gs" by (cases "is") auto
  have "new_entry nd pos g' l" using Cons.hyps(1) *(3) by (auto simp: fills_def)
  with * Cons.IH [OF *(4)] Cons.hyps(1) show ?case by (auto simp: fills_fields parsed_Cons)
qed

lemma tail_inv_ring:
  assumes inv: "tail_inv nd kp ge gp gr" and fill: "list_all2 fills gp gp'"
    and lb': "rd_pointer lb' = rd_pointer (local_recv_buff nd)" "rsize lb' = rsize (local_recv_buff nd)"
      "ring_inv lb' (ge @ gp' @ gr')"
  shows "tail_inv (nd\<lparr>local_recv_buff := lb'\<rparr>) kp ge gp' gr'"
proof -
  let ?nd' = "nd\<lparr>local_recv_buff := lb'\<rparr>" and ?r = "rd_pointer (local_recv_buff nd)"
  obtain E P where q: "queues_inv nd E P" and li: "log_inv nd E P ge gp gr" and di: "dirty_inv nd (E @ P) (ge @ gp)"
    and kp: "kp = (?r + int (foff (ge @ gp))) mod rsize (local_recv_buff nd)"
    using inv by (auto simp: tail_inv_def)
  have "blocks ?nd' (E @ P) = blocks nd (E @ P)" by (rule blocks_cong) simp
  then have "ids_ok ?nd' (E @ P)" using li by (simp add: log_inv_def ids_ok_def)
  moreover have "parsed done_entry ?nd' ?r E ge"
    using li lb'(2) by (intro parsed_transfer(3) [of E ?nd' nd]) (simp_all add: log_inv_def)
  moreover have "parsed new_entry ?nd' (?r + int (foff ge)) P gp"
    using li lb'(2) by (intro parsed_transfer(2) [of P ?nd' nd]) (simp_all add: log_inv_def)
  ultimately have li': "log_inv ?nd' E P ge gp' gr'"
    using lb' parsed_fills [OF fill] by (simp add: log_inv_def)
  have "dirty_inv ?nd' (E @ P) (ge @ gp)"
  proof (rule dirty_inv_transfer [OF di])
    fix k assume k: "k \<in> key_addrs nd (E @ P)"
    show "str_at ?nd' k = str_at nd k"
      by (rule same_key_strs [OF _ _ _ _ _ _ _ k, where gs = "ge @ gp" and gr = gr and gs' = "ge @ gp'" and gr' = gr'])
        (use li li' lb' log_inv_entries [OF li] log_inv_entries [OF li'] fills_lists [OF fill] in \<open>simp_all add: log_inv_def\<close>)
  next
    show "key_addrs ?nd' (E @ P) = key_addrs nd (E @ P)" by (rule key_addrs_cong) simp
  qed simp
  then have "dirty_inv ?nd' (E @ P) (ge @ gp')"
    using fills_lists [OF fill] by (simp add: dirty_inv_def flip: mset_map)
  with li' q kp lb' fills_lists [OF fill] show ?thesis
    by (auto simp: tail_inv_def queues_inv_def)
qed

lemma ring_inv_rd_key: "ring_inv (lb\<lparr>rd_key_pointer := x\<rparr>) gs \<longleftrightarrow> ring_inv lb gs"
  by (simp add: ring_inv_def local_wf_def ring_wf_def unread_def rb_data_size_def)

lemma fills_refl: "list_all2 fills gs gs"
  by (simp add: list_all2_refl fills_def)

section \<open>read_log_key returns\<close>

lemma read_keys_result:
  "tail_inv nd kp ge gp gr \<Longrightarrow>
     \<exists>nd' kp'. read_keys n nd kp = Inr (min n (length gr), nd', kp') \<and>
       tail_inv nd' kp' ge (gp @ take n gr) (drop n gr) \<and> local_recv_buff nd' = local_recv_buff nd"
proof (induction n arbitrary: nd kp gp gr)
  case 0
  then show ?case by simp
next
  case (Suc n)
  show ?case
  proof (cases gr)
    case Nil
    with Suc.prems read_one_key_none [of nd kp ge gp] show ?thesis by simp
  next
    case (Cons g gr')
    then obtain nd1 kp1 where r1: "read_one_key nd kp = Inr (Some (nd1, kp1))" "tail_inv nd1 kp1 ge (gp @ [g]) gr'"
        "local_recv_buff nd1 = local_recv_buff nd"
      using read_one_key_some [of nd kp ge gp g gr'] Suc.prems by auto
    with Suc.IH [OF r1(2)] Cons show ?thesis by fastforce
  qed
qed

text \<open>Between calls the key pointer is in the struct.\<close>

abbreviation reader_inv :: "Node \<Rightarrow> glog list \<Rightarrow> glog list \<Rightarrow> glog list \<Rightarrow> bool" where
  "reader_inv nd \<equiv> tail_inv nd (rd_key_pointer (local_recv_buff nd))"

lemma read_log_key_result:
  assumes "reader_inv nd ge gp gr"
  shows "\<exists>nd'. read_log_key n nd = Inr (min n (length gr), nd') \<and> reader_inv nd' ge (gp @ take n gr) (drop n gr) \<and>
    (\<exists>x. local_recv_buff nd' = (local_recv_buff nd)\<lparr>rd_key_pointer := x\<rparr>)"
proof -
  obtain nd1 kp1 where r: "read_keys n nd (rd_key_pointer (local_recv_buff nd)) = Inr (min n (length gr), nd1, kp1)"
      "tail_inv nd1 kp1 ge (gp @ take n gr) (drop n gr)" "local_recv_buff nd1 = local_recv_buff nd"
    using read_keys_result [OF assms] by blast
  have "ring_inv (local_recv_buff nd1) (ge @ (gp @ take n gr) @ drop n gr)"
    using r(2) by (auto simp: tail_inv_def log_inv_def)
  then have "tail_inv (nd1\<lparr>local_recv_buff := (local_recv_buff nd1)\<lparr>rd_key_pointer := kp1\<rparr>\<rparr>) kp1 ge (gp @ take n gr) (drop n gr)"
    by (intro tail_inv_ring [OF r(2) fills_refl]) (simp_all add: ring_inv_rd_key)
  with r show ?thesis by (auto simp: read_log_key_def)
qed

section \<open>read_log_value\<close>

lemma test_done_iff [simp]: "test_done c \<longleftrightarrow> c = 1"
proof
  assume "test_done c"
  then have "(c XOR 1) XOR 1 = 0 XOR 1" by (simp add: test_done_def)
  then show "c = 1" by (simp add: xor.assoc)
qed (simp add: test_done_def)

lemma log_inv_value:
  assumes inv: "log_inv nd E (i # P) ge (g # gp) gr" and dn: "g_done g" and i: "logs nd i = Some l"
    and nd': "local_recv_buff nd' = local_recv_buff nd" "logs nd' = (logs nd)(i \<mapsto> l\<lparr>value_is_cut := c, value_addr := a\<rparr>)"
      "\<And>h. h < next_id nd \<Longrightarrow> heap nd' h = heap nd h" "next_id nd \<le> next_id nd'"
    and pl: "placed nd' (rd_pointer (local_recv_buff nd) + int (foff ge) + 32 + int (length (key_field g))) (value_field g) c a"
      "c \<Longrightarrow> a = Heap (next_id nd) \<and> next_id nd < next_id nd'"
  shows "log_inv nd' (E @ [i]) P (ge @ [g]) gp gr"
proof -
  let ?r = "rd_pointer (local_recv_buff nd)" and ?l = "l\<lparr>value_is_cut := c, value_addr := a\<rparr>"
  have ids: "ids_ok nd (E @ i # P)" and d: "parsed done_entry nd ?r E ge"
    and n: "parsed new_entry nd (?r + int (foff ge)) (i # P) (g # gp)"
    and rg: "ring_inv (local_recv_buff nd) (ge @ (g # gp) @ gr)"
    using inv by (simp_all add: log_inv_def)
  have ni: "i \<notin> set (E @ P)" using ids by (auto simp: ids_ok_def)
  have same: "logs nd' j = logs nd j" if "j \<in> set (E @ P)" for j using ni that nd'(2) by auto
  have old: "\<exists>h. b = Heap h \<and> h < next_id nd" if "b \<in> set (blocks nd (E @ i # P))" for b
    using ids that unfolding ids_ok_def by blast
  have heap: "heap nd' h = heap nd h" if "Heap h \<in> set (blocks nd (E @ i # P))" for h
    using old [OF that] nd'(3) by auto
  have nl: "new_entry nd (?r + int (foff ge)) g l" using n i by (auto simp: parsed_Cons)
  have own: "owned l = (if key_is_cut l then [key_addr l] else [])" using nl by (simp add: owned_def new_entry_def)
  have "parsed done_entry nd' ?r E ge"
    using same heap nd'(1) by (intro parsed_transfer(3) [OF _ _ _ d]) auto
  moreover have "entry_for nd' (?r + int (foff ge)) g l"
    using nl nd'(1) heap i own by (intro entry_transfer(1) [of l nd' nd]) (auto simp: new_entry_def)
  then have "done_entry nd' (?r + int (foff ge)) g ?l"
    using pl(1) dn by (simp add: done_entry_def entry_for_def)
  ultimately have "parsed done_entry nd' ?r (E @ [i]) (ge @ [g])"
    using parsed_length [OF d] nd'(2) by (simp add: parsed_append parsed_Cons)
  moreover have "parsed new_entry nd' (?r + int (foff (ge @ [g]))) P gp"
    using same heap nd'(1) n i by (intro parsed_transfer(2) [of P nd' nd]) (auto simp: add.assoc)
  moreover have "ids_ok nd' ((E @ [i]) @ P)"
  proof -
    have b: "blocks nd' E = blocks nd E" "blocks nd' P = blocks nd P" using same by (auto intro: blocks_cong)
    have all: "blocks nd' ((E @ [i]) @ P) = blocks nd E @ owned l @ (if c then [a] else []) @ blocks nd P"
      using b nd'(2) own by (simp add: owned_def)
    have before: "blocks nd (E @ i # P) = blocks nd E @ owned l @ blocks nd P" using i by simp
    have fresh: "Heap (next_id nd) \<notin> set (blocks nd (E @ i # P))" using old by fastforce
    show ?thesis unfolding ids_ok_def all
    proof (intro conjI ballI)
      show "distinct ((E @ [i]) @ P)" using ids by (auto simp: ids_ok_def)
      show "distinct (blocks nd E @ owned l @ (if c then [a] else []) @ blocks nd P)"
        using ids fresh pl(2) unfolding ids_ok_def before by auto
    next
      fix j assume "j \<in> set ((E @ [i]) @ P)"
      then have "j < next_id nd" using ids by (auto simp: ids_ok_def)
      then show "j < next_id nd'" using nd'(4) by simp
    next
      fix b assume "b \<in> set (blocks nd E @ owned l @ (if c then [a] else []) @ blocks nd P)"
      then have "b \<in> set (blocks nd (E @ i # P)) \<or> c \<and> b = a" unfolding before by (auto split: if_splits)
      then show "\<exists>h. b = Heap h \<and> h < next_id nd'" using old [of b] pl(2) nd'(4) by fastforce
    qed
  qed
  ultimately show ?thesis using rg nd'(1) by (simp add: log_inv_def)
qed

lemma tag_byte:
  assumes wf: "local_wf lb" and fr: "framed (unread lb) (xs @ g # ys)"
    and pos: "pos mod rsize lb = (rd_pointer lb + int (foff xs)) mod rsize lb"
  shows "get_char lb ((pos + (int (flen g) - 1)) AND (rsize lb - 1)) = Inr (unread lb ! (foff xs + flen g - 1))"
    and "g_done g \<Longrightarrow> unread lb ! (foff xs + flen g - 1) = 1"
proof -
  note l = local_wf_len [OF wf]
  have rwf: "ring_wf lb" using l by simp
  have fits: "foff xs + flen g \<le> nat (rb_data_size lb)" using ring_unread(2) [OF wf fr, of 0 0] by simp
  have "(pos + (int (flen g) - 1)) mod rsize lb = (rd_pointer lb + int (foff xs) + (int (flen g) - 1)) mod rsize lb"
    using pos by (metis mod_add_left_eq)
  also have "\<dots> = (rd_pointer lb + int (foff xs + flen g - 1)) mod rsize lb"
    using flen_ge [of g] by (simp add: of_nat_diff algebra_simps)
  finally have p: "(pos + (int (flen g) - 1)) AND (rsize lb - 1)
      = (rd_pointer lb + int (foff xs + flen g - 1)) mod rsize lb" using ring_sizes(3) [OF rwf] by simp
  have "unread lb ! (foff xs + flen g - 1) = buff_addr lb ! nat ((rd_pointer lb + int (foff xs + flen g - 1)) mod rsize lb)"
    unfolding unread_def using fits flen_ge [of g] l by (subst nth_ring_at) auto
  moreover have "0 \<le> x mod rsize lb \<and> x mod rsize lb + 1 \<le> rsize lb" for x
    using l by (simp add: zless_imp_add1_zle)
  ultimately show "get_char lb ((pos + (int (flen g) - 1)) AND (rsize lb - 1)) = Inr (unread lb ! (foff xs + flen g - 1))"
    using l by (simp add: get_char_def in_buff_def p)
  show "unread lb ! (foff xs + flen g - 1) = 1" if "g_done g"
  proof -
    have f: "bslice (drop (foff xs) (unread lb)) (32 + length (key_field g)) (length (value_field g)) = value_field g"
      using framed_nth [OF fr] that by (simp add: frame_at_def)
    let ?k = "length (value_field g) - 1"
    have "value_field g ! ?k = unread lb ! (foff xs + (32 + length (key_field g)) + ?k)"
      using arg_cong [OF f, of "\<lambda>b. b ! ?k"] fits
      by (simp add: bslice_drop nth_bslice unread_def flen_def)
    moreover have "value_field g ! ?k = 1" by (simp add: value_field_def tagged_value_def nth_append)
    ultimately show ?thesis by (simp add: flen_def)
  qed
qed

text \<open>The head of \<open>value_peeding_queue\<close> and its tag.\<close>

lemma peeding_head:
  assumes q: "queues_inv nd E P" and li: "log_inv nd E P ge (g # gp) gr"
  shows "\<exists>i P' l. P = i # P' \<and> logs nd i = Some l \<and>
    new_entry nd (rd_pointer (local_recv_buff nd) + int (foff ge)) g l \<and>
    topQueue (value_peeding_queue nd) = Inr (Some i) \<and> \<not> emptyQueue (value_peeding_queue nd) \<and>
    get_char (local_recv_buff nd) ((log_pos l + value_tag_offset l) AND (rsize (local_recv_buff nd) - 1))
      = Inr (unread (local_recv_buff nd) ! (foff ge + flen g - 1)) \<and>
    (log_pos l + value_offset l) AND (rsize (local_recv_buff nd) - 1)
      = (rd_pointer (local_recv_buff nd) + int (foff ge) + 32 + int (length (key_field g))) mod rsize (local_recv_buff nd)"
proof -
  let ?lb = "local_recv_buff nd" and ?pos = "rd_pointer (local_recv_buff nd) + int (foff ge)"
  have wf: "local_wf ?lb" and fr: "framed (unread ?lb) (ge @ g # gp @ gr)"
    using li by (simp_all add: log_inv_def ring_inv_def)
  have rwf: "ring_wf ?lb" using local_wf_len [OF wf] by simp
  have "parsed new_entry nd ?pos P (g # gp)" using li by (simp add: log_inv_def)
  then obtain i P' l where i: "P = i # P'" "logs nd i = Some l" "new_entry nd ?pos g l"
    by (cases P) auto
  have en: "value_tag_offset l = int (flen g) - 1" "value_offset l = 32 + int (length (key_field g))"
      "log_pos l mod rsize ?lb = ?pos mod rsize ?lb"
    using i(3) by (simp_all add: new_entry_def entry_for_def value_tag_offset_def value_offset_def flen_def sizeof_logEntry_def)
  have "(log_pos l + value_offset l) AND (rsize ?lb - 1) = (?pos + (32 + int (length (key_field g)))) mod rsize ?lb"
    unfolding ring_sizes(3) [OF rwf] en(2) using en(3) by (metis mod_add_left_eq)
  moreover have "topQueue (value_peeding_queue nd) = Inr (Some i) \<and> \<not> emptyQueue (value_peeding_queue nd)"
    using q i(1) by (intro q_ok_top) (auto simp: queues_inv_def)
  ultimately show ?thesis
    using i tag_byte(1) [OF wf fr en(3)] en(1) by (auto simp: add.assoc)
qed

lemma read_one_value_wait:
  assumes inv: "tail_inv nd kp ge (g # gp) gr"
    and "unread (local_recv_buff nd) ! (foff ge + flen g - 1) \<noteq> 1"
  shows "read_one_value nd = Inr None"
proof -
  obtain E P where q: "queues_inv nd E P" and li: "log_inv nd E P ge (g # gp) gr"
    using inv by (auto simp: tail_inv_def)
  obtain i P' l where "logs nd i = Some l" "topQueue (value_peeding_queue nd) = Inr (Some i)"
    "get_char (local_recv_buff nd) ((log_pos l + value_tag_offset l) AND (rsize (local_recv_buff nd) - 1))
      = Inr (unread (local_recv_buff nd) ! (foff ge + flen g - 1))"
    using peeding_head [OF q li] by blast
  with assms(2) show ?thesis by (simp add: read_one_value_def Let_def)
qed

lemma read_one_value_done:
  assumes inv: "tail_inv nd kp ge (g # gp) gr" and dn: "g_done g"
  shows "\<exists>nd'. read_one_value nd = Inr (Some nd') \<and> tail_inv nd' kp (ge @ [g]) gp gr \<and>
    local_recv_buff nd' = local_recv_buff nd"
proof -
  let ?lb = "local_recv_buff nd" and ?r = "rd_pointer (local_recv_buff nd)"
  obtain E P where q: "queues_inv nd E P" and li: "log_inv nd E P ge (g # gp) gr"
    and di: "dirty_inv nd (E @ P) (ge @ g # gp)" and kp: "kp = (?r + int (foff (ge @ g # gp))) mod rsize ?lb"
    using inv by (auto simp: tail_inv_def)
  let ?vp = "?r + int (foff ge) + 32 + int (length (key_field g))"
  obtain i P' l where i: "P = i # P'" "logs nd i = Some l" "new_entry nd (?r + int (foff ge)) g l"
      "topQueue (value_peeding_queue nd) = Inr (Some i)"
    and tag: "get_char ?lb ((log_pos l + value_tag_offset l) AND (rsize ?lb - 1)) = Inr (unread ?lb ! (foff ge + flen g - 1))"
    and vp: "(log_pos l + value_offset l) AND (rsize ?lb - 1) = ?vp mod rsize ?lb"
    using peeding_head [OF q li] by blast
  have wf: "local_wf ?lb" and fr: "framed (unread ?lb) (ge @ g # gp @ gr)"
    using li by (simp_all add: log_inv_def ring_inv_def)
  have one: "unread ?lb ! (foff ge + flen g - 1) = 1" by (rule tag_byte(2) [OF wf fr _ dn]) simp
  have "int (length (value_field g)) \<le> rb_data_size ?lb"
    using ring_unread(2) [OF wf fr, of 0 0] by (simp add: flen_def)
  then obtain c a hp ni where cc:
      "copy_if_cut nd (?vp mod rsize ?lb) (int (length (value_field g))) = Inr (c, a, nd\<lparr>heap := hp, next_id := ni\<rparr>)"
      "placed (nd\<lparr>heap := hp, next_id := ni\<rparr>) ?vp (value_field g) c a" "next_id nd \<le> ni"
      "\<And>h. h < next_id nd \<Longrightarrow> hp h = heap nd h" "c \<Longrightarrow> a = Heap (next_id nd) \<and> next_id nd < ni"
    using copy_if_cut_placed [OF wf refl frame_value [OF wf fr dn]] by blast
  define l' where "l' = l\<lparr>value_is_cut := c, value_addr := a\<rparr>"
  define nd2 where "nd2 = nd\<lparr>heap := hp, next_id := ni, logs := (logs nd)(i \<mapsto> l')\<rparr>"
  have "placed nd2 ?vp (value_field g) c a" using cc(2) by (cases c) (simp_all add: placed_def nd2_def)
  then have li2: "log_inv nd2 (E @ [i]) P' (ge @ [g]) gp gr"
    using li i(1,2) cc(3,4,5) dn by (intro log_inv_value [where l = l and c = c and a = a and nd = nd]) (auto simp: nd2_def l'_def)
  obtain eq where eq: "putQueue (executing_queue nd) i = Inr (1, eq)" "q_ok eq" "queue_items eq = E @ [i]"
    using q_ok_put [of "executing_queue nd" E i] q log_inv_lengths [OF li] unfolding queues_inv_def by auto
  obtain vq where vq: "popQueue (value_peeding_queue nd) = Inr vq" "q_ok vq" "queue_items vq = P'"
    using q_ok_pop [of "value_peeding_queue nd"] q i(1) unfolding queues_inv_def by auto
  define nd' where "nd' = nd2\<lparr>executing_queue := eq, value_peeding_queue := vq\<rparr>"
  have li': "log_inv nd' (E @ [i]) P' (ge @ [g]) gp gr" by (rule log_inv_cong [OF li2]) (simp_all add: nd'_def)
  have "dirty_inv nd' (E @ P) (ge @ g # gp)"
  proof (rule dirty_inv_transfer [OF di])
    show "key_addrs nd' (E @ P) = key_addrs nd (E @ P)"
      by (rule key_addrs_update [OF i(2), of _ l']) (simp_all add: nd'_def nd2_def l'_def)
    fix k assume k: "k \<in> key_addrs nd (E @ P)"
    show "str_at nd' k = str_at nd k"
      by (rule same_key_strs [OF _ _ _ _ _ _ _ k, where gs = "ge @ g # gp" and gr = gr and gs' = "ge @ g # gp" and gr' = gr])
        (use li li' i log_inv_entries [OF li] log_inv_entries [OF li'] in
          \<open>auto simp: log_inv_def nd'_def nd2_def l'_def\<close>)
  qed (simp add: nd'_def nd2_def)
  moreover have "queues_inv nd' (E @ [i]) P'"
    using q eq vq i(1) by (simp add: queues_inv_def nd'_def nd2_def)
  ultimately have "tail_inv nd' kp (ge @ [g]) gp gr"
    using li' i(1) kp by (intro tail_invI [of _ "E @ [i]" P']) (simp_all add: nd'_def nd2_def)
  moreover have "read_one_value nd = Inr (Some nd')"
    using i(2,3,4) tag one vp cc(1) eq(1) vq(1)
    by (simp add: read_one_value_def Let_def new_entry_def entry_for_def nd2_def nd'_def l'_def)
  ultimately show ?thesis by (auto simp: nd'_def nd2_def)
qed

lemma read_log_value_result:
  assumes "tail_inv nd kp ge (gd @ gp) gr" and "list_all g_done gd"
    and "n = length gd \<or> length gd < n \<and> (gp = [] \<or>
      unread (local_recv_buff nd) ! (foff (ge @ gd) + flen (hd gp) - 1) \<noteq> 1)"
  shows "if length gd < n \<and> gp \<noteq> [] then read_log_value n nd = Inl Spin
    else \<exists>nd'. read_log_value n nd = Inr (length gd, nd') \<and> tail_inv nd' kp (ge @ gd) gp gr \<and>
      local_recv_buff nd' = local_recv_buff nd"
  using assms
proof (induction gd arbitrary: nd ge n)
  case Nil
  obtain E P where q: "queues_inv nd E P" and li: "log_inv nd E P ge gp gr" using Nil.prems by (auto simp: tail_inv_def)
  have e: "emptyQueue (value_peeding_queue nd) \<longleftrightarrow> gp = []"
    using q log_inv_lengths(2) [OF li] q_ok_empty [of "value_peeding_queue nd"]
    unfolding queues_inv_def by (metis length_0_conv)
  show ?case
  proof (cases n)
    case (Suc n')
    show ?thesis
    proof (cases gp)
      case (Cons g gp')
      have "read_one_value nd = Inr None"
        using Nil.prems Suc Cons by (intro read_one_value_wait [of nd kp ge g gp' gr]) auto
      with Suc Cons e show ?thesis by simp
    qed (use Suc e Nil.prems in simp)
  qed (use Nil.prems in simp)
next
  case (Cons g gd)
  obtain E P where q: "queues_inv nd E P" and li: "log_inv nd E P ge (g # gd @ gp) gr"
    using Cons.prems by (auto simp: tail_inv_def)
  have ne: "\<not> emptyQueue (value_peeding_queue nd)" using peeding_head [OF q li] by blast
  obtain nd1 where r: "read_one_value nd = Inr (Some nd1)" "tail_inv nd1 kp (ge @ [g]) (gd @ gp) gr"
      "local_recv_buff nd1 = local_recv_buff nd"
    using read_one_value_done [of nd kp ge g "gd @ gp" gr] Cons.prems by auto
  obtain n' where n: "n = Suc n'" using Cons.prems(3) by (cases n) auto
  have "if length gd < n' \<and> gp \<noteq> [] then read_log_value n' nd1 = Inl Spin
    else \<exists>nd'. read_log_value n' nd1 = Inr (length gd, nd') \<and> tail_inv nd' kp ((ge @ [g]) @ gd) gp gr \<and>
      local_recv_buff nd' = local_recv_buff nd1"
    using Cons.prems r(3) n by (intro Cons.IH [OF r(2)]) (auto simp: add.assoc)
  with r ne n show ?case by (auto split: if_splits)
qed

section \<open>Serving a log\<close>

lemma ring_consume:
  assumes "ring_inv lb (g # gs)"
  shows "ring_inv (lb\<lparr>rd_pointer := (rd_pointer lb + int (flen g)) AND (rsize lb - 1)\<rparr>) gs"
    and "(rd_pointer lb + int (flen g)) AND (rsize lb - 1) = (rd_pointer lb + int (flen g)) mod rsize lb"
    and "unread (lb\<lparr>rd_pointer := (rd_pointer lb + int (flen g)) mod rsize lb\<rparr>) = drop (flen g) (unread lb)"
proof -
  have wf: "local_wf lb" and fr: "framed (unread lb) (g # gs)" using assms by (simp_all add: ring_inv_def)
  note l = local_wf_len [OF wf]
  have rwf: "ring_wf lb" using l by simp
  show r': "(rd_pointer lb + int (flen g)) AND (rsize lb - 1) = (rd_pointer lb + int (flen g)) mod rsize lb"
    by (rule ring_sizes(3) [OF rwf])
  let ?lb' = "lb\<lparr>rd_pointer := (rd_pointer lb + int (flen g)) mod rsize lb\<rparr>"
  have rwf': "ring_wf ?lb'" using rwf l by (auto simp: ring_wf_def order.strict_implies_order)
  have d: "rb_data_size lb = int (flen g + foff gs)" using count_at(2) [OF wf, of "[g]" gs] fr by simp
  have "rb_data_size ?lb' = (wr_pointer lb - (rd_pointer lb + int (flen g))) mod rsize lb"
    unfolding ring_sizes(1) [OF rwf'] by (simp add: mod_diff_right_eq)
  also have "\<dots> = int (foff gs)"
    using data_size_shrink [of "int (flen g)" "wr_pointer lb" "rd_pointer lb" "rsize lb"] d l
    by (simp add: ring_sizes(1) [OF rwf])
  finally have d': "rb_data_size ?lb' = int (foff gs)" .
  have "unread ?lb' = ring_at (buff_addr lb) (rd_pointer lb + int (flen g)) (foff gs)"
    unfolding unread_def d' using ring_at_mod [of "buff_addr lb" "rd_pointer lb + int (flen g)"] l by simp
  also have "\<dots> = drop (flen g) (unread lb)"
    unfolding unread_def d by (simp add: ring_at_add nat_add_distrib)
  finally show un: "unread ?lb' = drop (flen g) (unread lb)" .
  show "ring_inv (lb\<lparr>rd_pointer := (rd_pointer lb + int (flen g)) AND (rsize lb - 1)\<rparr>) gs"
    unfolding r' using assms rwf' un by (simp add: ring_inv_def local_wf_def)
qed

lemma free_block_result:
  "c \<longrightarrow> (\<exists>h. a = Heap h \<and> heap nd h \<noteq> None) \<Longrightarrow>
     \<exists>hp. (if c then free_block a nd else Inr nd) = Inr (nd\<lparr>heap := hp\<rparr>) \<and>
       (\<forall>h. \<not> (c \<and> a = Heap h) \<longrightarrow> hp h = heap nd h)"
proof (cases c)
  case True
  assume "c \<longrightarrow> (\<exists>h. a = Heap h \<and> heap nd h \<noteq> None)"
  with True obtain h where "a = Heap h" "heap nd h \<noteq> None" by blast
  with True show ?thesis by (intro exI [of _ "(heap nd)(h := None)"]) (simp add: free_block_def)
qed (intro exI [of _ "heap nd"], simp)

lemma free_log_result:
  assumes "logs nd i = Some l" and "node_class nd \<noteq> HEAD" and "distinct (owned l)"
    and "\<And>a. a \<in> set (owned l) \<Longrightarrow> \<exists>h. a = Heap h \<and> heap nd h \<noteq> None"
  shows "\<exists>hp. free_log i nd = Inr (nd\<lparr>local_recv_buff := (local_recv_buff nd)\<lparr>rd_pointer :=
       (rd_pointer (local_recv_buff nd) + next_offset l) AND (rsize (local_recv_buff nd) - 1)\<rparr>,
       heap := hp, logs := (logs nd)(i := None)\<rparr>) \<and> (\<forall>h. Heap h \<notin> set (owned l) \<longrightarrow> hp h = heap nd h)"
proof -
  let ?nd1 = "nd\<lparr>local_recv_buff := (local_recv_buff nd)\<lparr>rd_pointer :=
       (rd_pointer (local_recv_buff nd) + next_offset l) AND (rsize (local_recv_buff nd) - 1)\<rparr>\<rparr>"
  have k: "key_is_cut l \<longrightarrow> (\<exists>h. key_addr l = Heap h \<and> heap ?nd1 h \<noteq> None)" using assms(4) by (auto simp: owned_def)
  obtain hp1 where h1: "(if key_is_cut l then free_block (key_addr l) ?nd1 else Inr ?nd1) = Inr (?nd1\<lparr>heap := hp1\<rparr>)"
      "\<And>h. \<not> (key_is_cut l \<and> key_addr l = Heap h) \<Longrightarrow> hp1 h = heap nd h"
    using free_block_result [OF k] by auto
  have v: "value_is_cut l \<longrightarrow> (\<exists>h. value_addr l = Heap h \<and> heap (?nd1\<lparr>heap := hp1\<rparr>) h \<noteq> None)"
  proof
    assume c: "value_is_cut l"
    then obtain h where "value_addr l = Heap h" "heap nd h \<noteq> None"
      using assms(4) [of "value_addr l"] by (auto simp: owned_def)
    moreover have "\<not> (key_is_cut l \<and> key_addr l = Heap h)" using assms(3) c calculation by (auto simp: owned_def)
    ultimately show "\<exists>h. value_addr l = Heap h \<and> heap (?nd1\<lparr>heap := hp1\<rparr>) h \<noteq> None" using h1(2) by auto
  qed
  obtain hp2 where "(if value_is_cut l then free_block (value_addr l) (?nd1\<lparr>heap := hp1\<rparr>) else Inr (?nd1\<lparr>heap := hp1\<rparr>))
      = Inr (?nd1\<lparr>heap := hp2\<rparr>)" "\<And>h. \<not> (value_is_cut l \<and> value_addr l = Heap h) \<Longrightarrow> hp2 h = hp1 h"
    using free_block_result [OF v] by auto
  with h1 assms(1,2) show ?thesis
    by (intro exI [of _ hp2]) (auto simp: free_log_def Let_def owned_def)
qed

lemma dirty_unmark_inv:
  assumes inv: "log_inv nd E P ge gp gr" and dirty: "dirty_inv nd (i # js) (g # hs)" and sub: "set (i # js) \<subseteq> set (E @ P)"
    and few: "length (g # hs) \<le> 1872" and i: "logs nd i = Some l" and str: "str_at nd (key_addr l) = Some (g_key g)"
    and new: "g_key g \<notin> set (map g_key hs)"
  shows "\<exists>m. dirty_unmark nd (key_addr l) = Inr (nd\<lparr>dirty_map := m\<rparr>) \<and>
    dirty_counts (rd_str nd) m (mset (map g_key hs)) \<and> stored_keys m \<subseteq> key_addrs nd js"
proof -
  let ?k = "key_addr l" and ?M = "mset (map g_key (g # hs))"
  have c: "dirty_counts (rd_str nd) (dirty_map nd) ?M"
    and st: "stored_keys (dirty_map nd) \<subseteq> key_addrs nd (i # js)"
    using dirty unfolding dirty_inv_def by blast+
  have k: "rd_str nd ?k = g_key g" using str by (simp add: rd_str_def)
  have "count (mset (map g_key hs)) (g_key g) = 0" unfolding count_mset_0_iff by (rule new)
  then have one: "count ?M (rd_str nd ?k) = 1" unfolding k by simp
  have "rd_str nd ?k \<in># ?M" using k by simp
  from unmark_dirty_counts [OF c dirty_room [OF dirty few] this]
  obtain m where m: "unmark_dirty (rd_str nd) (dirty_map nd) ?k = Inr m"
      "dirty_counts (rd_str nd) m (mset (map g_key hs))"
    using k by auto
  have "stored_keys m \<subseteq> {k' \<in> stored_keys (dirty_map nd). rd_str nd k' \<noteq> rd_str nd ?k}"
    by (rule unmark_dirty_stored [OF m(1) c dirty_room [OF dirty few] one])
  then have "stored_keys m \<subseteq> key_addrs nd js" using st i by auto
  moreover have "dirty_unmark nd ?k = Inr (nd\<lparr>dirty_map := m\<rparr>)"
    using table_readable [OF inv dirty sub _ i] m(1) sub by (simp add: dirty_unmark_def)
  ultimately show ?thesis using m(2) by blast
qed

lemma log_inv_free:
  assumes inv: "log_inv nd (i # E) P (g # ge) gp gr" and i: "logs nd i = Some l"
    and nd': "local_recv_buff nd' = (local_recv_buff nd)\<lparr>rd_pointer :=
        (rd_pointer (local_recv_buff nd) + int (flen g)) AND (rsize (local_recv_buff nd) - 1)\<rparr>"
      "logs nd' = (logs nd)(i := None)" "\<And>h. Heap h \<notin> set (owned l) \<Longrightarrow> heap nd' h = heap nd h" "next_id nd' = next_id nd"
  shows "log_inv nd' E P ge gp gr"
proof -
  let ?lb = "local_recv_buff nd" and ?r = "rd_pointer (local_recv_buff nd)" and ?r' = "rd_pointer (local_recv_buff nd')"
  have ids: "ids_ok nd (i # E @ P)" and d: "parsed done_entry nd (?r + int (flen g)) E ge"
    and n: "parsed new_entry nd (?r + int (flen g) + int (foff ge)) P gp" and rg: "ring_inv ?lb (g # ge @ gp @ gr)"
    using inv by (simp_all add: log_inv_def add.assoc)
  have same: "logs nd' j = logs nd j" if "j \<in> set (E @ P)" for j using ids that nd'(2) by (auto simp: ids_ok_def)
  have bl: "blocks nd' (E @ P) = blocks nd (E @ P)" by (rule blocks_cong) (rule same)
  have "distinct (owned l @ blocks nd (E @ P))" using ids i by (simp add: ids_ok_def)
  then have heap: "heap nd' h = heap nd h" if "Heap h \<in> set (blocks nd (E @ P))" for h
    using that by (intro nd'(3)) auto
  have r': "?r' = (?r + int (flen g)) mod rsize ?lb" using ring_consume(2) [OF rg] nd'(1) by simp
  have N: "rsize (local_recv_buff nd') = rsize ?lb" using nd'(1) by simp
  have "parsed done_entry nd' (?r + int (flen g)) E ge"
    using same heap N by (intro parsed_transfer(3) [OF _ _ _ d]) auto
  then have "parsed done_entry nd' ?r' E ge" by (rule parsed_shift(2) [rotated]) (simp add: r' N)
  moreover have "parsed new_entry nd' (?r + int (flen g) + int (foff ge)) P gp"
    using same heap N by (intro parsed_transfer(2) [OF _ _ _ n]) auto
  then have "parsed new_entry nd' (?r' + int (foff ge)) P gp"
    by (rule parsed_shift(1) [rotated]) (simp add: r' N mod_add_left_eq)
  moreover have "ids_ok nd' (E @ P)"
  proof -
    have "distinct (blocks nd (E @ P))" "\<And>a. a \<in> set (blocks nd (E @ P)) \<Longrightarrow> \<exists>h. a = Heap h \<and> h < next_id nd"
      using ids i unfolding ids_ok_def by auto
    with ids show ?thesis unfolding ids_ok_def bl nd'(4) by auto
  qed
  moreover have "ring_inv (local_recv_buff nd') (ge @ gp @ gr)" using ring_consume(1) [OF rg] nd'(1) by simp
  ultimately show ?thesis by (simp add: log_inv_def)
qed

lemma placed_not_Null: "placed nd pos fld c a \<Longrightarrow> a \<noteq> Null"
  by (auto simp: placed_def split: if_splits)

lemma done_entry_owned:
  assumes "done_entry nd pos g l" and "a \<in> set (owned l)"
  shows "\<exists>h. a = Heap h \<and> heap nd h \<noteq> None"
  using assms by (auto simp: done_entry_def entry_for_def placed_def owned_def split: if_splits)

lemma executing_head:
  assumes q: "queues_inv nd E P" and li: "log_inv nd E P (g # ge) gp gr"
  shows "\<exists>i E' l eq dq. E = i # E' \<and> logs nd i = Some l \<and> done_entry nd (rd_pointer (local_recv_buff nd)) g l \<and>
    topQueue (executing_queue nd) = Inr (Some i) \<and> \<not> emptyQueue (executing_queue nd) \<and>
    popQueue (executing_queue nd) = Inr eq \<and> q_ok eq \<and> queue_items eq = E' \<and>
    topQueue (dirty_queue nd) = Inr (Some i) \<and> \<not> emptyQueue (dirty_queue nd) \<and>
    popQueue (dirty_queue nd) = Inr dq \<and> q_ok dq \<and> queue_items dq = E' @ P"
proof -
  have "parsed done_entry nd (rd_pointer (local_recv_buff nd)) E (g # ge)" using li by (simp add: log_inv_def)
  then obtain i E' l where i: "E = i # E'" "logs nd i = Some l" "done_entry nd (rd_pointer (local_recv_buff nd)) g l"
    by (cases E) auto
  have Q: "q_ok (executing_queue nd)" "q_ok (dirty_queue nd)" "queue_items (executing_queue nd) = i # E'"
      "queue_items (dirty_queue nd) = i # E' @ P"
    using q i(1) by (simp_all add: queues_inv_def)
  obtain eq dq where "popQueue (executing_queue nd) = Inr eq" "q_ok eq" "queue_items eq = E'"
      "popQueue (dirty_queue nd) = Inr dq" "q_ok dq" "queue_items dq = E' @ P"
    using q_ok_pop [OF Q(1)] q_ok_pop [OF Q(2)] Q(3,4) by auto
  with i q_ok_top [OF Q(1,3)] q_ok_top [OF Q(2,4)] show ?thesis by blast
qed

lemma entry_next_offset: "entry_for nd pos g l \<Longrightarrow> next_offset l = int (flen g)"
  by (simp add: entry_for_def next_offset_def flen_def sizeof_logEntry_def)

text \<open>\<open>clean_log\<close> on the log at the head of the dirty queue.\<close>

lemma clean_log_result:
  assumes li: "log_inv nd (i # E) P (g # ge) gp gr" and di: "dirty_inv nd (i # E @ P) (g # ge @ gp)"
    and cls: "node_class nd = TAIL"
    and i: "logs nd i = Some l" "done_entry nd (rd_pointer (local_recv_buff nd)) g l"
    and dq: "topQueue (dirty_queue nd) = Inr (Some i)" "\<not> emptyQueue (dirty_queue nd)" "popQueue (dirty_queue nd) = Inr dq"
  shows "\<exists>m hp lb'. let nd' = nd\<lparr>dirty_queue := dq, dirty_map := m, local_recv_buff := lb', heap := hp, logs := (logs nd)(i := None)\<rparr>
    in clean_log nd = Inr nd' \<and> log_inv nd' E P ge gp gr \<and> dirty_inv nd' (E @ P) (ge @ gp) \<and>
       lb' = (local_recv_buff nd)\<lparr>rd_pointer := (rd_pointer (local_recv_buff nd) + int (flen g)) mod rsize (local_recv_buff nd)\<rparr>"
proof -
  let ?lb = "local_recv_buff nd" and ?r = "rd_pointer (local_recv_buff nd)" and ?nd1 = "nd\<lparr>dirty_queue := dq\<rparr>"
  have rg: "ring_inv ?lb (g # ge @ gp @ gr)" using li by (simp add: log_inv_def)
  have ef: "entry_for nd ?r g l" using i(2) by (simp add: done_entry_def)
  have str: "str_at nd (key_addr l) = Some (g_key g)"
    using key_str [of nd "[]" g "ge @ gp @ gr" l] rg ef by (simp add: ring_inv_def)
  have ka: "get_key_addr nd l = key_addr l"
    using ef unfolding entry_for_def get_key_addr_def by (auto dest: placed_not_Null)
  have li1: "log_inv ?nd1 (i # E) P (g # ge) gp gr" by (rule log_inv_cong [OF li]) simp_all
  have di1: "dirty_inv ?nd1 (i # E @ P) (g # ge @ gp)"
    by (intro dirty_inv_transfer [OF di] str_at_cong key_addrs_cong) simp_all
  have "\<exists>m. dirty_unmark ?nd1 (key_addr l) = Inr (?nd1\<lparr>dirty_map := m\<rparr>) \<and>
      dirty_counts (rd_str ?nd1) m (mset (map g_key (ge @ gp))) \<and> stored_keys m \<subseteq> key_addrs ?nd1 (E @ P)"
    using log_inv_lengths(3) [OF li] i(1) str rg str_at_cong [of ?nd1 nd "key_addr l"]
    by (intro dirty_unmark_inv [OF li1 di1]) (auto simp: ring_inv_def)
  then obtain m where m: "dirty_unmark ?nd1 (key_addr l) = Inr (?nd1\<lparr>dirty_map := m\<rparr>)"
      "dirty_counts (rd_str ?nd1) m (mset (map g_key (ge @ gp)))" "stored_keys m \<subseteq> key_addrs ?nd1 (E @ P)" by blast
  let ?nd2 = "?nd1\<lparr>dirty_map := m\<rparr>"
  have "distinct (owned l)" using li i(1) by (simp add: log_inv_def ids_ok_def)
  then obtain hp where hp: "free_log i ?nd2 = Inr (?nd2\<lparr>local_recv_buff := ?lb\<lparr>rd_pointer := (?r + next_offset l) AND (rsize ?lb - 1)\<rparr>,
       heap := hp, logs := (logs nd)(i := None)\<rparr>)" "\<And>h. Heap h \<notin> set (owned l) \<Longrightarrow> hp h = heap nd h"
    using free_log_result [of ?nd2 i l] i(1) cls done_entry_owned [OF i(2)] by auto
  define lb' where "lb' = ?lb\<lparr>rd_pointer := (?r + int (flen g)) mod rsize ?lb\<rparr>"
  define nd' where "nd' = nd\<lparr>dirty_queue := dq, dirty_map := m, local_recv_buff := lb', heap := hp, logs := (logs nd)(i := None)\<rparr>"
  have lb': "?lb\<lparr>rd_pointer := (?r + next_offset l) AND (rsize ?lb - 1)\<rparr> = lb'"
    using entry_next_offset [OF ef] ring_consume(2) [OF rg] by (simp add: lb'_def)
  have cl: "clean_log nd = Inr nd'"
    using dq i(1) ka m(1) hp(1) lb' by (simp add: clean_log_def nd'_def)
  have li': "log_inv nd' E P ge gp gr"
    using hp(2) ring_consume(2) [OF rg] by (intro log_inv_free [OF li i(1)]) (simp_all add: nd'_def lb'_def)
  have "dirty_inv nd' (E @ P) (ge @ gp)"
  proof -
    have ids: "i \<notin> set (E @ P)" using li by (auto simp: log_inv_def ids_ok_def)
    then have logs: "logs nd' j = logs nd j" if "j \<in> set (E @ P)" for j using that by (auto simp: nd'_def)
    have en: "parsed entry_for nd (?r + int (foff [g])) (E @ P) (ge @ gp)"
      using log_inv_entries [OF li] by (auto simp: parsed_Cons)
    have str': "str_at nd' k = str_at nd k" if "k \<in> key_addrs nd (E @ P)" for k
      using rg li' logs log_inv_entries [OF li']
      by (intro key_strs_agree [OF _ en _ _ _ _ that, of gr _ "ge @ gp" gr]) (simp_all add: log_inv_def)
    have k1: "key_addrs ?nd1 (E @ P) = key_addrs nd (E @ P)" by (rule key_addrs_cong) simp
    have k2: "key_addrs nd' (E @ P) = key_addrs nd (E @ P)" using logs by (rule key_addrs_cong)
    have "dirty_counts (rd_str nd') m (mset (map g_key (ge @ gp)))"
    proof (rule dirty_counts_cong [OF m(2)])
      fix k assume "k \<in> stored_keys m"
      then have "k \<in> key_addrs nd (E @ P)" using m(3) unfolding k1 by (rule subsetD [rotated])
      moreover have "str_at ?nd1 k = str_at nd k" by (rule str_at_cong) simp_all
      ultimately show "rd_str nd' k = rd_str ?nd1 k" using str' by (simp add: rd_str_def)
    qed
    moreover have "dirty_map nd' = m" by (simp add: nd'_def)
    ultimately show ?thesis using m(3) unfolding dirty_inv_def k1 k2 by blast
  qed
  then show ?thesis using cl li' unfolding nd'_def by (auto simp: Let_def lb'_def)
qed

lemma serve_log_result:
  assumes inv: "tail_inv nd kp (g # ge) gp gr"
  shows "\<exists>nd'. serve_log nd = Inr (Some (g_value g), nd') \<and> tail_inv nd' kp ge gp gr \<and>
    local_recv_buff nd' = (local_recv_buff nd)\<lparr>rd_pointer :=
      (rd_pointer (local_recv_buff nd) + int (flen g)) mod rsize (local_recv_buff nd)\<rparr>"
proof -
  let ?lb = "local_recv_buff nd" and ?r = "rd_pointer (local_recv_buff nd)"
  obtain E P where q: "queues_inv nd E P" and li: "log_inv nd E P (g # ge) gp gr"
    and di: "dirty_inv nd (E @ P) (g # ge @ gp)" and kp: "kp = (?r + int (foff (g # ge @ gp))) mod rsize ?lb"
    using inv by (auto simp: tail_inv_def)
  obtain i E' l eq dq where E: "E = i # E'" and i: "logs nd i = Some l" "done_entry nd ?r g l"
    and ex: "topQueue (executing_queue nd) = Inr (Some i)" "\<not> emptyQueue (executing_queue nd)"
      "popQueue (executing_queue nd) = Inr eq" "q_ok eq" "queue_items eq = E'"
    and dq: "topQueue (dirty_queue nd) = Inr (Some i)" "\<not> emptyQueue (dirty_queue nd)"
      "popQueue (dirty_queue nd) = Inr dq" "q_ok dq" "queue_items dq = E' @ P"
    using executing_head [OF q li] by blast
  have cls: "node_class nd = TAIL" using q by (simp add: queues_inv_def)
  have "value_addr l \<noteq> Null" using i(2) unfolding done_entry_def by (auto dest: placed_not_Null)
  then have top: "top_log nd = Inr (value_addr l)" using ex i(1) by (simp add: top_log_def get_value_addr_def)
  let ?nd1 = "nd\<lparr>executing_queue := eq\<rparr>"
  have send: "send_log nd = Inr ?nd1" using ex cls by (simp add: send_log_def)
  have val: "str_at ?nd1 (value_addr l) = Some (g_value g)"
    using value_str [of nd "[]" g "ge @ gp @ gr" l] li i(2) str_at_cong [of ?nd1 nd]
    by (simp add: log_inv_def ring_inv_def)
  have "log_inv nd (i # E') P (g # ge) gp gr" using li E by simp
  then have li1: "log_inv ?nd1 (i # E') P (g # ge) gp gr" by (rule log_inv_cong) simp_all
  have "dirty_inv nd (i # E' @ P) (g # ge @ gp)" using di E by simp
  then have di1: "dirty_inv ?nd1 (i # E' @ P) (g # ge @ gp)"
    by (rule dirty_inv_transfer) (intro str_at_cong key_addrs_cong | simp)+
  have "done_entry ?nd1 (rd_pointer (local_recv_buff ?nd1)) g l"
    using i(2) by (intro entry_transfer(3) [of l ?nd1 nd]) simp_all
  from clean_log_result [OF li1 di1 _ _ this, of dq] obtain m hp lb' where
    c: "let nd' = ?nd1\<lparr>dirty_queue := dq, dirty_map := m, local_recv_buff := lb', heap := hp, logs := (logs nd)(i := None)\<rparr>
      in clean_log ?nd1 = Inr nd' \<and> log_inv nd' E' P ge gp gr \<and> dirty_inv nd' (E' @ P) (ge @ gp) \<and>
        lb' = ?lb\<lparr>rd_pointer := (?r + int (flen g)) mod rsize ?lb\<rparr>"
    using cls i(1) dq(1,2,3) by auto
  define nd' where "nd' = ?nd1\<lparr>dirty_queue := dq, dirty_map := m, local_recv_buff := lb', heap := hp, logs := (logs nd)(i := None)\<rparr>"
  have lb': "local_recv_buff nd' = ?lb\<lparr>rd_pointer := (?r + int (flen g)) mod rsize ?lb\<rparr>"
    using c by (simp add: Let_def nd'_def)
  have c': "clean_log ?nd1 = Inr nd'" "log_inv nd' E' P ge gp gr" "dirty_inv nd' (E' @ P) (ge @ gp)"
    using c unfolding Let_def nd'_def by blast+
  have "queues_inv nd' E' P" using q ex dq by (simp add: queues_inv_def nd'_def)
  moreover have "kp = (rd_pointer (local_recv_buff nd') + int (foff (ge @ gp))) mod rsize (local_recv_buff nd')"
    using kp by (simp add: lb' mod_add_left_eq add.assoc)
  ultimately have "tail_inv nd' kp ge gp gr" using c' by (intro tail_invI)
  moreover have "serve_log nd = Inr (Some (g_value g), nd')"
    using top send val c'(1) by (simp add: serve_log_def)
  ultimately show ?thesis using lb' by blast
qed

end
