(* ===== verification/LogChain.thy ===== *)
theory LogChain
  imports LogTail
begin

text \<open>
  A head node and the tail node it writes to. The head appends the header and key of a log
  with \<open>head_node_write_log\<close>, \<open>NIC_thread\<close> writes the values later, in order, and the
  tail's \<open>reader_thread\<close> parses, waits for the tag, serves and cleans. Each call is one
  step; that the writes of one call may be interleaved with the reader is the business of
  the properties on \<open>rb_write_mate\<close> and \<open>rb_write_data\<close>.

  The reader takes the last byte of a log for the tag that says the value has arrived, and nobody
  clears what has been consumed (the \<open>memset\<close> in \<open>reader_thread\<close> is commented out). A new log may
  therefore lie over an old byte that is 1, and is then served before its value has come. The step
  relation has all these runs. What is proved of delivery is proved of the runs in which it did not
  happen: \<open>no_stale_tag\<close> is a condition on the bytes of the logs that were written. It is needed
  (\<open>stale_tag_served\<close>), and strings without the byte 1 meet it when two logs in a row have 97 bytes
  or more (\<open>clean_strings_no_stale_tag\<close>). That no two logs in the buffer have the same key, which the
  dirty map needs because it keeps the pointer to the first of two equal keys, is proved: in a buffer of
  \<open>TOTAL_SIZE\<close> bytes two logs do not fit.
\<close>

section \<open>The head\<close>

definition pend :: "Node \<Rightarrow> int \<Rightarrow> glog \<Rightarrow> logEntry \<Rightarrow> bool" where
  "pend nd pos g l \<longleftrightarrow>
     key_length l = int (length (key_field g)) \<and> value_length l = int (length (value_field g)) \<and>
     log_pos l mod rsize (remote_buff nd) = pos mod rsize (remote_buff nd) \<and>
     (\<exists>h. value_addr l = Heap h \<and> h < next_id nd \<and> heap nd h = Some (value_field g))"

definition head_inv :: "Node \<Rightarrow> LocalRingbuff \<Rightarrow> glog list \<Rightarrow> glog list \<Rightarrow> bool" where
  "head_inv hn lb gd gq \<longleftrightarrow>
     in_sync (remote_buff hn) lb \<and> q_ok (sending_queue hn) \<and>
     parsed pend hn (rd_pointer lb + int (foff gd)) (queue_items (sending_queue hn)) gq \<and>
     (\<forall>i \<in> set (queue_items (sending_queue hn)). i < next_id hn) \<and>
     list_all g_done gd \<and> list_all (\<lambda>g. \<not> g_done g) gq"

text \<open>No pending log finds its tag set already.\<close>

fun tags_clear :: "byte list \<Rightarrow> nat \<Rightarrow> glog list \<Rightarrow> bool" where
  "tags_clear bs off [] \<longleftrightarrow> True"
| "tags_clear bs off (g # gs) \<longleftrightarrow> bs ! (off + flen g - 1) \<noteq> 1 \<and> tags_clear bs (off + flen g) gs"

lemma tags_clear_append: "tags_clear bs off (gs @ hs) \<longleftrightarrow> tags_clear bs off gs \<and> tags_clear bs (off + foff gs) hs"
  by (induction gs arbitrary: off) (auto simp: add.assoc)

lemma tags_clear_cong:
  "(\<And>j. off \<le> j \<Longrightarrow> j < off + foff gs \<Longrightarrow> bs' ! j = bs ! j) \<Longrightarrow> tags_clear bs' off gs \<longleftrightarrow> tags_clear bs off gs"
proof (induction gs arbitrary: off)
  case (Cons g gs)
  have "bs' ! (off + flen g - 1) = bs ! (off + flen g - 1)" using flen_ge [of g] by (intro Cons.prems) auto
  moreover have "tags_clear bs' (off + flen g) gs \<longleftrightarrow> tags_clear bs (off + flen g) gs"
    using Cons.prems by (intro Cons.IH) auto
  ultimately show ?case by simp
qed simp

lemma tags_clear_drop: "tags_clear bs (k + off) gs \<Longrightarrow> k \<le> length bs \<Longrightarrow> tags_clear (drop k bs) off gs"
proof (induction gs arbitrary: off)
  case (Cons g gs)
  then show ?case using flen_ge [of g] by (simp add: add.assoc)
qed simp

lemma pend_shift:
  assumes "pos' mod rsize (remote_buff nd) = pos mod rsize (remote_buff nd)" and "parsed pend nd pos is gs"
  shows "parsed pend nd pos' is gs"
  by (rule parsed_mod [OF _ assms(2,1)]) (simp add: pend_def)

lemma pend_transfer:
  assumes "parsed pend nd pos is gs" and "\<And>i. i \<in> set is \<Longrightarrow> logs nd' i = logs nd i"
    and "\<And>h. h < next_id nd \<Longrightarrow> heap nd' h = heap nd h" and "next_id nd \<le> next_id nd'"
    and "rsize (remote_buff nd') = rsize (remote_buff nd)"
  shows "parsed pend nd' pos is gs"
proof (rule parsed_mono [OF assms(1,2)])
  fix pos g l assume "pend nd pos g l"
  then show "pend nd' pos g l" using assms(3,4,5) by (auto simp: pend_def intro: less_le_trans)
qed

text \<open>What a successful call does.\<close>

definition frame_head :: "byte list \<Rightarrow> glog \<Rightarrow> byte list" where
  "frame_head rest g = header_bytes (int (length (key_field g))) (int (length (value_field g))) rest @ key_field g"

definition head_log :: "Node \<Rightarrow> int \<Rightarrow> glog \<Rightarrow> logEntry" where
  "head_log nd pos g = \<lparr>key_length = int (length (key_field g)), value_length = int (length (value_field g)),
     log_pos = pos, key_is_cut = False, value_is_cut = False, key_addr = Null, value_addr = Heap (next_id nd + 1)\<rparr>"

lemma length_frame_head: "length rest = 24 \<Longrightarrow> length (frame_head rest g) = 32 + length (key_field g)"
  by (simp add: frame_head_def length_header)

lemma head_write_eq:
  assumes g: "g = \<lparr>g_key = key, g_value = value, g_done = False\<rparr>"
    and rb1: "rb1 = (remote_buff nd)\<lparr>rd_pointer := rd_pointer lb\<rparr>" and sync: "in_sync (remote_buff nd) lb"
    and nd1: "nd1 = nd\<lparr>heap := (heap nd)(next_id nd + 1 \<mapsto> value_field g), next_id := next_id nd + 2\<rparr>"
    and room: "int (flen g) \<le> rb_free_size lb" and rest: "length rest = 24" and small: "int (flen g) < 2 ^ 31"
    and wr: "wr = wrap_ptr (rsize rb1) (wrap_ptr (rsize rb1) (wr_pointer rb1 + int (length (frame_head rest g))) + int (length (value_field g)))"
  shows "head_node_write_log True lb lb rest nd key value =
    bindR (putQueue (sending_queue nd) (next_id nd)) (\<lambda>(r, sq).
      Inr (r \<noteq> 0, nd1\<lparr>remote_buff := rb1\<lparr>wr_pointer := wr\<rparr>, logs := (logs nd)(next_id nd \<mapsto> head_log nd (wr_pointer lb) g),
        sending_queue := sq\<rparr>, rb_write_data rb1 (frame_head rest g) (wr_pointer rb1) (int (length (frame_head rest g))) @ [WrWrite wr]))"
proof -
  have kl: "int (length key) + 1 = int (length (key_field g))" "int (length value) + 1 + 1 = int (length (value_field g))"
      "header_bytes (int (length (key_field g))) (int (length (value_field g))) rest @ key @ [0] = frame_head rest g"
      "tagged_value value = value_field g"
    using g by (simp_all add: key_field_def value_field_def frame_head_def tagged_value_def)
  have len: "sizeof_logEntry + int (length (key_field g)) = int (length (frame_head rest g))"
    using length_frame_head [OF rest] by (simp add: sizeof_logEntry_def)
  have tot: "int (length (frame_head rest g)) + int (length (value_field g)) \<le> rb_free_size lb"
    using room length_frame_head [OF rest] by (simp add: flen_def)
  have pos: "wr_pointer rb1 = wr_pointer lb" "wr_pointer lb \<noteq> - 1" and free: "rb_free_size (rb1\<lparr>rd_pointer := rd_pointer lb\<rparr>) = rb_free_size lb"
    using sync in_sync_free [OF sync] by (auto simp: rb1 in_sync_def local_wf_def ring_wf_def)
  have ints: "as_int (int (length (frame_head rest g)) + int (length (value_field g))) = int (length (frame_head rest g)) + int (length (value_field g))"
      "as_int (int (length (frame_head rest g))) = int (length (frame_head rest g))"
      "as_int (int (length (value_field g))) = int (length (value_field g))" "as_int (int (length (key_field g))) = int (length (key_field g))"
      "in_int (int (length (frame_head rest g)) + int (length (value_field g)))"
    using small length_frame_head [OF rest, of g] by (simp_all add: flen_def)
  have chk: "check_remote_size True lb (remote_buff nd) (int (length (frame_head rest g)) + int (length (value_field g))) = (True, rb1)"
    using tot free by (simp add: check_remote_size_def rb1 Let_def)
  have mate: "rb_write_mate True lb rb1 (frame_head rest g) (int (length (frame_head rest g))) (int (length (value_field g)))
      = Inr (wr_pointer lb, rb1\<lparr>wr_pointer := wr\<rparr>,
         rb_write_data rb1 (frame_head rest g) (wr_pointer rb1) (int (length (frame_head rest g))) @ [WrWrite wr])"
    using rb_write_mate_ops [where rb = rb1 and peer = lb and mateLen = "int (length (frame_head rest g))"
        and dataLen = "int (length (value_field g))" and buf = "frame_head rest g"] tot free pos wr ints(5)
    by (simp add: Let_def rb1)
  show ?thesis
    unfolding head_node_write_log_def kl Let_def len logEntry.simps ints kl(3)
    using chk mate pos by (simp add: nd1 head_log_def split_beta)
qed

lemma head_write_refused:
  assumes "in_sync (remote_buff nd) lb" and "\<not> int (35 + length key + length value) \<le> rb_free_size lb"
    and "35 + length key + length value < 2 ^ 31"
  shows "\<exists>nd'. head_node_write_log True lb lb rest nd key value = Inr (False, nd', []) \<and>
    sending_queue nd' = sending_queue nd \<and> remote_buff nd' = (remote_buff nd)\<lparr>rd_pointer := rd_pointer lb\<rparr> \<and>
    (\<forall>i < next_id nd. logs nd' i = logs nd i) \<and> (\<forall>h < next_id nd. heap nd' h = heap nd h) \<and> next_id nd \<le> next_id nd'"
  using assms in_sync_free [OF assms(1)]
  by (auto simp: head_node_write_log_def check_remote_size_def sizeof_logEntry_def Let_def)

lemma head_write_ring:
  assumes sync: "in_sync (remote_buff nd) lb" and room: "int (flen g) \<le> rb_free_size lb" and rest: "length rest = 24"
    and rb1: "rb1 = (remote_buff nd)\<lparr>rd_pointer := rd_pointer lb\<rparr>"
    and wr: "wr = wrap_ptr (rsize rb1) (wrap_ptr (rsize rb1) (wr_pointer rb1 + int (length (frame_head rest g))) + int (length (value_field g)))"
    and lb': "lb' = lb\<lparr>buff_addr := ring_put (buff_addr lb) (wr_pointer lb) (frame_head rest g), wr_pointer := wr\<rparr>"
  shows "run_rops (rb_write_data rb1 (frame_head rest g) (wr_pointer rb1) (int (length (frame_head rest g))) @ [WrWrite wr]) lb = Inr lb'"
    and "in_sync (rb1\<lparr>wr_pointer := wr\<rparr>) lb'"
    and "\<exists>reserved. unread lb' = unread lb @ frame_head rest g @ reserved \<and> length reserved = length (value_field g)"
proof -
  have wf: "local_wf lb" using sync by (simp add: in_sync_def)
  have sync1: "in_sync rb1 lb" using sync by (simp add: in_sync_def rb1)
  have tot: "int (length (frame_head rest g)) + int (length (value_field g)) \<le> rb_free_size lb"
    using room length_frame_head [OF rest] by (simp add: flen_def)
  note run = rb_write_mate_run [OF sync1 refl _ tot, folded wr]
  show "run_rops (rb_write_data rb1 (frame_head rest g) (wr_pointer rb1) (int (length (frame_head rest g))) @ [WrWrite wr]) lb = Inr lb'"
    using run(1) by (simp add: run_rops_append lb')
  have w: "wr mod rsize lb = (wr_pointer lb + int (length (frame_head rest g)) + int (length (value_field g))) mod rsize lb"
      "0 \<le> wr" "wr \<le> rsize lb"
    using run(2,3) by auto
  have grow: "local_wf lb' \<and> (\<exists>reserved. unread lb' = unread lb @ frame_head rest g @ reserved \<and>
      length reserved = nat (int (length (value_field g))))"
    unfolding lb' using unread_grow [OF wf tot of_nat_0_le_iff w] by blast
  show "in_sync (rb1\<lparr>wr_pointer := wr\<rparr>) lb'" using grow sync1 by (simp add: in_sync_def lb')
  show "\<exists>reserved. unread lb' = unread lb @ frame_head rest g @ reserved \<and> length reserved = length (value_field g)"
    using grow unfolding nat_int by blast
qed

lemma ring_inv_append:
  assumes rg: "ring_inv lb gs" and un: "unread lb' = unread lb @ frame_head rest g @ reserved"
    and len: "length reserved = length (value_field g)" "length rest = 24" and ok: "glog_ok g" "\<not> g_done g"
    and new: "g_key g \<notin> set (map g_key gs)" and wf: "local_wf lb'" "rsize lb' = rsize lb"
  shows "ring_inv lb' (gs @ [g])"
proof -
  have "framed (frame_head rest g @ reserved) [g]"
    using frame_new [OF len(2) ok len(1)] by (simp add: frame_head_def)
  then have "framed (unread lb') (gs @ [g])"
    unfolding un using rg by (intro framed_append) (simp_all add: ring_inv_def)
  with rg ok new wf show ?thesis by (simp add: ring_inv_def)
qed

section \<open>The NIC thread\<close>

lemma nic_result:
  assumes sync: "in_sync (remote_buff nd) lb" and q: "q_ok (sending_queue nd)" "queue_items (sending_queue nd) = i # hq"
    and rg: "ring_inv lb (gd @ g # gq)" and pd: "parsed pend nd (rd_pointer lb + int (foff gd)) (i # hq) (g # gq)"
  shows "\<exists>sq ops lb'. NIC_turn nd = Inr (nd\<lparr>sending_queue := sq\<rparr>, ops) \<and> q_ok sq \<and> queue_items sq = hq \<and>
    run_rops ops lb = Inr lb' \<and> ring_inv lb' (gd @ g\<lparr>g_done := True\<rparr> # gq) \<and> in_sync (remote_buff nd) lb' \<and>
    lb' = lb\<lparr>buff_addr := ring_put (buff_addr lb) ((rd_pointer lb + int (foff gd + 32 + length (key_field g))) mod rsize lb) (value_field g)\<rparr> \<and>
    (\<exists>pre old post. unread lb = pre @ old @ post \<and> unread lb' = pre @ value_field g @ post \<and>
       length pre = foff gd + 32 + length (key_field g) \<and> length old = length (value_field g))"
proof -
  have wf: "local_wf lb" and fr: "framed (unread lb) (gd @ g # gq)" using rg by (simp_all add: ring_inv_def)
  have N: "rsize (remote_buff nd) = rsize lb" using sync by (simp add: in_sync_def)
  have rwf: "ring_wf lb" using local_wf_len [OF wf] by simp
  obtain l h where l: "logs nd i = Some l" "pend nd (rd_pointer lb + int (foff gd)) g l" "value_addr l = Heap h" "heap nd h = Some (value_field g)"
    using pd by (auto simp: pend_def)
  obtain sq where sq: "popQueue (sending_queue nd) = Inr sq" "q_ok sq" "queue_items sq = hq"
    using q_ok_pop [OF q(1)] q(2) by auto
  note top = q_ok_top [OF q]
  let ?pos = "(rd_pointer lb + int (foff gd + 32 + length (key_field g))) mod rsize lb"
  have "(log_pos l + value_offset l) AND (rsize lb - 1) = (log_pos l + (32 + int (length (key_field g)))) mod rsize lb"
    using ring_sizes(3) [OF rwf] l(2) by (simp add: value_offset_def pend_def sizeof_logEntry_def add.assoc)
  also have "\<dots> = (rd_pointer lb + int (foff gd) + (32 + int (length (key_field g)))) mod rsize lb"
    using l(2) N unfolding pend_def by (metis mod_add_left_eq)
  finally have vp: "(log_pos l + value_offset l) AND (rsize lb - 1) = ?pos" by (simp add: algebra_simps)
  have turn: "NIC_turn nd = Inr (nd\<lparr>sending_queue := sq\<rparr>, rb_write_data (remote_buff nd) (value_field g) ?pos (int (length (value_field g))))"
    using top sq(1) l vp N by (simp add: NIC_turn_def mem_from_def pend_def Let_def)
  define pre where "pre = take (foff gd + 32 + length (key_field g)) (unread lb)"
  define old where "old = bslice (unread lb) (foff gd + 32 + length (key_field g)) (length (value_field g))"
  define post where "post = drop (foff gd + flen g) (unread lb)"
  have long: "foff gd + flen g \<le> length (unread lb)"
    using ring_unread(2) [OF wf fr, of 0 0] by (simp add: unread_def)
  have un: "unread lb = pre @ old @ post" "length pre = foff gd + 32 + length (key_field g)" "length old = length (value_field g)"
  proof -
    have "drop (foff gd + 32 + length (key_field g)) (unread lb) = old @ post"
      using append_take_drop_id [of "length (value_field g)" "drop (foff gd + 32 + length (key_field g)) (unread lb)"]
      by (simp add: old_def post_def bslice_def flen_def add.commute add.left_commute)
    then show "unread lb = pre @ old @ post" unfolding pre_def by (metis append_take_drop_id)
    show "length pre = foff gd + 32 + length (key_field g)" "length old = length (value_field g)"
      using long by (simp_all add: pre_def old_def flen_def)
  qed
  have fits: "int (length (value_field g)) \<le> rsize lb" "0 \<le> ?pos" "?pos \<le> rsize lb"
    using long data_size_range [OF rwf] local_wf_len [OF wf] by (simp_all add: unread_def flen_def order.strict_implies_order)
  let ?lb' = "lb\<lparr>buff_addr := ring_put (buff_addr lb) ?pos (value_field g)\<rparr>"
  have run: "run_rops (rb_write_data (remote_buff nd) (value_field g) ?pos (int (length (value_field g)))) lb = Inr ?lb'"
    by (rule run_two_part [OF wf fits(2,3,1) N])
  have un': "unread ?lb' = pre @ value_field g @ post"
    by (rule unread_fill [OF wf un(1)]) (simp_all add: un)
  have "framed (unread ?lb') (gd @ g\<lparr>g_done := True\<rparr> # gq)"
    unfolding un' by (rule framed_fill [where old = old]) (use fr un in simp_all)
  then have "ring_inv ?lb' (gd @ g\<lparr>g_done := True\<rparr> # gq)"
    using rg wf by (simp add: ring_inv_def local_wf_def ring_wf_def)
  moreover have "in_sync (remote_buff nd) ?lb'" using sync by (simp add: in_sync_def local_wf_def ring_wf_def)
  ultimately show ?thesis using turn run un un' sq by blast
qed

section \<open>The chain\<close>

record Chain =
  chead :: Node
  ctail :: Node
  written :: "(byte list \<times> byte list) list"
  served :: "byte list option list"
  frames_out :: "byte list list"

text \<open>The last three are history: the keys and values that \<open>head_node_write_log\<close> accepted, the values handed
  to the upper layer, and the bytes of each accepted log when it is complete.\<close>

definition log_bytes :: "byte list \<Rightarrow> byte list \<Rightarrow> byte list \<Rightarrow> byte list" where
  "log_bytes rest key value =
     header_bytes (int (length key) + 1) (int (length value) + 2) rest @ key @ [0] @ tagged_value value"

abbreviation tail_ring :: "Chain \<Rightarrow> LocalRingbuff" where
  "tail_ring c \<equiv> local_recv_buff (ctail c)"

abbreviation set_ring :: "LocalRingbuff \<Rightarrow> Node \<Rightarrow> Node" where
  "set_ring lb nd \<equiv> nd\<lparr>local_recv_buff := lb\<rparr>"

text \<open>The buffer as \<open>dhmp_malloc_buff_request_handler\<close> sets it up.\<close>

definition new_ring :: LocalRingbuff where
  "new_ring = \<lparr>wr_pointer = 0, rd_pointer = 0, rsize = TOTAL_SIZE,
     buff_addr = replicate (nat TOTAL_SIZE) 0, rd_key_pointer = 0\<rparr>"

text \<open>C strings whose log has a length of type \<open>int\<close>.\<close>

definition log_strings :: "byte list \<Rightarrow> byte list \<Rightarrow> bool" where
  "log_strings key value \<longleftrightarrow> 0 \<notin> set key \<and> 0 \<notin> set value \<and> 35 + length key + length value < 2 ^ 31"

text \<open>One call of one of the threads. The bytes \<open>rest\<close> of the header, which the code leaves unset or fills
  with a pointer, are arbitrary in every log.\<close>

inductive chain_step :: "Chain \<Rightarrow> Chain \<Rightarrow> bool" where
  write_log: "head_node_write_log True (tail_ring c) (tail_ring c) rest (chead c) key value = Inr (True, hn, ops) \<Longrightarrow>
    run_rops ops (tail_ring c) = Inr lb \<Longrightarrow> length rest = 24 \<Longrightarrow> log_strings key value \<Longrightarrow>
      chain_step c (c\<lparr>chead := hn, ctail := set_ring lb (ctail c), written := written c @ [(key, value)],
        frames_out := frames_out c @ [log_bytes rest key value]\<rparr>)"
| write_full: "head_node_write_log True (tail_ring c) (tail_ring c) rest (chead c) key value = Inr (False, hn, ops) \<Longrightarrow>
    run_rops ops (tail_ring c) = Inr lb \<Longrightarrow> length rest = 24 \<Longrightarrow> log_strings key value \<Longrightarrow>
      chain_step c (c\<lparr>chead := hn, ctail := set_ring lb (ctail c)\<rparr>)"
| nic_turn: "NIC_turn (chead c) = Inr (hn, ops) \<Longrightarrow> run_rops ops (tail_ring c) = Inr lb \<Longrightarrow>
      chain_step c (c\<lparr>chead := hn, ctail := set_ring lb (ctail c)\<rparr>)"
| parse_keys: "read_log_key n (ctail c) = Inr (k, t) \<Longrightarrow> chain_step c (c\<lparr>ctail := t\<rparr>)"
| await_values: "read_log_value n (ctail c) = Inr (k, t) \<Longrightarrow> chain_step c (c\<lparr>ctail := t\<rparr>)"
| serve_one: "\<not> emptyQueue (executing_queue (ctail c)) \<Longrightarrow> serve_log (ctail c) = Inr (v, t) \<Longrightarrow>
      chain_step c (c\<lparr>ctail := t, served := served c @ [v]\<rparr>)"

text \<open>The byte of the previous log that lies under the tag of the next. A ring of \<open>TOTAL_SIZE\<close> bytes holds one
  log at a time, and every log starts where the one before ended, so this is what the reader finds there
  as long as the value has not come.\<close>

fun no_stale_tag :: "byte list list \<Rightarrow> bool" where
  "no_stale_tag (f # g # fs) \<longleftrightarrow> f ! (length f + length g - (nat TOTAL_SIZE + 1)) \<noteq> 1 \<and> no_stale_tag (g # fs)"
| "no_stale_tag fs \<longleftrightarrow> True"

text \<open>The steps of the other threads while nothing is written.\<close>

inductive peer_step :: "Chain \<Rightarrow> Chain \<Rightarrow> bool" where
  nic: "NIC_turn (chead c) = Inr (hn, ops) \<Longrightarrow> run_rops ops (tail_ring c) = Inr lb \<Longrightarrow>
      peer_step c (c\<lparr>chead := hn, ctail := set_ring lb (ctail c)\<rparr>)"
| keys: "read_log_key n (ctail c) = Inr (k, t) \<Longrightarrow> peer_step c (c\<lparr>ctail := t\<rparr>)"
| vals: "read_log_value n (ctail c) = Inr (k, t) \<Longrightarrow> peer_step c (c\<lparr>ctail := t\<rparr>)"
| serve: "\<not> emptyQueue (executing_queue (ctail c)) \<Longrightarrow> serve_log (ctail c) = Inr (v, t) \<Longrightarrow>
      peer_step c (c\<lparr>ctail := t, served := served c @ [v]\<rparr>)"

lemma peer_step_chain: "peer_step c c' \<Longrightarrow> chain_step c c'"
  by (induction rule: peer_step.induct) (auto intro: chain_step.intros)

inductive reachable :: "Chain \<Rightarrow> bool" where
  start: "buff_init HEAD sid True lb = Inr hn \<Longrightarrow> buff_init TAIL sid' ok new_ring = Inr t \<Longrightarrow>
      reachable \<lparr>chead = hn, ctail = t, written = [], served = [], frames_out = []\<rparr>"
| step: "reachable c \<Longrightarrow> chain_step c c' \<Longrightarrow> reachable c'"

definition frames_inv :: "Node \<Rightarrow> Node \<Rightarrow> glog list \<Rightarrow> glog list \<Rightarrow> glog list \<Rightarrow> glog list \<Rightarrow> glog list \<Rightarrow> bool" where
  "frames_inv hn t ge gp gr gd gq \<longleftrightarrow>
     reader_inv t ge gp gr \<and> ge @ gp @ gr = gd @ gq \<and> head_inv hn (local_recv_buff t) gd gq \<and>
     tags_clear (unread (local_recv_buff t)) (foff gd) gq \<and> rsize (local_recv_buff t) = TOTAL_SIZE"

definition kv :: "glog \<Rightarrow> byte list \<times> byte list" where
  "kv g = (g_key g, g_value g)"

text \<open>The last log that was written still lies in the ring, the value as far as it has come.\<close>

definition trail :: "LocalRingbuff \<Rightarrow> glog list \<Rightarrow> byte list list \<Rightarrow> bool" where
  "trail lb gq fs \<longleftrightarrow>
     (if fs = [] then gq = [] \<and> buff_addr lb = replicate 64 0
      else \<exists>h v. last fs = h @ v \<and> 35 \<le> length (h @ v) \<and> length (h @ v) < 64 \<and>
        ring_at (buff_addr lb) (wr_pointer lb - int (length (h @ v))) (length h) = h \<and>
        (if gq = [] then ring_at (buff_addr lb) (wr_pointer lb - int (length v)) (length v) = v else value_field (last gq) = v))"

definition chain_inv :: "Chain \<Rightarrow> bool" where
  "chain_inv c \<longleftrightarrow> (\<exists>ge gp gr gd gq W. frames_inv (chead c) (ctail c) ge gp gr gd gq \<and> trail (tail_ring c) gq (frames_out c) \<and>
     written c = W @ map kv (ge @ gp @ gr) \<and> served c = map (Some \<circ> snd) W)"

text \<open>The reading side changes neither the bytes nor the write pointer.\<close>

abbreviation same_bytes :: "Node \<Rightarrow> Node \<Rightarrow> bool" where
  "same_bytes t t' \<equiv> buff_addr (local_recv_buff t') = buff_addr (local_recv_buff t) \<and>
     wr_pointer (local_recv_buff t') = wr_pointer (local_recv_buff t)"

lemma frames_ring: "frames_inv hn t ge gp gr gd gq \<Longrightarrow> ring_inv (local_recv_buff t) (gd @ gq)"
  by (auto simp: frames_inv_def tail_inv_def log_inv_def)

lemma wr_at_end:
  assumes "local_wf lb" and "framed (unread lb) gs"
  shows "wr_pointer lb mod rsize lb = (rd_pointer lb + int (foff gs)) mod rsize lb"
proof -
  have rwf: "ring_wf lb" using local_wf_len [OF assms(1)] by simp
  have "int (foff gs) = (wr_pointer lb - rd_pointer lb) mod rsize lb"
    using count_at(2) [of lb gs "[]"] assms by (simp add: ring_sizes(1) [OF rwf])
  then show ?thesis by (simp add: mod_add_right_eq)
qed

lemma one_log_fits:
  assumes "ring_inv lb gs" and "rsize lb = TOTAL_SIZE" and "int (flen g) \<le> rb_free_size lb"
  shows "gs = []"
proof (rule ccontr)
  assume "gs \<noteq> []"
  then obtain a gs' where "gs = a # gs'" by (cases gs) auto
  then have "35 \<le> foff gs" using flen_ge [of a] by simp
  moreover have "rb_data_size lb = int (foff gs)" using count_at(2) [of lb gs "[]"] assms(1) by (simp add: ring_inv_def)
  ultimately show False using assms(2,3) flen_ge [of g] by (simp add: rb_free_size_def TOTAL_SIZE_def)
qed

section \<open>Steps keep the invariant\<close>

lemma frames_write:
  assumes inv: "frames_inv hn t ge gp gr gd gq" and rest: "length rest = 24" and z: "log_strings key value"
    and call: "head_node_write_log True (local_recv_buff t) (local_recv_buff t) rest hn key value = Inr (True, hn', ops)"
    and run: "run_rops ops (local_recv_buff t) = Inr lb'" and tag: "last (unread lb') \<noteq> 1"
    and g: "g = \<lparr>g_key = key, g_value = value, g_done = False\<rparr>"
  shows "frames_inv hn' (set_ring lb' t) ge gp (gr @ [g]) gd (gq @ [g])"
proof -
  let ?lb = "local_recv_buff t" and ?i = "next_id hn"
  have sync: "in_sync (remote_buff hn) ?lb" and hi: "head_inv hn ?lb gd gq" and tl: "reader_inv t ge gp gr"
    and gs: "ge @ gp @ gr = gd @ gq" and N: "rsize ?lb = TOTAL_SIZE"
    using inv by (simp_all add: frames_inv_def head_inv_def)
  have rg: "ring_inv ?lb (gd @ gq)" by (rule frames_ring [OF inv])
  have fl: "flen g = 35 + length key + length value" using g by (simp add: flen_def)
  have small: "int (flen g) < 2 ^ 31" using z fl by (simp add: log_strings_def)
  have room: "int (flen g) \<le> rb_free_size ?lb"
    using head_write_refused [OF sync, of key "value" rest] call fl small by fastforce
  have none: "gd = []" "gq = []" using one_log_fits [OF rg N room] by auto
  define rb1 where "rb1 = (remote_buff hn)\<lparr>rd_pointer := rd_pointer ?lb\<rparr>"
  define wr where "wr = wrap_ptr (rsize rb1) (wrap_ptr (rsize rb1) (wr_pointer rb1 + int (length (frame_head rest g))) + int (length (value_field g)))"
  define nd1 where "nd1 = hn\<lparr>heap := (heap hn)(?i + 1 \<mapsto> value_field g), next_id := ?i + 2\<rparr>"
  define l where "l = head_log hn (wr_pointer ?lb) g"
  have q: "q_ok (sending_queue hn)" "queue_items (sending_queue hn) = []"
    using hi none by (simp_all add: head_inv_def)
  obtain sq where sq: "putQueue (sending_queue hn) ?i = Inr (1, sq)" "q_ok sq" "queue_items sq = [?i]"
    using q_ok_put [OF q] by auto
  have eqs: "hn' = nd1\<lparr>remote_buff := rb1\<lparr>wr_pointer := wr\<rparr>, logs := (logs hn)(?i \<mapsto> l), sending_queue := sq\<rparr>"
      "ops = rb_write_data rb1 (frame_head rest g) (wr_pointer rb1) (int (length (frame_head rest g))) @ [WrWrite wr]"
    using call head_write_eq [OF g rb1_def sync nd1_def room rest small wr_def] sq(1) by (auto simp: l_def)
  define lb where "lb = ?lb\<lparr>buff_addr := ring_put (buff_addr ?lb) (wr_pointer ?lb) (frame_head rest g), wr_pointer := wr\<rparr>"
  note ring = head_write_ring [OF sync room rest rb1_def wr_def lb_def]
  have lb': "lb' = lb" using run ring(1) eqs(2) by simp
  obtain reserved where un: "unread lb = unread ?lb @ frame_head rest g @ reserved" "length reserved = length (value_field g)"
    using ring(3) by blast
  have "int (flen g) < 64" using room data_size_range [of ?lb] rg N local_wf_len [of ?lb]
    by (auto simp: rb_free_size_def ring_inv_def TOTAL_SIZE_def)
  then have ok: "glog_ok g" using z g by (simp add: glog_ok_def flen_def log_strings_def)
  have sync': "in_sync (remote_buff hn') lb'" using ring(2) by (simp add: eqs lb')
  have rg': "ring_inv lb' (ge @ gp @ gr @ [g])"
    using ring_inv_append [of ?lb "[]" lb rest g reserved] rg none un rest ok g sync' gs
    by (simp add: lb' in_sync_def) (simp add: lb_def)
  have "reader_inv (set_ring lb' t) ge gp (gr @ [g])"
    using tail_inv_ring [OF tl fills_refl, of lb' "gr @ [g]"] rg' by (simp add: lb' lb_def)
  moreover have "head_inv hn' lb' gd (gq @ [g])"
  proof -
    have e: "unread ?lb = []" using rg none by (simp add: ring_inv_def)
    have "wr_pointer ?lb mod rsize ?lb = rd_pointer ?lb mod rsize ?lb"
      using wr_at_end [of ?lb "[]"] rg e by (simp add: ring_inv_def)
    then have "pend hn' (rd_pointer lb' + int (foff gd)) g l"
      using none sync by (simp add: pend_def eqs l_def head_log_def nd1_def lb' lb_def rb1_def in_sync_def)
    then show ?thesis
      using none sync' sq g by (simp add: head_inv_def eqs nd1_def)
  qed
  moreover have "tags_clear (unread lb') (foff gd) (gq @ [g])"
  proof -
    have "length (unread lb') = flen g" "unread lb' \<noteq> []"
      using framed_length [of "unread lb'" "[g]"] rg' gs none flen_ge [of g] by (auto simp: ring_inv_def)
    with tag none show ?thesis by (simp add: last_conv_nth)
  qed
  ultimately show ?thesis using gs N by (simp add: frames_inv_def lb' lb_def)
qed

lemma frames_write_full:
  assumes inv: "frames_inv hn t ge gp gr gd gq" and rest: "length rest = 24" and z: "log_strings key value"
    and call: "head_node_write_log True (local_recv_buff t) (local_recv_buff t) rest hn key value = Inr (False, hn', ops)"
  shows "ops = [] \<and> frames_inv hn' t ge gp gr gd gq"
proof -
  let ?lb = "local_recv_buff t"
  have sync: "in_sync (remote_buff hn) ?lb" and hi: "head_inv hn ?lb gd gq" and N: "rsize ?lb = TOTAL_SIZE"
    using inv by (simp_all add: frames_inv_def head_inv_def)
  have "\<not> int (35 + length key + length value) \<le> rb_free_size ?lb"
  proof
    let ?g = "\<lparr>g_key = key, g_value = value, g_done = False\<rparr>"
    assume "int (35 + length key + length value) \<le> rb_free_size ?lb"
    then have room: "int (flen ?g) \<le> rb_free_size ?lb" by (simp add: flen_def)
    have none: "gd = []" "gq = []" using one_log_fits [OF frames_ring [OF inv] N room] by auto
    have q: "q_ok (sending_queue hn)" "queue_items (sending_queue hn) = []" using hi none by (simp_all add: head_inv_def)
    have small: "int (flen ?g) < 2 ^ 31" using z by (simp add: log_strings_def flen_def)
    from q_ok_put [OF q, of "next_id hn"] call head_write_eq [OF refl refl sync refl room rest small refl] show False by auto
  qed
  moreover have "35 + length key + length value < 2 ^ 31" using z by (simp add: log_strings_def)
  ultimately obtain
    a: "ops = []" "sending_queue hn' = sending_queue hn" "remote_buff hn' = (remote_buff hn)\<lparr>rd_pointer := rd_pointer ?lb\<rparr>"
      "\<And>i. i < next_id hn \<Longrightarrow> logs hn' i = logs hn i" "\<And>h. h < next_id hn \<Longrightarrow> heap hn' h = heap hn h" "next_id hn \<le> next_id hn'"
    using head_write_refused [OF sync, of key "value" rest] call by auto
  have p: "parsed pend hn (rd_pointer ?lb + int (foff gd)) (queue_items (sending_queue hn)) gq"
    using hi by (simp add: head_inv_def)
  have "parsed pend hn' (rd_pointer ?lb + int (foff gd)) (queue_items (sending_queue hn)) gq"
    by (rule pend_transfer [OF p]) (use hi a in \<open>auto simp: head_inv_def\<close>)
  then have "head_inv hn' ?lb gd gq"
    using hi a by (auto simp: head_inv_def in_sync_def intro: less_le_trans)
  then show ?thesis using inv a(1) by (simp add: frames_inv_def)
qed

lemma fill_split:
  assumes "ge @ gp @ gr = gd @ g # gq" and "list_all g_done ge" and "\<not> g_done g" and "g' = g\<lparr>g_done := True\<rparr>"
  shows "\<exists>gp' gr'. ge @ gp' @ gr' = gd @ g' # gq \<and> list_all2 fills gp gp' \<and> map kv (gp' @ gr') = map kv (gp @ gr)"
proof -
  have kv: "kv g' = kv g" "fills g g'" using assms(4) by (simp_all add: kv_def fills_def)
  have refl: "list_all2 fills xs xs" for xs by (rule fills_refl)
  have "length ge \<le> length gd"
  proof (rule ccontr)
    assume "\<not> length ge \<le> length gd"
    then have "ge ! length gd = g" using arg_cong [OF assms(1), of "\<lambda>xs. xs ! length gd"] by (simp add: nth_append)
    with assms(2,3) \<open>\<not> length ge \<le> length gd\<close> show False by (auto simp: list_all_length)
  qed
  moreover obtain us where "ge = gd @ us \<and> us @ gp @ gr = g # gq \<or> ge @ us = gd \<and> gp @ gr = us @ g # gq"
    using assms(1) unfolding append_eq_append_conv2 by blast
  ultimately have us: "gd = ge @ us" "gp @ gr = us @ g # gq" by auto
  moreover obtain ws where "gp = us @ ws \<and> ws @ gr = g # gq \<or> gp @ ws = us \<and> gr = ws @ g # gq"
    using us(2) unfolding append_eq_append_conv2 by blast
  ultimately consider (pend) vs where "gp = us @ g # vs" "gq = vs @ gr" | (rest) vs where "us = gp @ vs" "gr = vs @ g # gq"
    by (cases ws) auto
  then show ?thesis
  proof cases
    case pend
    then show ?thesis using us kv refl
      by (intro exI [of _ "us @ g' # vs"] exI [of _ gr]) (auto simp: list_all2_append)
  next
    case rest
    then show ?thesis using us kv refl by (intro exI [of _ gp] exI [of _ "vs @ g' # gq"]) auto
  qed
qed

lemma parsed_done: "parsed done_entry nd pos is gs \<Longrightarrow> list_all g_done gs"
  by (induction "is" arbitrary: pos gs) (auto simp: parsed_Cons done_entry_def)

lemma frames_done:
  assumes "frames_inv hn t ge gp gr gd gq"
  shows "list_all g_done ge"
proof -
  obtain E P where "log_inv t E P ge gp gr" using assms by (auto simp: frames_inv_def tail_inv_def)
  then have "parsed done_entry t (rd_pointer (local_recv_buff t)) E ge" by (simp add: log_inv_def)
  then show ?thesis by (rule parsed_done)
qed

lemma frames_nic:
  assumes inv: "frames_inv hn t ge gp gr gd gq" and call: "NIC_turn hn = Inr (hn', ops)"
    and run: "run_rops ops (local_recv_buff t) = Inr lb'"
  shows "\<exists>gp' gr' gd'. frames_inv hn' (set_ring lb' t) ge gp' gr' gd' (tl gq) \<and> map kv (ge @ gp' @ gr') = map kv (ge @ gp @ gr)"
proof (cases gq)
  case Nil
  have "queue_items (sending_queue hn) = []" "q_ok (sending_queue hn)"
    using inv Nil by (simp_all add: frames_inv_def head_inv_def)
  then have "hn' = hn" "lb' = local_recv_buff t" using call run by (auto simp: NIC_turn_def q_ok_empty)
  with inv show ?thesis by (intro exI [of _ gp] exI [of _ gr] exI [of _ gd]) (simp add: frames_inv_def Nil)
next
  case (Cons g gq')
  let ?lb = "local_recv_buff t" and ?g = "g\<lparr>g_done := True\<rparr>"
  have sync: "in_sync (remote_buff hn) ?lb" and hi: "head_inv hn ?lb gd (g # gq')" and tl: "reader_inv t ge gp gr"
    and gs: "ge @ gp @ gr = gd @ g # gq'" and N: "rsize ?lb = TOTAL_SIZE" and tc: "tags_clear (unread ?lb) (foff gd) (g # gq')"
    using inv Cons by (simp_all add: frames_inv_def head_inv_def)
  have q: "q_ok (sending_queue hn)" and p: "parsed pend hn (rd_pointer ?lb + int (foff gd)) (queue_items (sending_queue hn)) (g # gq')"
    using hi by (simp_all add: head_inv_def)
  obtain i hq where hq: "queue_items (sending_queue hn) = i # hq" using p by (cases "queue_items (sending_queue hn)") auto
  have rg: "ring_inv ?lb (gd @ g # gq')" using frames_ring [OF inv] Cons by simp
  obtain sq b pre old post where r: "hn' = hn\<lparr>sending_queue := sq\<rparr>" "q_ok sq" "queue_items sq = hq"
      "ring_inv lb' (gd @ ?g # gq')" "in_sync (remote_buff hn) lb'" "lb' = ?lb\<lparr>buff_addr := b\<rparr>"
      "unread ?lb = pre @ old @ post" "unread lb' = pre @ value_field g @ post"
      "length pre = foff gd + 32 + length (key_field g)" "length old = length (value_field g)"
    using nic_result [OF sync q hq rg p [unfolded hq]] call run by auto
  obtain gp' gr' where f: "ge @ gp' @ gr' = gd @ ?g # gq'" "list_all2 fills gp gp'" "map kv (gp' @ gr') = map kv (gp @ gr)"
    using fill_split [OF gs frames_done [OF inv] _ refl] hi by (auto simp: head_inv_def)
  have "reader_inv (set_ring lb' t) ge gp' gr'"
    using tail_inv_ring [OF tl f(2), of lb' gr'] r(4,6) f(1) by simp
  moreover have "head_inv hn' lb' (gd @ [?g]) gq'"
  proof -
    have p': "parsed pend hn (rd_pointer ?lb + int (foff gd) + int (flen g)) hq gq'" using p hq by auto
    have "parsed pend hn' (rd_pointer ?lb + int (foff gd) + int (flen g)) hq gq'"
      by (rule pend_transfer [OF p']) (simp_all add: r(1))
    then show ?thesis using hi hq r by (simp add: head_inv_def add.assoc)
  qed
  moreover have "tags_clear (unread lb') (foff (gd @ [?g])) gq'"
  proof -
    have "unread lb' ! j = unread ?lb ! j" if "foff gd + flen g \<le> j" for j
    proof -
      have "length pre + length old \<le> j" using that r(9,10) by (simp add: flen_def)
      then obtain k where k: "j = length pre + (length old + k)" by (metis le_Suc_ex add.assoc)
      have "unread lb' ! j = post ! k" unfolding k r(8) r(10) nth_append_length_plus ..
      moreover have "unread ?lb ! j = post ! k" unfolding k r(7) nth_append_length_plus ..
      ultimately show ?thesis by simp
    qed
    then have "tags_clear (unread lb') (foff gd + flen g) gq' = tags_clear (unread ?lb) (foff gd + flen g) gq'"
      by (intro tags_clear_cong) simp
    with tc show ?thesis by simp
  qed
  ultimately have "frames_inv hn' (set_ring lb' t) ge gp' gr' (gd @ [?g]) gq'"
    using f(1) N r(6) by (simp add: frames_inv_def)
  with f(3) Cons show ?thesis by (metis map_append list.sel(3))
qed

lemma frames_parse:
  assumes inv: "frames_inv hn t ge gp gr gd gq"
  shows "\<exists>t'. read_log_key n t = Inr (min n (length gr), t') \<and> frames_inv hn t' ge (gp @ take n gr) (drop n gr) gd gq \<and>
    same_bytes t t'"
proof -
  have tl: "reader_inv t ge gp gr" using inv by (simp add: frames_inv_def)
  obtain t' x where t': "read_log_key n t = Inr (min n (length gr), t')" "reader_inv t' ge (gp @ take n gr) (drop n gr)"
      "local_recv_buff t' = (local_recv_buff t)\<lparr>rd_key_pointer := x\<rparr>"
    using read_log_key_result [OF tl] by blast
  have "unread (local_recv_buff t') = unread (local_recv_buff t)" by (simp add: t'(3) unread_def rb_data_size_def)
  moreover have "head_inv hn (local_recv_buff t') gd gq = head_inv hn (local_recv_buff t) gd gq"
    by (simp add: head_inv_def in_sync_def local_wf_def ring_wf_def t'(3))
  ultimately show ?thesis using inv t' by (auto simp: frames_inv_def)
qed

text \<open>The logs whose value has arrived, from the head of \<open>value_peeding_queue\<close>.\<close>

lemma ready_prefix:
  assumes "n \<le> length (takeWhile P xs) \<or> list_all P xs"
  obtains k where "k \<le> length (takeWhile P xs)" "take n xs = take k xs" "drop n xs = drop k xs" "min n (length xs) = k"
    "list_all P (take k xs)" "k < n \<Longrightarrow> drop k xs = []"
proof -
  define k where "k = min n (length xs)"
  have "k \<le> length (takeWhile P xs)"
  proof (cases "list_all P xs")
    case True
    then have "takeWhile P xs = xs" by (simp add: list_all_iff)
    then show ?thesis by (metis k_def min.cobounded2)
  qed (use assms in \<open>simp add: k_def min.coboundedI1\<close>)
  moreover from this have "take k xs = take k (takeWhile P xs)"
    by (metis append_take_drop_id diff_is_0_eq takeWhile_eq_take take_0 take_append append_Nil2 take_take min.absorb1)
  moreover have "list_all P (take k (takeWhile P xs))" by (auto simp: list_all_iff dest: in_set_takeD set_takeWhileD)
  ultimately show thesis using that [of k] by (simp add: k_def min_def split: if_splits)
qed

lemma frames_await_ready:
  assumes inv: "frames_inv hn t ge gp gr gd gq" and ready: "n \<le> length (takeWhile g_done gp) \<or> list_all g_done gp"
  shows "\<exists>t'. read_log_value n t = Inr (min n (length gp), t') \<and> frames_inv hn t' (ge @ take n gp) (drop n gp) gr gd gq \<and>
    same_bytes t t'"
proof -
  let ?lb = "local_recv_buff t"
  obtain k where k: "k \<le> length (takeWhile g_done gp)" "take n gp = take k gp" "drop n gp = drop k gp" "min n (length gp) = k"
      "list_all g_done (take k gp)" "k < n \<Longrightarrow> drop k gp = []"
    using ready_prefix [OF ready] by metis
  have len: "length (take k gp) = k" using k(1) length_takeWhile_le [of g_done gp] by simp
  have tl: "reader_inv t ge (take k gp @ drop k gp) gr" using inv by (simp add: frames_inv_def)
  have "if k < n \<and> drop k gp \<noteq> [] then read_log_value n t = Inl Spin
    else \<exists>t'. read_log_value n t = Inr (k, t') \<and>
      tail_inv t' (rd_key_pointer ?lb) (ge @ take k gp) (drop k gp) gr \<and> local_recv_buff t' = ?lb"
    by (rule read_log_value_result [OF tl k(5), unfolded len]) (use k(4,6) len in auto)
  moreover have "\<not> (k < n \<and> drop k gp \<noteq> [])" using k(6) by blast
  ultimately obtain t' where t': "read_log_value n t = Inr (k, t')"
      "tail_inv t' (rd_key_pointer ?lb) (ge @ take k gp) (drop k gp) gr" "local_recv_buff t' = ?lb"
    by (auto simp only: if_False)
  have "ge @ take k gp @ drop k gp @ gr = gd @ gq" using inv by (metis frames_inv_def append_take_drop_id append_assoc)
  then have "frames_inv hn t' (ge @ take k gp) (drop k gp) gr gd gq" using inv t'(2,3) by (simp add: frames_inv_def)
  then show ?thesis using t'(1,3) k(2-4) by auto
qed

lemma frames_await_spins:
  assumes inv: "frames_inv hn t ge gp gr gd gq" and wait: "length (takeWhile g_done gp) < n" "\<not> list_all g_done gp"
  shows "read_log_value n t = Inl Spin"
proof -
  let ?dn = "takeWhile g_done gp" and ?rest = "dropWhile g_done gp" and ?lb = "local_recv_buff t"
  have tl: "reader_inv t ge (?dn @ ?rest) gr" and tc: "tags_clear (unread ?lb) (foff gd) gq" and gs: "ge @ gp @ gr = gd @ gq"
    and ndq: "list_all (\<lambda>g. \<not> g_done g) gq" and dnd: "list_all g_done gd"
    using inv by (simp_all add: frames_inv_def head_inv_def)
  obtain g rs where g: "?rest = g # rs" "\<not> g_done g"
    using wait(2) by (cases ?rest) (auto simp: dropWhile_eq_Nil_conv list_all_iff dropWhile_eq_Cons_conv)
  have split: "gp = ?dn @ g # rs" using g(1) by (metis takeWhile_dropWhile_id)
  have dn: "list_all g_done ?dn" using set_takeWhileD [of _ g_done gp] by (auto simp: list_all_iff)
  have q: "takeWhile g_done gq = []" using ndq by (cases gq) auto
  have "takeWhile g_done (gd @ gq) = gd" using dnd q by (simp add: list_all_iff takeWhile_append2)
  moreover have "takeWhile g_done ((ge @ ?dn) @ (g # rs) @ gr) = ge @ ?dn"
    using frames_done [OF inv] dn g(2) by (subst takeWhile_append2) (auto simp: list_all_iff)
  ultimately have gd: "gd = ge @ ?dn" using gs split by (metis append_assoc)
  then have "gq = g # rs @ gr" using gs split by (metis append_assoc append_Cons same_append_eq)
  then have tag: "unread ?lb ! (foff (ge @ ?dn) + flen g - 1) \<noteq> 1" using tc gd by simp
  have "if length ?dn < n \<and> ?rest \<noteq> [] then read_log_value n t = Inl Spin
    else \<exists>t'. read_log_value n t = Inr (length ?dn, t') \<and>
      tail_inv t' (rd_key_pointer ?lb) (ge @ ?dn) ?rest gr \<and> local_recv_buff t' = ?lb"
    by (rule read_log_value_result [OF tl dn]) (use wait(1) g tag in auto)
  with wait(1) g show ?thesis by simp
qed

lemma frames_await:
  assumes inv: "frames_inv hn t ge gp gr gd gq"
  shows "if n \<le> length (takeWhile g_done gp) \<or> list_all g_done gp
    then \<exists>t'. read_log_value n t = Inr (min n (length gp), t') \<and> frames_inv hn t' (ge @ take n gp) (drop n gp) gr gd gq \<and>
      same_bytes t t'
    else read_log_value n t = Inl Spin"
  using frames_await_ready [OF inv, of n] frames_await_spins [OF inv, of n] by auto

lemma frames_serve:
  assumes inv: "frames_inv hn t (g # ge) gp gr gd gq"
  shows "\<exists>t' gd'. serve_log t = Inr (Some (g_value g), t') \<and> frames_inv hn t' ge gp gr gd' gq \<and> same_bytes t t'"
proof -
  let ?lb = "local_recv_buff t"
  have tl: "reader_inv t (g # ge) gp gr" and hi: "head_inv hn ?lb gd gq" and tc: "tags_clear (unread ?lb) (foff gd) gq"
    and gs: "(g # ge) @ gp @ gr = gd @ gq" and N: "rsize ?lb = TOTAL_SIZE"
    using inv by (simp_all add: frames_inv_def)
  have "g_done g" using frames_done [OF inv] by simp
  then obtain gd' where gd: "gd = g # gd'" "ge @ gp @ gr = gd' @ gq"
    using gs hi by (cases gd) (auto simp: head_inv_def)
  obtain t' where t': "serve_log t = Inr (Some (g_value g), t')" "tail_inv t' (rd_key_pointer ?lb) ge gp gr"
      "local_recv_buff t' = ?lb\<lparr>rd_pointer := (rd_pointer ?lb + int (flen g)) mod rsize ?lb\<rparr>"
    using serve_log_result [OF tl] by blast
  have rg: "ring_inv ?lb (g # gd' @ gq)" using frames_ring [OF inv] gd by simp
  have un: "unread (local_recv_buff t') = drop (flen g) (unread ?lb)" using ring_consume(3) [OF rg] t'(3) by simp
  have wf': "local_wf (local_recv_buff t')" using t'(2) by (auto simp: tail_inv_def log_inv_def ring_inv_def)
  have "tags_clear (unread (local_recv_buff t')) (foff gd') gq"
    unfolding un using tc gd framed_length [of "unread ?lb" "g # gd' @ gq"] rg
    by (intro tags_clear_drop) (auto simp: ring_inv_def)
  moreover have "head_inv hn (local_recv_buff t') gd' gq"
  proof -
    have R: "rsize (remote_buff hn) = rsize ?lb" using hi by (simp add: head_inv_def in_sync_def)
    have "parsed pend hn (rd_pointer ?lb + int (foff gd)) (queue_items (sending_queue hn)) gq" using hi by (simp add: head_inv_def)
    then have "parsed pend hn (rd_pointer (local_recv_buff t') + int (foff gd')) (queue_items (sending_queue hn)) gq"
      by (rule pend_shift [rotated]) (simp add: t'(3) R gd mod_add_left_eq add.assoc)
    then show ?thesis using hi gd wf' t'(3) by (simp add: head_inv_def in_sync_def)
  qed
  ultimately show ?thesis using t' gd(2) N by (auto simp: frames_inv_def)
qed

section \<open>What lies under a tag\<close>

text \<open>What an accepted write does to an empty ring.\<close>

lemma write_shape:
  assumes inv: "frames_inv hn t ge gp gr gd gq" and rest: "length rest = 24" and z: "log_strings key value"
    and call: "head_node_write_log True (local_recv_buff t) (local_recv_buff t) rest hn key value = Inr (True, hn', ops)"
    and run: "run_rops ops (local_recv_buff t) = Inr lb'" and g: "g = \<lparr>g_key = key, g_value = value, g_done = False\<rparr>"
  shows "ge @ gp @ gr = []"
    and "lb' = (local_recv_buff t)\<lparr>buff_addr := ring_put (buff_addr (local_recv_buff t)) (wr_pointer (local_recv_buff t)) (frame_head rest g),
      wr_pointer := wr_pointer lb'\<rparr>"
    and "(wr_pointer lb' - wr_pointer (local_recv_buff t)) mod 64 = int (flen g)"
    and "flen g < 64"
    and "last (unread lb') = buff_addr lb' ! nat ((wr_pointer (local_recv_buff t) + int (flen g) - 1) mod 64)"
proof -
  let ?lb = "local_recv_buff t"
  have sync: "in_sync (remote_buff hn) ?lb" and N: "rsize ?lb = 64" and gs: "ge @ gp @ gr = gd @ gq"
    using inv by (simp_all add: frames_inv_def head_inv_def TOTAL_SIZE_def)
  have rg: "ring_inv ?lb (gd @ gq)" by (rule frames_ring [OF inv])
  have fl: "flen g = 35 + length key + length value" using g by (simp add: flen_def)
  have small: "int (flen g) < 2 ^ 31" using z fl by (simp add: log_strings_def)
  have room: "int (flen g) \<le> rb_free_size ?lb"
    using head_write_refused [OF sync, of key "value" rest] call fl small by fastforce
  have none: "gd @ gq = []" using one_log_fits [OF rg _ room] N by (simp add: TOTAL_SIZE_def)
  with gs show "ge @ gp @ gr = []" by simp
  define rb1 where "rb1 = (remote_buff hn)\<lparr>rd_pointer := rd_pointer ?lb\<rparr>"
  define wr where "wr = wrap_ptr (rsize rb1) (wrap_ptr (rsize rb1) (wr_pointer rb1 + int (length (frame_head rest g))) + int (length (value_field g)))"
  have "ops = rb_write_data rb1 (frame_head rest g) (wr_pointer rb1) (int (length (frame_head rest g))) @ [WrWrite wr]"
    using call head_write_eq [OF g rb1_def sync refl room rest small wr_def] by (auto simp: bindR_eq_Inr)
  then have lb: "lb' = ?lb\<lparr>buff_addr := ring_put (buff_addr ?lb) (wr_pointer ?lb) (frame_head rest g), wr_pointer := wr\<rparr>"
    using run head_write_ring(1) [OF sync room rest rb1_def wr_def refl] by simp
  then show "lb' = ?lb\<lparr>buff_addr := ring_put (buff_addr ?lb) (wr_pointer ?lb) (frame_head rest g), wr_pointer := wr_pointer lb'\<rparr>"
    by simp
  have wf: "ring_wf lb'" and len: "length (buff_addr lb') = 64"
    using head_write_ring(2) [OF sync room rest rb1_def wr_def lb] local_wf_len [of lb'] N lb by (auto simp: in_sync_def)
  have e: "unread ?lb = []" using rg none by (simp add: ring_inv_def)
  have un: "length (unread lb') = flen g"
    using head_write_ring(3) [OF sync room rest rb1_def wr_def lb] e length_frame_head [OF rest, of g] by (auto simp: flen_def)
  then have ds: "rb_data_size lb' = int (flen g)"
    using data_size_range [OF wf] by (auto simp: unread_def)
  have start: "wr_pointer ?lb mod 64 = rd_pointer ?lb mod 64"
    using wr_at_end [of ?lb "[]"] rg none e N by (simp add: ring_inv_def)
  have "rb_data_size lb' = (wr_pointer lb' - rd_pointer lb') mod 64"
    using ring_sizes(1) [OF wf] N lb by simp
  with ds start show "(wr_pointer lb' - wr_pointer ?lb) mod 64 = int (flen g)"
    using lb by simp (metis mod_diff_right_eq)
  show "flen g < 64" using ds data_size_range [OF wf] N lb by simp
  have "last (unread lb') = unread lb' ! (flen g - 1)"
    using un flen_ge [of g] by (subst last_conv_nth) auto
  also have "\<dots> = buff_addr lb' ! nat ((rd_pointer lb' + int (flen g - 1)) mod 64)"
    using ds flen_ge [of g] len by (simp add: unread_def nth_ring_at)
  also have "(rd_pointer lb' + int (flen g - 1)) mod 64 = (wr_pointer ?lb + int (flen g) - 1) mod 64"
    using start lb flen_ge [of g] by (simp add: of_nat_diff) (metis add_diff_eq mod_add_left_eq)
  finally show "last (unread lb') = buff_addr lb' ! nat ((wr_pointer ?lb + int (flen g) - 1) mod 64)" .
qed

lemma log_bytes_frame: "log_bytes rest (g_key g) (g_value g) = frame_head rest g @ value_field g"
  by (simp add: log_bytes_def frame_head_def key_field_def value_field_def tagged_value_def add.commute)

lemma ring_at_cong:
  assumes "pos' mod int (length b) = pos mod int (length b)"
  shows "ring_at b pos' n = ring_at b pos n"
  using ring_at_mod [of b pos n] ring_at_mod [of b pos' n] assms by simp

text \<open>When the last log is complete, all its bytes are there.\<close>

lemma trail_last:
  assumes "trail lb [] fs" and "fs \<noteq> []"
  shows "ring_at (buff_addr lb) (wr_pointer lb - int (length (last fs))) (length (last fs)) = last fs"
    and "35 \<le> length (last fs)" and "length (last fs) < 64"
proof -
  obtain h v where hv: "last fs = h @ v" "35 \<le> length (h @ v)" "length (h @ v) < 64"
      "ring_at (buff_addr lb) (wr_pointer lb - int (length (h @ v))) (length h) = h"
      "ring_at (buff_addr lb) (wr_pointer lb - int (length v)) (length v) = v"
    using assms by (auto simp: trail_def)
  show "ring_at (buff_addr lb) (wr_pointer lb - int (length (last fs))) (length (last fs)) = last fs"
    using hv(4,5) ring_at_add [of "buff_addr lb" "wr_pointer lb - int (length (h @ v))" "length h" "length v"]
    by (simp add: hv(1) algebra_simps)
  show "35 \<le> length (last fs)" "length (last fs) < 64" using hv by simp_all
qed

lemma trail_same:
  "trail lb gq fs \<Longrightarrow> buff_addr lb' = buff_addr lb \<Longrightarrow> wr_pointer lb' = wr_pointer lb \<Longrightarrow> trail lb' gq fs"
  by (simp only: trail_def)

lemma no_stale_tag_prefix: "no_stale_tag (fs @ gs) \<Longrightarrow> no_stale_tag fs"
  by (induction fs rule: no_stale_tag.induct) auto

lemma no_stale_tag_last:
  "no_stale_tag (fs @ [g]) \<Longrightarrow> fs \<noteq> [] \<Longrightarrow> last fs ! (length (last fs) + length g - (nat TOTAL_SIZE + 1)) \<noteq> 1"
  by (induction fs rule: no_stale_tag.induct) auto

text \<open>Strings without the byte 1 are safe when two logs in a row have 97 bytes or more: then the tag of the second lies on
  the key or the value of the first.\<close>

lemma clean_strings_no_stale_tag:
  assumes "\<forall>f \<in> set fs. \<exists>rest key value. f = log_bytes rest key value \<and> length rest = 24 \<and> 1 \<notin> set key \<and> 1 \<notin> set value \<and> length f < 64"
    and "\<forall>i. Suc i < length fs \<longrightarrow> 97 \<le> length (fs ! i) + length (fs ! Suc i)"
  shows "no_stale_tag fs"
  using assms
proof (induction fs rule: no_stale_tag.induct)
  case (1 f g fs)
  obtain rest key "value" where f: "f = log_bytes rest key value" "length rest = 24" "1 \<notin> set key" "1 \<notin> set value" "length f < 64"
    using 1(2) by auto
  have g: "length g < 64" using 1(2) by auto
  let ?k = "length f + length g - (nat TOTAL_SIZE + 1)"
  have "97 \<le> length f + length g" using 1(3) [rule_format, of 0] by simp
  then have k: "32 \<le> ?k" "?k + 1 < length f" using f(5) g by (simp_all add: TOTAL_SIZE_def)
  let ?h = "header_bytes (int (length key) + 1) (int (length value) + 2) rest"
  have h: "length ?h = 32" using f(2) by (rule length_header)
  have "f = (?h @ key @ [0] @ value @ [0]) @ [1]" by (simp add: f(1) log_bytes_def tagged_value_def)
  then have "f ! ?k = (?h @ key @ [0] @ value @ [0]) ! ?k" "?k < length (?h @ key @ [0] @ value @ [0])"
    using k(2) by (simp_all only: nth_append length_append list.size) (simp_all split: if_splits)
  moreover have "(?h @ key @ [0] @ value @ [0]) ! ?k = (key @ [0] @ value @ [0]) ! (?k - 32)" using k(1) h by (simp add: nth_append)
  ultimately have "f ! ?k \<in> set (key @ [0] @ value @ [0])" using h k(1) by (metis le_add_diff_inverse length_append nat_add_left_cancel_less nth_mem)
  then have "f ! ?k \<noteq> 1" using f(3,4) by auto
  moreover have "no_stale_tag (g # fs)" using 1(2,3) by (intro 1(1)) auto
  ultimately show ?case by simp
qed simp_all

text \<open>The byte at the place of the new tag, after the header and the key have been written.\<close>

lemma under_the_tag:
  assumes inv: "frames_inv hn t ge gp gr gd gq" and tr: "trail (local_recv_buff t) gq fs"
    and rest: "length rest = 24" and z: "log_strings key value"
    and call: "head_node_write_log True (local_recv_buff t) (local_recv_buff t) rest hn key value = Inr (True, hn', ops)"
    and run: "run_rops ops (local_recv_buff t) = Inr lb'" and ok: "no_stale_tag (fs @ [log_bytes rest key value])"
  shows "last (unread lb') \<noteq> 1" and "trail lb' (gq @ [\<lparr>g_key = key, g_value = value, g_done = False\<rparr>]) (fs @ [log_bytes rest key value])"
proof -
  define g where "g = \<lparr>g_key = key, g_value = value, g_done = False\<rparr>"
  let ?lb = "local_recv_buff t" and ?h = "frame_head rest g" and ?v = "value_field g"
  note sh = write_shape [OF inv rest z call run g_def]
  have wf: "local_wf ?lb" and N: "rsize ?lb = 64" using frames_ring [OF inv] inv by (simp_all add: ring_inv_def frames_inv_def TOTAL_SIZE_def)
  then have len: "length (buff_addr ?lb) = 64" using local_wf_len [OF wf] by simp
  have gq: "gq = []" using sh(1) inv by (simp add: frames_inv_def)
  have h: "length ?h = 32 + length (key_field g)" by (rule length_frame_head [OF rest])
  have f: "log_bytes rest key value = ?h @ ?v" "length (?h @ ?v) = flen g"
    using log_bytes_frame [of rest g] h by (simp_all add: g_def flen_def)
  have b: "buff_addr lb' = ring_put (buff_addr ?lb) (wr_pointer ?lb) ?h" by (subst sh(2)) simp
  let ?j = "nat ((wr_pointer ?lb + int (flen g) - 1) mod 64)"
  have j: "?j < 64" "int ?j = (wr_pointer ?lb + int (flen g) - 1) mod 64" by (simp_all add: nat_less_iff)
  have "(int ?j - wr_pointer ?lb) mod 64 = (wr_pointer ?lb + int (flen g) - 1 - wr_pointer ?lb) mod 64"
    unfolding j(2) by (rule mod_diff_left_eq)
  also have "\<dots> = (int (flen g) - 1) mod 64" by simp
  also have "\<dots> = int (flen g) - 1" using sh(4) flen_ge [of g] by (intro mod_pos_pos_trivial) simp_all
  finally have "nat ((int ?j - wr_pointer ?lb) mod 64) = flen g - 1" by simp
  then have old: "last (unread lb') = buff_addr ?lb ! ?j"
    unfolding sh(5) b using nth_ring_put [of ?j "buff_addr ?lb" "wr_pointer ?lb" ?h] j(1) len h
    by (simp add: Let_def flen_def)
  show "last (unread lb') \<noteq> 1"
  proof (cases "fs = []")
    case True
    then show ?thesis using tr old j(1) by (simp add: trail_def)
  next
    case False
    note l = trail_last [OF tr [unfolded gq] False]
    let ?k = "length (last fs) + flen g - 65"
    have k: "?k < length (last fs)" "int ?k = int (length (last fs)) + int (flen g) - 65"
      using l(2) sh(4) flen_ge [of g] by linarith+
    have "(wr_pointer ?lb - int (length (last fs)) + int ?k) mod 64 = (wr_pointer ?lb + int (flen g) - 1 - 64) mod 64"
      unfolding k(2) by (simp add: algebra_simps)
    also have "\<dots> = (wr_pointer ?lb + int (flen g) - 1) mod 64"
      using minus_mod_self2 [of "wr_pointer ?lb + int (flen g) - 1" 64] by simp
    finally have "last fs ! ?k = buff_addr ?lb ! ?j"
      using nth_ring_at [OF k(1), of "buff_addr ?lb" "wr_pointer ?lb - int (length (last fs))"] l(1) len by simp
    moreover have "last fs ! (length (last fs) + flen g - 65) \<noteq> 1"
      using no_stale_tag_last [OF ok False] unfolding f by (simp add: TOTAL_SIZE_def)
    ultimately show ?thesis using old by simp
  qed
  have "ring_at (buff_addr lb') (wr_pointer lb' - int (flen g)) (length ?h) = ring_at (buff_addr lb') (wr_pointer ?lb) (length ?h)"
  proof (rule ring_at_cong)
    have "(wr_pointer lb' - int (flen g)) mod 64 = (wr_pointer lb' - (wr_pointer lb' - wr_pointer ?lb)) mod 64"
      using sh(3) by (metis mod_diff_right_eq)
    then show "(wr_pointer lb' - int (flen g)) mod int (length (buff_addr lb')) = wr_pointer ?lb mod int (length (buff_addr lb'))"
      by (simp add: b len)
  qed
  also have "\<dots> = ?h" unfolding b by (rule ring_at_put_same) (use sh(4) h len in \<open>simp add: flen_def\<close>)
  finally have "\<exists>h v. ?h @ ?v = h @ v \<and> 35 \<le> length (h @ v) \<and> length (h @ v) < 64 \<and>
      ring_at (buff_addr lb') (wr_pointer lb' - int (length (h @ v))) (length h) = h \<and> ?v = v"
    using f(2) sh(4) flen_ge [of g] by metis
  then show "trail lb' (gq @ [\<lparr>g_key = key, g_value = value, g_done = False\<rparr>]) (fs @ [log_bytes rest key value])"
    by (simp add: trail_def f(1) gq flip: g_def)
qed

lemma one_in_flight:
  assumes "ring_inv lb gs" and "rsize lb = TOTAL_SIZE"
  shows "length gs \<le> 1"
proof -
  have "rb_data_size lb = int (foff gs)" using count_at(2) [of lb gs "[]"] assms(1) by (simp add: ring_inv_def)
  then have "foff gs < 64" using data_size_range [of lb] assms local_wf_len [of lb] by (simp add: ring_inv_def TOTAL_SIZE_def)
  moreover have "35 * length gs \<le> foff gs" by (induction gs) (use flen_ge in \<open>auto intro: add_mono\<close>)
  ultimately show ?thesis by simp
qed

lemma trail_nic:
  assumes inv: "frames_inv hn t ge gp gr gd gq" and tr: "trail (local_recv_buff t) gq fs"
    and call: "NIC_turn hn = Inr (hn', ops)" and run: "run_rops ops (local_recv_buff t) = Inr lb'"
  shows "trail lb' (tl gq) fs"
proof -
  let ?lb = "local_recv_buff t"
  have h: "in_sync (remote_buff hn) ?lb" "q_ok (sending_queue hn)"
      "parsed pend hn (rd_pointer ?lb + int (foff gd)) (queue_items (sending_queue hn)) gq"
    and N: "rsize ?lb = 64" using inv by (simp_all add: frames_inv_def head_inv_def TOTAL_SIZE_def)
  show ?thesis
  proof (cases gq)
    case Nil
    then have "queue_items (sending_queue hn) = []" using h(3) by (cases "queue_items (sending_queue hn)") auto
    then have "lb' = ?lb" using call run h(2) by (auto simp: NIC_turn_def q_ok_empty)
    with tr Nil show ?thesis by simp
  next
    case (Cons g gq')
    have rg: "ring_inv ?lb (gd @ g # gq')" using frames_ring [OF inv] Cons by simp
    have one: "gd = []" "gq' = []" using one_in_flight [OF rg] N by (simp_all add: TOTAL_SIZE_def)
    have len: "length (buff_addr ?lb) = 64" and wf: "local_wf ?lb" using rg local_wf_len [of ?lb] N by (auto simp: ring_inv_def)
    obtain i hq where hq: "queue_items (sending_queue hn) = i # hq" using h(3) Cons by (cases "queue_items (sending_queue hn)") auto
    let ?pos = "(rd_pointer ?lb + int (foff gd + 32 + length (key_field g))) mod rsize ?lb"
    have lb: "lb' = ?lb\<lparr>buff_addr := ring_put (buff_addr ?lb) ?pos (value_field g)\<rparr>"
      using nic_result [OF h(1,2) hq rg] h(3) hq Cons call run by auto
    have fs: "fs \<noteq> []" using tr Cons by (auto simp: trail_def)
    then obtain hd where hd: "last fs = hd @ value_field g" "35 \<le> length (last fs)" "length (last fs) < 64"
        "ring_at (buff_addr ?lb) (wr_pointer ?lb - int (length (last fs))) (length hd) = hd"
      using tr Cons one by (auto simp: trail_def add_ac)
    let ?v = "int (length (value_field g))"
    have "wr_pointer ?lb mod 64 = (rd_pointer ?lb + int (flen g)) mod 64"
      using wr_at_end [OF wf, of "[g]"] rg one N by (simp add: ring_inv_def)
    then have "(wr_pointer ?lb - ?v) mod 64 = (rd_pointer ?lb + int (flen g) - ?v) mod 64" by (metis mod_diff_left_eq)
    also have "rd_pointer ?lb + int (flen g) - ?v = rd_pointer ?lb + int (foff gd + 32 + length (key_field g))"
      by (simp add: one flen_def)
    finally have pos: "?pos mod 64 = (wr_pointer ?lb - ?v) mod 64" "0 \<le> ?pos" by (simp_all add: N)
    have v: "ring_at (buff_addr lb') (wr_pointer ?lb - ?v) (length (value_field g)) = value_field g"
    proof -
      have "ring_at (buff_addr lb') (wr_pointer ?lb - ?v) (length (value_field g)) = ring_at (buff_addr lb') ?pos (length (value_field g))"
        by (rule ring_at_cong) (use pos(1) len in \<open>simp add: lb\<close>)
      also have "\<dots> = value_field g" using hd(1,3) len ring_at_put_same [of "value_field g" "buff_addr ?lb" ?pos] by (simp add: lb)
      finally show ?thesis .
    qed
    have "ring_at (buff_addr lb') (wr_pointer ?lb - int (length (last fs))) (length hd) = hd"
    proof -
      have "(?pos - (wr_pointer ?lb - int (length (last fs)))) mod 64 = (wr_pointer ?lb - ?v - (wr_pointer ?lb - int (length (last fs)))) mod 64"
        using pos(1) by (metis mod_diff_left_eq)
      also have "\<dots> = int (length hd)" using hd(1,3) by simp
      finally have "(?pos - (wr_pointer ?lb - int (length (last fs)))) mod int (length (buff_addr ?lb)) = int (length hd)" by (simp add: len)
      then show ?thesis
        using ring_at_put_other [of "length hd" ?pos "wr_pointer ?lb - int (length (last fs))" "buff_addr ?lb" "value_field g"] hd len by (simp add: lb)
    qed
    moreover have "wr_pointer lb' = wr_pointer ?lb" by (simp add: lb)
    ultimately have "\<exists>h v. last fs = h @ v \<and> 35 \<le> length (h @ v) \<and> length (h @ v) < 64 \<and>
        ring_at (buff_addr lb') (wr_pointer lb' - int (length (h @ v))) (length h) = h \<and>
        ring_at (buff_addr lb') (wr_pointer lb' - int (length v)) (length v) = v"
      using hd v by (metis (no_types, lifting))
    then show ?thesis using fs one Cons by (simp add: trail_def)
  qed
qed

section \<open>Reachable states\<close>

lemma chain_invI:
  assumes "frames_inv (chead c) (ctail c) ge gp gr gd gq" and "trail (tail_ring c) gq (frames_out c)"
    and "written c = W @ map kv (ge @ gp @ gr)" and "served c = map (Some \<circ> snd) W"
  shows "chain_inv c"
  using assms unfolding chain_inv_def by blast

lemma chain_inv_step:
  assumes inv: "chain_inv c" and st: "chain_step c c'" and safe: "no_stale_tag (frames_out c')"
  shows "chain_inv c'"
proof -
  obtain ge gp gr gd gq W where f: "frames_inv (chead c) (ctail c) ge gp gr gd gq" and tr: "trail (tail_ring c) gq (frames_out c)"
    and w: "written c = W @ map kv (ge @ gp @ gr)" and sv: "served c = map (Some \<circ> snd) W"
    using inv by (auto simp: chain_inv_def)
  show ?thesis
    using st
  proof cases
    case (write_log rest key "value" hn ops lb)
    let ?g = "\<lparr>g_key = key, g_value = value, g_done = False\<rparr>"
    have ok: "no_stale_tag (frames_out c @ [log_bytes rest key value])" using safe by (simp add: write_log(1))
    note u = under_the_tag [OF f tr write_log(4,5,2,3) ok]
    have "frames_inv hn (set_ring lb (ctail c)) ge gp (gr @ [?g]) gd (gq @ [?g])"
      by (rule frames_write [OF f write_log(4,5,2,3) u(1) refl])
    moreover have "written c @ [(key, value)] = W @ map kv (ge @ gp @ gr @ [?g])" using w by (simp add: kv_def)
    ultimately show ?thesis unfolding write_log(1) using sv u(2)
      by (intro chain_invI [of _ ge gp "gr @ [?g]" gd "gq @ [?g]" W]) simp_all
  next
    case (write_full rest key "value" hn ops lb)
    have "ops = []" "frames_inv hn (ctail c) ge gp gr gd gq"
      using frames_write_full [OF f write_full(4,5,2)] by auto
    moreover have "set_ring lb (ctail c) = ctail c" using calculation(1) write_full(3) by simp
    ultimately show ?thesis using w sv tr
      unfolding write_full(1) by (intro chain_invI [of _ ge gp gr gd gq W]) simp_all
  next
    case (nic_turn hn ops lb)
    from frames_nic [OF f nic_turn(2,3)] obtain gp' gr' gd' where
      n: "frames_inv hn (set_ring lb (ctail c)) ge gp' gr' gd' (tl gq)" "map kv (ge @ gp' @ gr') = map kv (ge @ gp @ gr)" by blast
    then have "written c = W @ map kv (ge @ gp' @ gr')" using w by simp
    with n(1) sv show ?thesis unfolding nic_turn(1) using trail_nic [OF f tr nic_turn(2,3)]
      by (intro chain_invI [of _ ge gp' gr' gd' "tl gq" W]) (simp_all del: map_append)
  next
    case (parse_keys n k t)
    then have "frames_inv (chead c) t ge (gp @ take n gr) (drop n gr) gd gq" "same_bytes (ctail c) t"
      using frames_parse [OF f, of n] by auto
    then show ?thesis unfolding parse_keys(1) using w sv trail_same [OF tr]
      by (intro chain_invI [of _ ge "gp @ take n gr" "drop n gr" gd gq W]) (simp_all flip: map_append)
  next
    case (await_values n k t)
    then have "frames_inv (chead c) t (ge @ take n gp) (drop n gp) gr gd gq" "same_bytes (ctail c) t"
      using frames_await [OF f, of n] by (auto split: if_splits)
    moreover have "map kv (take n gp) @ map kv (drop n gp) = map kv gp" by (simp flip: map_append)
    ultimately show ?thesis unfolding await_values(1) using w sv trail_same [OF tr]
      by (intro chain_invI [of _ "ge @ take n gp" "drop n gp" gr gd gq W]) simp_all
  next
    case (serve_one v t)
    obtain E P where q: "queues_inv (ctail c) E P" and li: "log_inv (ctail c) E P ge gp gr"
      using f by (auto simp: frames_inv_def tail_inv_def)
    have "E \<noteq> []" using serve_one(2) q by (auto simp: queues_inv_def q_ok_empty)
    then obtain g ge' where g: "ge = g # ge'" using log_inv_lengths(1) [OF li] by (cases ge) auto
    from frames_serve [OF f [unfolded g]] serve_one(3) obtain gd' where
      s: "v = Some (g_value g)" "frames_inv (chead c) t ge' gp gr gd' gq" "same_bytes (ctail c) t" by auto
    have "written c = (W @ [kv g]) @ map kv (ge' @ gp @ gr)" "served c @ [v] = map (Some \<circ> snd) (W @ [kv g])"
      using w sv s(1) g by (simp_all add: kv_def)
    with s(2,3) trail_same [OF tr] show ?thesis
      unfolding serve_one(1) by (intro chain_invI [of _ ge' gp gr gd' gq "W @ [kv g]"]) simp_all
  qed
qed

lemma step_frames_out: "chain_step c c' \<Longrightarrow> \<exists>fs. frames_out c' = frames_out c @ fs"
  by (induction rule: chain_step.induct) auto

lemma new_ring_wf: "local_wf new_ring" "unread new_ring = []" "rsize new_ring = TOTAL_SIZE"
proof -
  have "\<exists>k. (64::int) = 2 ^ k" by (rule exI [of _ 6]) simp
  then show "local_wf new_ring" by (simp add: new_ring_def local_wf_def ring_wf_def TOTAL_SIZE_def eq_commute)
  show "unread new_ring = []" by (simp add: new_ring_def unread_def rb_data_size_def ring_at_def)
  show "rsize new_ring = TOTAL_SIZE" by (simp add: new_ring_def)
qed

lemma q_ok_init: "q_ok (initQueue 8 QUEUE_SIZE)" "queue_items (initQueue 8 QUEUE_SIZE :: nat unQueue) = []"
proof -
  have "0 < QUEUE_SIZE" by (simp add: QUEUE_SIZE_def)
  then have w: "queue_wf (initQueue 8 QUEUE_SIZE :: nat unQueue)" "queue_items (initQueue 8 QUEUE_SIZE :: nat unQueue) = []"
    using initQueue_wf by blast+
  show "queue_items (initQueue 8 QUEUE_SIZE :: nat unQueue) = []" by (fact w)
  have "len (initQueue 8 QUEUE_SIZE :: nat unQueue) = QUEUE_SIZE" by (simp add: initQueue_def)
  with w show "q_ok (initQueue 8 QUEUE_SIZE)" by (simp add: q_ok_def)
qed

lemma buff_init_tail:
  assumes "buff_init TAIL sid ok new_ring = Inr t"
  shows "reader_inv t [] [] []" and "local_recv_buff t = new_ring"
proof -
  obtain m :: "(addr, nat) HashMap" where m: "createHashMap 1024 = Some m"
    by (auto simp: createHashMap_def)
  have t: "local_recv_buff t = new_ring" "node_class t = TAIL" "dirty_map t = m" "executing_queue t = initQueue 8 QUEUE_SIZE"
      "value_peeding_queue t = initQueue 8 QUEUE_SIZE" "dirty_queue t = initQueue 8 QUEUE_SIZE"
    using assms m by (auto simp: buff_init_def Let_def)
  show "local_recv_buff t = new_ring" by fact
  have "queues_inv t [] []" using q_ok_init t by (simp add: queues_inv_def)
  moreover have "log_inv t [] [] [] [] []"
    using new_ring_wf t by (simp add: log_inv_def ring_inv_def ids_ok_def blocks_def TOTAL_SIZE_def)
  moreover have "dirty_inv t [] []"
  proof -
    have "stored_keys m = {}" using m by (auto simp: createHashMap_def stored_keys_def)
    then show ?thesis using dirty_counts_create [OF m, of "rd_str t"] t by (simp add: dirty_inv_def)
  qed
  ultimately show "reader_inv t [] [] []" using t(1)
    by (intro tail_invI [of _ "[]" "[]"]) (simp_all add: new_ring_def)
qed

lemma chain_inv_start:
  assumes h: "buff_init HEAD sid True lb = Inr hn" and t: "buff_init TAIL sid' ok new_ring = Inr t"
  shows "chain_inv \<lparr>chead = hn, ctail = t, written = [], served = [], frames_out = []\<rparr>"
proof -
  have "head_inv hn (local_recv_buff t) [] []"
    using h buff_init_tail(2) [OF t] q_ok_init new_ring_wf
    by (auto simp: buff_init_def Let_def head_inv_def in_sync_def new_ring_def ring_wf_def local_wf_def)
  then have "frames_inv hn t [] [] [] [] []"
    using buff_init_tail [OF t] new_ring_wf by (simp add: frames_inv_def)
  moreover have "trail (local_recv_buff t) [] []" using buff_init_tail(2) [OF t] by (simp add: trail_def new_ring_def TOTAL_SIZE_def)
  ultimately show ?thesis by (intro chain_invI) simp_all
qed

lemma reachable_inv: "reachable c \<Longrightarrow> no_stale_tag (frames_out c) \<Longrightarrow> chain_inv c"
proof (induction rule: reachable.induct)
  case (step c c')
  then have "no_stale_tag (frames_out c)" using step_frames_out no_stale_tag_prefix by metis
  with step show ?case by (blast intro: chain_inv_step)
qed (blast intro: chain_inv_start)

section \<open>Calls return\<close>

lemma frames_nic_runs:
  assumes inv: "frames_inv hn t ge gp gr gd gq"
  shows "\<exists>hn' ops lb'. NIC_turn hn = Inr (hn', ops) \<and> run_rops ops (local_recv_buff t) = Inr lb'"
proof (cases gq)
  case Nil
  then have "queue_items (sending_queue hn) = []" "q_ok (sending_queue hn)"
    using inv by (simp_all add: frames_inv_def head_inv_def)
  then show ?thesis by (simp add: NIC_turn_def q_ok_empty)
next
  case (Cons g gq')
  have h: "in_sync (remote_buff hn) (local_recv_buff t)" "q_ok (sending_queue hn)"
      "parsed pend hn (rd_pointer (local_recv_buff t) + int (foff gd)) (queue_items (sending_queue hn)) (g # gq')"
    using inv Cons by (simp_all add: frames_inv_def head_inv_def)
  obtain i hq where hq: "queue_items (sending_queue hn) = i # hq" using h(3) by (cases "queue_items (sending_queue hn)") auto
  from nic_result [OF h(1,2) hq frames_ring [OF inv, unfolded Cons] h(3) [unfolded hq]] show ?thesis by blast
qed

lemma frames_exec:
  assumes "frames_inv hn t ge gp gr gd gq"
  shows "emptyQueue (executing_queue t) \<longleftrightarrow> ge = []"
proof -
  obtain E P where q: "queues_inv t E P" and li: "log_inv t E P ge gp gr"
    using assms by (auto simp: frames_inv_def tail_inv_def)
  have "E = [] \<longleftrightarrow> ge = []" using log_inv_lengths(1) [OF li] by (metis length_0_conv)
  with q show ?thesis by (simp add: queues_inv_def q_ok_empty)
qed

lemma frames_write_returns:
  assumes inv: "frames_inv hn t ge gp gr gd gq" and rest: "length rest = 24" and small: "35 + length key + length value < 2 ^ 31"
  shows "\<exists>hn' ops lb'. head_node_write_log True (local_recv_buff t) (local_recv_buff t) rest hn key value =
      Inr (int (35 + length key + length value) \<le> rb_free_size (local_recv_buff t), hn', ops) \<and>
    run_rops ops (local_recv_buff t) = Inr lb'"
proof -
  let ?lb = "local_recv_buff t"
  have sync: "in_sync (remote_buff hn) ?lb" and N: "rsize ?lb = TOTAL_SIZE" and q: "q_ok (sending_queue hn)"
    and p: "parsed pend hn (rd_pointer ?lb + int (foff gd)) (queue_items (sending_queue hn)) gq"
    using inv by (simp_all add: frames_inv_def head_inv_def)
  show ?thesis
  proof (cases "int (35 + length key + length value) \<le> rb_free_size ?lb")
    case False
    with head_write_refused [OF sync False small, of rest] show ?thesis by auto
  next
    case True
    define g where "g = \<lparr>g_key = key, g_value = value, g_done = False\<rparr>"
    have room: "int (flen g) \<le> rb_free_size ?lb" using True by (simp add: flen_def g_def)
    have "gq = []" using one_log_fits [OF frames_ring [OF inv] N room] by simp
    then have "queue_items (sending_queue hn) = []" using p by (cases "queue_items (sending_queue hn)") auto
    then obtain sq where sq: "putQueue (sending_queue hn) (next_id hn) = Inr (1, sq)" using q_ok_put [OF q] by fastforce
    show ?thesis
      using head_write_eq [OF g_def refl sync refl room rest _ refl] small head_write_ring(1) [OF sync room rest refl refl refl] sq True
      by (simp add: flen_def g_def)
  qed
qed

section \<open>Draining\<close>

lemma drain_nic:
  "frames_inv (chead c) (ctail c) ge gp gr gd gq \<Longrightarrow>
   \<exists>c' gp' gr' gd'. peer_step\<^sup>*\<^sup>* c c' \<and> frames_inv (chead c') (ctail c') ge gp' gr' gd' [] \<and>
     map kv (ge @ gp' @ gr') = map kv (ge @ gp @ gr) \<and> written c' = written c \<and> served c' = served c"
proof (induction gq arbitrary: c gp gr gd)
  case Nil
  then show ?case by blast
next
  case (Cons g gq)
  obtain hn ops lb where n: "NIC_turn (chead c) = Inr (hn, ops)" "run_rops ops (tail_ring c) = Inr lb"
    using frames_nic_runs [OF Cons.prems] by blast
  define c1 where "c1 = c\<lparr>chead := hn, ctail := set_ring lb (ctail c)\<rparr>"
  have st: "peer_step c c1" unfolding c1_def by (rule peer_step.nic [OF n])
  obtain gp' gr' gd' where f: "frames_inv (chead c1) (ctail c1) ge gp' gr' gd' gq" "map kv (ge @ gp' @ gr') = map kv (ge @ gp @ gr)"
    using frames_nic [OF Cons.prems n] by (auto simp: c1_def)
  obtain c' gp'' gr'' gd'' where "peer_step\<^sup>*\<^sup>* c1 c'" "frames_inv (chead c') (ctail c') ge gp'' gr'' gd'' []"
      "map kv (ge @ gp'' @ gr'') = map kv (ge @ gp' @ gr')" "written c' = written c1" "served c' = served c1"
    using Cons.IH [OF f(1)] by blast
  moreover have "peer_step\<^sup>*\<^sup>* c c'" using st calculation(1) by (rule converse_rtranclp_into_rtranclp)
  ultimately show ?case using f(2) by (intro exI [of _ c'] exI [of _ gp''] exI [of _ gr''] exI [of _ gd'']) (simp add: c1_def)
qed

lemma drain_serve:
  "frames_inv (chead c) (ctail c) ge gp gr gd gq \<Longrightarrow>
   \<exists>c' gd'. peer_step\<^sup>*\<^sup>* c c' \<and> frames_inv (chead c') (ctail c') [] gp gr gd' gq \<and>
     written c' = written c \<and> served c' = served c @ map (Some \<circ> g_value) ge"
proof (induction ge arbitrary: c gd)
  case Nil
  then show ?case by auto
next
  case (Cons g ge)
  obtain t gd1 where t: "serve_log (ctail c) = Inr (Some (g_value g), t)" "frames_inv (chead c) t ge gp gr gd1 gq"
    using frames_serve [OF Cons.prems] by blast
  define c1 where "c1 = c\<lparr>ctail := t, served := served c @ [Some (g_value g)]\<rparr>"
  have st: "peer_step c c1"
    unfolding c1_def using frames_exec [OF Cons.prems] t(1) by (intro peer_step.serve) simp_all
  obtain c' gd' where c': "peer_step\<^sup>*\<^sup>* c1 c'" "frames_inv (chead c') (ctail c') [] gp gr gd' gq"
      "written c' = written c1" "served c' = served c1 @ map (Some \<circ> g_value) ge"
    using Cons.IH [of c1 gd1] t(2) by (auto simp: c1_def)
  moreover have "peer_step\<^sup>*\<^sup>* c c'" using st calculation(1) by (rule converse_rtranclp_into_rtranclp)
  ultimately show ?case by (intro exI [of _ c'] exI [of _ gd']) (simp add: c1_def)
qed

lemma drain_peers:
  assumes "chain_inv c"
  shows "\<exists>c'. peer_step\<^sup>*\<^sup>* c c' \<and> written c' = written c \<and> served c' = map (Some \<circ> snd) (written c)"
proof -
  obtain ge gp gr gd gq W where f: "frames_inv (chead c) (ctail c) ge gp gr gd gq"
    and w: "written c = W @ map kv (ge @ gp @ gr)" and sv: "served c = map (Some \<circ> snd) W"
    using assms by (auto simp: chain_inv_def)
  obtain c1 gp1 gr1 gd1 where c1: "peer_step\<^sup>*\<^sup>* c c1" "frames_inv (chead c1) (ctail c1) ge gp1 gr1 gd1 []"
      "map kv (ge @ gp1 @ gr1) = map kv (ge @ gp @ gr)" "written c1 = written c" "served c1 = served c"
    using drain_nic [OF f] by blast
  obtain t where t: "read_log_key (length gr1) (ctail c1) = Inr (length gr1, t)" "frames_inv (chead c1) t ge (gp1 @ gr1) [] gd1 []"
    using frames_parse [OF c1(2), of "length gr1"] by auto
  have dn: "list_all g_done (ge @ gp1 @ gr1)" using c1(2) by (simp add: frames_inv_def head_inv_def)
  obtain t2 where t2: "read_log_value (length (gp1 @ gr1)) t = Inr (length (gp1 @ gr1), t2)"
      "frames_inv (chead c1) t2 (ge @ gp1 @ gr1) [] [] gd1 []"
    using frames_await [OF t(2), of "length (gp1 @ gr1)"] dn by (auto split: if_splits)
  have s1: "peer_step c1 (c1\<lparr>ctail := t\<rparr>)" by (rule peer_step.keys [OF t(1)])
  have s2: "peer_step (c1\<lparr>ctail := t\<rparr>) (c1\<lparr>ctail := t2\<rparr>)"
    using peer_step.vals [of _ "c1\<lparr>ctail := t\<rparr>"] t2(1) by simp
  obtain c' where c': "peer_step\<^sup>*\<^sup>* (c1\<lparr>ctail := t2\<rparr>) c'" "written c' = written c1"
      "served c' = served c1 @ map (Some \<circ> g_value) (ge @ gp1 @ gr1)"
    using drain_serve [of "c1\<lparr>ctail := t2\<rparr>" "ge @ gp1 @ gr1" "[]" "[]" gd1 "[]"] t2(2)
    by (auto simp del: map_append)
  have "peer_step\<^sup>*\<^sup>* c c'" using c1(1) s1 s2 c'(1) by auto
  moreover have "map (Some \<circ> g_value) (ge @ gp1 @ gr1) = map (Some \<circ> snd) (map kv (ge @ gp @ gr))"
    unfolding c1(3) [symmetric] by (simp add: kv_def)
  ultimately show ?thesis using c' c1(4,5) w sv by (intro exI [of _ c']) simp
qed

lemma peer_frames_out: "peer_step c c' \<Longrightarrow> frames_out c' = frames_out c"
  by (induction rule: peer_step.induct) auto

lemma peers_frames_out: "peer_step\<^sup>*\<^sup>* c c' \<Longrightarrow> frames_out c' = frames_out c"
  by (induction rule: rtranclp_induct) (auto dest: peer_frames_out)

lemma drain:
  assumes "chain_inv c"
  shows "\<exists>c'. chain_step\<^sup>*\<^sup>* c c' \<and> written c' = written c \<and> served c' = map (Some \<circ> snd) (written c) \<and> frames_out c' = frames_out c"
  using drain_peers [OF assms] rtranclp_mono [of peer_step chain_step] peer_step_chain peers_frames_out by blast

lemma reachable_steps: "chain_step\<^sup>*\<^sup>* c c' \<Longrightarrow> reachable c \<Longrightarrow> reachable c'"
  by (induction rule: rtranclp_induct) (auto intro: reachable.step)

text \<open>A first log goes through.\<close>

lemma first_log_bytes:
  assumes "0 \<notin> set key" and "0 \<notin> set value" and "length key + length value \<le> 28" and rest: "length rest = 24"
  shows "\<exists>c. reachable c \<and> written c = [(key, value)] \<and> served c = [] \<and> frames_out c = [log_bytes rest key value]"
proof -
  obtain hn where hn: "buff_init HEAD 0 True new_ring = Inr hn" by (auto simp: buff_init_def Let_def)
  obtain t where t: "buff_init TAIL 1 True new_ring = Inr t" by (auto simp: buff_init_def Let_def)
  define c where "c = \<lparr>chead = hn, ctail = t, written = [], served = [], frames_out = []\<rparr>"
  have r: "reachable c" unfolding c_def by (rule reachable.start [OF hn t])
  have free: "rb_free_size (tail_ring c) = 63"
    using buff_init_tail(2) [OF t] by (simp add: c_def new_ring_def rb_free_size_def rb_data_size_def TOTAL_SIZE_def)
  obtain ge gp gr gd gq where f: "frames_inv (chead c) (ctail c) ge gp gr gd gq"
    using chain_inv_start [OF hn t] unfolding chain_inv_def c_def by blast
  obtain hn' ops lb where w: "head_node_write_log True (tail_ring c) (tail_ring c) rest (chead c) key value = Inr (True, hn', ops)"
      "run_rops ops (tail_ring c) = Inr lb"
    using frames_write_returns [OF f rest, of key "value"] assms(3) free by auto
  have "log_strings key value" using assms by (simp add: log_strings_def)
  from reachable.step [OF r chain_step.write_log [OF w rest this]] show ?thesis
    by (intro exI [of _ "c\<lparr>chead := hn', ctail := set_ring lb (ctail c), written := written c @ [(key, value)],
        frames_out := frames_out c @ [log_bytes rest key value]\<rparr>"]) (simp add: c_def)
qed

lemma first_log:
  assumes "0 \<notin> set key" and "0 \<notin> set value" and "length key + length value \<le> 28"
  shows "\<exists>c. reachable c \<and> written c = [(key, value)] \<and> served c = [] \<and> no_stale_tag (frames_out c)"
proof -
  have "length (replicate 24 (0 :: byte)) = 24" by simp
  from first_log_bytes [OF assms this] show ?thesis by auto
qed

section \<open>Properties\<close>

text \<open>C1: In every reachable state of a head and its tail, what the reader thread has handed
  to the upper layer is a prefix of what the head wrote: each value once, in order,
  unchanged, also when its key or value wraps around the end of the buffer. The condition is that
  no log was written over a byte that looks like its tag (\<open>no_stale_tag\<close>), which the code does not
  see to; \<open>LogStale\<close> has a run without it that serves a wrong value. The logs are those of strings whose lengths add up to
  an \<open>int\<close> (\<open>log_strings\<close>), as for all properties of the chain.\<close>

theorem chain_delivers:
  assumes "reachable c" and "no_stale_tag (frames_out c)"
  shows "served c = map (Some \<circ> snd) (take (length (served c)) (written c))"
proof -
  obtain W rest where "written c = W @ rest" "served c = map (Some \<circ> snd) W"
    using reachable_inv [OF assms] by (auto simp: chain_inv_def)
  then show ?thesis by simp
qed

theorem chain_delivers_witness:
  "\<exists>c. reachable c \<and> served c = [Some [66, 67]] \<and> written c = [([65], [66, 67])] \<and>
     served c = map (Some \<circ> snd) (take (length (served c)) (written c))"
proof -
  obtain c where c: "reachable c" "written c = [([65], [66, 67])]" "no_stale_tag (frames_out c)"
    using first_log [of "[65]" "[66, 67]"] by auto
  obtain c' where "chain_step\<^sup>*\<^sup>* c c'" "written c' = written c" "served c' = map (Some \<circ> snd) (written c)"
      "frames_out c' = frames_out c"
    using drain [OF reachable_inv [OF c(1,3)]] by auto
  with c reachable_steps have r: "reachable c'" "written c' = [([65], [66, 67])]" "served c' = [Some [66, 67]]" "no_stale_tag (frames_out c')"
    by auto
  with chain_delivers [OF r(1,4)] show ?thesis by blast
qed

text \<open>C2: From every reachable state the threads can run until the reader has served
  everything the head has written: no log is stuck or lost. The condition is that of the delivery: no
  log was written over a stale tag, which the code does not see to.\<close>

theorem chain_drains:
  assumes "reachable c" and "no_stale_tag (frames_out c)"
  shows "\<exists>c'. chain_step\<^sup>*\<^sup>* c c' \<and> written c' = written c \<and> served c' = map (Some \<circ> snd) (written c)"
  using drain [OF reachable_inv [OF assms]] by blast

theorem chain_drains_witness:
  "\<exists>c c'. reachable c \<and> served c = [] \<and> chain_step\<^sup>*\<^sup>* c c' \<and> served c' = [Some [66]]"
proof -
  obtain c where c: "reachable c" "written c = [([65], [66])]" "served c = []" "no_stale_tag (frames_out c)"
    using first_log [of "[65]" "[66]"] by auto
  with chain_drains [OF c(1,4)] show ?thesis by auto
qed

text \<open>What can run next does not fault: \<open>NIC_thread\<close> returns and what it sends can be written, \<open>read_log_key\<close> returns,
  \<open>read_log_value\<close> returns or waits for a tag, and a turn of \<open>reader_thread\<close> on a log that is ready gives its value.\<close>

definition calls_return :: "Chain \<Rightarrow> bool" where
  "calls_return c \<longleftrightarrow>
     (\<exists>hn ops lb. NIC_turn (chead c) = Inr (hn, ops) \<and> run_rops ops (tail_ring c) = Inr lb) \<and>
     (\<forall>n. \<exists>k t. read_log_key n (ctail c) = Inr (k, t)) \<and>
     (\<forall>n. read_log_value n (ctail c) = Inl Spin \<or> (\<exists>k t. read_log_value n (ctail c) = Inr (k, t))) \<and>
     (emptyQueue (executing_queue (ctail c)) \<or> (\<exists>v t. serve_log (ctail c) = Inr (Some v, t)))"

lemma frames_calls_return:
  assumes f: "frames_inv (chead c) (ctail c) ge gp gr gd gq"
  shows "calls_return c"
proof -
  have "emptyQueue (executing_queue (ctail c)) \<or> (\<exists>v t. serve_log (ctail c) = Inr (Some v, t))"
  proof (cases ge)
    case (Cons g ge')
    then show ?thesis using frames_serve [OF f [unfolded Cons]] by blast
  qed (simp add: frames_exec [OF f])
  moreover have "read_log_value n (ctail c) = Inl Spin \<or> (\<exists>k t. read_log_value n (ctail c) = Inr (k, t))" for n
    using frames_await [OF f, of n] by (auto split: if_splits)
  moreover have "\<exists>k t. read_log_key n (ctail c) = Inr (k, t)" for n using frames_parse [OF f, of n] by blast
  ultimately show ?thesis unfolding calls_return_def using frames_nic_runs [OF f] by blast
qed

text \<open>C3: In a reachable state in which no log was written over a stale tag no call of either side faults. For
  strings of less than 2^31 bytes with their header, whatever bytes the header holds in its unset fields,
  \<open>head_node_write_log\<close> returns and succeeds exactly when the log fits, and what it sends can be written; so for
  \<open>NIC_thread\<close>; \<open>read_log_key\<close> returns; \<open>read_log_value\<close> returns or waits for a tag; a turn
  of \<open>reader_thread\<close> on a log that is ready gives its value.\<close>

theorem chain_no_fault:
  assumes "reachable c" and "no_stale_tag (frames_out c)" and "length rest = 24" and "35 + length key + length value < 2 ^ 31"
  shows "(\<exists>hn ops lb. head_node_write_log True (tail_ring c) (tail_ring c) rest (chead c) key value =
             Inr (int (35 + length key + length value) \<le> rb_free_size (tail_ring c), hn, ops) \<and>
             run_rops ops (tail_ring c) = Inr lb) \<and> calls_return c"
proof -
  obtain ge gp gr gd gq where f: "frames_inv (chead c) (ctail c) ge gp gr gd gq"
    using reachable_inv [OF assms(1,2)] by (auto simp: chain_inv_def)
  then show ?thesis using frames_write_returns [OF f assms(3,4)] frames_calls_return [OF f] by blast
qed

theorem chain_no_fault_witness:
  "\<exists>c. reachable c \<and> written c = [([65], [66])] \<and> calls_return c"
proof -
  obtain c where c: "reachable c" "written c = [([65], [66])]" "no_stale_tag (frames_out c)"
    using first_log [of "[65]" "[66]"] by auto
  with chain_no_fault [OF c(1,3), of "replicate 24 0" "[]" "[]"] show ?thesis by auto
qed

text \<open>C8: The dirty map is right when the reader has parsed all keys: after a call of
  \<open>read_log_key\<close> that is not cut short by its limit it holds exactly the keys written and not
  yet served, with the number of their logs, although it keeps pointers into the buffer. As for the
  delivery, no log may have been written over a stale tag, which the code does not see to.\<close>

theorem dirty_map_tracks_pending:
  assumes "reachable c" and "no_stale_tag (frames_out c)" and "length (written c) - length (served c) \<le> n"
  shows "\<exists>k t. read_log_key n (ctail c) = Inr (k, t) \<and>
    dirty_counts (rd_str t) (dirty_map t) (mset (map fst (drop (length (served c)) (written c))))"
proof -
  obtain ge gp gr gd gq W where f: "frames_inv (chead c) (ctail c) ge gp gr gd gq"
    and w: "written c = W @ map kv (ge @ gp @ gr)" and sv: "served c = map (Some \<circ> snd) W"
    using reachable_inv [OF assms(1,2)] by (auto simp: chain_inv_def)
  have "length gr \<le> n" using assms(3) w sv by simp
  then obtain t where t: "read_log_key n (ctail c) = Inr (length gr, t)" "frames_inv (chead c) t ge (gp @ gr) [] gd gq"
    using frames_parse [OF f, of n] by auto
  have "reader_inv t ge (gp @ gr) []" using t(2) by (simp add: frames_inv_def)
  then have "dirty_counts (rd_str t) (dirty_map t) (mset (map g_key (ge @ gp @ gr)))"
    by (auto simp: tail_inv_def dirty_inv_def)
  moreover have "map fst (drop (length (served c)) (written c)) = map g_key (ge @ gp @ gr)"
    using w sv by (simp add: kv_def)
  ultimately show ?thesis using t(1) by simp
qed

theorem dirty_map_tracks_pending_witness:
  "\<exists>c k t. reachable c \<and> read_log_key 1024 (ctail c) = Inr (k, t) \<and>
     dirty_counts (rd_str t) (dirty_map t) {#[65]#}"
proof -
  obtain c where c: "reachable c" "written c = [([65], [66])]" "served c = []" "no_stale_tag (frames_out c)"
    using first_log [of "[65]" "[66]"] by auto
  with dirty_map_tracks_pending [OF c(1,4), of 1024] show ?thesis by auto
qed

section \<open>A node that forwards\<close>

lemma free_log_gone: "free_log i nd = Inr nd' \<Longrightarrow> logs nd' i = None \<and> sending_queue nd' = sending_queue nd"
  by (auto simp: free_log_def free_block_def guardR_def bindR_eq_Inr Let_def
      split: option.splits if_splits addr.splits)

lemma clean_log_gone:
  assumes "queue_wf (dirty_queue nd)" and "queue_items (dirty_queue nd) = i # D" and "clean_log nd = Inr nd'"
  shows "logs nd' i = None" and "sending_queue nd' = sending_queue nd"
proof -
  have top: "topQueue (dirty_queue nd) = Inr (Some i)" "\<not> emptyQueue (dirty_queue nd)"
    using assms(1,2) topQueue_items [of "dirty_queue nd"] emptyQueue_items [of "dirty_queue nd"] by auto
  obtain dq nd1 a where "dirty_unmark (nd\<lparr>dirty_queue := dq\<rparr>) a = Inr nd1" and f: "free_log i nd1 = Inr nd'"
    using assms(3) top by (auto simp: clean_log_def bindR_eq_Inr split: option.splits)
  then have "sending_queue nd1 = sending_queue nd"
    by (auto simp: dirty_unmark_def guardR_def bindR_eq_Inr split: if_splits)
  with free_log_gone [OF f] show "logs nd' i = None" "sending_queue nd' = sending_queue nd" by simp_all
qed

text \<open>C38: On a node in the middle of the chain \<open>reader_thread\<close> frees a log it has just queued
  for forwarding: \<open>send_log\<close> puts the pointer into \<open>sending_queue\<close> and the \<open>clean_log\<close> that
  follows frees the struct. If \<open>NIC_thread\<close> has not run in between, its next turn uses a
  freed struct.\<close>

theorem forwarded_log_is_freed:
  assumes "node_class nd = NORMAL"
    and "queue_wf (executing_queue nd)" and "queue_items (executing_queue nd) = i # E"
    and "queue_wf (dirty_queue nd)" and "queue_items (dirty_queue nd) = i # D"
    and "queue_wf (sending_queue nd)" and "queue_items (sending_queue nd) = []" and "1 < len (sending_queue nd)"
    and "serve_log nd = Inr (v, nd')"
  shows "NIC_turn nd' = Inl UB"
proof -
  have top: "topQueue (executing_queue nd) = Inr (Some i)" "\<not> emptyQueue (executing_queue nd)"
    using assms(2,3) topQueue_items [of "executing_queue nd"] emptyQueue_items [of "executing_queue nd"] by auto
  obtain sq where sq: "putQueue (sending_queue nd) i = Inr (1, sq)" "queue_wf sq" "queue_items sq = [i]"
  proof -
    have "used (sending_queue nd) = 0" using assms(7) length_queue_items [of "sending_queue nd"] by simp
    then show ?thesis using that putQueue_room [OF assms(6), of i] assms(7,8) by auto
  qed
  obtain nd1 where nd1: "send_log nd = Inr nd1" "clean_log nd1 = Inr nd'"
    using assms(9) by (auto simp: serve_log_def bindR_eq_Inr Let_def)
  have "sending_queue nd1 = sq" "dirty_queue nd1 = dirty_queue nd"
    using nd1(1) top sq(1) assms(1) by (auto simp: send_log_def bindR_eq_Inr)
  then have gone: "logs nd' i = None" "sending_queue nd' = sq"
    using clean_log_gone [of nd1 i D] nd1(2) assms(4,5) by auto
  obtain q where "popQueue sq = Inr q" using popQueue_items [OF sq(2)] by auto
  then show ?thesis
    using sq topQueue_items [of sq] emptyQueue_items [of sq] gone by (simp add: NIC_turn_def)
qed

definition mid_node :: Node where
  "mid_node =
     \<lparr>node_class = NORMAL, local_recv_buff = new_ring,
      remote_buff = \<lparr>wr_pointer = 0, rd_pointer = 0, rsize = TOTAL_SIZE, node_id = 2\<rparr>,
      logs = (\<lambda>_. None)(0 \<mapsto> \<lparr>key_length = 1, value_length = 2, log_pos = 0, key_is_cut = False,
        value_is_cut = False, key_addr = Ring 32, value_addr = Ring 33\<rparr>),
      heap = (\<lambda>_. None), next_id = 1,
      dirty_map = \<lparr>hsize = 1, listSize = 1, changeSize = False, hash_list = [[(Ring 32, 1)]]\<rparr>,
      value_peeding_queue = initQueue 8 3,
      executing_queue = \<lparr>entry_size = 8, len = 3, wid = 1, rid = 0, data = [Some 0, None, None, None]\<rparr>,
      sending_queue = initQueue 8 3,
      dirty_queue = \<lparr>entry_size = 8, len = 3, wid = 1, rid = 0, data = [Some 0, None, None, None]\<rparr>\<rparr>"

theorem forwarded_log_is_freed_witness: "\<exists>v nd'. serve_log mid_node = Inr (v, nd') \<and> NIC_turn nd' = Inl UB"
proof -
  have "case serve_log mid_node of Inl e \<Rightarrow> False | Inr r \<Rightarrow> True" by code_simp
  then obtain v nd' where r: "serve_log mid_node = Inr (v, nd')" by (auto split: sum.splits)
  have q: "queue_wf (executing_queue mid_node)" "queue_items (executing_queue mid_node) = [0]"
      "queue_wf (dirty_queue mid_node)" "queue_items (dirty_queue mid_node) = [0]"
      "queue_wf (sending_queue mid_node)" "queue_items (sending_queue mid_node) = []"
    by code_simp+
  have "NIC_turn nd' = Inl UB"
    by (rule forwarded_log_is_freed [OF _ q(1,2,3,4,5,6) _ r]) (simp_all add: mid_node_def initQueue_def)
  with r show ?thesis by blast
qed

end
