(* ===== verification/LogStale.thy ===== *)
theory LogStale
  imports LogChain
begin

text \<open>
  The condition \<open>no_stale_tag\<close> of \<open>LogChain\<close> is needed. When all logs have been served and the next one lies
  over bytes of the last that look like a value with its tag, the reader takes them for the value: it
  serves them although \<open>NIC_thread\<close> has not written anything.
\<close>

text \<open>Where the value of a log of \<open>n\<close> bytes with a key of \<open>k\<close> characters lies in the log before it, and that log's bytes.\<close>

definition under_value :: "byte list \<Rightarrow> nat \<Rightarrow> nat \<Rightarrow> byte list" where
  "under_value f k n = bslice f (length f + 33 + k - 64) n"

lemma stale_bytes:
  assumes tr: "trail lb [] fs" and fs: "fs \<noteq> []" and len: "length (buff_addr lb) = 64" and h: "length h = 33 + k"
    and fit: "33 + k + n \<le> 63" and over: "64 \<le> length (last fs) + 33 + k"
  shows "ring_at (ring_put (buff_addr lb) (wr_pointer lb) h) (wr_pointer lb + int (33 + k)) n = under_value (last fs) k n"
proof -
  note l = trail_last [OF tr fs]
  let ?b = "buff_addr lb" and ?w = "wr_pointer lb" and ?o = "length (last fs) + 33 + k - 64"
  have o: "int ?o = int (length (last fs)) + int (33 + k) - 64" "?o + n \<le> length (last fs)" using over fit l(3) by simp_all
  have "ring_at (ring_put ?b ?w h) (?w + int (33 + k)) n = ring_at ?b (?w + int (33 + k)) n"
  proof (rule ring_at_put_other)
    have "(?w - (?w + int (33 + k))) mod 64 = 64 - int (33 + k)"
      using fit mod_diff_wrap [of 0 64 "int (33 + k)"] by simp
    then show "int n \<le> (?w - (?w + int (33 + k))) mod int (length ?b)"
      "(?w - (?w + int (33 + k))) mod int (length ?b) + int (length h) \<le> int (length ?b)"
      using fit h by (simp_all add: len)
  qed
  also have "\<dots> = ring_at ?b (?w - int (length (last fs)) + int ?o) n"
  proof (rule ring_at_cong)
    have "(?w - int (length (last fs)) + int ?o) mod 64 = (?w + int (33 + k) - 64) mod 64"
      by (simp only: o(1)) (simp add: algebra_simps)
    also have "\<dots> = (?w + int (33 + k)) mod 64" by (rule minus_mod_self2)
    finally show "(?w + int (33 + k)) mod int (length ?b) = (?w - int (length (last fs)) + int ?o) mod int (length ?b)"
      by (simp add: len)
  qed
  also have "\<dots> = bslice (ring_at ?b (?w - int (length (last fs))) (length (last fs))) ?o n"
    using bslice_ring_at [OF o(2), of ?b "?w - int (length (last fs))"] by simp
  finally show ?thesis using l(1) by (simp add: under_value_def)
qed

lemma stale_value_served:
  assumes r: "reachable c" and safe: "no_stale_tag (frames_out c)" and all: "length (served c) = length (written c)"
    and fs: "frames_out c \<noteq> []" and z: "log_strings key value" and fit: "length key + length value \<le> 28"
    and over: "31 \<le> length (last (frames_out c)) + length key" and v: "0 \<notin> set v" "length v = length value"
    and old: "under_value (last (frames_out c)) (length key) (length value + 2) = v @ [0, 1]"
  shows "\<exists>c'. reachable c' \<and> written c' = written c @ [(key, value)] \<and> served c' = served c @ [Some v]"
proof -
  obtain ge gp gr gd gq W where f: "frames_inv (chead c) (ctail c) ge gp gr gd gq" and tr: "trail (tail_ring c) gq (frames_out c)"
    and w: "written c = W @ map kv (ge @ gp @ gr)" and sv: "served c = map (Some \<circ> snd) W"
    using reachable_inv [OF r safe] by (auto simp: chain_inv_def)
  define rest where "rest = replicate 24 (0 :: byte)"
  have rest: "length rest = 24" by (simp add: rest_def)
  have none: "ge = []" "gp = []" "gr = []" using all w sv by simp_all
  then have gq: "gd = []" "gq = []" using f by (simp_all add: frames_inv_def)
  let ?lb = "tail_ring c"
  define g where "g = \<lparr>g_key = key, g_value = value, g_done = False\<rparr>"
  define g' where "g' = g\<lparr>g_value := v, g_done := True\<rparr>"
  have same: "flen g' = flen g" "key_field g' = key_field g" "value_field g' = v @ [0, 1]" "length (value_field g') = length (value_field g)"
    using v(2) by (simp_all add: g'_def g_def flen_def key_field_def value_field_def tagged_value_def)
  have rg: "ring_inv ?lb []" and N: "rsize ?lb = 64" using frames_ring [OF f] gq f by (simp_all add: frames_inv_def TOTAL_SIZE_def)
  then have wf: "local_wf ?lb" and e: "unread ?lb = []" by (simp_all add: ring_inv_def)
  have len: "length (buff_addr ?lb) = 64" using local_wf_len [OF wf] N by simp
  have free: "rb_free_size ?lb = 63"
    using count_at(2) [of ?lb "[]" "[]"] rg N by (simp add: ring_inv_def rb_free_size_def)
  have small: "35 + length key + length value < 2 ^ 31" using z by (simp add: log_strings_def)
  obtain hn ops lb where call: "head_node_write_log True ?lb ?lb rest (chead c) key value = Inr (True, hn, ops)" "run_rops ops ?lb = Inr lb"
    using frames_write_returns [OF f rest small] free fit by auto
  note sh = write_shape [OF f rest z call g_def]
  let ?h = "frame_head rest g"
  have h: "length ?h = 33 + length key" using length_frame_head [OF rest, of g] by (simp add: g_def)
  have b: "buff_addr lb = ring_put (buff_addr ?lb) (wr_pointer ?lb) ?h" by (subst sh(2)) simp
  have sync: "in_sync (remote_buff (chead c)) ?lb" using f by (simp add: frames_inv_def head_inv_def)
  have room: "int (flen g) \<le> rb_free_size ?lb" using free fit by (simp add: g_def flen_def)
  define rb1 where "rb1 = (remote_buff (chead c))\<lparr>rd_pointer := rd_pointer ?lb\<rparr>"
  define wr where "wr = wrap_ptr (rsize rb1) (wrap_ptr (rsize rb1) (wr_pointer rb1 + int (length ?h)) + int (length (value_field g)))"
  have gsmall: "int (flen g) < 2 ^ 31" using fit by (simp add: g_def flen_def)
  have "ops = rb_write_data rb1 ?h (wr_pointer rb1) (int (length ?h)) @ [WrWrite wr]"
    using call(1) head_write_eq [OF g_def rb1_def sync refl room rest gsmall wr_def] by (auto simp: bindR_eq_Inr)
  then have lb: "lb = ?lb\<lparr>buff_addr := ring_put (buff_addr ?lb) (wr_pointer ?lb) ?h, wr_pointer := wr\<rparr>"
    using call(2) head_write_ring(1) [OF sync room rest rb1_def wr_def refl] by simp
  obtain reserved where un: "unread lb = ?h @ reserved" "length reserved = length (value_field g)" and wf': "local_wf lb"
    using head_write_ring(2,3) [OF sync room rest rb1_def wr_def lb] e by (auto simp: in_sync_def)
  have "length (unread lb) = length ?h + length (value_field g)" using un by simp
  then have n: "nat (rb_data_size lb) = length ?h + length (value_field g)" by (simp add: unread_def)
  have start: "wr_pointer ?lb mod 64 = rd_pointer ?lb mod 64" using wr_at_end [OF wf, of "[]"] e N by simp
  have "reserved = ring_at (buff_addr lb) (rd_pointer lb + int (length ?h)) (length (value_field g))"
    using un arg_cong [OF un(1), of "drop (length ?h)"] unfolding unread_def n ring_at_add by simp
  also have "\<dots> = ring_at (buff_addr lb) (wr_pointer ?lb + int (33 + length key)) (length value + 2)"
  proof -
    have "(rd_pointer ?lb + int (33 + length key)) mod 64 = (wr_pointer ?lb + int (33 + length key)) mod 64"
      using start by (metis mod_add_left_eq)
    then show ?thesis using ring_at_cong [of "rd_pointer lb + int (length ?h)" "buff_addr lb" "wr_pointer ?lb + int (33 + length key)"]
      by (simp add: h lb len) (simp add: g_def)
  qed
  also have "\<dots> = v @ [0, 1]"
    unfolding b using stale_bytes [OF tr [unfolded gq] fs len h, of "length value + 2"] fit over old by simp
  finally have res: "reserved = value_field g'" by (simp add: same)
  have ok: "glog_ok g'" using z v fit by (simp add: g'_def g_def glog_ok_def log_strings_def)
  have new: "glog_ok g" "\<not> g_done g" using z fit by (simp_all add: g_def glog_ok_def log_strings_def)
  have "framed (?h @ reserved) [g]"
    using frame_new [OF rest new un(2)] unfolding frame_head_def append_assoc .
  then have "frame_at (?h @ reserved) g" by simp
  then have "frame_at (?h @ reserved) g'"
    using h same unfolding frame_at_def by (simp add: res g'_def) (simp add: bslice_def g_def)
  then have "framed (unread lb) [g']" using un same(1,4) h by (simp add: flen_def g_def)
  then have rg': "ring_inv lb [g']" using wf' ok rg N lb by (simp add: ring_inv_def)
  have tl: "reader_inv (ctail c) [] [] []" using f none by (simp add: frames_inv_def)
  define t0 where "t0 = set_ring lb (ctail c)"
  have tl0: "reader_inv t0 [] [] [g']"
    using tail_inv_ring [OF tl fills_refl, of lb "[g']"] rg' by (simp add: t0_def lb)
  obtain t1 where t1: "read_log_key 1 t0 = Inr (1, t1)" "reader_inv t1 [] [g'] []"
    using read_log_key_result [OF tl0, of 1] by auto
  obtain t2 where t2: "read_log_value 1 t1 = Inr (1, t2)" "tail_inv t2 (rd_key_pointer (local_recv_buff t1)) [g'] [] []"
    using read_log_value_result [of t1 _ "[]" "[g']" "[]" "[]" 1] t1(2) by (auto simp: g'_def)
  obtain t3 where t3: "serve_log t2 = Inr (Some v, t3)"
    using serve_log_result [OF t2(2)] by (auto simp: g'_def)
  have ex: "\<not> emptyQueue (executing_queue t2)"
    using t2(2) log_inv_lengths(1) by (fastforce simp: tail_inv_def queues_inv_def q_ok_empty)
  let ?c0 = "c\<lparr>chead := hn, ctail := t0, written := written c @ [(key, value)], frames_out := frames_out c @ [log_bytes rest key value]\<rparr>"
  have "chain_step c ?c0" unfolding t0_def by (rule chain_step.write_log [OF call rest z])
  moreover have "chain_step ?c0 (?c0\<lparr>ctail := t1\<rparr>)" using chain_step.parse_keys [of 1 ?c0] t1(1) by simp
  moreover have "chain_step (?c0\<lparr>ctail := t1\<rparr>) (?c0\<lparr>ctail := t2\<rparr>)" using chain_step.await_values [of 1 "?c0\<lparr>ctail := t1\<rparr>"] t2(1) by simp
  moreover have "chain_step (?c0\<lparr>ctail := t2\<rparr>) (?c0\<lparr>ctail := t3, served := served c @ [Some v]\<rparr>)"
    using chain_step.serve_one [of "?c0\<lparr>ctail := t2\<rparr>"] t3 ex by simp
  ultimately have "reachable (?c0\<lparr>ctail := t3, served := served c @ [Some v]\<rparr>)" using r by (blast intro: reachable.step)
  then show ?thesis by (intro exI) auto
qed

text \<open>An example with printable strings. The first log is sent with bytes in the unset field \<open>log_pos\<close>, which the code sets only
  later, that read as a value \<open>X\<close> with its tag; the log \<open>CCC\<close>, \<open>D\<close> that follows is served as \<open>X\<close>.\<close>

definition unset_bytes :: "byte list" where
  "unset_bytes = [0, 88, 0, 1] @ replicate 20 0"

lemma stale_tag_served:
  "\<exists>c. reachable c \<and> written c = [([65], [66]), ([67, 67, 67], [68])] \<and> served c = [Some [66], Some [88]]"
proof -
  have u: "length unset_bytes = 24" by (simp add: unset_bytes_def)
  obtain c0 where c0: "reachable c0" "written c0 = [([65], [66])]" "frames_out c0 = [log_bytes unset_bytes [65] [66]]"
    using first_log_bytes [OF _ _ _ u, of "[65]" "[66]"] by auto
  have safe: "no_stale_tag (frames_out c0)" by (simp add: c0(3))
  obtain c where c: "chain_step\<^sup>*\<^sup>* c0 c" "written c = written c0" "served c = map (Some \<circ> snd) (written c0)" "frames_out c = frames_out c0"
    using drain [OF reachable_inv [OF c0(1) safe]] by blast
  have f: "length (log_bytes unset_bytes [65] [66]) = 37" "under_value (log_bytes unset_bytes [65] [66]) 3 3 = [88, 0, 1]"
    by code_simp+
  have "\<exists>c'. reachable c' \<and> written c' = written c @ [([67, 67, 67], [68])] \<and> served c' = served c @ [Some [88]]"
  proof (rule stale_value_served)
    show "reachable c" by (rule reachable_steps [OF c(1) c0(1)])
    show "no_stale_tag (frames_out c)" "length (served c) = length (written c)" "frames_out c \<noteq> []"
      using c(2,3,4) c0(3) by simp_all
    show "under_value (last (frames_out c)) (length [67 :: byte, 67, 67]) (length [68 :: byte] + 2) = [88] @ [0, 1]"
      using f(2) by (simp add: c(4) c0(3) numeral_eq_Suc)
  qed (use f(1) in \<open>simp_all add: log_strings_def c(4) c0(3)\<close>)
  then show ?thesis using c c0(2) by simp
qed

end
