(* ===== verification/LogWriter.thy ===== *)
theory LogWriter
  imports LogChain
begin

text \<open>
  The sample workload of \<open>src/log_buffer.c\<close>: \<open>writer_thread\<close> prepares \<open>REPEAT\<close> strings and writes each as key
  and value with \<open>head_node_write_log\<close>, retrying while the ring is full, next to \<open>NIC_thread\<close> of
  the head and the reader of the tail. \<open>LogChain\<close> shows delivery when no tag is stale. The strings of this program
  meet this condition, whatever the unset bytes of the headers hold: a log takes 49 bytes of a ring of 64, so
  the tag of each lies on a character of the key before it. Every run of the threads is a run of the chain.
\<close>

section \<open>The thread\<close>

definition REPEAT :: nat where
  "REPEAT = 20"

definition SINGLE_SIZE :: nat where
  "SINGLE_SIZE = 1024"

definition TAG :: nat where
  "TAG = 1"

definition name :: "byte list" where
  "name = [0x31, 0x32, 0x33, 0x34, 0x35, 0x36, 0x37]"

text \<open>One string of the preparation loop: \<open>memset\<close>, \<open>strcpy\<close>, the first character, the tag behind the
  terminator.\<close>

definition fill_name :: "nat \<Rightarrow> byte list res" where
  "fill_name cnt =
     (let p = (blit 0 (name @ [0]) (replicate SINGLE_SIZE 0))[0 := 0x61 + word_of_nat cnt]
      in case c_string p of
           None \<Rightarrow> Inl UB
         | Some s \<Rightarrow> guardR (length s + TAG < SINGLE_SIZE) UB (Inr (p[length s + TAG := 1])))"

fun fill_names :: "nat list \<Rightarrow> byte list list res" where
  "fill_names [] = Inr []"
| "fill_names (cnt # cs) = bindR (fill_name cnt) (\<lambda>p. bindR (fill_names cs) (\<lambda>ps. Inr (p # ps)))"

text \<open>One round of the writing loop with \<open>NAME_LISTS\<close>; \<open>peer1\<close>, \<open>peer2\<close> and \<open>rest\<close> are those of
  \<open>head_node_write_log\<close>.\<close>

definition writer_turn ::
    "byte list list \<Rightarrow> LocalRingbuff \<Rightarrow> LocalRingbuff \<Rightarrow> byte list \<Rightarrow> nat \<Rightarrow> Node \<Rightarrow> (nat \<times> Node \<times> rop list) res" where
  "writer_turn NAME_LISTS peer1 peer2 rest cnt nd =
     (case c_string (NAME_LISTS ! cnt) of
        None \<Rightarrow> Inl UB
      | Some key \<Rightarrow>
          bindR (head_node_write_log True peer1 peer2 rest nd key key) (\<lambda>(ok, nd', ops).
            Inr (if ok then cnt + 1 else cnt, nd', ops)))"

text \<open>The threads together. The bytes of the header that the code leaves unset are arbitrary.\<close>

inductive writer_step :: "byte list list \<Rightarrow> nat \<times> Chain \<Rightarrow> nat \<times> Chain \<Rightarrow> bool" for names where
  turn: "cnt < REPEAT \<Longrightarrow> length rest = 24 \<Longrightarrow> c_string (names ! cnt) = Some key \<Longrightarrow>
    writer_turn names (tail_ring c) (tail_ring c) rest cnt (chead c) = Inr (cnt', hn, ops) \<Longrightarrow>
    run_rops ops (tail_ring c) = Inr lb \<Longrightarrow>
      writer_step names (cnt, c) (cnt', c\<lparr>chead := hn, ctail := set_ring lb (ctail c),
        written := written c @ (if cnt' = cnt then [] else [(key, key)]),
        frames_out := frames_out c @ (if cnt' = cnt then [] else [log_bytes rest key key])\<rparr>)"
| peer: "peer_step c c' \<Longrightarrow> writer_step names (cnt, c) (cnt, c')"

inductive writer_reachable :: "byte list list \<Rightarrow> nat \<times> Chain \<Rightarrow> bool" for names where
  start: "fill_names [0..<REPEAT] = Inr names \<Longrightarrow> buff_init HEAD sid True lb = Inr hn \<Longrightarrow> buff_init TAIL sid' ok new_ring = Inr t \<Longrightarrow>
      writer_reachable names (0, \<lparr>chead = hn, ctail = t, written = [], served = [], frames_out = []\<rparr>)"
| step: "writer_reachable names s \<Longrightarrow> writer_step names s s' \<Longrightarrow> writer_reachable names s'"

section \<open>The strings\<close>

text \<open>The string with number \<open>cnt\<close> starts with the letter of that number.\<close>

definition sample :: "nat \<Rightarrow> byte list" where
  "sample cnt = (0x61 + word_of_nat cnt) # tl name"

lemma length_sample [simp]: "length (sample i) = 7"
  by (simp add: sample_def name_def)

lemma letter_range:
  assumes "i < REPEAT"
  shows "(0x61 + word_of_nat i :: byte) \<noteq> 0" "(0x61 + word_of_nat i :: byte) \<noteq> 1"
proof -
  have "i \<in> set [0..<20]" using assms by (simp add: REPEAT_def)
  then have "(0x61 + word_of_nat i :: byte) \<noteq> 0 \<and> (0x61 + word_of_nat i :: byte) \<noteq> 1"
    by (simp add: upt_rec numeral_eq_Suc del: set_upt) auto
  then show "(0x61 + word_of_nat i :: byte) \<noteq> 0" "(0x61 + word_of_nat i :: byte) \<noteq> 1" by auto
qed

lemma sample_bytes: "i < REPEAT \<Longrightarrow> 0 \<notin> set (sample i) \<and> 1 \<notin> set (sample i)"
  using letter_range [of i] by (auto simp: sample_def name_def)

lemma fill_name_sample:
  assumes "i < REPEAT"
  shows "\<exists>p. fill_name i = Inr p \<and> c_string p = Some (sample i) \<and> length p = SINGLE_SIZE"
proof -
  have p: "(blit 0 (name @ [0]) (replicate SINGLE_SIZE 0))[0 := 0x61 + word_of_nat i] = sample i @ 0 # replicate 1016 0"
    by (simp add: blit_def sample_def name_def SINGLE_SIZE_def)
  have z: "0 \<notin> set (sample i)" using sample_bytes [OF assms] by simp
  have "(sample i @ 0 # replicate 1016 0)[7 + TAG := 1] = sample i @ 0 # (replicate 1016 0)[0 := 1]"
    by (simp add: list_update_append TAG_def)
  then show ?thesis
    using c_string_append_zero [OF z] unfolding fill_name_def p Let_def by (simp add: SINGLE_SIZE_def TAG_def)
qed

lemma fill_names_samples:
  assumes "\<forall>i \<in> set js. i < REPEAT"
  shows "\<exists>ps. fill_names js = Inr ps \<and> map c_string ps = map (Some \<circ> sample) js"
  using assms
proof (induction js)
  case (Cons i js)
  then show ?case using fill_name_sample [of i] by auto
qed simp

section \<open>Runs of the threads\<close>

definition written_upto :: "nat \<Rightarrow> (byte list \<times> byte list) list" where
  "written_upto n = map (\<lambda>i. (sample i, sample i)) [0..<n]"

text \<open>The logs of the strings so far, with the unset bytes of each.\<close>

definition sample_logs :: "byte list list \<Rightarrow> byte list list" where
  "sample_logs rs = map (\<lambda>(r, i). log_bytes r (sample i) (sample i)) (zip rs [0..<length rs])"

definition writer_inv :: "nat \<times> Chain \<Rightarrow> bool" where
  "writer_inv s \<longleftrightarrow> (case s of (n, c) \<Rightarrow>
     n \<le> REPEAT \<and> reachable c \<and> written c = written_upto n \<and>
     (\<exists>rs. length rs = n \<and> (\<forall>r \<in> set rs. length r = 24) \<and> frames_out c = sample_logs rs))"

lemma sample_logs_snoc: "sample_logs (rs @ [r]) = sample_logs rs @ [log_bytes r (sample (length rs)) (sample (length rs))]"
  by (simp add: sample_logs_def)

lemma sample_strings: "i < REPEAT \<Longrightarrow> log_strings (sample i) (sample i)"
  using sample_bytes [of i] by (simp add: log_strings_def)

text \<open>No tag is stale.\<close>

lemma sample_log_shape:
  assumes "f \<in> set (sample_logs rs)" and "\<forall>r \<in> set rs. length r = 24" and "length rs \<le> REPEAT"
  shows "\<exists>r key value. f = log_bytes r key value \<and> length r = 24 \<and> 1 \<notin> set key \<and> 1 \<notin> set value \<and> length f = 49"
proof -
  obtain r i where z: "f = log_bytes r (sample i) (sample i)" "(r, i) \<in> set (zip rs [0..<length rs])"
    using assms(1) by (auto simp: sample_logs_def)
  have i: "f = log_bytes r (sample i) (sample i)" "r \<in> set rs" "i < length rs"
    using z set_zip_leftD [OF z(2)] set_zip_rightD [OF z(2)] by auto
  then have "length r = 24" "1 \<notin> set (sample i)" using assms(2,3) sample_bytes [of i] by auto
  moreover from this have "length f = 49" by (simp add: i(1) log_bytes_def length_header tagged_value_def)
  ultimately show ?thesis using i(1) by blast
qed

lemma sample_logs_clean:
  assumes "\<forall>r \<in> set rs. length r = 24" and "length rs \<le> REPEAT"
  shows "no_stale_tag (sample_logs rs)"
proof (rule clean_strings_no_stale_tag)
  show "\<forall>f \<in> set (sample_logs rs). \<exists>r key value. f = log_bytes r key value \<and> length r = 24 \<and> 1 \<notin> set key \<and> 1 \<notin> set value \<and> length f < 64"
  proof
    fix f assume "f \<in> set (sample_logs rs)"
    then obtain r key "value" where "f = log_bytes r key value" "length r = 24" "1 \<notin> set key" "1 \<notin> set value" "length f = 49"
      using sample_log_shape assms by blast
    then show "\<exists>r key value. f = log_bytes r key value \<and> length r = 24 \<and> 1 \<notin> set key \<and> 1 \<notin> set value \<and> length f < 64" by auto
  qed
  have "length f = 49" if "f \<in> set (sample_logs rs)" for f using sample_log_shape [OF that assms] by blast
  then show "\<forall>i. Suc i < length (sample_logs rs) \<longrightarrow> 97 \<le> length (sample_logs rs ! i) + length (sample_logs rs ! Suc i)"
    by simp
qed

lemma writer_clean: "writer_inv (n, c) \<Longrightarrow> no_stale_tag (frames_out c)"
  using sample_logs_clean by (auto simp: writer_inv_def)

lemma writer_chain: "writer_inv (n, c) \<Longrightarrow> chain_inv c"
  using reachable_inv writer_clean by (auto simp: writer_inv_def)

lemma writer_peer:
  assumes inv: "writer_inv (n, c)" and st: "peer_step c c'"
  shows "writer_inv (n, c')"
proof -
  have "written c' = written c" using st by (induction rule: peer_step.induct) auto
  moreover have "reachable c'" using inv peer_step_chain [OF st] by (auto simp: writer_inv_def intro: reachable.step)
  ultimately show ?thesis using inv peer_frames_out [OF st] by (simp add: writer_inv_def)
qed

lemma writer_turn_step:
  assumes inv: "writer_inv (n, c)" and n: "n < REPEAT" and rest: "length rest = 24"
    and names: "c_string (names ! n) = Some (sample n)"
    and call: "writer_turn names (tail_ring c) (tail_ring c) rest n (chead c) = Inr (n', hn, ops)"
    and run: "run_rops ops (tail_ring c) = Inr lb"
  shows "writer_inv (n', c\<lparr>chead := hn, ctail := set_ring lb (ctail c),
    written := written c @ (if n' = n then [] else [(sample n, sample n)]),
    frames_out := frames_out c @ (if n' = n then [] else [log_bytes rest (sample n) (sample n)])\<rparr>)"
proof -
  obtain ok where h: "head_node_write_log True (tail_ring c) (tail_ring c) rest (chead c) (sample n) (sample n) = Inr (ok, hn, ops)"
      "n' = (if ok then n + 1 else n)"
    using call names by (auto simp: writer_turn_def bindR_def split: sum.splits)
  obtain rs where rs: "length rs = n" "\<forall>r \<in> set rs. length r = 24" "frames_out c = sample_logs rs"
    and r: "reachable c" and w: "written c = written_upto n" using inv by (auto simp: writer_inv_def)
  show ?thesis
  proof (cases ok)
    case True
    let ?c = "c\<lparr>chead := hn, ctail := set_ring lb (ctail c), written := written c @ [(sample n, sample n)],
      frames_out := frames_out c @ [log_bytes rest (sample n) (sample n)]\<rparr>"
    have "chain_step c ?c" using h True by (intro chain_step.write_log [OF _ run rest sample_strings [OF n]]) simp
    then have "reachable ?c" by (rule reachable.step [OF r])
    moreover have "\<exists>rs'. length rs' = n + 1 \<and> (\<forall>r \<in> set rs'. length r = 24) \<and> frames_out ?c = sample_logs rs'"
      by (rule exI [of _ "rs @ [rest]"]) (use rs rest in \<open>auto simp: sample_logs_snoc\<close>)
    ultimately show ?thesis using h(2) True n w by (simp add: writer_inv_def written_upto_def)
  next
    case False
    let ?c = "c\<lparr>chead := hn, ctail := set_ring lb (ctail c)\<rparr>"
    have "chain_step c ?c"
      using h False by (intro chain_step.write_full [OF _ run rest sample_strings [OF n]]) simp
    then have "reachable ?c" by (rule reachable.step [OF r])
    then have kept: "writer_inv (n, ?c)" using inv by (simp add: writer_inv_def)
    have n': "n' = n" using h(2) False by simp
    have "c\<lparr>chead := hn, ctail := set_ring lb (ctail c), written := written c @ (if n' = n then [] else [(sample n, sample n)]),
        frames_out := frames_out c @ (if n' = n then [] else [log_bytes rest (sample n) (sample n)])\<rparr> = ?c"
      by (cases c) (simp add: n')
    then show ?thesis using kept by (simp only: n')
  qed
qed

lemma names_of:
  assumes "writer_reachable names s" and "i < REPEAT"
  shows "c_string (names ! i) = Some (sample i)"
  using assms
proof (induction rule: writer_reachable.induct)
  case (start sid lb hn sid' ok t)
  obtain ps where ps: "fill_names [0..<REPEAT] = Inr ps" "map c_string ps = map (Some \<circ> sample) [0..<REPEAT]"
    using fill_names_samples [of "[0..<REPEAT]"] by auto
  then have "length ps = REPEAT" by (metis length_map length_upt minus_nat.diff_0)
  then show ?case using ps start by (metis (no_types, lifting) Inr_inject add_0 comp_apply length_upt minus_nat.diff_0 nth_map nth_upt)
qed

lemma writer_reachable_inv:
  assumes "writer_reachable names s"
  shows "writer_inv s"
  using assms
proof (induction rule: writer_reachable.induct)
  case (start sid lb hn sid' ok t)
  have "reachable \<lparr>chead = hn, ctail = t, written = [], served = [], frames_out = []\<rparr>" using start(2,3) by (rule reachable.start)
  then show ?case by (simp add: writer_inv_def written_upto_def sample_logs_def)
next
  case (step s s')
  from step(2) show ?case
  proof cases
    case (turn n rest key c n' hn ops lb)
    have key: "key = sample n" using names_of [OF step(1) turn(3)] turn(5) by simp
    show ?thesis unfolding turn(2) key
      by (rule writer_turn_step) (use turn step(3) key in auto)
  next
    case (peer c c' n)
    then show ?thesis using writer_peer [of n c c'] step(3) by simp
  qed
qed

section \<open>The writer gets through\<close>

lemma peer_steps: "peer_step\<^sup>*\<^sup>* c c' \<Longrightarrow> (writer_step names)\<^sup>*\<^sup>* (n, c) (n, c')"
  by (induction rule: rtranclp_induct) (auto intro: rtranclp.rtrancl_into_rtrancl writer_step.peer)

lemma writer_steps: "(writer_step names)\<^sup>*\<^sup>* s s' \<Longrightarrow> writer_reachable names s \<Longrightarrow> writer_reachable names s'"
  by (induction rule: rtranclp_induct) (auto intro: writer_reachable.step)

lemma writer_drain:
  assumes "writer_inv (n, c)"
  shows "\<exists>c'. (writer_step names)\<^sup>*\<^sup>* (n, c) (n, c') \<and> written c' = written c \<and> served c' = map (Some \<circ> snd) (written c)"
  using drain_peers [OF writer_chain [OF assms]] peer_steps by blast

lemma writer_progress:
  assumes w: "writer_reachable names (n, c)" and n: "n < REPEAT"
  shows "\<exists>c'. (writer_step names)\<^sup>*\<^sup>* (n, c) (n + 1, c')"
proof -
  obtain c1 where c1: "(writer_step names)\<^sup>*\<^sup>* (n, c) (n, c1)" "served c1 = map (Some \<circ> snd) (written c1)"
    using writer_drain [OF writer_reachable_inv [OF w]] by metis
  have inv: "writer_inv (n, c1)" by (rule writer_reachable_inv [OF writer_steps [OF c1(1) w]])
  obtain ge gp gr gd gq W where f: "frames_inv (chead c1) (ctail c1) ge gp gr gd gq"
      "written c1 = W @ map kv (ge @ gp @ gr)" "served c1 = map (Some \<circ> snd) W"
    using writer_chain [OF inv] by (auto simp: chain_inv_def)
  have "length (served c1) = length (written c1)" using c1(2) by simp
  then have none: "gd @ gq = []" using f by (simp add: frames_inv_def)
  have rg: "ring_inv (tail_ring c1) (gd @ gq)" by (rule frames_ring [OF f(1)])
  have "rb_data_size (tail_ring c1) = int (foff (gd @ gq))" using count_at(2) [of _ "gd @ gq" "[]"] rg by (simp add: ring_inv_def)
  then have free: "rb_free_size (tail_ring c1) = 63" using none f(1) by (simp add: rb_free_size_def frames_inv_def TOTAL_SIZE_def)
  define rest where "rest = replicate 24 (0 :: byte)"
  have rest: "length rest = 24" by (simp add: rest_def)
  obtain hn ops lb where h: "head_node_write_log True (tail_ring c1) (tail_ring c1) rest (chead c1) (sample n) (sample n) = Inr (True, hn, ops)"
      "run_rops ops (tail_ring c1) = Inr lb"
    using frames_write_returns [OF f(1) rest, of "sample n" "sample n"] free by auto
  have nm: "c_string (names ! n) = Some (sample n)" by (rule names_of [OF w n])
  then have "writer_turn names (tail_ring c1) (tail_ring c1) rest n (chead c1) = Inr (n + 1, hn, ops)"
    using h(1) by (simp add: writer_turn_def)
  from writer_step.turn [OF n rest nm this h(2)] show ?thesis using c1(1) by (meson rtranclp.rtrancl_into_rtrancl)
qed

lemma writer_finishes:
  assumes "writer_reachable names (n, c)"
  shows "\<exists>c'. (writer_step names)\<^sup>*\<^sup>* (n, c) (REPEAT, c')"
  using assms
proof (induction "REPEAT - n" arbitrary: n c)
  case 0
  then have "n = REPEAT" using writer_reachable_inv [OF 0(2)] by (simp add: writer_inv_def)
  then show ?case by blast
next
  case (Suc k)
  then have "n < REPEAT" by simp
  then obtain c1 where c1: "(writer_step names)\<^sup>*\<^sup>* (n, c) (n + 1, c1)" using writer_progress [OF Suc.prems] by blast
  have "k = REPEAT - (n + 1)" using Suc(2) by simp
  from Suc(1) [OF this writer_steps [OF c1 Suc.prems]] show ?case using c1 by (meson rtranclp_trans)
qed

section \<open>Properties\<close>

text \<open>C4: In every interleaving of \<open>writer_thread\<close>, \<open>NIC_thread\<close> and the reader of the tail, the strings
  accepted so far are the first \<open>cnt\<close> prepared ones, in order and without repetition, and the
  values handed to the upper layer of the tail are the first of these, unchanged, whatever the
  unset bytes of the headers hold: no byte of an earlier log is ever taken for a tag. No call that can
  come next faults: the writer's turn returns and what it sends can be written, and so for \<open>NIC_thread\<close>; \<open>read_log_key\<close>
  returns; \<open>read_log_value\<close> returns or waits for a tag; a turn of \<open>reader_thread\<close> on a log that is ready gives its value.\<close>

theorem writer_run_delivers:
  assumes "writer_reachable names (cnt, c)"
  shows "cnt \<le> REPEAT \<and> written c = map (\<lambda>i. (sample i, sample i)) [0..<cnt] \<and>
    (\<exists>k \<le> cnt. served c = map (Some \<circ> sample) [0..<k]) \<and> calls_return c \<and>
    (\<forall>rest. cnt < REPEAT \<and> length rest = 24 \<longrightarrow>
       (\<exists>cnt' hn ops lb. writer_turn names (tail_ring c) (tail_ring c) rest cnt (chead c) = Inr (cnt', hn, ops) \<and>
          run_rops ops (tail_ring c) = Inr lb))"
proof -
  have inv: "writer_inv (cnt, c)" by (rule writer_reachable_inv [OF assms])
  obtain ge gp gr gd gq W where f: "frames_inv (chead c) (ctail c) ge gp gr gd gq"
    and W: "written c = W @ map kv (ge @ gp @ gr)" "served c = map (Some \<circ> snd) W"
    using writer_chain [OF inv] unfolding chain_inv_def by blast
  have w: "written c = map (\<lambda>i. (sample i, sample i)) [0..<cnt]" using inv by (simp add: writer_inv_def written_upto_def)
  have le: "length W \<le> cnt" using arg_cong [OF w, of length] W(1) by simp
  have "W = take (length W) (written c)" using W(1) by simp
  then have "W = map (\<lambda>i. (sample i, sample i)) [0..<length W]" using w le by (simp add: take_map take_upt)
  then have "served c = map (Some \<circ> sample) [0..<length W]" using W(2) by (metis (no_types, lifting) comp_apply map_eq_conv map_map snd_conv)
  moreover have "\<exists>cnt' hn ops lb. writer_turn names (tail_ring c) (tail_ring c) rest cnt (chead c) = Inr (cnt', hn, ops) \<and>
      run_rops ops (tail_ring c) = Inr lb" if "cnt < REPEAT" "length rest = 24" for rest
    using frames_write_returns [OF f that(2), of "sample cnt" "sample cnt"] names_of [OF assms that(1)]
    by (auto simp: writer_turn_def)
  ultimately show ?thesis using inv w le frames_calls_return [OF f] by (auto simp: writer_inv_def)
qed

lemma writer_start:
  obtains names c where "writer_reachable names (0, c)" "written c = []" "served c = []"
proof -
  obtain names where "fill_names [0..<REPEAT] = Inr names" using fill_names_samples [of "[0..<REPEAT]"] by auto
  moreover obtain hn where "buff_init HEAD 0 True new_ring = Inr hn" by (auto simp: buff_init_def Let_def)
  moreover obtain t where "buff_init TAIL 1 True new_ring = Inr t" by (auto simp: buff_init_def Let_def)
  ultimately have "writer_reachable names (0, \<lparr>chead = hn, ctail = t, written = [], served = [], frames_out = []\<rparr>)" by (rule writer_reachable.start)
  then show ?thesis by (rule that) simp_all
qed

theorem writer_run_delivers_witness:
  "\<exists>names c. writer_reachable names (1, c) \<and> written c = [(sample 0, sample 0)] \<and> (\<exists>k \<le> 1. served c = map (Some \<circ> sample) [0..<k])"
proof -
  obtain names c0 where c0: "writer_reachable names (0, c0)" by (rule writer_start)
  then obtain c where "(writer_step names)\<^sup>*\<^sup>* (0, c0) (1, c)" using writer_progress [OF c0] by (auto simp: REPEAT_def)
  then have "writer_reachable names (1, c)" using c0 by (rule writer_steps)
  then show ?thesis using writer_run_delivers [of names 1 c] by auto
qed

text \<open>C5: The threads are never stuck: from every state they can reach, they can go on to the state in which
  \<open>writer_thread\<close> has written all its strings and the tail has served every one of them, whatever the unset bytes of
  the headers written so far hold.\<close>

theorem writer_completes:
  assumes "writer_reachable names (cnt, c)"
  shows "\<exists>c'. (writer_step names)\<^sup>*\<^sup>* (cnt, c) (REPEAT, c') \<and> served c' = map (Some \<circ> sample) [0..<REPEAT]"
proof -
  obtain c1 where c1: "(writer_step names)\<^sup>*\<^sup>* (cnt, c) (REPEAT, c1)" using writer_finishes [OF assms] by blast
  have inv: "writer_inv (REPEAT, c1)" by (rule writer_reachable_inv [OF writer_steps [OF c1 assms]])
  obtain c' where c': "(writer_step names)\<^sup>*\<^sup>* (REPEAT, c1) (REPEAT, c')" "served c' = map (Some \<circ> snd) (written c1)"
    using writer_drain [OF inv] by blast
  moreover have "map (Some \<circ> snd) (written c1) = map (Some \<circ> sample) [0..<REPEAT]"
    using inv by (simp add: writer_inv_def written_upto_def)
  ultimately show ?thesis using c1 by (metis rtranclp_trans)
qed

theorem writer_completes_witness:
  "\<exists>names c c'. writer_reachable names (0, c) \<and> served c = [] \<and>
    (writer_step names)\<^sup>*\<^sup>* (0, c) (REPEAT, c') \<and> served c' = map (Some \<circ> sample) [0..<20]"
proof -
  obtain names c where c: "writer_reachable names (0, c)" "served c = []" by (rule writer_start)
  from writer_completes [OF c(1)] c show ?thesis by (auto simp: REPEAT_def)
qed

end
