(* ===== verification/LogExamples.thy ===== *)
theory LogExamples
  imports LogChain
begin

text \<open>
  The rest of \<open>src/log_buffer.c\<close>: \<open>get_node_class\<close>, and the functions that show an upper layer how to
  use the log, \<open>head_node_example\<close> and \<open>mid_node_example\<close>. The latter is one turn of \<open>reader_thread\<close>.
\<close>

text \<open>\<open>node_class\<close> is \<open>-1\<close>, here \<open>None\<close>, until \<open>buff_init\<close> has set it.\<close>

definition get_node_class :: "nodeClass option \<Rightarrow> nodeClass res" where
  "get_node_class nc = (case nc of None \<Rightarrow> Inl Exit | Some c \<Rightarrow> Inr c)"

text \<open>One round of the endless loop of \<open>head_node_example\<close>: \<open>"Key"\<close> and \<open>"Value"\<close>, whether written or not.\<close>

definition head_example_round ::
    "bool \<Rightarrow> LocalRingbuff \<Rightarrow> LocalRingbuff \<Rightarrow> byte list \<Rightarrow> Node \<Rightarrow> (Node \<times> rop list) res" where
  "head_example_round connected peer1 peer2 rest nd =
     bindR (head_node_write_log connected peer1 peer2 rest nd [0x4b, 0x65, 0x79] [0x56, 0x61, 0x6c, 0x75, 0x65])
       (\<lambda>(ok, nd', ops). Inr (nd', ops))"

fun mid_example_loop :: "nat \<Rightarrow> Node \<Rightarrow> Node res" where
  "mid_example_loop 0 nd = Inr nd"
| "mid_example_loop (Suc n) nd =
     bindR (top_log nd) (\<lambda>value_addr. bindR (send_log nd) (\<lambda>nd1. bindR (clean_log nd1) (mid_example_loop n)))"

definition mid_node_example :: "Node \<Rightarrow> Node res" where
  "mid_node_example nd =
     bindR (read_log_key 1024 nd) (\<lambda>(k, nd1).
       bindR (read_log_value 1 nd1) (\<lambda>(can_parse_log_nums, nd2). mid_example_loop can_parse_log_nums nd2))"

lemma mid_example_loop_serves:
  "mid_example_loop n nd = bindR (serve_logs n nd) (\<lambda>(vs, nd'). Inr nd')"
  by (induction n arbitrary: nd) (auto simp: serve_log_def bindR_def Let_def split: sum.splits)

lemma mid_node_example_turn:
  "mid_node_example nd = bindR (reader_turn nd) (\<lambda>(vs, nd'). Inr nd')"
proof -
  have "mid_example_loop n nd' = bindR (if n < 1 then Inr ([], nd') else serve_logs n nd') (\<lambda>(vs, nd'). Inr nd')" for n nd'
    by (cases n) (simp_all add: mid_example_loop_serves)
  then show ?thesis
    by (auto simp: mid_node_example_def reader_turn_def bindR_def split: sum.splits prod.splits)
qed

end
