(* ===== verification/Wire.thy ===== *)
theory Wire
  imports Prelude
begin

text \<open>
  What travels between two nodes as control messages: the structs of \<open>include/dhmp.h\<close> laid
  out in memory (x86-64, natural alignment), the enumeration of message types and the frame
  type, size, data that \<open>dhmp_send_task_create\<close> writes and \<open>dhmp_wc_success_handler\<close> reads
  back. Pointers are 64-bit words. Padding has no defined contents in C; it is 0 here and
  nothing reads it.
\<close>

section \<open>Layout\<close>

text \<open>A struct is a list of fields, width in bytes and value.\<close>

definition pack :: "(nat \<times> int) list \<Rightarrow> byte list" where
  "pack fs = concat (map (\<lambda>(w, v). le_bytes w v) fs)"

fun unpack :: "nat list \<Rightarrow> byte list \<Rightarrow> int list" where
  "unpack [] bs = []"
| "unpack (w # ws) bs = le_val (take w bs) # unpack ws (drop w bs)"

text \<open>A pointer or \<open>size_t\<close>, and a \<open>uint32_t\<close>, read from a field.\<close>

abbreviation w64 :: "int \<Rightarrow> u64" where "w64 \<equiv> word_of_int"
abbreviation w32 :: "int \<Rightarrow> u32" where "w32 \<equiv> word_of_int"

section \<open>Structs\<close>

record ibv_mr =
  mr_context :: u64
  mr_pd :: u64
  mr_addr :: u64
  mr_length :: u64
  mr_handle :: u32
  mr_lkey :: u32
  mr_rkey :: u32

record dhmp_mc_request =
  mc_req_size :: u64
  mc_addr_info :: u64

record dhmp_mc_response =
  mc_req_info :: dhmp_mc_request
  mc_mr :: ibv_mr

record dhmp_buff_request =
  bq_node_id :: u32
  bq_work :: u64
  bq_buff_addr_info :: u64
  bq_buff_mate_addr_info :: u64

record dhmp_buff_response =
  bp_req_info :: dhmp_buff_request
  bp_mr_buff :: ibv_mr
  bp_mr_data :: ibv_mr
  bp_node_id :: u32

record dhmp_free_request =
  fr_addr_info :: u64
  fr_mr :: ibv_mr

record dhmp_send_request =
  sr_req_size :: u64
  sr_server_addr :: u64
  sr_task :: u64
  sr_local_addr :: u64
  sr_is_write :: bool

definition mr_fields :: "ibv_mr \<Rightarrow> (nat \<times> int) list" where
  "mr_fields m = [(8, uint (mr_context m)), (8, uint (mr_pd m)), (8, uint (mr_addr m)), (8, uint (mr_length m)),
     (4, uint (mr_handle m)), (4, uint (mr_lkey m)), (4, uint (mr_rkey m)), (4, 0)]"

definition mr_widths :: "nat list" where
  "mr_widths = [8, 8, 8, 8, 4, 4, 4, 4]"

definition mr_of :: "int list \<Rightarrow> ibv_mr" where
  "mr_of vs = \<lparr>mr_context = w64 (vs ! 0), mr_pd = w64 (vs ! 1), mr_addr = w64 (vs ! 2), mr_length = w64 (vs ! 3),
     mr_handle = w32 (vs ! 4), mr_lkey = w32 (vs ! 5), mr_rkey = w32 (vs ! 6)\<rparr>"

definition enc_mc_request :: "dhmp_mc_request \<Rightarrow> byte list" where
  "enc_mc_request r = pack [(8, uint (mc_req_size r)), (8, uint (mc_addr_info r))]"

definition dec_mc_request :: "byte list \<Rightarrow> dhmp_mc_request" where
  "dec_mc_request bs = (let vs = unpack [8, 8] bs in \<lparr>mc_req_size = w64 (vs ! 0), mc_addr_info = w64 (vs ! 1)\<rparr>)"

definition enc_mc_response :: "dhmp_mc_response \<Rightarrow> byte list" where
  "enc_mc_response r = enc_mc_request (mc_req_info r) @ pack (mr_fields (mc_mr r))"

definition dec_mc_response :: "byte list \<Rightarrow> dhmp_mc_response" where
  "dec_mc_response bs = \<lparr>mc_req_info = dec_mc_request bs, mc_mr = mr_of (unpack mr_widths (drop 16 bs))\<rparr>"

definition enc_buff_request :: "dhmp_buff_request \<Rightarrow> byte list" where
  "enc_buff_request r = pack [(4, uint (bq_node_id r)), (4, 0), (8, uint (bq_work r)), (8, uint (bq_buff_addr_info r)),
     (8, uint (bq_buff_mate_addr_info r))]"

definition dec_buff_request :: "byte list \<Rightarrow> dhmp_buff_request" where
  "dec_buff_request bs = (let vs = unpack [4, 4, 8, 8, 8] bs in
     \<lparr>bq_node_id = w32 (vs ! 0), bq_work = w64 (vs ! 2), bq_buff_addr_info = w64 (vs ! 3), bq_buff_mate_addr_info = w64 (vs ! 4)\<rparr>)"

definition enc_buff_response :: "dhmp_buff_response \<Rightarrow> byte list" where
  "enc_buff_response r = enc_buff_request (bp_req_info r) @ pack (mr_fields (bp_mr_buff r)) @
     pack (mr_fields (bp_mr_data r)) @ pack [(4, uint (bp_node_id r)), (4, 0)]"

definition dec_buff_response :: "byte list \<Rightarrow> dhmp_buff_response" where
  "dec_buff_response bs = \<lparr>bp_req_info = dec_buff_request bs, bp_mr_buff = mr_of (unpack mr_widths (drop 32 bs)),
     bp_mr_data = mr_of (unpack mr_widths (drop 80 bs)), bp_node_id = w32 (unpack [4] (drop 128 bs) ! 0)\<rparr>"

definition enc_free_request :: "dhmp_free_request \<Rightarrow> byte list" where
  "enc_free_request r = pack [(8, uint (fr_addr_info r))] @ pack (mr_fields (fr_mr r))"

definition dec_free_request :: "byte list \<Rightarrow> dhmp_free_request" where
  "dec_free_request bs = \<lparr>fr_addr_info = w64 (unpack [8] bs ! 0), fr_mr = mr_of (unpack mr_widths (drop 8 bs))\<rparr>"

text \<open>\<open>bool\<close> is \<open>char\<close>. \<open>struct dhmp_send_response\<close> consists of the request.\<close>

definition enc_send_request :: "dhmp_send_request \<Rightarrow> byte list" where
  "enc_send_request r = pack [(8, uint (sr_req_size r)), (8, uint (sr_server_addr r)), (8, uint (sr_task r)),
     (8, uint (sr_local_addr r)), (1, if sr_is_write r then 1 else 0), (7, 0)]"

definition dec_send_request :: "byte list \<Rightarrow> dhmp_send_request" where
  "dec_send_request bs = (let vs = unpack [8, 8, 8, 8, 1, 7] bs in
     \<lparr>sr_req_size = w64 (vs ! 0), sr_server_addr = w64 (vs ! 1), sr_task = w64 (vs ! 2), sr_local_addr = w64 (vs ! 3),
      sr_is_write = (vs ! 4 \<noteq> 0)\<rparr>)"

section \<open>Messages\<close>

datatype dhmp_msg_type =
    DHMP_MSG_MALLOC_REQUEST | DHMP_MSG_MALLOC_RESPONSE | DHMP_MSG_MALLOC_ERROR
  | DHMP_MSG_FREE_REQUEST | DHMP_MSG_FREE_RESPONSE
  | DHMP_MSG_APPLY_DRAM_REQUEST | DHMP_MSG_APPLY_DRAM_RESPONSE
  | DHMP_MSG_CLEAR_DRAM_REQUEST | DHMP_MSG_CLEAR_DRAM_RESPONSE | DHMP_MSG_MEM_CHANGE
  | DHMP_MSG_SERVER_INFO_REQUEST | DHMP_MSG_SERVER_INFO_RESPONSE | DHMP_MSG_CLOSE_CONNECTION
  | DHMP_MSG_SEND_REQUEST | DHMP_MSG_SEND_RESPONSE
  | DHMP_BUFF_MALLOC_REQUEST | DHMP_BUFF_MALLOC_RESPONSE | DHMP_BUFF_MALLOC_ERROR

definition msg_types :: "dhmp_msg_type list" where
  "msg_types = [DHMP_MSG_MALLOC_REQUEST, DHMP_MSG_MALLOC_RESPONSE, DHMP_MSG_MALLOC_ERROR,
     DHMP_MSG_FREE_REQUEST, DHMP_MSG_FREE_RESPONSE,
     DHMP_MSG_APPLY_DRAM_REQUEST, DHMP_MSG_APPLY_DRAM_RESPONSE,
     DHMP_MSG_CLEAR_DRAM_REQUEST, DHMP_MSG_CLEAR_DRAM_RESPONSE, DHMP_MSG_MEM_CHANGE,
     DHMP_MSG_SERVER_INFO_REQUEST, DHMP_MSG_SERVER_INFO_RESPONSE, DHMP_MSG_CLOSE_CONNECTION,
     DHMP_MSG_SEND_REQUEST, DHMP_MSG_SEND_RESPONSE,
     DHMP_BUFF_MALLOC_REQUEST, DHMP_BUFF_MALLOC_RESPONSE, DHMP_BUFF_MALLOC_ERROR]"

text \<open>The value of an enumerator, and the enumerator a received value stands for.\<close>

fun index_of :: "'a \<Rightarrow> 'a list \<Rightarrow> nat" where
  "index_of x [] = 0"
| "index_of x (y # ys) = (if x = y then 0 else Suc (index_of x ys))"

definition msg_code :: "dhmp_msg_type \<Rightarrow> int" where
  "msg_code t = int (index_of t msg_types)"

definition msg_type_of :: "int \<Rightarrow> dhmp_msg_type option" where
  "msg_type_of c = (if 0 \<le> c \<and> c < int (length msg_types) then Some (msg_types ! nat c) else None)"

record dhmp_msg =
  msg_type :: int
  data_size :: u64
  data :: "byte list"

text \<open>The frame in the send region, and the message found at the start of a receive buffer.
  \<open>data\<close> of a received message is a pointer: the bytes from there to the end of the buffer.\<close>

definition msg_frame :: "dhmp_msg \<Rightarrow> byte list" where
  "msg_frame m = le_bytes 4 (msg_type m) @ le_bytes 8 (uint (data_size m)) @ take (unat (data_size m)) (data m)"

definition msg_parse :: "byte list \<Rightarrow> dhmp_msg" where
  "msg_parse bs = \<lparr>msg_type = le_val (take 4 bs), data_size = w64 (le_val (take 8 (drop 4 bs))), data = drop 12 bs\<rparr>"

section \<open>Round trips\<close>

lemma pack_Nil [simp]: "pack [] = []"
  by (simp add: pack_def)

lemma pack_Cons [simp]: "pack ((w, v) # fs) = le_bytes w v @ pack fs"
  by (simp add: pack_def)

lemma length_pack: "length (pack fs) = sum_list (map fst fs)"
  by (induction fs) (auto simp: pack_def)

lemma unpack_pack:
  "unpack (map fst fs) (pack fs @ rest) = map (\<lambda>(w, v). v mod 256 ^ w) fs"
  by (induction fs) (auto simp: le_val_le_bytes)

lemma uint_mod64 [simp]: "uint (x::u64) mod 18446744073709551616 = uint x"
  by (rule mod_pos_pos_trivial) (use uint_bounded [of x] in simp_all)

lemma uint_mod32 [simp]: "uint (x::u32) mod 4294967296 = uint x"
  by (rule mod_pos_pos_trivial) (use uint_bounded [of x] in simp_all)

text \<open>A struct that is read back with the offsets it was written with.\<close>

locale wire_struct =
  fixes enc :: "'s \<Rightarrow> byte list" and dec :: "byte list \<Rightarrow> 's" and bytes :: nat
  assumes length_enc: "length (enc x) = bytes"
    and dec_enc: "dec (enc x @ rest) = x"
begin

text \<open>It survives a trip as the data of a message, possibly followed by more bytes and by
  what was in the receive buffer before.\<close>

lemma enc_inject: "enc x = enc y \<longleftrightarrow> x = y"
  by (metis dec_enc)

lemma through_frame:
  assumes "data_size m = of_nat (bytes + length tail)" and "data m = enc x @ tail" and "bytes + length tail < 2 ^ 64"
    and "0 \<le> msg_type m" and "msg_type m < 2 ^ 32"
  shows "msg_type (msg_parse (msg_frame m @ junk)) = msg_type m \<and>
    data_size (msg_parse (msg_frame m @ junk)) = data_size m \<and>
    dec (data (msg_parse (msg_frame m @ junk))) = x \<and>
    take (length tail) (drop bytes (data (msg_parse (msg_frame m @ junk)))) = tail"
proof -
  have "unat (data_size m) = bytes + length tail"
    unfolding assms(1) unat_of_nat using assms(3) by (simp add: take_bit_nat_eq_self)
  then have d: "take (unat (data_size m)) (data m) = enc x @ tail" using assms(2) length_enc [of x] by simp
  have "msg_parse (msg_frame m @ junk) = \<lparr>msg_type = msg_type m, data_size = data_size m, data = enc x @ tail @ junk\<rparr>"
    unfolding msg_parse_def msg_frame_def d using assms(4,5) by (simp add: le_val_le_bytes)
  then show ?thesis using dec_enc [of x] length_enc [of x] by simp
qed

end

interpretation mc_request: wire_struct enc_mc_request dec_mc_request 16
  by unfold_locales (simp_all add: enc_mc_request_def dec_mc_request_def le_val_le_bytes)

lemma length_mr_fields [simp]: "length (pack (mr_fields m)) = 48"
  by (simp add: mr_fields_def)

lemma mr_round_trip [simp]: "mr_of (unpack mr_widths (pack (mr_fields m) @ rest)) = m"
  by (simp add: mr_fields_def mr_widths_def mr_of_def le_val_le_bytes)

lemma mr_round_trip_Nil [simp]: "mr_of (unpack mr_widths (pack (mr_fields m))) = m"
  using mr_round_trip [of m "[]"] by (simp del: mr_round_trip)

interpretation mc_response: wire_struct enc_mc_response dec_mc_response 64
  using mc_request.length_enc mc_request.dec_enc
  by unfold_locales (simp_all add: enc_mc_response_def dec_mc_response_def)

interpretation buff_request: wire_struct enc_buff_request dec_buff_request 32
  by unfold_locales (simp_all add: enc_buff_request_def dec_buff_request_def le_val_le_bytes)

interpretation buff_response: wire_struct enc_buff_response dec_buff_response 136
  using buff_request.length_enc buff_request.dec_enc
  by unfold_locales (simp_all add: enc_buff_response_def dec_buff_response_def le_val_le_bytes)

interpretation free_request: wire_struct enc_free_request dec_free_request 56
  by unfold_locales (simp_all add: enc_free_request_def dec_free_request_def le_val_le_bytes)

interpretation send_request: wire_struct enc_send_request dec_send_request 40
  by unfold_locales (simp_all add: enc_send_request_def dec_send_request_def le_val_le_bytes)

lemma msg_type_round_trip: "msg_type_of (msg_code t) = Some t"
  by (cases t) (simp_all add: msg_type_of_def msg_code_def msg_types_def)

lemma msg_code_bounds: "0 \<le> msg_code t" "msg_code t < 2 ^ 32"
  by (cases t; simp add: msg_code_def msg_types_def)+

end
