(* ===== verification/AddrTable.thy ===== *)
theory AddrTable
  imports HashCodes Wire
begin

text \<open>
  Global addresses and the client's table of remote regions, from \<open>mid_client_work.c\<close> and
  \<open>mid_rdma_top_api.c\<close>. A \<open>dhmp_addr\<close> carries the index of the node in bits 48 and up; the
  table \<open>addr_info_ht\<close> has a chain of \<open>dhmp_addr_info\<close> structs per hash value of the global
  address. A pointer to a struct is a 64-bit word and the structs are a partial store, as
  the pointers travel to the server and back. \<open>ht\<close> is the array of chains, a function of
  the bucket; every bucket used is below \<open>DHMP_CLIENT_HT_SIZE\<close>.
\<close>

section \<open>Addresses\<close>

definition DHMP_SERVER_NODE_NUM :: nat where
  "DHMP_SERVER_NODE_NUM = 3"

text \<open>The first slot of \<open>connect_trans\<close> that holds the transport, or the length.\<close>

definition trans_index :: "nat option list \<Rightarrow> nat \<Rightarrow> nat" where
  "trans_index connect_trans t = length (takeWhile (\<lambda>s. s \<noteq> Some t) (take DHMP_SERVER_NODE_NUM connect_trans))"

definition dhmp_transfer_dhmp_addr :: "nat option list \<Rightarrow> nat \<Rightarrow> u64 \<Rightarrow> u64" where
  "dhmp_transfer_dhmp_addr connect_trans t normal_addr =
     (let node_index = trans_index connect_trans t
      in if node_index = 0 then normal_addr
         else normal_addr + push_bit 48 (word_of_nat node_index))"

text \<open>\<open>>>\<close> on a \<open>long long\<close> is an arithmetic shift.\<close>

definition dhmp_get_node_index_from_addr :: "u64 \<Rightarrow> int" where
  "dhmp_get_node_index_from_addr dhmp_addr = signed_take_bit 31 (drop_bit 48 (sint dhmp_addr))"

definition dhmp_transfer_normal_addr :: "u64 \<Rightarrow> u64" where
  "dhmp_transfer_normal_addr dhmp_addr =
     (let node_index = word_of_int (drop_bit 48 (sint dhmp_addr)) :: u64
      in dhmp_addr - push_bit 48 node_index)"

text \<open>\<open>connect_trans[node_index]\<close>; an index outside the array is undefined.\<close>

definition dhmp_get_trans_from_addr :: "nat option list \<Rightarrow> u64 \<Rightarrow> nat option res" where
  "dhmp_get_trans_from_addr connect_trans dhmp_addr =
     (let node_index = drop_bit 48 (sint dhmp_addr)
      in guardR (0 \<le> node_index \<and> node_index < int (length connect_trans)) UB
           (Inr (connect_trans ! nat node_index)))"

section \<open>The table\<close>

record dhmp_addr_info =
  read_cnt :: int
  write_cnt :: int
  node_index :: int
  write_flag :: bool
  dram_mr :: ibv_mr
  nvm_mr :: ibv_mr

type_synonym infos = "u64 \<Rightarrow> dhmp_addr_info option"
type_synonym addr_ht = "nat \<Rightarrow> u64 list"

definition null_mr :: ibv_mr where
  "null_mr = \<lparr>mr_context = 0, mr_pd = 0, mr_addr = 0, mr_length = 0, mr_handle = 0, mr_lkey = 0, mr_rkey = 0\<rparr>"

text \<open>Of the struct \<open>dhmp_malloc\<close> allocates only the length and \<open>dram_mr.addr\<close> are set; the rest is 0 here.\<close>

definition fresh_info :: dhmp_addr_info where
  "fresh_info = \<lparr>read_cnt = 0, write_cnt = 0, node_index = 0, write_flag = False, dram_mr = null_mr, nvm_mr = null_mr\<rparr>"

definition dhmp_addr_info_insert_ht :: "u64 \<Rightarrow> u64 \<Rightarrow> infos \<Rightarrow> addr_ht \<Rightarrow> (infos \<times> addr_ht) res" where
  "dhmp_addr_info_insert_ht dhmp_addr ai ifs ht =
     (case ifs ai of
        None \<Rightarrow> Inl UB
      | Some i \<Rightarrow>
          let index = dhmp_hash_in_client dhmp_addr
          in Inr (ifs(ai \<mapsto> i\<lparr>dram_mr := (dram_mr i)\<lparr>mr_addr := 0\<rparr>\<rparr>), ht(index := ai # ht index)))"

text \<open>\<open>hlist_for_each_entry\<close> up to the first struct with the address: \<open>None\<close> is \<open>NULL\<close>, a
  struct that is no longer allocated is undefined.\<close>

fun find_info :: "infos \<Rightarrow> u64 \<Rightarrow> u64 list \<Rightarrow> u64 option res" where
  "find_info ifs normal_addr [] = Inr None"
| "find_info ifs normal_addr (ai # rest) =
     (case ifs ai of
        None \<Rightarrow> Inl UB
      | Some i \<Rightarrow> if mr_addr (nvm_mr i) = normal_addr then Inr (Some ai) else find_info ifs normal_addr rest)"

definition dhmp_get_addr_info_from_ht :: "infos \<Rightarrow> addr_ht \<Rightarrow> nat \<Rightarrow> u64 \<Rightarrow> u64 option res" where
  "dhmp_get_addr_info_from_ht ifs ht index dhmp_addr =
     (if ht index = [] then Inr None
      else find_info ifs (dhmp_transfer_normal_addr dhmp_addr) (ht index))"

text \<open>\<open>hlist_del\<close>.\<close>

definition ht_del :: "nat \<Rightarrow> u64 \<Rightarrow> addr_ht \<Rightarrow> addr_ht" where
  "ht_del index ai ht = ht(index := remove1 ai (ht index))"

section \<open>Address arithmetic\<close>

lemma trans_index_nth:
  assumes "i < length ct" and "i < 3" and "ct ! i = Some t" and "\<And>j. j < i \<Longrightarrow> ct ! j \<noteq> Some t"
  shows "trans_index ct t = i"
proof -
  have "take 3 ct = take i ct @ Some t # drop (Suc i) (take 3 ct)"
    using assms(1,2,3) id_take_nth_drop [of i "take 3 ct"] by (simp add: min_def)
  moreover have "takeWhile (\<lambda>s. s \<noteq> Some t) (take i ct @ Some t # drop (Suc i) (take 3 ct)) = take i ct"
    using assms(1,4) by (subst takeWhile_append2) (auto simp: in_set_conv_nth)
  ultimately show ?thesis using assms(1) by (simp add: trans_index_def DHMP_SERVER_NODE_NUM_def)
qed

lemma word64_small:
  assumes "0 \<le> x" and "x < 2 ^ 63"
  shows "uint (word_of_int x :: u64) = x" and "sint (word_of_int x :: u64) = x"
proof -
  have "x mod 2 ^ 64 = x" using assms by (intro mod_pos_pos_trivial) auto
  then show "uint (word_of_int x :: u64) = x" by (simp add: uint_word_of_int)
  have "signed_take_bit 63 x = x" using assms by (intro signed_take_bit_int_eq_self) auto
  then show "sint (word_of_int x :: u64) = x" by (simp add: signed_of_int)
qed

text \<open>A user-space address has 48 bits. The global address of such an address is its index
  and itself side by side.\<close>

lemma dhmp_addr_parts:
  fixes a :: u64
  assumes a: "uint a < 2 ^ 48" and i: "i < 2 ^ 15" and g: "g = a + push_bit 48 (word_of_nat i)"
  shows "uint g = int i * 2 ^ 48 + uint a" and "sint g = int i * 2 ^ 48 + uint a"
    and "drop_bit 48 (sint g) = int i"
proof -
  have b: "int i * 2 ^ 48 + uint a < 2 ^ 63"
  proof -
    have "int i * 2 ^ 48 \<le> (2 ^ 15 - 1) * 2 ^ 48" using i by (intro mult_right_mono) auto
    then show ?thesis using a by simp
  qed
  have w: "g = word_of_int (int i * 2 ^ 48 + uint a)"
    unfolding g by (simp add: push_bit_eq_mult)
  show "uint g = int i * 2 ^ 48 + uint a" unfolding w using b by (intro word64_small) auto
  show s: "sint g = int i * 2 ^ 48 + uint a" unfolding w using b by (intro word64_small) auto
  show "drop_bit 48 (sint g) = int i"
    unfolding s using a by (simp add: drop_bit_eq_div)
qed

lemma normal_of_dhmp_addr:
  fixes a :: u64
  assumes "uint a < 2 ^ 48" and "i < 2 ^ 15"
  shows "dhmp_transfer_normal_addr (a + push_bit 48 (word_of_nat i)) = a"
  using dhmp_addr_parts(3) [OF assms refl] by (simp add: dhmp_transfer_normal_addr_def)

lemma transfer_as_sum:
  "dhmp_transfer_dhmp_addr ct t a = a + push_bit 48 (word_of_nat (trans_index ct t))"
  by (simp add: dhmp_transfer_dhmp_addr_def Let_def)

section \<open>Lookup\<close>

lemma find_info_append:
  assumes "list_all (\<lambda>ai. \<exists>i. ifs ai = Some i \<and> mr_addr (nvm_mr i) \<noteq> a) xs"
  shows "find_info ifs a (xs @ ys) = find_info ifs a ys"
  using assms by (induction xs) auto

lemma find_info_cong:
  assumes "\<And>ai. ai \<in> set xs \<Longrightarrow> map_option (mr_addr \<circ> nvm_mr) (ifs' ai) = map_option (mr_addr \<circ> nvm_mr) (ifs ai)"
  shows "find_info ifs' a xs = find_info ifs a xs"
  using assms
proof (induction xs)
  case (Cons x xs)
  have h: "map_option (mr_addr \<circ> nvm_mr) (ifs' x) = map_option (mr_addr \<circ> nvm_mr) (ifs x)" by (rule Cons.prems) simp
  have "find_info ifs' a xs = find_info ifs a xs" using Cons by simp
  with h show ?case by (cases "ifs x"; cases "ifs' x") auto
qed simp

lemma insert_keeps_addrs:
  assumes "dhmp_addr_info_insert_ht g ai ifs ht = Inr (ifs', ht')"
  shows "map_option (mr_addr \<circ> nvm_mr) (ifs' x) = map_option (mr_addr \<circ> nvm_mr) (ifs x)"
    and "ht' = ht(dhmp_hash_in_client g := ai # ht (dhmp_hash_in_client g))"
  using assms by (auto simp: dhmp_addr_info_insert_ht_def Let_def split: option.splits)

section \<open>Two addresses in one bucket\<close>

lemma hash_two_rounds:
  assumes "murmur_round 0 (word_of_int (take_bit 32 (uint a))) = r1"
    and "murmur_round r1 (word_of_int (drop_bit 32 (uint a))) = r2" and "fmix32 (r2 XOR 8) = h"
  shows "dhmp_hash_in_client a = unat h mod 50000"
proof -
  have "addr_bytes a = le_bytes 4 (uint a) @ le_bytes 4 (uint a div 256 div 256 div 256 div 256)"
    by (simp add: addr_bytes_def eval_nat_numeral)
  moreover have "uint a div 256 div 256 div 256 div 256 = drop_bit 32 (uint a)"
    by (simp add: drop_bit_eq_div div_mult2_eq)
  ultimately have a: "addr_bytes a = le_bytes 4 (uint a) @ le_bytes 4 (drop_bit 32 (uint a))" by simp
  have "drop_bit 32 (uint a) < 2 ^ 32"
    using uint_bounded [of a] by (simp add: drop_bit_eq_div)
  then have "drop_bit 32 (uint a) mod 2 ^ 32 = drop_bit 32 (uint a)" by (intro mod_pos_pos_trivial) auto
  then have "getblock32 (addr_bytes a) 0 = word_of_int (take_bit 32 (uint a))"
    "getblock32 (addr_bytes a) 1 = word_of_int (drop_bit 32 (uint a))"
    by (simp_all add: getblock32_def bslice_def a le_val_le_bytes take_bit_eq_mod)
  moreover have "length (addr_bytes a) = 8" by (simp add: addr_bytes_def)
  ultimately show ?thesis
    using MurmurHash3_8 [of "addr_bytes a"] assms
    by (simp add: dhmp_hash_in_client_def DHMP_CLIENT_HT_SIZE_def Let_def)
qed

lemma hash_node_1: "dhmp_hash_in_client 0x17f0002b47000 = 34788"
proof -
  have "murmur_round 0 45379584 = 169622709" "murmur_round 169622709 98048 = 1228721511"
    by (simp_all add: murmur_round_def mix_k1_def rotl32_def)
  moreover have "fmix32 1228721519 = 4114584788" by (simp add: fmix32_def Let_def)
  ultimately show ?thesis
    by (subst hash_two_rounds [of _ 169622709 1228721511 4114584788]) (simp_all add: take_bit_eq_mod drop_bit_eq_div)
qed

lemma hash_node_2: "dhmp_hash_in_client 0x27f0002b47000 = 34788"
proof -
  have "murmur_round 0 45379584 = 169622709" "murmur_round 169622709 163584 = 758901472"
    by (simp_all add: murmur_round_def mix_k1_def rotl32_def)
  moreover have "fmix32 758901480 = 687984788" by (simp add: fmix32_def Let_def)
  ultimately show ?thesis
    by (subst hash_two_rounds [of _ 169622709 758901472 687984788]) (simp_all add: take_bit_eq_mod drop_bit_eq_div)
qed

section \<open>Properties\<close>

text \<open>C33: Global addresses are decoded to what they were made from. For a transport that is
  in \<open>connect_trans\<close> and an address of 48 bits, \<open>dhmp_transfer_normal_addr\<close> gives the
  address back, \<open>dhmp_get_node_index_from_addr\<close> the index of the node and
  \<open>dhmp_get_trans_from_addr\<close> the transport.\<close>

theorem dhmp_addr_round_trip:
  fixes a :: u64
  assumes "length ct = 3" and "i < 3" and "ct ! i = Some t" and "\<forall>j < i. ct ! j \<noteq> Some t" and "uint a < 2 ^ 48"
  shows "dhmp_transfer_normal_addr (dhmp_transfer_dhmp_addr ct t a) = a \<and>
    dhmp_get_node_index_from_addr (dhmp_transfer_dhmp_addr ct t a) = int i \<and>
    dhmp_get_trans_from_addr ct (dhmp_transfer_dhmp_addr ct t a) = Inr (Some t)"
proof -
  have ix: "trans_index ct t = i" using assms by (intro trans_index_nth) auto
  have i: "i < 2 ^ 15" using assms(2) by simp
  note p = dhmp_addr_parts [OF assms(5) i refl]
  have "signed_take_bit 31 (int i) = int i" using i by (intro signed_take_bit_int_eq_self) auto
  then show ?thesis
    unfolding transfer_as_sum ix using p normal_of_dhmp_addr [OF assms(5) i] assms(1,2,3)
    by (simp add: dhmp_get_node_index_from_addr_def dhmp_get_trans_from_addr_def)
qed

theorem dhmp_addr_round_trip_witness:
  "dhmp_transfer_normal_addr (dhmp_transfer_dhmp_addr [None, Some 7, Some 9] 9 0x7f0002b47000) = 0x7f0002b47000 \<and>
   dhmp_get_node_index_from_addr (dhmp_transfer_dhmp_addr [None, Some 7, Some 9] 9 0x7f0002b47000) = 2 \<and>
   dhmp_get_trans_from_addr [None, Some 7, Some 9] (dhmp_transfer_dhmp_addr [None, Some 7, Some 9] 9 0x7f0002b47000) = Inr (Some 9)"
proof -
  have "\<forall>j < 2. [None, Some 7, Some 9] ! j \<noteq> Some (9::nat)" by (auto simp: less_2_cases_iff)
  then show ?thesis using dhmp_addr_round_trip [of "[None, Some 7, Some 9]" 2 9 "0x7f0002b47000"] by simp
qed

text \<open>After an insertion the table finds the new struct under its global address, and
  every lookup whose bucket or whose normal address is another one gives what it gave
  before.\<close>

lemma insert_then_lookup:
  assumes "dhmp_addr_info_insert_ht g ai ifs ht = Inr (ifs', ht')"
    and "ifs ai = Some info" and "mr_addr (nvm_mr info) = dhmp_transfer_normal_addr g"
  shows "dhmp_get_addr_info_from_ht ifs' ht' (dhmp_hash_in_client g) g = Inr (Some ai) \<and>
    (dhmp_hash_in_client g' \<noteq> dhmp_hash_in_client g \<or> dhmp_transfer_normal_addr g' \<noteq> dhmp_transfer_normal_addr g \<longrightarrow>
       dhmp_get_addr_info_from_ht ifs' ht' (dhmp_hash_in_client g') g' = dhmp_get_addr_info_from_ht ifs ht (dhmp_hash_in_client g') g')"
proof -
  note k = insert_keeps_addrs [OF assms(1)]
  obtain i' where i': "ifs' ai = Some i'" "mr_addr (nvm_mr i') = dhmp_transfer_normal_addr g"
    using k(1) [of ai] assms(2,3) by (cases "ifs' ai") auto
  have "find_info ifs' a (ht b) = find_info ifs a (ht b)" for a b
    by (rule find_info_cong) (rule k(1))
  then show ?thesis using i' by (auto simp: dhmp_get_addr_info_from_ht_def k(2))
qed

lemma insert_then_lookup_witness:
  "\<exists>ifs' ht'. dhmp_addr_info_insert_ht 0x7f00 16 [16 \<mapsto> fresh_info\<lparr>nvm_mr := null_mr\<lparr>mr_addr := 0x7f00\<rparr>\<rparr>] (\<lambda>_. []) = Inr (ifs', ht') \<and>
     dhmp_get_addr_info_from_ht ifs' ht' (dhmp_hash_in_client 0x7f00) 0x7f00 = Inr (Some 16)"
proof -
  let ?i = "fresh_info\<lparr>nvm_mr := null_mr\<lparr>mr_addr := 0x7f00\<rparr>\<rparr>"
  obtain ifs' ht' where r: "dhmp_addr_info_insert_ht 0x7f00 16 [16 \<mapsto> ?i] (\<lambda>_. []) = Inr (ifs', ht')"
    by (simp add: dhmp_addr_info_insert_ht_def Let_def)
  have "dhmp_transfer_normal_addr 0x7f00 = 0x7f00" using normal_of_dhmp_addr [of "0x7f00" 0] by simp
  with insert_then_lookup [OF r, of ?i 0] r show ?thesis by auto
qed

text \<open>The lookup compares normal addresses only, so regions of two nodes with the same
  normal address are confused when their global addresses fall into one bucket, as for the
  address below on nodes 1 and 2: the region of node 2 inserted second is found under the
  address of node 1.\<close>

lemma lookup_confuses_nodes:
  "let a = 0x7f0002b47000; g1 = 0x17f0002b47000; g2 = 0x27f0002b47000;
       info = \<lparr>read_cnt = 0, write_cnt = 0, node_index = 1, write_flag = False, dram_mr = null_mr, nvm_mr = null_mr\<lparr>mr_addr := a\<rparr>\<rparr>;
       ifs = [16 \<mapsto> info, 32 \<mapsto> info\<lparr>node_index := 2\<rparr>]
   in g1 = dhmp_transfer_dhmp_addr [None, Some 7, Some 9] 7 a \<and> g2 = dhmp_transfer_dhmp_addr [None, Some 7, Some 9] 9 a \<and>
      bindR (dhmp_addr_info_insert_ht g1 16 ifs (\<lambda>_. [])) (\<lambda>(ifs1, ht1).
        bindR (dhmp_addr_info_insert_ht g2 32 ifs1 ht1) (\<lambda>(ifs2, ht2).
          dhmp_get_addr_info_from_ht ifs2 ht2 (dhmp_hash_in_client g1) g1)) = Inr (Some 32)"
proof -
  let ?ct = "[None, Some 7, Some (9::nat)]" and ?a = "0x7f0002b47000 :: u64"
  have ix: "trans_index ?ct 7 = 1" "trans_index ?ct 9 = 2"
    by (simp_all add: trans_index_def DHMP_SERVER_NODE_NUM_def numeral_3_eq_3)
  have g: "dhmp_transfer_dhmp_addr ?ct 7 ?a = 0x17f0002b47000" "dhmp_transfer_dhmp_addr ?ct 9 ?a = 0x27f0002b47000"
    by (simp_all add: transfer_as_sum ix)
  have "dhmp_transfer_normal_addr 0x17f0002b47000 = ?a"
    using normal_of_dhmp_addr [of ?a 1] by simp
  then show ?thesis
    by (simp add: Let_def g dhmp_addr_info_insert_ht_def dhmp_get_addr_info_from_ht_def hash_node_1 hash_node_2)
qed

end
