(* ===== verification/Process.thy ===== *)
theory Process
  imports AddrTable
begin

text \<open>
  The state of one middleware process as the transport, the work thread and the receive
  handlers share it: its memory, its transports, the tasks and works that are alive, the
  client's address table and what it has posted to the network card. Transports and tasks
  are named by numbers; structs whose address travels in a message (\<open>dhmp_addr_info\<close>, the
  work structs) by their 64-bit address. Memory is a partial function, and using an address
  that is not mapped is undefined.
\<close>

section \<open>Memory\<close>

type_synonym memory = "u64 \<Rightarrow> byte option"

definition mapped :: "memory \<Rightarrow> u64 \<Rightarrow> nat \<Rightarrow> bool" where
  "mapped m a n \<longleftrightarrow> (\<forall>i < n. m (a + word_of_nat i) \<noteq> None)"

definition rd_mem :: "memory \<Rightarrow> u64 \<Rightarrow> nat \<Rightarrow> byte list res" where
  "rd_mem m a n = guardR (mapped m a n) UB (Inr (map (\<lambda>i. the (m (a + word_of_nat i))) [0..<n]))"

definition wr_mem :: "memory \<Rightarrow> u64 \<Rightarrow> byte list \<Rightarrow> memory res" where
  "wr_mem m a bs = guardR (mapped m a (length bs)) UB
     (Inr (\<lambda>x. if unat (x - a) < length bs then Some (bs ! unat (x - a)) else m x))"

section \<open>Transports and tasks\<close>

datatype dhmp_transport_state =
    DHMP_TRANSPORT_STATE_INIT | DHMP_TRANSPORT_STATE_LISTEN | DHMP_TRANSPORT_STATE_CONNECTING
  | DHMP_TRANSPORT_STATE_CONNECTED | DHMP_TRANSPORT_STATE_DISCONNECTED | DHMP_TRANSPORT_STATE_RECONNECT
  | DHMP_TRANSPORT_STATE_CLOSED | DHMP_TRANSPORT_STATE_DESTROYED | DHMP_TRANSPORT_STATE_ERROR
  | DHMP_TRANSPORT_STATE_REJECT

text \<open>The enumeration is compared with \<open>>\<close> and \<open><\<close>.\<close>

definition state_code :: "dhmp_transport_state \<Rightarrow> nat" where
  "state_code s = index_of s [DHMP_TRANSPORT_STATE_INIT, DHMP_TRANSPORT_STATE_LISTEN, DHMP_TRANSPORT_STATE_CONNECTING,
     DHMP_TRANSPORT_STATE_CONNECTED, DHMP_TRANSPORT_STATE_DISCONNECTED, DHMP_TRANSPORT_STATE_RECONNECT,
     DHMP_TRANSPORT_STATE_CLOSED, DHMP_TRANSPORT_STATE_DESTROYED, DHMP_TRANSPORT_STATE_ERROR, DHMP_TRANSPORT_STATE_REJECT]"

instantiation dhmp_transport_state :: linorder
begin

definition "less_eq_dhmp_transport_state s t \<longleftrightarrow> state_code s \<le> state_code t"
definition "less_dhmp_transport_state s t \<longleftrightarrow> state_code s < state_code t"

instance
proof
  fix s t u :: dhmp_transport_state
  show "s < t \<longleftrightarrow> s \<le> t \<and> \<not> t \<le> s" "s \<le> s" "s \<le> t \<or> t \<le> s"
    by (auto simp: less_eq_dhmp_transport_state_def less_dhmp_transport_state_def)
  show "s \<le> t \<Longrightarrow> t \<le> u \<Longrightarrow> s \<le> u" by (simp add: less_eq_dhmp_transport_state_def)
  show "s \<le> t \<Longrightarrow> t \<le> s \<Longrightarrow> s = t"
    by (cases s; cases t) (simp_all add: less_eq_dhmp_transport_state_def state_code_def)
qed

end

lemmas state_order = less_eq_dhmp_transport_state_def less_dhmp_transport_state_def state_code_def

record dhmp_mr =
  cur_pos :: u64
  dmr_addr :: u64
  dmr_mr :: ibv_mr

record dhmp_sge =
  sge_addr :: u64
  sge_length :: u64
  sge_lkey :: u32

record dhmp_task =
  done_flag :: bool
  task_sge :: dhmp_sge
  task_trans :: nat
  task_smr :: "ibv_mr option"
  task_addr_info :: u64

record dhmp_transport =
  trans_node_id :: int
  trans_state :: dhmp_transport_state
  send_mr :: dhmp_mr
  recv_mr :: dhmp_mr
  is_poll_qp :: bool
  nvm_used_size :: u64

datatype ibv_wr_opcode =
    IBV_WR_RDMA_WRITE | IBV_WR_RDMA_WRITE_WITH_IMM | IBV_WR_SEND | IBV_WR_SEND_WITH_IMM | IBV_WR_RDMA_READ
  | IBV_WR_ATOMIC_CMP_AND_SWP | IBV_WR_ATOMIC_FETCH_AND_ADD | IBV_WR_LOCAL_INV | IBV_WR_BIND_MW | IBV_WR_SEND_WITH_INV
  | IBV_WR_TSO

text \<open>A work request with its one scatter/gather entry; \<open>sge.length\<close> has 32 bits.\<close>

record ibv_send_wr =
  wr_id :: nat
  wr_qp :: nat
  wr_opcode :: ibv_wr_opcode
  wr_addr :: u64
  wr_length :: u32
  wr_lkey :: u32
  wr_remote_addr :: u64
  wr_rkey :: u32

record ibv_recv_wr =
  rwr_id :: nat
  rwr_qp :: nat
  rwr_addr :: u64
  rwr_length :: u32
  rwr_lkey :: u32

section \<open>Works\<close>

record dhmp_rw_work =
  rw_trans :: nat
  rw_dhmp_addr :: u64
  rw_local_addr :: u64
  rw_length :: u64
  rw_done :: bool
  rw_offset :: u64
  rw_is_atomic :: bool

record dhmp_malloc_work =
  mw_trans :: nat
  mw_addr_info :: u64
  mw_res_addr :: u64
  mw_length :: u64
  mw_done :: bool

record dhmp_buff_malloc_work =
  bw_trans :: nat
  bw_buff_addr_info :: u64
  bw_buff_mate_addr_info :: u64
  bw_buff_addr :: u64
  bw_buff_mate_addr :: u64
  bw_done_recv :: bool
  bw_done :: bool

record dhmp_free_work =
  fw_trans :: nat
  fw_dhmp_addr :: u64
  fw_done :: bool

record dhmp_close_work =
  cw_trans :: nat
  cw_done :: bool

record dhmp_send_work =
  sw_trans :: nat
  sw_length :: u64
  sw_done :: bool
  sw_dhmp_addr :: u64
  sw_local_addr :: u64
  sw_recv_flag :: bool
  sw_is_write :: bool

text \<open>\<open>work_type\<close> together with what \<open>work_data\<close> points to.\<close>

datatype dhmp_work =
    DHMP_WORK_MALLOC dhmp_malloc_work
  | DHMP_WORK_FREE dhmp_free_work
  | DHMP_WORK_READ dhmp_rw_work
  | DHMP_WORK_WRITE dhmp_rw_work
  | DHMP_WORK_POLL
  | DHMP_WORK_CLOSE dhmp_close_work
  | DHMP_WORK_DONE
  | DHMP_WORK_SEND dhmp_send_work
  | DHMP_BUFF_MALLOC dhmp_buff_malloc_work

section \<open>Process\<close>

text \<open>\<open>recv_ring\<close> is the server's pair \<open>local_recv_buff\<close>, \<open>local_recv_buff_mate\<close>: the
  registrations of the buffer and of the struct that describes it. \<open>regs\<close> are the
  registrations made with \<open>ibv_reg_mr\<close> and not yet released. \<open>disconnects\<close> are the transports
  \<open>rdma_disconnect\<close> was called for.\<close>

record Proc =
  mem :: memory
  transports :: "nat \<Rightarrow> dhmp_transport option"
  tasks :: "nat \<Rightarrow> dhmp_task option"
  next_task :: nat
  infos :: infos
  addr_info_ht :: addr_ht
  connect_trans :: "nat option list"
  read_mr :: "nat \<Rightarrow> ibv_mr option"
  works :: "u64 \<Rightarrow> dhmp_work option"
  work_list :: "u64 list"
  client_node_id :: int
  server_id :: int
  recv_ring :: "(ibv_mr \<times> ibv_mr) option"
  regs :: "ibv_mr list"
  posted :: "ibv_send_wr list"
  recvs :: "ibv_recv_wr list"
  disconnects :: "nat list"

text \<open>What the libraries and the hardware decide: whether \<open>malloc\<close> of a struct succeeds, the
  block \<open>malloc\<close> or \<open>numa_alloc_onnode\<close> gives for a size and the byte it is filled with, what
  \<open>ibv_reg_mr\<close> returns for an address and a length, whether posting fails, whether the server
  has a device.\<close>

record Env =
  malloc_ok :: bool
  malloc_at :: "nat \<Rightarrow> u64 option"
  numa_at :: "u64 \<Rightarrow> u64 option"
  junk :: byte
  has_dev :: bool
  reg_mr :: "u64 \<Rightarrow> u64 \<Rightarrow> ibv_mr option"
  post_err :: "ibv_send_wr \<Rightarrow> bool"
  recv_err :: "ibv_recv_wr \<Rightarrow> bool"

section \<open>Lemmas on memory\<close>

lemma word_of_nat_inj64: "i < 2 ^ 64 \<Longrightarrow> j < 2 ^ 64 \<Longrightarrow> (word_of_nat i :: u64) = word_of_nat j \<longleftrightarrow> i = j"
  by (simp add: word_of_nat_eq_iff take_bit_nat_eq_self)

lemma unat_of_nat64: "i < 2 ^ 64 \<Longrightarrow> unat (word_of_nat i :: u64) = i"
  by (simp add: unat_of_nat take_bit_nat_eq_self)

lemma rd_mem_nth: "rd_mem m a n = Inr bs \<Longrightarrow> length bs = n \<and> (\<forall>i < n. m (a + word_of_nat i) = Some (bs ! i))"
  by (auto simp: rd_mem_def guardR_eq_Inr mapped_def)

lemma rd_mem_eq:
  "length bs = n \<Longrightarrow> (\<And>i. i < n \<Longrightarrow> m (a + word_of_nat i) = Some (bs ! i)) \<Longrightarrow> rd_mem m a n = Inr bs"
  by (auto simp: rd_mem_def guardR_def mapped_def intro: nth_equalityI)

lemma wr_mem_ok: "mapped m a (length bs) \<Longrightarrow> \<exists>m'. wr_mem m a bs = Inr m'"
  by (simp add: wr_mem_def)

lemma wr_mem_same:
  assumes "wr_mem m a bs = Inr m'" and "length bs < 2 ^ 64" and "i < length bs"
  shows "m' (a + word_of_nat i) = Some (bs ! i)"
  using assms by (auto simp: wr_mem_def guardR_eq_Inr unat_of_nat64)

lemma wr_mem_other: "wr_mem m a bs = Inr m' \<Longrightarrow> length bs \<le> unat (x - a) \<Longrightarrow> m' x = m x"
  by (auto simp: wr_mem_def guardR_eq_Inr)

lemma wr_mem_mapped: "wr_mem m a bs = Inr m' \<Longrightarrow> mapped m b n \<Longrightarrow> mapped m' b n"
  by (auto simp: wr_mem_def guardR_eq_Inr mapped_def)

lemma rd_wr_mem:
  assumes "wr_mem m a bs = Inr m'" and "length bs < 2 ^ 64"
  shows "rd_mem m' a (length bs) = Inr bs"
  using wr_mem_same [OF assms] by (intro rd_mem_eq) auto

lemma rd_mem_prefix: "rd_mem m a n = Inr bs \<Longrightarrow> k \<le> n \<Longrightarrow> rd_mem m a k = Inr (take k bs)"
  using rd_mem_nth [of m a n bs] by (intro rd_mem_eq) auto

lemma rd_mem_suffix: "rd_mem m a n = Inr bs \<Longrightarrow> k \<le> n \<Longrightarrow> rd_mem m (a + word_of_nat k) (n - k) = Inr (drop k bs)"
  using rd_mem_nth [of m a n bs] by (intro rd_mem_eq) (auto simp: add.assoc simp flip: of_nat_add)

text \<open>Reading where nothing was written.\<close>

definition apart :: "u64 \<Rightarrow> nat \<Rightarrow> u64 \<Rightarrow> nat \<Rightarrow> bool" where
  "apart a n b k \<longleftrightarrow> (\<forall>i < k. n \<le> unat (b + word_of_nat i - a))"

lemma rd_wr_mem_apart:
  assumes "wr_mem m a bs = Inr m'" and "apart a (length bs) b k"
  shows "rd_mem m' b k = rd_mem m b k"
proof -
  have "m' (b + word_of_nat i) = m (b + word_of_nat i)" if "i < k" for i
    using wr_mem_other [OF assms(1)] assms(2) that by (simp add: apart_def)
  note same = this
  have "map (\<lambda>i. the (m' (b + word_of_nat i))) [0..<k] = map (\<lambda>i. the (m (b + word_of_nat i))) [0..<k]"
    using same by simp
  then show ?thesis unfolding rd_mem_def mapped_def using same by (simp only: cong: conj_cong) (simp cong: conj_cong)
qed

text \<open>Two adjacent writes are one.\<close>

lemma wr_mem_append:
  assumes "length xs + length ys < 2 ^ 64"
  shows "bindR (wr_mem m a xs) (\<lambda>m'. wr_mem m' (a + word_of_nat (length xs)) ys) = wr_mem m a (xs @ ys)"
proof -
  define m' where "m' = (\<lambda>x. if unat (x - a) < length xs then Some (xs ! unat (x - a)) else m x)"
  have split: "mapped m a (length xs + length ys) \<longleftrightarrow> mapped m a (length xs) \<and> mapped m (a + word_of_nat (length xs)) (length ys)"
  proof -
    have "(\<forall>i < k + n. P i) \<longleftrightarrow> (\<forall>i < k. P i) \<and> (\<forall>i < n. P (k + i))" for P and k n :: nat
      by (induction n) (auto simp: less_Suc_eq)
    from this [of "length xs" "length ys" "\<lambda>i. m (a + word_of_nat i) \<noteq> None"] show ?thesis
      by (simp add: mapped_def add.assoc)
  qed
  have keep: "mapped m' b n \<longleftrightarrow> mapped m b n" if "mapped m a (length xs)" for b n
  proof -
    have "m' x \<noteq> None \<longleftrightarrow> m x \<noteq> None" for x
      using that [unfolded mapped_def, rule_format, of "unat (x - a)"] by (auto simp: m'_def)
    then show ?thesis by (simp add: mapped_def)
  qed
  have pt: "(if unat (x - (a + word_of_nat (length xs))) < length ys then Some (ys ! unat (x - (a + word_of_nat (length xs)))) else m' x)
      = (if unat (x - a) < length xs + length ys then Some ((xs @ ys) ! unat (x - a)) else m x)" for x
  proof -
    have u: "unat (word_of_nat (length xs) :: u64) = length xs" using assms by (intro unat_of_nat64) simp
    have d: "x - (a + word_of_nat (length xs)) = (x - a) - word_of_nat (length xs)" by (simp add: diff_diff_eq)
    have "unat (x - (a + word_of_nat (length xs)))
        = (if length xs \<le> unat (x - a) then unat (x - a) - length xs else unat (x - a) + 2 ^ 64 - length xs)"
      unfolding d unat_sub_if' u by simp
    then show ?thesis using assms by (auto simp: m'_def nth_append)
  qed
  show ?thesis
  proof (cases "mapped m a (length xs)")
    case True
    then show ?thesis using split keep [OF True] pt by (simp add: wr_mem_def guardR_def flip: m'_def)
  next
    case False
    then show ?thesis using split by (simp add: wr_mem_def guardR_def)
  qed
qed

section \<open>A sample process\<close>

text \<open>One connected transport, all memory mapped, nothing fails.\<close>

definition demo_env :: Env where
  "demo_env = \<lparr>malloc_ok = True, malloc_at = (\<lambda>n. if n = 56 then Some 0x10000 else Some 0x20000), numa_at = (\<lambda>n. Some 0x7f0000000000),
     junk = 0, has_dev = True, reg_mr = (\<lambda>a n. Some (null_mr\<lparr>mr_addr := a, mr_length := n, mr_lkey := 5, mr_rkey := 6\<rparr>)),
     post_err = (\<lambda>_. False), recv_err = (\<lambda>_. False)\<rparr>"

definition demo_trans :: dhmp_transport where
  "demo_trans = \<lparr>trans_node_id = 1, trans_state = DHMP_TRANSPORT_STATE_CONNECTED,
     send_mr = \<lparr>cur_pos = 0, dmr_addr = 0x100000000, dmr_mr = null_mr\<rparr>,
     recv_mr = \<lparr>cur_pos = 0, dmr_addr = 0x200000000, dmr_mr = null_mr\<rparr>, is_poll_qp = False, nvm_used_size = 0\<rparr>"

definition demo_proc :: Proc where
  "demo_proc = \<lparr>mem = (\<lambda>_. Some 0), transports = [1 \<mapsto> demo_trans], tasks = (\<lambda>_. None), next_task = 0,
     infos = [16 \<mapsto> fresh_info], addr_info_ht = (\<lambda>_. []), connect_trans = [None, Some 1, None], read_mr = (\<lambda>_. None),
     works = (\<lambda>_. None), work_list = [], client_node_id = 0, server_id = 1, recv_ring = None, regs = [], posted = [], recvs = [],
     disconnects = []\<rparr>"

end
