(* ===== verification/Transport.thy ===== *)
theory Transport
  imports Process
begin

text \<open>
  Tasks and the verbs: \<open>mid_rdma_task.c\<close> and \<open>mid_rdma_transport.c\<close>. A work request that was
  posted is appended to \<open>posted\<close> or \<open>recvs\<close>. Where the code waits for \<open>done_flag\<close>, the argument
  \<open>others\<close> is what the other threads of the process do in the meantime; if they do not set
  the flag the call never returns. A freed registration is taken out of \<open>regs\<close>.
\<close>

section \<open>Tasks\<close>

definition SEND_REGION_SIZE :: nat where
  "SEND_REGION_SIZE = 512 * 1024 * 1024"

definition RECV_REGION_SIZE :: nat where
  "RECV_REGION_SIZE = 512 * 1024 * 1024"

definition SINGLE_POLL_RECV_REGION :: nat where
  "SINGLE_POLL_RECV_REGION = 64 * 1024 * 1024"

definition SINGLE_NORM_RECV_REGION :: nat where
  "SINGLE_NORM_RECV_REGION = 64 * 1024"

definition new_task :: "dhmp_task \<Rightarrow> Proc \<Rightarrow> nat \<times> Proc" where
  "new_task k p = (next_task p, p\<lparr>tasks := (tasks p)(next_task p \<mapsto> k), next_task := next_task p + 1\<rparr>)"

definition dhmp_recv_task_create :: "Env \<Rightarrow> nat \<Rightarrow> dhmp_transport \<Rightarrow> u64 \<Rightarrow> Proc \<Rightarrow> nat option \<times> Proc" where
  "dhmp_recv_task_create e t tr addr p =
     (if \<not> malloc_ok e then (None, p)
      else
        let (k, p') = new_task \<lparr>done_flag = False,
              task_sge = \<lparr>sge_addr = addr, sge_length = word_of_nat SINGLE_NORM_RECV_REGION, sge_lkey = mr_lkey (dmr_mr (recv_mr tr))\<rparr>,
              task_trans = t, task_smr = None, task_addr_info = 0\<rparr> p
        in (Some k, p'))"

definition dhmp_send_task_create :: "Env \<Rightarrow> nat \<Rightarrow> dhmp_transport \<Rightarrow> dhmp_msg \<Rightarrow> Proc \<Rightarrow> (nat option \<times> Proc) res" where
  "dhmp_send_task_create e t tr msg p =
     (if \<not> malloc_ok e then Inr (None, p)
      else
        let len = 4 + 8 + data_size msg;
            mr = send_mr tr;
            pos = (if cur_pos mr + len > word_of_nat SEND_REGION_SIZE then 0 else cur_pos mr);
            addr = dmr_addr mr + pos;
            tr' = tr\<lparr>send_mr := mr\<lparr>cur_pos := pos + len\<rparr>\<rparr>
        in guardR (unat (data_size msg) \<le> length (data msg)) UB
          (bindR (wr_mem (mem p) addr (le_bytes 4 (msg_type msg))) (\<lambda>m1.
            bindR (wr_mem m1 (addr + 4) (le_bytes 8 (uint (data_size msg)))) (\<lambda>m2.
              bindR (wr_mem m2 (addr + 4 + 8) (take (unat (data_size msg)) (data msg))) (\<lambda>m3.
                let (k, p') = new_task \<lparr>done_flag = False,
                      task_sge = \<lparr>sge_addr = addr, sge_length = len, sge_lkey = mr_lkey (dmr_mr mr)\<rparr>,
                      task_trans = t, task_smr = None, task_addr_info = 0\<rparr> p
                in Inr (Some k, p'\<lparr>mem := m3, transports := (transports p')(t \<mapsto> tr')\<rparr>))))))"

text \<open>\<open>smr\<close> is \<open>None\<close> when the caller passes \<open>NULL\<close>, which is dereferenced. The two functions
  have the same text.\<close>

definition rw_task :: "Env \<Rightarrow> nat \<Rightarrow> ibv_mr option \<Rightarrow> int \<Rightarrow> Proc \<Rightarrow> (nat option \<times> Proc) res" where
  "rw_task e t smr n p =
     (if \<not> malloc_ok e then Inr (None, p)
      else
        case smr of
          None \<Rightarrow> Inl UB
        | Some mr \<Rightarrow>
            let (k, p') = new_task \<lparr>done_flag = False,
                  task_sge = \<lparr>sge_addr = mr_addr mr, sge_length = word_of_int n, sge_lkey = mr_lkey mr\<rparr>,
                  task_trans = t, task_smr = Some mr, task_addr_info = 0\<rparr> p
            in Inr (Some k, p'))"

definition dhmp_read_task_create :: "Env \<Rightarrow> nat \<Rightarrow> ibv_mr option \<Rightarrow> int \<Rightarrow> Proc \<Rightarrow> (nat option \<times> Proc) res" where
  "dhmp_read_task_create = rw_task"

definition dhmp_write_task_create :: "Env \<Rightarrow> nat \<Rightarrow> ibv_mr option \<Rightarrow> int \<Rightarrow> Proc \<Rightarrow> (nat option \<times> Proc) res" where
  "dhmp_write_task_create = rw_task"

section \<open>Two-sided operations\<close>

definition dhmp_post_recv :: "Env \<Rightarrow> nat \<Rightarrow> u64 \<Rightarrow> Proc \<Rightarrow> Proc res" where
  "dhmp_post_recv e t addr p =
     (case transports p t of
        None \<Rightarrow> Inl UB
      | Some tr \<Rightarrow>
          if trans_state tr > DHMP_TRANSPORT_STATE_CONNECTED then Inr p
          else
            (case dhmp_recv_task_create e t tr addr p of
               (None, p1) \<Rightarrow> Inr p1
             | (Some k, p1) \<Rightarrow>
                 let s = task_sge (the (tasks p1 k));
                     wr = \<lparr>rwr_id = k, rwr_qp = t, rwr_addr = sge_addr s, rwr_length = ucast (sge_length s), rwr_lkey = sge_lkey s\<rparr>
                 in Inr (if recv_err e wr then p1 else p1\<lparr>recvs := recvs p1 @ [wr]\<rparr>)))"

fun post_recvs :: "Env \<Rightarrow> nat \<Rightarrow> u64 list \<Rightarrow> Proc \<Rightarrow> Proc res" where
  "post_recvs e t [] p = Inr p"
| "post_recvs e t (a # as) p = bindR (dhmp_post_recv e t a p) (post_recvs e t as)"

definition dhmp_post_all_recv :: "Env \<Rightarrow> nat \<Rightarrow> Proc \<Rightarrow> Proc res" where
  "dhmp_post_all_recv e t p =
     (case transports p t of
        None \<Rightarrow> Inl UB
      | Some tr \<Rightarrow>
          let single_region_size = (if is_poll_qp tr then SINGLE_POLL_RECV_REGION else SINGLE_NORM_RECV_REGION)
          in post_recvs e t (map (\<lambda>i. dmr_addr (recv_mr tr) + word_of_nat (i * single_region_size))
                                 [0..<RECV_REGION_SIZE div single_region_size]) p)"

text \<open>The opcode, remote address and key are parameters here; \<open>dhmp_post_send\<close> clears the
  request with \<open>memset\<close> and sets the opcode only.\<close>

definition make_wr :: "Proc \<Rightarrow> nat \<Rightarrow> nat \<Rightarrow> ibv_wr_opcode \<Rightarrow> u64 \<Rightarrow> u32 \<Rightarrow> ibv_send_wr" where
  "make_wr p t k op raddr rk =
     (let s = task_sge (the (tasks p k))
      in \<lparr>wr_id = k, wr_qp = t, wr_opcode = op, wr_addr = sge_addr s, wr_length = ucast (sge_length s), wr_lkey = sge_lkey s,
          wr_remote_addr = raddr, wr_rkey = rk\<rparr>)"

definition dhmp_post_send :: "Env \<Rightarrow> nat \<Rightarrow> dhmp_msg \<Rightarrow> Proc \<Rightarrow> Proc res" where
  "dhmp_post_send e t msg p =
     (case transports p t of
        None \<Rightarrow> Inl UB
      | Some tr \<Rightarrow>
          if trans_state tr \<noteq> DHMP_TRANSPORT_STATE_CONNECTED then Inr p
          else bindR (dhmp_send_task_create e t tr msg p) (\<lambda>(r, p1).
            case r of
              None \<Rightarrow> Inr p1
            | Some k \<Rightarrow>
                let wr = make_wr p1 t k IBV_WR_SEND 0 0
                in Inr (if post_err e wr then p1 else p1\<lparr>posted := posted p1 @ [wr]\<rparr>)))"

section \<open>One-sided operations\<close>

definition dhmp_get_mr_from_send_list :: "Env \<Rightarrow> u64 \<Rightarrow> int \<Rightarrow> Proc \<Rightarrow> ibv_mr option \<times> Proc" where
  "dhmp_get_mr_from_send_list e addr n p =
     (if \<not> malloc_ok e then (None, p)
      else case reg_mr e addr (word_of_int n) of
             None \<Rightarrow> (None, p)
           | Some mr \<Rightarrow> (Some mr, p\<lparr>regs := regs p @ [mr]\<rparr>))"

text \<open>The busy wait on the flag of a task.\<close>

definition wait_task :: "(Proc \<Rightarrow> Proc) \<Rightarrow> nat \<Rightarrow> Proc \<Rightarrow> Proc res" where
  "wait_task others k p =
     (let p' = others p
      in case tasks p' k of None \<Rightarrow> Inl UB | Some task \<Rightarrow> guardR (done_flag task) Spin (Inr p'))"

definition dhmp_rdma_read ::
    "Env \<Rightarrow> (Proc \<Rightarrow> Proc) \<Rightarrow> nat \<Rightarrow> ibv_mr \<Rightarrow> u64 \<Rightarrow> int \<Rightarrow> u64 \<Rightarrow> Proc \<Rightarrow> (int \<times> Proc) res" where
  "dhmp_rdma_read e others t mr local_addr n offset p =
     (let (smr, p1) = dhmp_get_mr_from_send_list e local_addr n p
      in bindR (dhmp_read_task_create e t smr n p1) (\<lambda>(r, p2).
           case r of
             None \<Rightarrow> Inr (- 1, p2)
           | Some k \<Rightarrow>
               let wr = make_wr p2 t k IBV_WR_RDMA_READ (mr_addr mr + offset) (mr_rkey mr)
               in if post_err e wr then Inr (- 1, p2)
                  else bindR (wait_task others k (p2\<lparr>posted := posted p2 @ [wr]\<rparr>)) (\<lambda>p3.
                         Inr (0, p3\<lparr>regs := remove1 (the smr) (regs p3)\<rparr>))))"

definition dhmp_rdma_write ::
    "Env \<Rightarrow> (Proc \<Rightarrow> Proc) \<Rightarrow> nat \<Rightarrow> u64 \<Rightarrow> ibv_mr \<Rightarrow> u64 \<Rightarrow> int \<Rightarrow> u64 \<Rightarrow> Proc \<Rightarrow> (int \<times> Proc) res" where
  "dhmp_rdma_write e others t addr_info mr local_addr n offset p =
     (let (smr, p1) = dhmp_get_mr_from_send_list e local_addr n p
      in bindR (dhmp_write_task_create e t smr n p1) (\<lambda>(r, p2).
           case r of
             None \<Rightarrow> Inr (- 1, p2)
           | Some k \<Rightarrow>
               let p3 = p2\<lparr>tasks := (tasks p2)(k \<mapsto> (the (tasks p2 k))\<lparr>task_addr_info := addr_info\<rparr>)\<rparr>;
                   wr = make_wr p3 t k IBV_WR_RDMA_WRITE (mr_addr mr + offset) (mr_rkey mr)
               in if post_err e wr then Inl Exit
                  else bindR (wait_task others k (p3\<lparr>posted := posted p3 @ [wr]\<rparr>)) (\<lambda>p4.
                         Inr (0, p4\<lparr>regs := remove1 (the smr) (regs p4)\<rparr>))))"

text \<open>A write followed by a read of its last byte on the same queue pair. Nothing is
  released.\<close>

definition dhmp_rdma_read_after_write ::
    "Env \<Rightarrow> (Proc \<Rightarrow> Proc) \<Rightarrow> nat \<Rightarrow> u64 \<Rightarrow> ibv_mr \<Rightarrow> u64 \<Rightarrow> int \<Rightarrow> Proc \<Rightarrow> (int \<times> Proc) res" where
  "dhmp_rdma_read_after_write e others t addr_info mr local_addr n p =
     (let (smr, p1) = dhmp_get_mr_from_send_list e local_addr n p
      in bindR (dhmp_write_task_create e t smr n p1) (\<lambda>(r, p2).
           case r of
             None \<Rightarrow> Inr (- 1, p2)
           | Some k \<Rightarrow>
               let p3 = p2\<lparr>tasks := (tasks p2)(k \<mapsto> (the (tasks p2 k))\<lparr>task_addr_info := addr_info\<rparr>)\<rparr>;
                   wr = make_wr p3 t k IBV_WR_RDMA_WRITE (mr_addr mr) (mr_rkey mr)
               in (case transports p3 t of
                     None \<Rightarrow> Inl UB
                   | Some tr \<Rightarrow>
                       bindR (dhmp_read_task_create e t (read_mr p3 (nat (trans_node_id tr))) 1 p3) (\<lambda>(r2, p4).
                         case r2 of
                           None \<Rightarrow> Inr (- 1, p4)
                         | Some k2 \<Rightarrow>
                             let wr2 = make_wr p4 t k2 IBV_WR_RDMA_READ (mr_addr mr + word_of_int n - 1) (mr_rkey mr)
                             in if post_err e wr then Inl Exit
                                else if post_err e wr2 then Inl Exit
                                else bindR (wait_task others k (p4\<lparr>posted := posted p4 @ [wr, wr2]\<rparr>)) (\<lambda>p5.
                                       bindR (wait_task (\<lambda>x. x) k2 p5) (\<lambda>p6. Inr (0, p6)))))))"

section \<open>Opcodes of completions\<close>

datatype ibv_wc_opcode =
    IBV_WC_SEND | IBV_WC_RDMA_WRITE | IBV_WC_RDMA_READ | IBV_WC_COMP_SWAP | IBV_WC_FETCH_ADD | IBV_WC_BIND_MW
  | IBV_WC_LOCAL_INV | IBV_WC_TSO | IBV_WC_RECV | IBV_WC_RECV_RDMA_WITH_IMM
  | IBV_WC_TM_ADD | IBV_WC_TM_DEL | IBV_WC_TM_SYNC | IBV_WC_TM_RECV | IBV_WC_TM_NO_TAG

fun dhmp_wc_opcode_str :: "ibv_wc_opcode \<Rightarrow> string" where
  "dhmp_wc_opcode_str IBV_WC_SEND = ''IBV_WC_SEND''"
| "dhmp_wc_opcode_str IBV_WC_RDMA_WRITE = ''IBV_WC_RDMA_WRITE''"
| "dhmp_wc_opcode_str IBV_WC_RDMA_READ = ''IBV_WC_RDMA_READ''"
| "dhmp_wc_opcode_str IBV_WC_COMP_SWAP = ''IBV_WC_COMP_SWAP''"
| "dhmp_wc_opcode_str IBV_WC_FETCH_ADD = ''IBV_WC_FETCH_ADD''"
| "dhmp_wc_opcode_str IBV_WC_BIND_MW = ''IBV_WC_BIND_MW''"
| "dhmp_wc_opcode_str IBV_WC_RECV = ''IBV_WC_RECV''"
| "dhmp_wc_opcode_str IBV_WC_RECV_RDMA_WITH_IMM = ''IBV_WC_RECV_RDMA_WITH_IMM''"
| "dhmp_wc_opcode_str _ = ''IBV_WC_UNKNOWN''"

section \<open>The send region\<close>

text \<open>The cursor is inside the region and the region is mapped.\<close>

definition send_region_ok :: "Proc \<Rightarrow> dhmp_transport \<Rightarrow> bool" where
  "send_region_ok p tr \<longleftrightarrow> unat (cur_pos (send_mr tr)) \<le> SEND_REGION_SIZE \<and>
     mapped (mem p) (dmr_addr (send_mr tr)) SEND_REGION_SIZE"

definition send_pos :: "dhmp_transport \<Rightarrow> dhmp_msg \<Rightarrow> nat" where
  "send_pos tr msg =
     (let pos = unat (cur_pos (send_mr tr)) in if pos + 12 + unat (data_size msg) > SEND_REGION_SIZE then 0 else pos)"

lemma mapped_sub: "mapped m a n \<Longrightarrow> k + l \<le> n \<Longrightarrow> mapped m (a + word_of_nat k) l"
  unfolding mapped_def by (auto simp: add.assoc simp flip: of_nat_add)

lemma length_msg_frame: "unat (data_size msg) \<le> length (data msg) \<Longrightarrow> length (msg_frame msg) = 12 + unat (data_size msg)"
  by (simp add: msg_frame_def)

lemma frame_writes:
  assumes "unat (data_size msg) \<le> length (data msg)" and "12 + unat (data_size msg) < 2 ^ 64"
  shows "bindR (wr_mem m a (le_bytes 4 (msg_type msg))) (\<lambda>m1.
      bindR (wr_mem m1 (a + 4) (le_bytes 8 (uint (data_size msg)))) (\<lambda>m2.
        bindR (wr_mem m2 (a + 4 + 8) (take (unat (data_size msg)) (data msg))) f))
    = bindR (wr_mem m a (msg_frame msg)) f"
proof -
  let ?t = "le_bytes 4 (msg_type msg)" and ?s = "le_bytes 8 (uint (data_size msg))" and ?d = "take (unat (data_size msg)) (data msg)"
  have assoc: "bindR (bindR x g) h = bindR x (\<lambda>y. bindR (g y) h)" for x :: "memory res" and g h
    by (cases x) auto
  have two: "bindR (wr_mem m1 (a + 4) ?s) (\<lambda>m2. wr_mem m2 (a + 4 + 8) ?d) = wr_mem m1 (a + 4) (?s @ ?d)" for m1
    using wr_mem_append [of ?s ?d m1 "a + 4"] assms by simp
  have "bindR (wr_mem m a ?t) (\<lambda>m1. wr_mem m1 (a + 4) (?s @ ?d)) = wr_mem m a (?t @ ?s @ ?d)"
    using wr_mem_append [of ?t "?s @ ?d" m a] assms by simp
  then show ?thesis by (simp add: msg_frame_def two [symmetric] assoc flip: assoc)
qed

lemma send_task_result:
  assumes "malloc_ok e" and ok: "send_region_ok p tr" and len: "unat (data_size msg) \<le> length (data msg)"
    and fits: "12 + unat (data_size msg) \<le> SEND_REGION_SIZE"
  defines "pos \<equiv> send_pos tr msg" and "n \<equiv> 12 + unat (data_size msg)"
  shows "\<exists>m. wr_mem (mem p) (dmr_addr (send_mr tr) + word_of_nat pos) (msg_frame msg) = Inr m \<and>
    dhmp_send_task_create e t tr msg p = Inr (Some (next_task p),
      p\<lparr>tasks := (tasks p)(next_task p \<mapsto> \<lparr>done_flag = False,
          task_sge = \<lparr>sge_addr = dmr_addr (send_mr tr) + word_of_nat pos, sge_length = word_of_nat n, sge_lkey = mr_lkey (dmr_mr (send_mr tr))\<rparr>,
          task_trans = t, task_smr = None, task_addr_info = 0\<rparr>),
        next_task := next_task p + 1, mem := m,
        transports := (transports p)(t \<mapsto> tr\<lparr>send_mr := (send_mr tr)\<lparr>cur_pos := word_of_nat (pos + n)\<rparr>\<rparr>)\<rparr>)"
    and "pos + n \<le> SEND_REGION_SIZE"
proof -
  let ?c = "cur_pos (send_mr tr)" and ?d = "data_size msg"
  have c: "unat ?c \<le> 2 ^ 29" and d: "12 + unat ?d \<le> 2 ^ 29"
    using ok fits by (simp_all add: send_region_ok_def SEND_REGION_SIZE_def)
  show fit: "pos + n \<le> SEND_REGION_SIZE" using fits by (simp add: pos_def n_def send_pos_def Let_def)
  have lenw: "4 + 8 + ?d = word_of_nat n" by (simp add: n_def)
  have un: "unat (word_of_nat n :: u64) = n" using d by (intro unat_of_nat64) (simp add: n_def)
  have "unat (?c + word_of_nat n) = unat ?c + n"
    using c d un by (subst unat_add_lem [THEN iffD1]) (simp_all add: n_def)
  then have cmp: "?c + word_of_nat n > word_of_nat SEND_REGION_SIZE \<longleftrightarrow> unat ?c + n > SEND_REGION_SIZE"
    by (simp add: word_less_nat_alt SEND_REGION_SIZE_def)
  have posw: "(if ?c + word_of_nat n > word_of_nat SEND_REGION_SIZE then 0 else ?c) = word_of_nat pos"
    using cmp by (simp add: pos_def send_pos_def n_def Let_def add.assoc)
  have "mapped (mem p) (dmr_addr (send_mr tr) + word_of_nat pos) n"
    using ok fit by (intro mapped_sub) (auto simp: send_region_ok_def)
  then obtain m where m: "wr_mem (mem p) (dmr_addr (send_mr tr) + word_of_nat pos) (msg_frame msg) = Inr m"
    using wr_mem_ok length_msg_frame [OF len] by (metis n_def)
  have small: "12 + unat ?d < 2 ^ 64" using d by simp
  show "\<exists>m. wr_mem (mem p) (dmr_addr (send_mr tr) + word_of_nat pos) (msg_frame msg) = Inr m \<and>
    dhmp_send_task_create e t tr msg p = Inr (Some (next_task p),
      p\<lparr>tasks := (tasks p)(next_task p \<mapsto> \<lparr>done_flag = False,
          task_sge = \<lparr>sge_addr = dmr_addr (send_mr tr) + word_of_nat pos, sge_length = word_of_nat n, sge_lkey = mr_lkey (dmr_mr (send_mr tr))\<rparr>,
          task_trans = t, task_smr = None, task_addr_info = 0\<rparr>),
        next_task := next_task p + 1, mem := m,
        transports := (transports p)(t \<mapsto> tr\<lparr>send_mr := (send_mr tr)\<lparr>cur_pos := word_of_nat (pos + n)\<rparr>\<rparr>)\<rparr>)"
    unfolding dhmp_send_task_create_def Let_def lenw posw frame_writes [OF len small]
    using m len assms(1) by (simp add: new_task_def)
qed

lemma unat_len32: "n < 2 ^ 32 \<Longrightarrow> unat (ucast (word_of_nat n :: u64) :: u32) = n"
  by (simp add: unsigned_of_nat unat_of_nat take_bit_nat_eq_self)

lemma send_region_kept:
  assumes "send_region_ok p tr" and "wr_mem (mem p) a bs = Inr m" and "pos + n \<le> SEND_REGION_SIZE"
    and "mem p' = m" and "tr' = tr\<lparr>send_mr := (send_mr tr)\<lparr>cur_pos := word_of_nat (pos + n)\<rparr>\<rparr>"
  shows "send_region_ok p' tr'"
proof -
  have "unat (word_of_nat (pos + n) :: u64) = pos + n"
    using assms(3) by (intro unat_of_nat64) (simp add: SEND_REGION_SIZE_def)
  with assms show ?thesis using wr_mem_mapped [OF assms(2)] by (simp add: send_region_ok_def)
qed

text \<open>What a successful \<open>dhmp_post_send\<close> changes.\<close>

lemma post_send_result:
  assumes "malloc_ok e" and tr: "transports p t = Some tr" "trans_state tr = DHMP_TRANSPORT_STATE_CONNECTED"
    and ok: "send_region_ok p tr" and len: "unat (data_size msg) \<le> length (data msg)"
    and fits: "12 + unat (data_size msg) \<le> SEND_REGION_SIZE" and post: "\<forall>wr. \<not> post_err e wr"
  shows "\<exists>ts nt m tr' wr. dhmp_post_send e t msg p =
      Inr (p\<lparr>tasks := ts, next_task := nt, mem := m, transports := (transports p)(t \<mapsto> tr'), posted := posted p @ [wr]\<rparr>) \<and>
    wr_opcode wr = IBV_WR_SEND \<and> wr_qp wr = t \<and> unat (wr_length wr) = 12 + unat (data_size msg) \<and>
    wr_addr wr = dmr_addr (send_mr tr) + word_of_nat (send_pos tr msg) \<and> send_pos tr msg + unat (wr_length wr) \<le> SEND_REGION_SIZE \<and>
    rd_mem m (wr_addr wr) (unat (wr_length wr)) = Inr (msg_frame msg) \<and>
    tr' = tr\<lparr>send_mr := send_mr tr'\<rparr> \<and> dmr_addr (send_mr tr') = dmr_addr (send_mr tr) \<and>
    send_region_ok (p\<lparr>mem := m\<rparr>) tr' \<and>
    (\<forall>x. SEND_REGION_SIZE \<le> unat (x - dmr_addr (send_mr tr)) \<longrightarrow> m x = mem p x)"
proof -
  let ?pos = "send_pos tr msg" and ?n = "12 + unat (data_size msg)"
  let ?a = "dmr_addr (send_mr tr) + word_of_nat ?pos" and ?tr = "tr\<lparr>send_mr := (send_mr tr)\<lparr>cur_pos := word_of_nat (?pos + ?n)\<rparr>\<rparr>"
  obtain m where m: "wr_mem (mem p) ?a (msg_frame msg) = Inr m"
    and c: "dhmp_send_task_create e t tr msg p = Inr (Some (next_task p),
      p\<lparr>tasks := (tasks p)(next_task p \<mapsto> \<lparr>done_flag = False,
          task_sge = \<lparr>sge_addr = ?a, sge_length = word_of_nat ?n, sge_lkey = mr_lkey (dmr_mr (send_mr tr))\<rparr>,
          task_trans = t, task_smr = None, task_addr_info = 0\<rparr>),
        next_task := next_task p + 1, mem := m, transports := (transports p)(t \<mapsto> ?tr)\<rparr>)"
    using send_task_result(1) [OF assms(1) ok len fits] by blast
  have fit: "?pos + ?n \<le> SEND_REGION_SIZE" by (rule send_task_result(2) [OF assms(1) ok len fits])
  have lf: "length (msg_frame msg) = ?n" by (rule length_msg_frame [OF len])
  have small: "?n < 2 ^ 32" "?pos < 2 ^ 32" using fit by (simp_all add: SEND_REGION_SIZE_def)
  note un = unat_len32 [OF small(1)]
  have rd: "rd_mem m ?a ?n = Inr (msg_frame msg)" using rd_wr_mem [OF m] small lf by simp
  have other: "m x = mem p x" if x: "SEND_REGION_SIZE \<le> unat (x - dmr_addr (send_mr tr))" for x
  proof (rule wr_mem_other [OF m])
    have u: "unat (word_of_nat ?pos :: u64) = ?pos" using small by (intro unat_of_nat64) simp
    have "unat (x - ?a) = unat (x - dmr_addr (send_mr tr)) - ?pos"
      using x fit u unat_sub_if' [of "x - dmr_addr (send_mr tr)" "word_of_nat ?pos"] by (simp add: diff_diff_eq)
    then show "length (msg_frame msg) \<le> unat (x - ?a)" using x fit lf by simp
  qed
  have reg: "send_region_ok (p\<lparr>mem := m\<rparr>) ?tr" by (rule send_region_kept [OF ok m fit]) simp_all
  show ?thesis
    by (rule exI [of _ "(tasks p)(next_task p \<mapsto> \<lparr>done_flag = False,
          task_sge = \<lparr>sge_addr = ?a, sge_length = word_of_nat ?n, sge_lkey = mr_lkey (dmr_mr (send_mr tr))\<rparr>,
          task_trans = t, task_smr = None, task_addr_info = 0\<rparr>)"],
        rule exI [of _ "next_task p + 1"], rule exI [of _ m], rule exI [of _ ?tr],
        rule exI [of _ "\<lparr>wr_id = next_task p, wr_qp = t, wr_opcode = IBV_WR_SEND, wr_addr = ?a, wr_length = ucast (word_of_nat ?n :: u64),
          wr_lkey = mr_lkey (dmr_mr (send_mr tr)), wr_remote_addr = 0, wr_rkey = 0\<rparr>"])
      (use tr post c un rd fit reg other in \<open>simp add: dhmp_post_send_def make_wr_def\<close>)
qed

lemma frame_parse:
  assumes "0 \<le> msg_type msg" and "msg_type msg < 2 ^ 32"
  shows "msg_parse (msg_frame msg @ after) = \<lparr>msg_type = msg_type msg, data_size = data_size msg,
      data = take (unat (data_size msg)) (data msg) @ after\<rparr>"
  using assms by (simp add: msg_parse_def msg_frame_def le_val_le_bytes)

section \<open>Posting receive buffers\<close>

definition recv_wr_at :: "nat \<Rightarrow> dhmp_transport \<Rightarrow> nat \<Rightarrow> u64 \<Rightarrow> ibv_recv_wr" where
  "recv_wr_at t tr k a = \<lparr>rwr_id = k, rwr_qp = t, rwr_addr = a, rwr_length = 65536, rwr_lkey = mr_lkey (dmr_mr (recv_mr tr))\<rparr>"

lemma post_recv_result:
  assumes "malloc_ok e" and "transports p t = Some tr" and "trans_state tr \<le> DHMP_TRANSPORT_STATE_CONNECTED"
    and "\<forall>wr. \<not> recv_err e wr"
  shows "\<exists>p'. dhmp_post_recv e t a p = Inr p' \<and> transports p' = transports p \<and> next_task p' = next_task p + 1 \<and>
    recvs p' = recvs p @ [recv_wr_at t tr (next_task p) a] \<and> mem p' = mem p"
  using assms leD [OF assms(3)] by (simp add: dhmp_post_recv_def dhmp_recv_task_create_def new_task_def recv_wr_at_def SINGLE_NORM_RECV_REGION_def Let_def)

lemma post_recvs_result:
  assumes "malloc_ok e" and "trans_state tr \<le> DHMP_TRANSPORT_STATE_CONNECTED" and "\<forall>wr. \<not> recv_err e wr"
  shows "transports p t = Some tr \<Longrightarrow> \<exists>p'. post_recvs e t as p = Inr p' \<and> transports p' = transports p \<and> mem p' = mem p \<and>
    recvs p' = recvs p @ map2 (recv_wr_at t tr) [next_task p..<next_task p + length as] as"
proof (induction as arbitrary: p)
  case (Cons a as)
  obtain p1 where p1: "dhmp_post_recv e t a p = Inr p1" "transports p1 = transports p" "next_task p1 = next_task p + 1"
      "recvs p1 = recvs p @ [recv_wr_at t tr (next_task p) a]" "mem p1 = mem p"
    using post_recv_result [OF assms(1) Cons.prems assms(2,3)] by blast
  obtain p' where "post_recvs e t as p1 = Inr p'" "transports p' = transports p1" "mem p' = mem p1"
      "recvs p' = recvs p1 @ map2 (recv_wr_at t tr) [next_task p1..<next_task p1 + length as] as"
    using Cons.IH [of p1] Cons.prems p1(2) by auto
  with p1 show ?case by (simp add: upt_conv_Cons del: upt_Suc)
qed simp

section \<open>Properties\<close>

text \<open>C32: A control message that fits is sent as written: on a connected transport
  \<open>dhmp_post_send\<close> posts one send whose gather list is a stretch of the send region that
  holds the frame of the message, the cursor stays in the region, and the receiver reads
  back the type, the size and the data from these bytes, whatever follows them in its
  buffer.\<close>

theorem post_send_frames:
  assumes "malloc_ok e" and "transports p t = Some tr" and "trans_state tr = DHMP_TRANSPORT_STATE_CONNECTED"
    and "send_region_ok p tr" and "unat (data_size msg) \<le> length (data msg)"
    and "12 + unat (data_size msg) \<le> SEND_REGION_SIZE" and "\<forall>wr. \<not> post_err e wr"
    and "0 \<le> msg_type msg" and "msg_type msg < 2 ^ 32"
  shows "\<exists>p' wr bs tr'. dhmp_post_send e t msg p = Inr p' \<and> posted p' = posted p @ [wr] \<and> wr_opcode wr = IBV_WR_SEND \<and> wr_qp wr = t \<and>
    unat (wr_length wr) = 12 + unat (data_size msg) \<and>
    wr_addr wr = dmr_addr (send_mr tr) + word_of_nat (send_pos tr msg) \<and> send_pos tr msg + unat (wr_length wr) \<le> SEND_REGION_SIZE \<and>
    rd_mem (mem p') (wr_addr wr) (unat (wr_length wr)) = Inr bs \<and>
    transports p' t = Some tr' \<and> send_region_ok p' tr' \<and>
    msg_parse (bs @ after) = \<lparr>msg_type = msg_type msg, data_size = data_size msg,
      data = take (unat (data_size msg)) (data msg) @ after\<rparr>"
proof -
  obtain ts nt m tr' wr where r: "dhmp_post_send e t msg p =
      Inr (p\<lparr>tasks := ts, next_task := nt, mem := m, transports := (transports p)(t \<mapsto> tr'), posted := posted p @ [wr]\<rparr>)"
    "wr_opcode wr = IBV_WR_SEND" "wr_qp wr = t" "unat (wr_length wr) = 12 + unat (data_size msg)"
    "wr_addr wr = dmr_addr (send_mr tr) + word_of_nat (send_pos tr msg)" "send_pos tr msg + unat (wr_length wr) \<le> SEND_REGION_SIZE"
    "rd_mem m (wr_addr wr) (unat (wr_length wr)) = Inr (msg_frame msg)" "send_region_ok (p\<lparr>mem := m\<rparr>) tr'"
    using post_send_result [OF assms(1-7)] by blast
  then show ?thesis using frame_parse [OF assms(8,9)] by (auto simp: send_region_ok_def)
qed

theorem post_send_frames_witness:
  "let msg = \<lparr>msg_type = 12, data_size = 4, data = [1, 2, 3, 4]\<rparr>
   in \<exists>p' wr bs. dhmp_post_send demo_env 1 msg demo_proc = Inr p' \<and> posted p' = [wr] \<and> wr_addr wr = 0x100000000 \<and>
        rd_mem (mem p') (wr_addr wr) (unat (wr_length wr)) = Inr bs \<and> msg_parse (bs @ [9]) = msg\<lparr>data := [1, 2, 3, 4, 9]\<rparr>"
proof -
  let ?msg = "\<lparr>msg_type = 12, data_size = 4, data = [1, 2, 3, 4]\<rparr>"
  have pos: "send_pos demo_trans ?msg = 0" by (simp add: send_pos_def demo_trans_def Let_def SEND_REGION_SIZE_def)
  have "\<exists>p' wr bs tr'. dhmp_post_send demo_env 1 ?msg demo_proc = Inr p' \<and> posted p' = posted demo_proc @ [wr] \<and>
    wr_opcode wr = IBV_WR_SEND \<and> wr_qp wr = 1 \<and> unat (wr_length wr) = 12 + unat (data_size ?msg) \<and>
    wr_addr wr = dmr_addr (send_mr demo_trans) + word_of_nat (send_pos demo_trans ?msg) \<and>
    send_pos demo_trans ?msg + unat (wr_length wr) \<le> SEND_REGION_SIZE \<and>
    rd_mem (mem p') (wr_addr wr) (unat (wr_length wr)) = Inr bs \<and> transports p' 1 = Some tr' \<and> send_region_ok p' tr' \<and>
    msg_parse (bs @ [9]) = \<lparr>msg_type = msg_type ?msg, data_size = data_size ?msg, data = take (unat (data_size ?msg)) (data ?msg) @ [9]\<rparr>"
    by (rule post_send_frames)
      (simp_all add: demo_env_def demo_proc_def demo_trans_def send_region_ok_def mapped_def SEND_REGION_SIZE_def)
  then show ?thesis unfolding Let_def pos by (auto simp: demo_proc_def demo_trans_def)
qed

text \<open>\<open>dhmp_post_all_recv\<close> cuts the receive region into buffers: 8192 of them, or 8 on a
  polling transport, one after the other, each of 64 KiB, none past the end of the
  region. On a polling transport the buffers are 64 MiB apart, but only the first 64 KiB
  of each are offered.\<close>

lemma post_all_recv_covers:
  assumes "malloc_ok e" and "transports p t = Some tr" and "trans_state tr \<le> DHMP_TRANSPORT_STATE_CONNECTED"
    and "\<forall>wr. \<not> recv_err e wr"
  shows "\<exists>p' rs. dhmp_post_all_recv e t p = Inr p' \<and> recvs p' = recvs p @ rs \<and>
    length rs = (if is_poll_qp tr then 8 else 8192) \<and>
    (\<forall>i < length rs. let d = (if is_poll_qp tr then SINGLE_POLL_RECV_REGION else SINGLE_NORM_RECV_REGION) in
       rwr_addr (rs ! i) = dmr_addr (recv_mr tr) + word_of_nat (i * d) \<and>
       i * d + unat (rwr_length (rs ! i)) \<le> RECV_REGION_SIZE \<and> unat (rwr_length (rs ! i)) \<le> d)"
proof -
  define d where "d = (if is_poll_qp tr then SINGLE_POLL_RECV_REGION else SINGLE_NORM_RECV_REGION)"
  define as where "as = map (\<lambda>i. dmr_addr (recv_mr tr) + word_of_nat (i * d)) [0..<RECV_REGION_SIZE div d]"
  have n: "RECV_REGION_SIZE div d = (if is_poll_qp tr then 8 else 8192)"
    by (simp add: d_def RECV_REGION_SIZE_def SINGLE_POLL_RECV_REGION_def SINGLE_NORM_RECV_REGION_def)
  obtain p' where p': "post_recvs e t as p = Inr p'"
      "recvs p' = recvs p @ map2 (recv_wr_at t tr) [next_task p..<next_task p + length as] as"
    using post_recvs_result [OF assms(1,3,4,2)] by blast
  have "dhmp_post_all_recv e t p = Inr p'"
    using p'(1) assms(2) by (simp add: dhmp_post_all_recv_def as_def d_def Let_def)
  moreover have "i * d + 65536 \<le> RECV_REGION_SIZE \<and> 65536 \<le> d" if "i < RECV_REGION_SIZE div d" for i
    using that n by (auto simp: d_def RECV_REGION_SIZE_def SINGLE_POLL_RECV_REGION_def SINGLE_NORM_RECV_REGION_def split: if_splits)
  ultimately show ?thesis
    using p'(2) n by (intro exI [of _ p'] exI [of _ "map2 (recv_wr_at t tr) [next_task p..<next_task p + length as] as"])
      (auto simp: recv_wr_at_def as_def Let_def simp flip: d_def)
qed

lemma post_all_recv_covers_witness:
  "\<exists>p' rs. dhmp_post_all_recv demo_env 1 demo_proc = Inr p' \<and> recvs p' = rs \<and> length rs = 8192 \<and>
     rwr_addr (rs ! 8191) = 0x200000000 + word_of_nat (8191 * SINGLE_NORM_RECV_REGION)"
proof -
  obtain p' rs where r: "dhmp_post_all_recv demo_env 1 demo_proc = Inr p'" "recvs p' = recvs demo_proc @ rs"
    "length rs = (if is_poll_qp demo_trans then 8 else 8192)"
    "\<forall>i < length rs. let d = (if is_poll_qp demo_trans then SINGLE_POLL_RECV_REGION else SINGLE_NORM_RECV_REGION) in
       rwr_addr (rs ! i) = dmr_addr (recv_mr demo_trans) + word_of_nat (i * d) \<and>
       i * d + unat (rwr_length (rs ! i)) \<le> RECV_REGION_SIZE \<and> unat (rwr_length (rs ! i)) \<le> d"
    using post_all_recv_covers [of demo_env demo_proc 1 demo_trans]
    by (auto simp: demo_env_def demo_proc_def demo_trans_def)
  then have "length rs = 8192" "rwr_addr (rs ! 8191) = 0x200000000 + word_of_nat (8191 * SINGLE_NORM_RECV_REGION)"
    using r(4) [rule_format, of 8191] by (simp_all add: demo_trans_def Let_def)
  with r(1,2) show ?thesis by (auto simp: demo_proc_def)
qed

end
