(* ===== verification/RecvHandler.thy ===== *)
theory RecvHandler
  imports Transport
begin

text \<open>
  What a node does with a completion: \<open>mid_rdma_recv_handler.c\<close>, \<open>mid_rdma_cq_handler.c\<close> and the
  allocation functions of \<open>mid_rdma_utils.c\<close>. A received message is the contents of its
  receive buffer, and every struct is read from these bytes. A block from the allocator is
  mapped with the byte \<open>junk\<close>.
\<close>

section \<open>Registered memory\<close>

definition map_mem :: "memory \<Rightarrow> u64 \<Rightarrow> nat \<Rightarrow> byte \<Rightarrow> memory" where
  "map_mem m a n b = (\<lambda>x. if unat (x - a) < n then Some b else m x)"

definition unmap_mem :: "memory \<Rightarrow> u64 \<Rightarrow> nat \<Rightarrow> memory" where
  "unmap_mem m a n = (\<lambda>x. if unat (x - a) < n then None else m x)"

definition dhmp_memory_register :: "Env \<Rightarrow> nat \<Rightarrow> Proc \<Rightarrow> dhmp_mr option \<times> Proc" where
  "dhmp_memory_register e n p =
     (case malloc_at e n of
        None \<Rightarrow> (None, p)
      | Some a \<Rightarrow>
          (case reg_mr e a (word_of_nat n) of
             None \<Rightarrow> (None, p\<lparr>mem := unmap_mem (mem p) a n\<rparr>)
           | Some mr \<Rightarrow> (Some \<lparr>cur_pos = 0, dmr_addr = a, dmr_mr = mr\<rparr>,
               p\<lparr>mem := map_mem (mem p) a n (junk e), regs := regs p @ [mr]\<rparr>)))"

definition dhmp_memory_malloc_register :: "Env \<Rightarrow> u64 \<Rightarrow> Proc \<Rightarrow> ibv_mr option \<times> Proc" where
  "dhmp_memory_malloc_register e n p =
     (case numa_at e n of
        None \<Rightarrow> (None, p)
      | Some a \<Rightarrow>
          (case reg_mr e a n of
             None \<Rightarrow> (None, p\<lparr>mem := unmap_mem (mem p) a (unat n)\<rparr>)
           | Some mr \<Rightarrow>
               let mr' = mr\<lparr>mr_addr := a, mr_length := n\<rparr>
               in (Some mr', p\<lparr>mem := map_mem (mem p) a (unat n) (junk e), regs := regs p @ [mr']\<rparr>)))"

section \<open>Messages\<close>

definition data_at_least :: "nat \<Rightarrow> dhmp_msg \<Rightarrow> 'a res \<Rightarrow> 'a res" where
  "data_at_least n msg m = guardR (n \<le> length (data msg)) UB m"

definition mk_msg :: "dhmp_msg_type \<Rightarrow> byte list \<Rightarrow> dhmp_msg" where
  "mk_msg ty bs = \<lparr>msg_type = msg_code ty, data_size = word_of_nat (length bs), data = bs\<rparr>"

text \<open>In the error reply the registration is left unset; it is all zeros here and the
  receiver does not look at it.\<close>

definition dhmp_malloc_request_handler :: "Env \<Rightarrow> nat \<Rightarrow> dhmp_msg \<Rightarrow> Proc \<Rightarrow> Proc res" where
  "dhmp_malloc_request_handler e t msg p =
     data_at_least 16 msg (guardR (has_dev e) UB
       (let req_info = dec_mc_request (data msg);
            re_length = mc_req_size req_info
        in case dhmp_memory_malloc_register e re_length p of
             (None, p1) \<Rightarrow>
               dhmp_post_send e t (mk_msg DHMP_MSG_MALLOC_ERROR (enc_mc_response \<lparr>mc_req_info = req_info, mc_mr = null_mr\<rparr>)) p1
           | (Some mr, p1) \<Rightarrow>
               bindR (dhmp_post_send e t (mk_msg DHMP_MSG_MALLOC_RESPONSE (enc_mc_response \<lparr>mc_req_info = req_info, mc_mr = mr\<rparr>)) p1) (\<lambda>p2.
                 case transports p2 t of
                   None \<Rightarrow> Inl UB
                 | Some tr \<Rightarrow> Inr (p2\<lparr>transports := (transports p2)(t \<mapsto> tr\<lparr>nvm_used_size := nvm_used_size tr + mr_length mr\<rparr>)\<rparr>))))"

definition dhmp_malloc_response_handler :: "dhmp_msg \<Rightarrow> Proc \<Rightarrow> Proc res" where
  "dhmp_malloc_response_handler msg p =
     data_at_least 64 msg
       (let r = dec_mc_response (data msg);
            ai = mc_addr_info (mc_req_info r)
        in case infos p ai of
             None \<Rightarrow> Inl UB
           | Some i \<Rightarrow> Inr (p\<lparr>infos := (infos p)(ai \<mapsto> i\<lparr>read_cnt := 0, write_cnt := 0, nvm_mr := mc_mr r\<rparr>)\<rparr>))"

text \<open>\<open>sizeof(LocalRingbuff)\<close> and the offsets of the fields the handler sets: the pointers and
  the size at 0, 4 and 8, \<open>buff_addr\<close> at 16, \<open>buff_mr\<close> at 24 with its cursor first and its address
  second, \<open>rd_key_pointer\<close> at 48. The pointer to the registration in \<open>buff_mr\<close> is \<open>recv_ring\<close>.\<close>

definition sizeof_LocalRingbuff :: nat where
  "sizeof_LocalRingbuff = 56"

definition TOTAL_SIZE_n :: nat where
  "TOTAL_SIZE_n = 64"

definition init_ring :: "u64 \<Rightarrow> u64 \<Rightarrow> memory \<Rightarrow> memory res" where
  "init_ring a b m =
     bindR (wr_mem m a (pack [(4, 0), (4, 0), (4, int TOTAL_SIZE_n)])) (\<lambda>m1.
       bindR (wr_mem m1 (a + 48) (pack [(4, 0)])) (\<lambda>m2.
         bindR (wr_mem m2 (a + 16) (pack [(8, uint b), (8, 0), (8, uint b)])) (\<lambda>m3.
           wr_mem m3 b (replicate TOTAL_SIZE_n 0))))"

definition make_recv_ring :: "Env \<Rightarrow> Proc \<Rightarrow> ((ibv_mr \<times> ibv_mr) option \<times> Proc) res" where
  "make_recv_ring e p = guardR (malloc_ok e) UB
     (case dhmp_memory_register e sizeof_LocalRingbuff p of
        (None, p1) \<Rightarrow> Inr (None, p1)
      | (Some mate, p1) \<Rightarrow>
          (case dhmp_memory_register e TOTAL_SIZE_n p1 of
             (None, p2) \<Rightarrow> Inr (None, p2\<lparr>regs := remove1 (dmr_mr mate) (regs p2), mem := unmap_mem (mem p2) (dmr_addr mate) sizeof_LocalRingbuff\<rparr>)
           | (Some buff, p2) \<Rightarrow>
               bindR (init_ring (dmr_addr mate) (dmr_addr buff) (mem p2)) (\<lambda>m.
                 Inr (Some (dmr_mr mate, dmr_mr buff), p2\<lparr>mem := m, recv_ring := Some (dmr_mr mate, dmr_mr buff)\<rparr>))))"

definition dhmp_malloc_buff_request_handler :: "Env \<Rightarrow> nat \<Rightarrow> dhmp_msg \<Rightarrow> Proc \<Rightarrow> Proc res" where
  "dhmp_malloc_buff_request_handler e t msg p =
     data_at_least 32 msg (guardR (has_dev e) UB
       (let response = (\<lambda>mate buff. enc_buff_response \<lparr>bp_req_info = dec_buff_request (data msg), bp_mr_buff = mate,
              bp_mr_data = buff, bp_node_id = word_of_int (server_id p)\<rparr>)
        in bindR (case recv_ring p of Some r \<Rightarrow> Inr (Some r, p) | None \<Rightarrow> make_recv_ring e p) (\<lambda>(ring, p1).
             case ring of
               Some (mate, buff) \<Rightarrow> dhmp_post_send e t (mk_msg DHMP_BUFF_MALLOC_RESPONSE (response mate buff)) p1
             | None \<Rightarrow> dhmp_post_send e t (mk_msg DHMP_BUFF_MALLOC_ERROR (response null_mr null_mr)) p1)))"

definition set_nvm :: "ibv_mr \<Rightarrow> u64 \<Rightarrow> infos \<Rightarrow> infos res" where
  "set_nvm mr ai ifs =
     (case ifs ai of None \<Rightarrow> Inl UB | Some i \<Rightarrow> Inr (ifs(ai \<mapsto> i\<lparr>read_cnt := 0, write_cnt := 0, nvm_mr := mr\<rparr>)))"

definition dhmp_malloc_buff_response_handler :: "dhmp_msg \<Rightarrow> Proc \<Rightarrow> Proc res" where
  "dhmp_malloc_buff_response_handler msg p =
     data_at_least 136 msg
       (let r = dec_buff_response (data msg); q = bp_req_info r
        in bindR (set_nvm (bp_mr_data r) (bq_buff_addr_info q) (infos p)) (\<lambda>i1.
             bindR (set_nvm (bp_mr_buff r) (bq_buff_mate_addr_info q) i1) (\<lambda>i2.
               case works p (bq_work q) of
                 Some (DHMP_BUFF_MALLOC w) \<Rightarrow>
                   Inr (p\<lparr>infos := i2, works := (works p)(bq_work q \<mapsto> DHMP_BUFF_MALLOC (w\<lparr>bw_done_recv := True\<rparr>))\<rparr>)
               | _ \<Rightarrow> Inl UB)))"

text \<open>Three handlers have empty bodies.\<close>

definition dhmp_malloc_error_handler :: "Proc \<Rightarrow> Proc" where
  "dhmp_malloc_error_handler p = p"

definition dhmp_free_request_handler :: "Proc \<Rightarrow> Proc" where
  "dhmp_free_request_handler p = p"

definition dhmp_free_response_handler :: "Proc \<Rightarrow> Proc" where
  "dhmp_free_response_handler p = p"

definition dhmp_send_request_handler :: "Env \<Rightarrow> nat \<Rightarrow> dhmp_msg \<Rightarrow> Proc \<Rightarrow> Proc res" where
  "dhmp_send_request_handler e t msg p =
     data_at_least 40 msg
       (let r = dec_send_request (data msg);
            n = unat (sr_req_size r)
        in if sr_is_write r
           then data_at_least (40 + n) msg
             (bindR (wr_mem (mem p) (sr_server_addr r) (take n (drop 40 (data msg)))) (\<lambda>m.
               dhmp_post_send e t (mk_msg DHMP_MSG_SEND_RESPONSE (enc_send_request r)) (p\<lparr>mem := m\<rparr>)))
           else guardR (malloc_ok e) UB
             (bindR (rd_mem (mem p) (sr_server_addr r) n) (\<lambda>bs.
               dhmp_post_send e t (mk_msg DHMP_MSG_SEND_RESPONSE (enc_send_request r @ bs)) p)))"

definition dhmp_send_response_handler :: "dhmp_msg \<Rightarrow> Proc \<Rightarrow> Proc res" where
  "dhmp_send_response_handler msg p =
     data_at_least 40 msg
       (let r = dec_send_request (data msg);
            n = unat (sr_req_size r)
        in bindR (if sr_is_write r then Inr (mem p)
                  else data_at_least (40 + n) msg (wr_mem (mem p) (sr_local_addr r) (take n (drop 40 (data msg))))) (\<lambda>m.
             case works p (sr_task r) of
               Some (DHMP_WORK_SEND w) \<Rightarrow>
                 Inr (p\<lparr>mem := m, works := (works p)(sr_task r \<mapsto> DHMP_WORK_SEND (w\<lparr>sw_recv_flag := True\<rparr>))\<rparr>)
             | _ \<Rightarrow> Inl UB))"

definition dhmp_wc_recv_handler :: "Env \<Rightarrow> nat \<Rightarrow> dhmp_msg \<Rightarrow> Proc \<Rightarrow> Proc res" where
  "dhmp_wc_recv_handler e t msg p =
     (case msg_type_of (msg_type msg) of
        Some DHMP_MSG_MALLOC_REQUEST \<Rightarrow> dhmp_malloc_request_handler e t msg p
      | Some DHMP_MSG_MALLOC_RESPONSE \<Rightarrow> dhmp_malloc_response_handler msg p
      | Some DHMP_MSG_MALLOC_ERROR \<Rightarrow> Inr (dhmp_malloc_error_handler p)
      | Some DHMP_MSG_FREE_REQUEST \<Rightarrow> Inr (dhmp_free_request_handler p)
      | Some DHMP_MSG_FREE_RESPONSE \<Rightarrow> Inr (dhmp_free_response_handler p)
      | Some DHMP_MSG_SEND_REQUEST \<Rightarrow> dhmp_send_request_handler e t msg p
      | Some DHMP_MSG_SEND_RESPONSE \<Rightarrow> dhmp_send_response_handler msg p
      | Some DHMP_BUFF_MALLOC_REQUEST \<Rightarrow> dhmp_malloc_buff_request_handler e t msg p
      | Some DHMP_BUFF_MALLOC_RESPONSE \<Rightarrow> dhmp_malloc_buff_response_handler msg p
      | Some DHMP_MSG_CLOSE_CONNECTION \<Rightarrow> Inr (p\<lparr>disconnects := disconnects p @ [t]\<rparr>)
      | _ \<Rightarrow> Inr p)"

section \<open>Completions\<close>

text \<open>The handler reads the twelve bytes of a message header from the buffer of every task,
  also when the task is no receive.\<close>

definition dhmp_wc_success_handler :: "Env \<Rightarrow> nat \<Rightarrow> ibv_wc_opcode \<Rightarrow> Proc \<Rightarrow> Proc res" where
  "dhmp_wc_success_handler e k opcode p =
     (case tasks p k of
        None \<Rightarrow> Inl UB
      | Some task \<Rightarrow>
          let a = sge_addr (task_sge task)
          in bindR (rd_mem (mem p) a 12) (\<lambda>_.
               case opcode of
                 IBV_WC_SEND \<Rightarrow> Inr p
               | IBV_WC_RECV \<Rightarrow>
                   bindR (rd_mem (mem p) a (unat (sge_length (task_sge task)))) (\<lambda>bs.
                     bindR (dhmp_wc_recv_handler e (task_trans task) (msg_parse bs) p) (dhmp_post_recv e (task_trans task) a))
               | IBV_WC_RDMA_WRITE \<Rightarrow>
                   (case infos p (task_addr_info task) of
                      None \<Rightarrow> Inl UB
                    | Some i \<Rightarrow> Inr (p\<lparr>infos := (infos p)(task_addr_info task \<mapsto> i\<lparr>write_flag := False\<rparr>),
                                       tasks := (tasks p)(k \<mapsto> task\<lparr>done_flag := True\<rparr>)\<rparr>))
               | IBV_WC_RDMA_READ \<Rightarrow> Inr (p\<lparr>tasks := (tasks p)(k \<mapsto> task\<lparr>done_flag := True\<rparr>)\<rparr>)
               | _ \<Rightarrow> Inr p))"

datatype ibv_wc_status =
    IBV_WC_SUCCESS | IBV_WC_LOC_LEN_ERR | IBV_WC_LOC_QP_OP_ERR | IBV_WC_LOC_EEC_OP_ERR | IBV_WC_LOC_PROT_ERR
  | IBV_WC_WR_FLUSH_ERR | IBV_WC_MW_BIND_ERR | IBV_WC_BAD_RESP_ERR | IBV_WC_LOC_ACCESS_ERR | IBV_WC_REM_INV_REQ_ERR
  | IBV_WC_REM_ACCESS_ERR | IBV_WC_REM_OP_ERR | IBV_WC_RETRY_EXC_ERR | IBV_WC_RNR_RETRY_EXC_ERR | IBV_WC_LOC_RDD_VIOL_ERR
  | IBV_WC_REM_INV_RD_REQ_ERR | IBV_WC_REM_ABORT_ERR | IBV_WC_INV_EECN_ERR | IBV_WC_INV_EEC_STATE_ERR | IBV_WC_FATAL_ERR
  | IBV_WC_RESP_TIMEOUT_ERR | IBV_WC_GENERAL_ERR | IBV_WC_TM_ERR | IBV_WC_TM_RNDV_INCOMPLETE

text \<open>Errors are only logged.\<close>

definition dhmp_wc_error_handler :: "ibv_wc_status \<Rightarrow> Proc \<Rightarrow> Proc" where
  "dhmp_wc_error_handler st p = p"

record ibv_wc =
  wc_id :: nat
  wc_status :: ibv_wc_status
  wc_opcode :: ibv_wc_opcode

fun poll_cq :: "Env \<Rightarrow> ibv_wc list \<Rightarrow> Proc \<Rightarrow> Proc res" where
  "poll_cq e [] p = Inr p"
| "poll_cq e (wc # wcs) p =
     bindR (if wc_status wc = IBV_WC_SUCCESS then dhmp_wc_success_handler e (wc_id wc) (wc_opcode wc) p
            else Inr (dhmp_wc_error_handler (wc_status wc) p)) (poll_cq e wcs)"

text \<open>\<open>get_err\<close> and \<open>notify_err\<close> are the results of \<open>ibv_get_cq_event\<close> and \<open>ibv_req_notify_cq\<close>,
  \<open>wcs\<close> the completions \<open>ibv_poll_cq\<close> delivers.\<close>

definition dhmp_comp_channel_handler :: "Env \<Rightarrow> bool \<Rightarrow> bool \<Rightarrow> ibv_wc list \<Rightarrow> Proc \<Rightarrow> Proc res" where
  "dhmp_comp_channel_handler e get_err notify_err wcs p =
     (if get_err then Inr p else if notify_err then Inr p else poll_cq e wcs p)"

end
