(* ===== verification/ClientWork.thy ===== *)
theory ClientWork
  imports RecvHandler
begin

text \<open>
  The client: the work handlers and the work thread of \<open>mid_client_work.c\<close>, the calls of
  \<open>mid_rdma_top_api.c\<close> and the node selection of \<open>mid_rdma_utils.c\<close>. A call of the API puts a
  work on \<open>work_list\<close> and waits for its flag; the work thread takes it off, runs the handler
  and sets the flag. Every busy wait has the argument \<open>others\<close>, what the other threads do
  while the caller waits; a wait that they do not end is \<open>Spin\<close>.
\<close>

section \<open>Waiting\<close>

definition wait_until :: "(Proc \<Rightarrow> bool) \<Rightarrow> (Proc \<Rightarrow> Proc) \<Rightarrow> Proc \<Rightarrow> Proc res" where
  "wait_until c others p = (if c p then Inr p else let p' = others p in guardR (c p') Spin (Inr p'))"

definition info_at :: "Proc \<Rightarrow> u64 \<Rightarrow> dhmp_addr_info res" where
  "info_at p ai = (case infos p ai of None \<Rightarrow> Inl UB | Some i \<Rightarrow> Inr i)"

definition set_info :: "u64 \<Rightarrow> dhmp_addr_info \<Rightarrow> Proc \<Rightarrow> Proc" where
  "set_info ai i p = p\<lparr>infos := (infos p)(ai \<mapsto> i)\<rparr>"

definition set_work :: "u64 \<Rightarrow> dhmp_work \<Rightarrow> Proc \<Rightarrow> Proc" where
  "set_work w k p = p\<lparr>works := (works p)(w \<mapsto> k)\<rparr>"

text \<open>\<open>while(addr_info->write_flag);\<close>\<close>

definition wait_write_flag :: "(Proc \<Rightarrow> Proc) \<Rightarrow> u64 \<Rightarrow> Proc \<Rightarrow> Proc res" where
  "wait_write_flag others ai p =
     bindR (wait_until (\<lambda>q. infos q ai = None \<or> \<not> write_flag (the (infos q ai))) others p) (\<lambda>q.
       bindR (info_at q ai) (\<lambda>_. Inr q))"

definition lookup_info :: "Proc \<Rightarrow> u64 \<Rightarrow> u64 option res" where
  "lookup_info p dhmp_addr =
     dhmp_get_addr_info_from_ht (infos p) (addr_info_ht p) (dhmp_hash_in_client dhmp_addr) dhmp_addr"

definition insert_info :: "u64 \<Rightarrow> u64 \<Rightarrow> Proc \<Rightarrow> Proc res" where
  "insert_info dhmp_addr ai p =
     bindR (dhmp_addr_info_insert_ht dhmp_addr ai (infos p) (addr_info_ht p)) (\<lambda>(ifs, ht).
       Inr (p\<lparr>infos := ifs, addr_info_ht := ht\<rparr>))"

text \<open>A \<open>size_t\<close> passed as \<open>int\<close>.\<close>

definition int_of_size :: "u64 \<Rightarrow> int" where
  "int_of_size n = signed_take_bit 31 (uint n)"

section \<open>Handlers\<close>

definition send_req :: "u64 \<Rightarrow> dhmp_send_work \<Rightarrow> u64 \<Rightarrow> dhmp_send_request" where
  "send_req w sw a = \<lparr>sr_req_size = sw_length sw, sr_server_addr = a, sr_task = w, sr_local_addr = sw_local_addr sw,
     sr_is_write = sw_is_write sw\<rparr>"

definition dhmp_rdma_send :: "Env \<Rightarrow> (Proc \<Rightarrow> Proc) \<Rightarrow> u64 \<Rightarrow> dhmp_send_work \<Rightarrow> u64 \<Rightarrow> Proc \<Rightarrow> Proc res" where
  "dhmp_rdma_send e others w sw server_addr p =
     (let req = send_req w sw server_addr
      in bindR (if sw_is_write sw
                then guardR (malloc_ok e) UB
                  (bindR (rd_mem (mem p) (sw_local_addr sw) (unat (sw_length sw))) (\<lambda>bs.
                     Inr (mk_msg DHMP_MSG_SEND_REQUEST (enc_send_request req @ bs))))
                else Inr (mk_msg DHMP_MSG_SEND_REQUEST (enc_send_request req))) (\<lambda>msg.
           bindR (dhmp_post_send e (sw_trans sw) msg p) (\<lambda>p1.
             let received = (\<lambda>q. case works q w of Some (DHMP_WORK_SEND sw') \<Rightarrow> sw_recv_flag sw' | _ \<Rightarrow> False)
             in bindR (wait_until received others p1) (\<lambda>p2.
                  case works p2 w of
                    Some (DHMP_WORK_SEND sw') \<Rightarrow> Inr (set_work w (DHMP_WORK_SEND (sw'\<lparr>sw_done := True\<rparr>)) p2)
                  | _ \<Rightarrow> Inl UB))))"

text \<open>What the handler of an allocation does once the wait is over.\<close>

definition malloc_work_rest :: "u64 \<Rightarrow> dhmp_malloc_work \<Rightarrow> Proc \<Rightarrow> Proc res" where
  "malloc_work_rest w mw p2 =
     (let ai = mw_addr_info mw
      in bindR (info_at p2 ai) (\<lambda>i.
           if mr_addr (nvm_mr i) = 0
           then Inr (set_work w (DHMP_WORK_MALLOC (mw\<lparr>mw_res_addr := 0, mw_done := True\<rparr>)) (p2\<lparr>infos := (infos p2)(ai := None)\<rparr>))
           else
             let res_addr = dhmp_transfer_dhmp_addr (connect_trans p2) (mw_trans mw) (mr_addr (nvm_mr i));
                 i' = i\<lparr>node_index := dhmp_get_node_index_from_addr res_addr, write_flag := False\<rparr>
             in bindR (insert_info res_addr ai (set_info ai i' p2)) (\<lambda>p3.
                  Inr (set_work w (DHMP_WORK_MALLOC (mw\<lparr>mw_res_addr := res_addr, mw_done := True\<rparr>)) p3))))"

definition dhmp_malloc_work_handler :: "Env \<Rightarrow> (Proc \<Rightarrow> Proc) \<Rightarrow> u64 \<Rightarrow> dhmp_malloc_work \<Rightarrow> Proc \<Rightarrow> Proc res" where
  "dhmp_malloc_work_handler e others w mw p =
     (let ai = mw_addr_info mw;
          msg = mk_msg DHMP_MSG_MALLOC_REQUEST (enc_mc_request \<lparr>mc_req_size = mw_length mw, mc_addr_info = ai\<rparr>)
      in bindR (dhmp_post_send e (mw_trans mw) msg p) (\<lambda>p1.
           bindR (wait_until (\<lambda>q. infos q ai = None \<or> mr_length (nvm_mr (the (infos q ai))) \<noteq> 0) others p1)
             (malloc_work_rest w mw)))"

definition dhmp_buff_malloc_work_handler :: "Env \<Rightarrow> (Proc \<Rightarrow> Proc) \<Rightarrow> u64 \<Rightarrow> dhmp_buff_malloc_work \<Rightarrow> Proc \<Rightarrow> Proc res" where
  "dhmp_buff_malloc_work_handler e others w bw p =
     (let ai = bw_buff_addr_info bw; mi = bw_buff_mate_addr_info bw;
          msg = mk_msg DHMP_BUFF_MALLOC_REQUEST (enc_buff_request \<lparr>bq_node_id = word_of_int (client_node_id p), bq_work = w,
                  bq_buff_addr_info = ai, bq_buff_mate_addr_info = mi\<rparr>);
          received = (\<lambda>q. case works q w of Some (DHMP_BUFF_MALLOC b) \<Rightarrow> bw_done_recv b | _ \<Rightarrow> False)
      in bindR (dhmp_post_send e (bw_trans bw) msg p) (\<lambda>p1.
           bindR (wait_until received others p1) (\<lambda>p2.
             bindR (info_at p2 ai) (\<lambda>i. bindR (info_at p2 mi) (\<lambda>j.
               if mr_addr (nvm_mr i) = 0 \<or> mr_addr (nvm_mr j) = 0
               then Inr (set_work w (DHMP_BUFF_MALLOC (bw\<lparr>bw_buff_addr := mr_addr (nvm_mr i), bw_buff_mate_addr := mr_addr (nvm_mr j),
                      bw_done_recv := True, bw_done := True\<rparr>)) (p2\<lparr>infos := (infos p2)(ai := None, mi := None)\<rparr>))
               else
                 let buff = dhmp_transfer_dhmp_addr (connect_trans p2) (bw_trans bw) (mr_addr (nvm_mr i));
                     mate = dhmp_transfer_dhmp_addr (connect_trans p2) (bw_trans bw) (mr_addr (nvm_mr j));
                     i' = i\<lparr>node_index := dhmp_get_node_index_from_addr buff, write_flag := False\<rparr>;
                     j' = j\<lparr>node_index := dhmp_get_node_index_from_addr mate, write_flag := False\<rparr>
                 in bindR (insert_info buff ai (set_info mi j' (set_info ai i' p2))) (\<lambda>p3.
                      bindR (insert_info mate mi p3) (\<lambda>p4.
                        Inr (set_work w (DHMP_BUFF_MALLOC (bw\<lparr>bw_buff_addr := buff, bw_buff_mate_addr := mate,
                          bw_done_recv := True, bw_done := True\<rparr>)) p4))))))))"

definition dhmp_free_work_handler :: "Env \<Rightarrow> (Proc \<Rightarrow> Proc) \<Rightarrow> u64 \<Rightarrow> dhmp_free_work \<Rightarrow> Proc \<Rightarrow> Proc res" where
  "dhmp_free_work_handler e others w fw p =
     (let finish = set_work w (DHMP_WORK_FREE (fw\<lparr>fw_done := True\<rparr>))
      in bindR (lookup_info p (fw_dhmp_addr fw)) (\<lambda>r.
           case r of
             None \<Rightarrow> Inr (finish p)
           | Some ai \<Rightarrow>
               bindR (info_at p ai) (\<lambda>i.
                 let p1 = p\<lparr>addr_info_ht := ht_del (dhmp_hash_in_client (fw_dhmp_addr fw)) ai (addr_info_ht p)\<rparr>;
                     msg = mk_msg DHMP_MSG_FREE_REQUEST (enc_free_request \<lparr>fr_addr_info = ai, fr_mr = nvm_mr i\<rparr>)
                 in bindR (dhmp_post_send e (fw_trans fw) msg p1) (\<lambda>p2.
                      bindR (wait_until (\<lambda>q. infos q ai = None \<or> mr_addr (nvm_mr (the (infos q ai))) = 0) others p2) (\<lambda>p3.
                        bindR (info_at p3 ai) (\<lambda>_. Inr (finish (p3\<lparr>infos := (infos p3)(ai := None)\<rparr>))))))))"

definition dhmp_read_work_handler :: "Env \<Rightarrow> (Proc \<Rightarrow> Proc) \<Rightarrow> u64 \<Rightarrow> dhmp_rw_work \<Rightarrow> Proc \<Rightarrow> Proc res" where
  "dhmp_read_work_handler e others w rw p =
     (let finish = set_work w (DHMP_WORK_READ (rw\<lparr>rw_done := True\<rparr>))
      in bindR (lookup_info p (rw_dhmp_addr rw)) (\<lambda>r.
           case r of
             None \<Rightarrow> Inr (finish p)
           | Some ai \<Rightarrow>
               bindR (wait_write_flag others ai p) (\<lambda>p1.
                 bindR (info_at p1 ai) (\<lambda>i.
                   bindR (dhmp_rdma_read e others (rw_trans rw) (nvm_mr i) (rw_local_addr rw) (int_of_size (rw_length rw)) (rw_offset rw)
                            (set_info ai (i\<lparr>read_cnt := read_cnt i + 1\<rparr>) p1)) (\<lambda>(_, p2). Inr (finish p2))))))"

definition dhmp_write_work_handler :: "Env \<Rightarrow> (Proc \<Rightarrow> Proc) \<Rightarrow> u64 \<Rightarrow> dhmp_rw_work \<Rightarrow> Proc \<Rightarrow> Proc res" where
  "dhmp_write_work_handler e others w rw p =
     (let finish = set_work w (DHMP_WORK_WRITE (rw\<lparr>rw_done := True\<rparr>))
      in bindR (lookup_info p (rw_dhmp_addr rw)) (\<lambda>r.
           case r of
             None \<Rightarrow> Inr (finish p)
           | Some ai \<Rightarrow>
               bindR (wait_write_flag others ai p) (\<lambda>p1.
                 bindR (info_at p1 ai) (\<lambda>i.
                   bindR (dhmp_rdma_write e others (rw_trans rw) ai (nvm_mr i) (rw_local_addr rw) (int_of_size (rw_length rw)) (rw_offset rw)
                            (set_info ai (i\<lparr>write_flag := True, write_cnt := write_cnt i + 1\<rparr>) p1)) (\<lambda>(_, p2). Inr (finish p2))))))"

text \<open>The label \<open>out\<close> uses \<open>addr_info\<close> also when the lookup gave \<open>NULL\<close>. The flag of the work is set here a
  second time, after \<open>dhmp_rdma_send\<close>; the work must still be allocated then.\<close>

definition dhmp_send_work_handler :: "Env \<Rightarrow> (Proc \<Rightarrow> Proc) \<Rightarrow> u64 \<Rightarrow> dhmp_send_work \<Rightarrow> Proc \<Rightarrow> Proc res" where
  "dhmp_send_work_handler e others w sw p =
     bindR (lookup_info p (sw_dhmp_addr sw)) (\<lambda>r.
       case r of
         None \<Rightarrow> Inl UB
       | Some ai \<Rightarrow>
           bindR (wait_write_flag others ai p) (\<lambda>p1.
             bindR (info_at p1 ai) (\<lambda>i.
               let i1 = i\<lparr>write_flag := True\<rparr>;
                   i2 = (if sw_is_write sw then i1\<lparr>write_cnt := write_cnt i + 1\<rparr> else i1\<lparr>read_cnt := read_cnt i + 1\<rparr>)
               in bindR (dhmp_rdma_send e others w sw (mr_addr (nvm_mr i)) (set_info ai i2 p1)) (\<lambda>p2.
                    bindR (info_at p2 ai) (\<lambda>j.
                      let p3 = set_info ai (j\<lparr>write_flag := False\<rparr>) p2
                      in case works p3 w of
                           Some (DHMP_WORK_SEND sw') \<Rightarrow> Inr (set_work w (DHMP_WORK_SEND (sw'\<lparr>sw_done := True\<rparr>)) p3)
                         | _ \<Rightarrow> Inl UB)))))"

definition dhmp_close_work_handler :: "Env \<Rightarrow> u64 \<Rightarrow> dhmp_close_work \<Rightarrow> Proc \<Rightarrow> Proc res" where
  "dhmp_close_work_handler e w cw p =
     bindR (dhmp_post_send e (cw_trans cw) (mk_msg DHMP_MSG_CLOSE_CONNECTION (int_bytes 0)) p) (\<lambda>p1.
       Inr (set_work w (DHMP_WORK_CLOSE (cw\<lparr>cw_done := True\<rparr>)) p1))"

text \<open>One turn of \<open>dhmp_work_handle_thread\<close>. The list holds the works in order of arrival.\<close>

definition work_thread_turn :: "Env \<Rightarrow> (Proc \<Rightarrow> Proc) \<Rightarrow> Proc \<Rightarrow> Proc res" where
  "work_thread_turn e others p =
     (case work_list p of
        [] \<Rightarrow> Inr p
      | w # ws \<Rightarrow>
          let p1 = p\<lparr>work_list := ws\<rparr>
          in (case works p1 w of
                None \<Rightarrow> Inl UB
              | Some (DHMP_WORK_MALLOC mw) \<Rightarrow> dhmp_malloc_work_handler e others w mw p1
              | Some (DHMP_WORK_FREE fw) \<Rightarrow> dhmp_free_work_handler e others w fw p1
              | Some (DHMP_WORK_READ rw) \<Rightarrow> dhmp_read_work_handler e others w rw p1
              | Some (DHMP_WORK_WRITE rw) \<Rightarrow> dhmp_write_work_handler e others w rw p1
              | Some (DHMP_WORK_SEND sw) \<Rightarrow> dhmp_send_work_handler e others w sw p1
              | Some (DHMP_WORK_CLOSE cw) \<Rightarrow> dhmp_close_work_handler e w cw p1
              | Some (DHMP_BUFF_MALLOC bw) \<Rightarrow> dhmp_buff_malloc_work_handler e others w bw p1
              | Some DHMP_WORK_POLL \<Rightarrow> Inr p1
              | Some DHMP_WORK_DONE \<Rightarrow> Inr p1))"

end
