(* ===== verification/TopApi.thy ===== *)
theory TopApi
  imports ClientWork
begin

text \<open>
  The calls of \<open>mid_rdma_top_api.c\<close> and the small functions of \<open>mid_rdma_utils.c\<close> they use. The
  argument \<open>w\<close> is the address of the work struct on the caller's stack, \<open>ai\<close> and \<open>mi\<close> what
  \<open>malloc\<close> returns for a \<open>dhmp_addr_info\<close>; \<open>others\<close> includes the work thread.
\<close>

section \<open>Nodes\<close>

definition dhmp_node_select_by_id :: "Proc \<Rightarrow> int \<Rightarrow> nat option res" where
  "dhmp_node_select_by_id p node_id =
     guardR (0 \<le> node_id \<and> node_id < int (length (connect_trans p))) UB
       (case connect_trans p ! nat node_id of
          None \<Rightarrow> Inr None
        | Some t \<Rightarrow>
            (case transports p t of
               None \<Rightarrow> Inl UB
             | Some tr \<Rightarrow> Inr (if trans_state tr = DHMP_TRANSPORT_STATE_CONNECTED then Some t else None)))"

text \<open>The first node with a connection, or \<open>-1\<close>; a count above the size of the array runs
  past its end.\<close>

fun find_server_from :: "nat option list \<Rightarrow> int \<Rightarrow> nat \<Rightarrow> int res" where
  "find_server_from ct i 0 = Inr (- 1)"
| "find_server_from [] i (Suc n) = Inl UB"
| "find_server_from (c # ct) i (Suc n) = (if c \<noteq> None then Inr i else find_server_from ct (i + 1) n)"

definition client_find_server_id :: "Proc \<Rightarrow> nat \<Rightarrow> int res" where
  "client_find_server_id p nets_cnt = find_server_from (connect_trans p) 0 nets_cnt"

definition find_next_node :: "int \<Rightarrow> int \<Rightarrow> int" where
  "find_next_node nets_cnt node = (if node \<ge> nets_cnt - 1 then - 1 else node + 1)"

text \<open>The transport of an address when it can be used.\<close>

definition usable_trans :: "Proc \<Rightarrow> u64 \<Rightarrow> nat option res" where
  "usable_trans p dhmp_addr =
     bindR (dhmp_get_trans_from_addr (connect_trans p) dhmp_addr) (\<lambda>r.
       case r of
         None \<Rightarrow> Inr None
       | Some t \<Rightarrow>
           (case transports p t of
              None \<Rightarrow> Inl UB
            | Some tr \<Rightarrow> Inr (if trans_state tr \<noteq> DHMP_TRANSPORT_STATE_CONNECTED then None else Some t)))"

section \<open>Calls\<close>

fun work_done :: "dhmp_work \<Rightarrow> bool" where
  "work_done (DHMP_WORK_MALLOC k) = mw_done k"
| "work_done (DHMP_WORK_FREE k) = fw_done k"
| "work_done (DHMP_WORK_READ k) = rw_done k"
| "work_done (DHMP_WORK_WRITE k) = rw_done k"
| "work_done (DHMP_WORK_CLOSE k) = cw_done k"
| "work_done (DHMP_WORK_SEND k) = sw_done k"
| "work_done (DHMP_BUFF_MALLOC k) = bw_done k"
| "work_done DHMP_WORK_POLL = False"
| "work_done DHMP_WORK_DONE = False"

text \<open>Append to the list under the lock, wait for the flag; the struct dies with the caller's
  frame.\<close>

definition submit :: "(Proc \<Rightarrow> Proc) \<Rightarrow> u64 \<Rightarrow> dhmp_work \<Rightarrow> Proc \<Rightarrow> (dhmp_work \<times> Proc) res" where
  "submit others w k p =
     bindR (wait_until (\<lambda>q. case works q w of None \<Rightarrow> False | Some k' \<Rightarrow> work_done k') others
              (set_work w k p\<lparr>work_list := work_list p @ [w]\<rparr>)) (\<lambda>q.
       case works q w of None \<Rightarrow> Inl UB | Some k' \<Rightarrow> Inr (k', q\<lparr>works := (works q)(w := None)\<rparr>))"

definition dhmp_send :: "Env \<Rightarrow> (Proc \<Rightarrow> Proc) \<Rightarrow> u64 \<Rightarrow> u64 \<Rightarrow> u64 \<Rightarrow> u64 \<Rightarrow> bool \<Rightarrow> Proc \<Rightarrow> (int \<times> Proc) res" where
  "dhmp_send e others w dhmp_addr local_buf n is_write p =
     bindR (usable_trans p dhmp_addr) (\<lambda>r.
       case r of
         None \<Rightarrow> Inr (- 1, p)
       | Some t \<Rightarrow>
           if \<not> malloc_ok e then Inr (- 1, p)
           else bindR (submit others w (DHMP_WORK_SEND \<lparr>sw_trans = t, sw_length = n, sw_done = False, sw_dhmp_addr = dhmp_addr,
                  sw_local_addr = local_buf, sw_recv_flag = False, sw_is_write = is_write\<rparr>) p) (\<lambda>(_, q). Inr (0, q)))"

definition dhmp_malloc :: "Env \<Rightarrow> (Proc \<Rightarrow> Proc) \<Rightarrow> u64 \<Rightarrow> u64 option \<Rightarrow> u64 \<Rightarrow> int \<Rightarrow> Proc \<Rightarrow> (u64 \<times> Proc) res" where
  "dhmp_malloc e others w ai n nodeid p =
     (if n \<le> 0 then Inr (0, p)
      else bindR (dhmp_node_select_by_id p nodeid) (\<lambda>r.
        case r of
          None \<Rightarrow> Inr (0, p)
        | Some t \<Rightarrow>
            if \<not> malloc_ok e then Inr (0, p)
            else
              (case ai of
                 None \<Rightarrow> Inr (0, p)
               | Some a \<Rightarrow>
                   bindR (submit others w (DHMP_WORK_MALLOC \<lparr>mw_trans = t, mw_addr_info = a, mw_res_addr = 0, mw_length = n, mw_done = False\<rparr>)
                            (set_info a fresh_info p)) (\<lambda>(k, q).
                     case k of DHMP_WORK_MALLOC mw \<Rightarrow> Inr (mw_res_addr mw, q) | _ \<Rightarrow> Inl UB))))"

text \<open>The two output pointers are written on success only: \<open>None\<close> leaves them.\<close>

definition dhmp_buff_malloc ::
    "Env \<Rightarrow> (Proc \<Rightarrow> Proc) \<Rightarrow> u64 \<Rightarrow> u64 option \<Rightarrow> u64 option \<Rightarrow> int \<Rightarrow> Proc \<Rightarrow> ((u64 \<times> u64) option \<times> Proc) res" where
  "dhmp_buff_malloc e others w ai mi nodeid p =
     bindR (dhmp_node_select_by_id p nodeid) (\<lambda>r.
       case r of
         None \<Rightarrow> Inr (None, p)
       | Some t \<Rightarrow>
           if \<not> malloc_ok e then Inr (None, p)
           else
             (case (ai, mi) of
                (Some a, Some m) \<Rightarrow>
                  bindR (submit others w (DHMP_BUFF_MALLOC \<lparr>bw_trans = t, bw_buff_addr_info = a, bw_buff_mate_addr_info = m,
                           bw_buff_addr = 0, bw_buff_mate_addr = 0, bw_done_recv = False, bw_done = False\<rparr>)
                           (set_info m fresh_info (set_info a fresh_info p))) (\<lambda>(k, q).
                    case k of DHMP_BUFF_MALLOC bw \<Rightarrow> Inr (Some (bw_buff_mate_addr bw, bw_buff_addr bw), q) | _ \<Rightarrow> Inl UB)
              | _ \<Rightarrow> Inr (None, p)))"

definition rw_work :: "nat \<Rightarrow> u64 \<Rightarrow> u64 \<Rightarrow> u64 \<Rightarrow> u64 \<Rightarrow> bool \<Rightarrow> dhmp_rw_work" where
  "rw_work t dhmp_addr local_buf count offset is_atomic =
     \<lparr>rw_trans = t, rw_dhmp_addr = dhmp_addr, rw_local_addr = local_buf, rw_length = count, rw_done = False, rw_offset = offset,
      rw_is_atomic = is_atomic\<rparr>"

definition dhmp_read :: "Env \<Rightarrow> (Proc \<Rightarrow> Proc) \<Rightarrow> u64 \<Rightarrow> u64 \<Rightarrow> u64 \<Rightarrow> u64 \<Rightarrow> u64 \<Rightarrow> bool \<Rightarrow> Proc \<Rightarrow> (int \<times> Proc) res" where
  "dhmp_read e others w dhmp_addr local_buf count offset is_atomic p =
     bindR (usable_trans p dhmp_addr) (\<lambda>r.
       case r of
         None \<Rightarrow> Inr (- 1, p)
       | Some t \<Rightarrow>
           if \<not> malloc_ok e then Inr (- 1, p)
           else bindR (submit others w (DHMP_WORK_READ (rw_work t dhmp_addr local_buf count offset is_atomic)) p) (\<lambda>(_, q). Inr (0, q)))"

definition dhmp_write :: "Env \<Rightarrow> (Proc \<Rightarrow> Proc) \<Rightarrow> u64 \<Rightarrow> u64 \<Rightarrow> u64 \<Rightarrow> u64 \<Rightarrow> u64 \<Rightarrow> bool \<Rightarrow> Proc \<Rightarrow> (int \<times> Proc) res" where
  "dhmp_write e others w dhmp_addr local_buf count offset is_atomic p =
     bindR (usable_trans p dhmp_addr) (\<lambda>r.
       case r of
         None \<Rightarrow> Inr (- 1, p)
       | Some t \<Rightarrow>
           if \<not> malloc_ok e then Inr (- 1, p)
           else bindR (submit others w (DHMP_WORK_WRITE (rw_work t dhmp_addr local_buf count offset is_atomic)) p) (\<lambda>(_, q). Inr (0, q)))"

end
