(* ===== verification/Exchange.thy ===== *)
theory Exchange
  imports TopApi "HOL-Library.Multiset"
begin

text \<open>
  A client and a server together. A request the client has posted is delivered into a receive
  buffer of the server, the server's handler runs, and its reply is delivered to the client:
  \<open>round_trip\<close>. The network is assumed to deliver the bytes of the gather list unchanged;
  \<open>pad\<close> is what was in the receive buffer behind them. Every receive offers
  \<open>SINGLE_NORM_RECV_REGION\<close> bytes. A longer message is not delivered: the receive completes with a length error,
  which \<open>dhmp_wc_error_handler\<close> only logs, no handler runs, and whoever waits for the reply goes on
  waiting (\<open>Spin\<close>).
\<close>

section \<open>Delivery\<close>

text \<open>The bytes of the request posted last.\<close>

definition last_frame :: "Proc \<Rightarrow> byte list res" where
  "last_frame p =
     (if posted p = [] then Inl UB
      else let wr = last (posted p) in rd_mem (mem p) (wr_addr wr) (unat (wr_length wr)))"

definition serve_request :: "Env \<Rightarrow> nat \<Rightarrow> byte list \<Rightarrow> byte list \<Rightarrow> Proc \<Rightarrow> (byte list \<times> Proc) res" where
  "serve_request e t pad f s =
     guardR (length f \<le> SINGLE_NORM_RECV_REGION) Spin
       (bindR (dhmp_wc_recv_handler e t (msg_parse (f @ pad)) s) (\<lambda>s'. bindR (last_frame s') (\<lambda>g. Inr (g, s'))))"

text \<open>\<open>ec\<close>, \<open>tc\<close>, \<open>p\<close> are the client's environment, transport and process, \<open>es\<close>, \<open>ts\<close>, \<open>s\<close> the
  server's.\<close>

definition round_trip :: "Env \<Rightarrow> nat \<Rightarrow> Env \<Rightarrow> nat \<Rightarrow> byte list \<Rightarrow> Proc \<Rightarrow> Proc \<Rightarrow> (Proc \<times> Proc) res" where
  "round_trip ec tc es ts pad s p =
     bindR (last_frame p) (\<lambda>f. bindR (serve_request es ts pad f s) (\<lambda>(g, s').
       guardR (length g \<le> SINGLE_NORM_RECV_REGION) Spin
         (bindR (dhmp_wc_recv_handler ec tc (msg_parse (g @ pad)) p) (\<lambda>p'. Inr (p', s')))))"

definition via :: "Env \<Rightarrow> nat \<Rightarrow> Env \<Rightarrow> nat \<Rightarrow> byte list \<Rightarrow> Proc \<Rightarrow> Proc \<Rightarrow> Proc" where
  "via ec tc es ts pad s p = (case round_trip ec tc es ts pad s p of Inl _ \<Rightarrow> p | Inr (p', s') \<Rightarrow> p')"

text \<open>A transport that can carry control messages.\<close>

definition link_ok :: "Env \<Rightarrow> nat \<Rightarrow> Proc \<Rightarrow> bool" where
  "link_ok e t p \<longleftrightarrow> malloc_ok e \<and> (\<exists>tr. transports p t = Some tr \<and> trans_state tr = DHMP_TRANSPORT_STATE_CONNECTED \<and>
     send_region_ok p tr)"

abbreviation never_fails :: "Env \<Rightarrow> bool" where
  "never_fails e \<equiv> \<forall>wr. \<not> post_err e wr"

section \<open>Posting over a link\<close>

lemma last_frame_updates [simp]:
  "last_frame (p\<lparr>transports := x\<rparr>) = last_frame p" "last_frame (p\<lparr>infos := y\<rparr>) = last_frame p" "last_frame (p\<lparr>works := z\<rparr>) = last_frame p"
  by (simp_all add: last_frame_def)

lemma mk_msg_facts:
  assumes "length bs < 2 ^ 29"
  shows "unat (data_size (mk_msg ty bs)) = length bs" "data (mk_msg ty bs) = bs" "msg_type (mk_msg ty bs) = msg_code ty"
    and "msg_parse (msg_frame (mk_msg ty bs) @ after) = \<lparr>msg_type = msg_code ty, data_size = word_of_nat (length bs), data = bs @ after\<rparr>"
proof -
  show u: "unat (data_size (mk_msg ty bs)) = length bs" using assms by (simp add: mk_msg_def unat_of_nat take_bit_nat_eq_self)
  show d: "data (mk_msg ty bs) = bs" "msg_type (mk_msg ty bs) = msg_code ty" by (simp_all add: mk_msg_def)
  show "msg_parse (msg_frame (mk_msg ty bs) @ after) = \<lparr>msg_type = msg_code ty, data_size = word_of_nat (length bs), data = bs @ after\<rparr>"
    using frame_parse [of "mk_msg ty bs" after] msg_code_bounds [of ty] u d by (simp add: mk_msg_def)
qed

text \<open>What posting a message changes: the request is the last one posted and lies in the send region, and
  nothing outside that region is touched.\<close>

definition after_post :: "Env \<Rightarrow> nat \<Rightarrow> Proc \<Rightarrow> Proc \<Rightarrow> bool" where
  "after_post e t p p' \<longleftrightarrow> link_ok e t p' \<and> infos p' = infos p \<and> works p' = works p \<and> addr_info_ht p' = addr_info_ht p \<and>
     connect_trans p' = connect_trans p \<and> work_list p' = work_list p \<and> posted p' \<noteq> [] \<and>
     wr_opcode (last (posted p')) = IBV_WR_SEND \<and>
     (\<exists>tr tr' k. transports p t = Some tr \<and> transports p' t = Some tr' \<and> dmr_addr (send_mr tr') = dmr_addr (send_mr tr) \<and>
        wr_addr (last (posted p')) = dmr_addr (send_mr tr) + word_of_nat k \<and>
        k + unat (wr_length (last (posted p'))) \<le> SEND_REGION_SIZE \<and>
        (\<forall>x. SEND_REGION_SIZE \<le> unat (x - dmr_addr (send_mr tr)) \<longrightarrow> mem p' x = mem p x))"

lemma post_msg:
  assumes link: "link_ok e t p" and post: "never_fails e" and len: "length bs < 2 ^ 28"
  shows "\<exists>p'. dhmp_post_send e t (mk_msg ty bs) p = Inr p' \<and> last_frame p' = Inr (msg_frame (mk_msg ty bs)) \<and> after_post e t p p'"
proof -
  obtain tr where tr: "transports p t = Some tr" "trans_state tr = DHMP_TRANSPORT_STATE_CONNECTED" "send_region_ok p tr"
    and m: "malloc_ok e" using link by (auto simp: link_ok_def)
  have u: "unat (data_size (mk_msg ty bs)) = length bs" "data (mk_msg ty bs) = bs"
    using mk_msg_facts [of bs ty] len by simp_all
  have fits: "12 + unat (data_size (mk_msg ty bs)) \<le> SEND_REGION_SIZE" using u len by (simp add: SEND_REGION_SIZE_def)
  have le: "unat (data_size (mk_msg ty bs)) \<le> length (data (mk_msg ty bs))" using u by simp
  obtain ts nt mm tr' wr where r: "dhmp_post_send e t (mk_msg ty bs) p =
      Inr (p\<lparr>tasks := ts, next_task := nt, mem := mm, transports := (transports p)(t \<mapsto> tr'), posted := posted p @ [wr]\<rparr>)"
    "rd_mem mm (wr_addr wr) (unat (wr_length wr)) = Inr (msg_frame (mk_msg ty bs))"
    "tr' = tr\<lparr>send_mr := send_mr tr'\<rparr>" "dmr_addr (send_mr tr') = dmr_addr (send_mr tr)" "send_region_ok (p\<lparr>mem := mm\<rparr>) tr'"
    "\<forall>x. SEND_REGION_SIZE \<le> unat (x - dmr_addr (send_mr tr)) \<longrightarrow> mm x = mem p x" "wr_opcode wr = IBV_WR_SEND"
    "wr_addr wr = dmr_addr (send_mr tr) + word_of_nat (send_pos tr (mk_msg ty bs))"
    "send_pos tr (mk_msg ty bs) + unat (wr_length wr) \<le> SEND_REGION_SIZE"
    using post_send_result [OF m tr le fits post] by blast
  have "trans_state tr' = DHMP_TRANSPORT_STATE_CONNECTED" using r(3) tr(2) by (metis dhmp_transport.select_convs(2) dhmp_transport.surjective dhmp_transport.update_convs(3))
  then show ?thesis using r tr m by (auto simp: last_frame_def link_ok_def send_region_ok_def after_post_def)
qed

lemma after_postD:
  assumes "after_post e t p p'"
  shows "link_ok e t p'" "infos p' = infos p" "works p' = works p" "addr_info_ht p' = addr_info_ht p"
    "connect_trans p' = connect_trans p" "work_list p' = work_list p" "posted p' \<noteq> []" "wr_opcode (last (posted p')) = IBV_WR_SEND"
    "\<forall>tr x. transports p t = Some tr \<and> SEND_REGION_SIZE \<le> unat (x - dmr_addr (send_mr tr)) \<longrightarrow> mem p' x = mem p x"
  using assms by (auto simp: after_post_def)

lemma link_map_mem:
  assumes "link_ok e t p"
  shows "link_ok e t (p\<lparr>mem := map_mem (mem p) a n b, regs := r\<rparr>)"
proof -
  have "mapped (map_mem m a n b) x k" if "mapped m x k" for m x k
    using that by (auto simp: mapped_def map_mem_def)
  with assms show ?thesis by (auto simp: link_ok_def send_region_ok_def)
qed

lemmas enc_lengths = mc_request.length_enc mc_response.length_enc buff_request.length_enc buff_response.length_enc
  free_request.length_enc send_request.length_enc

lemmas dec_encs = mc_request.dec_enc mc_response.dec_enc buff_request.dec_enc buff_response.dec_enc
  free_request.dec_enc send_request.dec_enc

lemmas recv_defs = dhmp_wc_recv_handler_def msg_type_round_trip data_at_least_def

lemma length_mk_frame: "length bs < 2 ^ 29 \<Longrightarrow> length (msg_frame (mk_msg ty bs)) = 12 + length bs"
  using mk_msg_facts(1,2) [of bs ty] by (simp add: msg_frame_def)

lemma short_frame:
  assumes "12 + length bs \<le> SINGLE_NORM_RECV_REGION"
  shows "length (msg_frame (mk_msg ty bs)) \<le> SINGLE_NORM_RECV_REGION"
proof -
  have "length bs < 2 ^ 29" using assms by (simp add: SINGLE_NORM_RECV_REGION_def)
  then show ?thesis using assms length_mk_frame by simp
qed

text \<open>All control messages that carry no data of the caller are short.\<close>

lemma struct_frames [simp]:
  "length (msg_frame (mk_msg ty (enc_mc_request q))) \<le> SINGLE_NORM_RECV_REGION"
  "length (msg_frame (mk_msg ty (enc_mc_response r))) \<le> SINGLE_NORM_RECV_REGION"
  "length (msg_frame (mk_msg ty (enc_buff_request bq))) \<le> SINGLE_NORM_RECV_REGION"
  "length (msg_frame (mk_msg ty (enc_buff_response br))) \<le> SINGLE_NORM_RECV_REGION"
  "length (msg_frame (mk_msg ty (enc_send_request sr))) \<le> SINGLE_NORM_RECV_REGION"
  by (rule short_frame, simp add: enc_lengths SINGLE_NORM_RECV_REGION_def)+

section \<open>Sample processes\<close>

lemma demo_link [simp]: "link_ok demo_env 1 demo_proc" "link_ok (demo_env\<lparr>numa_at := f\<rparr>) 1 demo_proc"
    "link_ok demo_env 1 (demo_proc\<lparr>works := ws\<rparr>)" "link_ok demo_env 1 (demo_proc\<lparr>mem := \<lambda>_. Some b\<rparr>)"
  by (simp_all add: link_ok_def demo_env_def demo_proc_def demo_trans_def send_region_ok_def mapped_def)

lemmas demo_simps = demo_env_def demo_proc_def demo_trans_def mapped_def link_ok_def send_region_ok_def

section \<open>Allocating remote memory\<close>

text \<open>While the sender of a message waits for the reply, the other side serves the message.\<close>

definition serves :: "(Proc \<Rightarrow> Proc) \<Rightarrow> Env \<Rightarrow> nat \<Rightarrow> Env \<Rightarrow> nat \<Rightarrow> byte list \<Rightarrow> Proc \<Rightarrow> bool" where
  "serves others ec tc es ts pad s \<longleftrightarrow>
     (\<forall>q. posted q \<noteq> [] \<and> wr_opcode (last (posted q)) = IBV_WR_SEND \<longrightarrow> others q = via ec tc es ts pad s q)"

lemma server_malloc:
  assumes link: "link_ok es ts s" and post: "never_fails es" and dev: "has_dev es"
    and na: "numa_at es (mc_req_size q) = Some a" and rm: "reg_mr es a (mc_req_size q) = Some mr"
  defines "mr' \<equiv> mr\<lparr>mr_addr := a, mr_length := mc_req_size q\<rparr>"
  shows "\<exists>s'. serve_request es ts pad (msg_frame (mk_msg DHMP_MSG_MALLOC_REQUEST (enc_mc_request q))) s =
    Inr (msg_frame (mk_msg DHMP_MSG_MALLOC_RESPONSE (enc_mc_response \<lparr>mc_req_info = q, mc_mr = mr'\<rparr>)), s') \<and>
    after_post es ts (s\<lparr>mem := map_mem (mem s) a (unat (mc_req_size q)) (junk es), regs := regs s @ [mr']\<rparr>) s'"
proof -
  let ?s1 = "s\<lparr>mem := map_mem (mem s) a (unat (mc_req_size q)) (junk es), regs := regs s @ [mr']\<rparr>"
  have link1: "link_ok es ts ?s1" by (rule link_map_mem [OF link])
  obtain s2 where s2: "dhmp_post_send es ts (mk_msg DHMP_MSG_MALLOC_RESPONSE (enc_mc_response \<lparr>mc_req_info = q, mc_mr = mr'\<rparr>)) ?s1 = Inr s2"
      "last_frame s2 = Inr (msg_frame (mk_msg DHMP_MSG_MALLOC_RESPONSE (enc_mc_response \<lparr>mc_req_info = q, mc_mr = mr'\<rparr>)))" "after_post es ts ?s1 s2"
    using post_msg [OF link1 post, of "enc_mc_response \<lparr>mc_req_info = q, mc_mr = mr'\<rparr>" DHMP_MSG_MALLOC_RESPONSE] by (auto simp: enc_lengths)
  obtain tr where tr: "transports s2 ts = Some tr" using s2(3) by (auto simp: after_post_def)
  have "after_post es ts ?s1 (s2\<lparr>transports := (transports s2)(ts \<mapsto> tr\<lparr>nvm_used_size := u\<rparr>)\<rparr>)" for u
    using s2(3) tr by (auto simp: after_post_def link_ok_def send_region_ok_def)
  moreover have "dhmp_memory_malloc_register es (mc_req_size q) s = (Some mr', ?s1)"
    using na rm by (simp add: dhmp_memory_malloc_register_def mr'_def Let_def)
  moreover have "msg_parse (msg_frame (mk_msg DHMP_MSG_MALLOC_REQUEST (enc_mc_request q)) @ pad)
      = \<lparr>msg_type = msg_code DHMP_MSG_MALLOC_REQUEST, data_size = 16, data = enc_mc_request q @ pad\<rparr>"
    using mk_msg_facts(4) [of "enc_mc_request q"] by (simp add: enc_lengths)
  ultimately show ?thesis
    using s2(1,2) tr dev
    by (simp add: serve_request_def recv_defs dhmp_malloc_request_handler_def dec_encs enc_lengths)
qed

lemma client_malloc_reply:
  assumes "infos p (mc_addr_info (mc_req_info r)) = Some i"
  shows "dhmp_wc_recv_handler ec tc (msg_parse (msg_frame (mk_msg DHMP_MSG_MALLOC_RESPONSE (enc_mc_response r)) @ pad)) p =
    Inr (p\<lparr>infos := (infos p)(mc_addr_info (mc_req_info r) \<mapsto> i\<lparr>read_cnt := 0, write_cnt := 0, nvm_mr := mc_mr r\<rparr>)\<rparr>)"
  using assms mk_msg_facts(4) [of "enc_mc_response r" DHMP_MSG_MALLOC_RESPONSE pad]
  by (simp add: recv_defs dhmp_malloc_response_handler_def dec_encs enc_lengths)

lemma insert_info_found:
  assumes i: "infos p ai = Some i" and a: "mr_addr (nvm_mr i) = dhmp_transfer_normal_addr g"
  shows "\<exists>p'. insert_info g ai p = Inr p' \<and> lookup_info p' g = Inr (Some ai) \<and>
    infos p' ai = Some (i\<lparr>dram_mr := (dram_mr i)\<lparr>mr_addr := 0\<rparr>\<rparr>) \<and> works p' = works p \<and> connect_trans p' = connect_trans p \<and>
    transports p' = transports p \<and> work_list p' = work_list p \<and> mem p' = mem p \<and> posted p' = posted p"
  using assms
  by (simp add: insert_info_def dhmp_addr_info_insert_ht_def lookup_info_def dhmp_get_addr_info_from_ht_def Let_def)

lemma via_served:
  assumes "last_frame p = Inr f" and "serve_request es ts pad f s = Inr (g, s')" and "length g \<le> SINGLE_NORM_RECV_REGION"
    and "dhmp_wc_recv_handler ec tc (msg_parse (g @ pad)) p = Inr p'"
  shows "round_trip ec tc es ts pad s p = Inr (p', s')" and "via ec tc es ts pad s p = p'"
  using assms by (simp_all add: round_trip_def via_def)

text \<open>The request and the reply, up to the end of the wait.\<close>

lemma malloc_replied:
  assumes link: "link_ok ec (mw_trans mw) p" and post: "never_fails ec" and server: "link_ok es ts s" "never_fails es" "has_dev es"
    and i: "infos p (mw_addr_info mw) = Some i"
    and alloc: "numa_at es (mw_length mw) = Some a" "reg_mr es a (mw_length mw) = Some mr"
  defines "mr' \<equiv> mr\<lparr>mr_addr := a, mr_length := mw_length mw\<rparr>"
  shows "\<exists>p1 f r s'. dhmp_post_send ec (mw_trans mw)
      (mk_msg DHMP_MSG_MALLOC_REQUEST (enc_mc_request \<lparr>mc_req_size = mw_length mw, mc_addr_info = mw_addr_info mw\<rparr>)) p = Inr p1 \<and>
    after_post ec (mw_trans mw) p p1 \<and> last_frame p1 = Inr f \<and> serve_request es ts pad f s = Inr (r, s') \<and>
    after_post es ts (s\<lparr>mem := map_mem (mem s) a (unat (mw_length mw)) (junk es), regs := regs s @ [mr']\<rparr>) s' \<and>
    via ec (mw_trans mw) es ts pad s p1 =
      p1\<lparr>infos := (infos p1)(mw_addr_info mw \<mapsto> i\<lparr>read_cnt := 0, write_cnt := 0, nvm_mr := mr'\<rparr>)\<rparr>"
proof -
  let ?ai = "mw_addr_info mw" and ?t = "mw_trans mw"
  let ?q = "\<lparr>mc_req_size = mw_length mw, mc_addr_info = ?ai\<rparr>"
  let ?f = "msg_frame (mk_msg DHMP_MSG_MALLOC_REQUEST (enc_mc_request ?q))"
  obtain p1 where p1: "dhmp_post_send ec ?t (mk_msg DHMP_MSG_MALLOC_REQUEST (enc_mc_request ?q)) p = Inr p1"
      "last_frame p1 = Inr ?f" "after_post ec ?t p p1"
    using post_msg [OF link post, of "enc_mc_request ?q" DHMP_MSG_MALLOC_REQUEST] by (auto simp: enc_lengths)
  note p1' = after_postD [OF p1(3)]
  obtain s' where s': "serve_request es ts pad ?f s =
      Inr (msg_frame (mk_msg DHMP_MSG_MALLOC_RESPONSE (enc_mc_response \<lparr>mc_req_info = ?q, mc_mr = mr'\<rparr>)), s')"
      "after_post es ts (s\<lparr>mem := map_mem (mem s) a (unat (mw_length mw)) (junk es), regs := regs s @ [mr']\<rparr>) s'"
    using server_malloc [OF server, of ?q a mr pad] alloc by (auto simp: mr'_def)
  have "infos p1 ?ai = Some i" using p1'(2) i by simp
  then have "via ec ?t es ts pad s p1 = p1\<lparr>infos := (infos p1)(?ai \<mapsto> i\<lparr>read_cnt := 0, write_cnt := 0, nvm_mr := mr'\<rparr>)\<rparr>"
    using via_served(2) [OF p1(2) s'(1) _ client_malloc_reply, of i ec ?t] by simp
  then show ?thesis using p1 s' by blast
qed

text \<open>What is left of the handler, from any state in which the struct has the address.\<close>

lemma malloc_rest:
  assumes j: "infos q (mw_addr_info mw) = Some j" "mr_addr (nvm_mr j) = a" and a: "a \<noteq> 0" "uint a < 2 ^ 48"
    and nodes: "length (connect_trans q) = 3" "n < 3" "connect_trans q ! n = Some (mw_trans mw)"
      "\<forall>k < n. connect_trans q ! k \<noteq> Some (mw_trans mw)"
  defines "g \<equiv> dhmp_transfer_dhmp_addr (connect_trans q) (mw_trans mw) a"
  defines "j' \<equiv> j\<lparr>node_index := int n, write_flag := False, dram_mr := (dram_mr j)\<lparr>mr_addr := 0\<rparr>\<rparr>"
  defines "q' \<equiv> q\<lparr>infos := (infos q)(mw_addr_info mw \<mapsto> j'),
    addr_info_ht := (addr_info_ht q)(dhmp_hash_in_client g := mw_addr_info mw # addr_info_ht q (dhmp_hash_in_client g))\<rparr>"
  shows "malloc_work_rest w mw q = Inr (set_work w (DHMP_WORK_MALLOC (mw\<lparr>mw_res_addr := g, mw_done := True\<rparr>)) q')"
    and "dhmp_transfer_normal_addr g = a" and "dhmp_get_trans_from_addr (connect_trans q) g = Inr (Some (mw_trans mw))"
    and "lookup_info q' g = Inr (Some (mw_addr_info mw))"
proof -
  have ix: "trans_index (connect_trans q) (mw_trans mw) = n" using nodes by (intro trans_index_nth) auto
  have n15: "n < 2 ^ 15" using nodes(2) by simp
  note parts = dhmp_addr_parts [OF a(2) n15 refl]
  have g: "dhmp_transfer_normal_addr g = a" "dhmp_get_node_index_from_addr g = int n"
      "dhmp_get_trans_from_addr (connect_trans q) g = Inr (Some (mw_trans mw))"
    unfolding g_def transfer_as_sum ix using normal_of_dhmp_addr [OF a(2) n15] parts nodes(1-3)
      signed_take_bit_int_eq_self [of 31 "int n"]
    by (simp_all add: dhmp_get_node_index_from_addr_def dhmp_get_trans_from_addr_def)
  show "dhmp_transfer_normal_addr g = a" "dhmp_get_trans_from_addr (connect_trans q) g = Inr (Some (mw_trans mw))" by (rule g)+
  show "lookup_info q' g = Inr (Some (mw_addr_info mw))"
    using j(2) g(1) by (simp add: lookup_info_def dhmp_get_addr_info_from_ht_def q'_def j'_def)
  show "malloc_work_rest w mw q = Inr (set_work w (DHMP_WORK_MALLOC (mw\<lparr>mw_res_addr := g, mw_done := True\<rparr>)) q')"
    using j a(1) g(2)
    by (simp add: malloc_work_rest_def info_at_def g_def [symmetric] insert_info_def dhmp_addr_info_insert_ht_def set_info_def
        q'_def j'_def Let_def)
qed

text \<open>The handler of an allocation, with what it leaves in the two processes.\<close>

lemma malloc_work:
  assumes link: "link_ok ec (mw_trans mw) p" and post: "never_fails ec" and server: "link_ok es ts s" "never_fails es" "has_dev es"
    and i: "infos p (mw_addr_info mw) = Some i" "mr_length (nvm_mr i) = 0" and n0: "mw_length mw \<noteq> 0"
    and alloc: "numa_at es (mw_length mw) = Some a" "reg_mr es a (mw_length mw) = Some mr" and a: "a \<noteq> 0" "uint a < 2 ^ 48"
    and nodes: "length (connect_trans p) = 3" "n < 3" "connect_trans p ! n = Some (mw_trans mw)"
      "\<forall>j < n. connect_trans p ! j \<noteq> Some (mw_trans mw)"
    and others: "serves others ec (mw_trans mw) es ts pad s"
  shows "\<exists>p1 p3 f r s' g i'. after_post ec (mw_trans mw) p p1 \<and> last_frame p1 = Inr f \<and> serve_request es ts pad f s = Inr (r, s') \<and>
    after_post es ts (s\<lparr>mem := map_mem (mem s) a (unat (mw_length mw)) (junk es),
      regs := regs s @ [mr\<lparr>mr_addr := a, mr_length := mw_length mw\<rparr>]\<rparr>) s' \<and>
    dhmp_malloc_work_handler ec others w mw p =
      Inr (set_work w (DHMP_WORK_MALLOC (mw\<lparr>mw_res_addr := g, mw_done := True\<rparr>)) p3) \<and>
    dhmp_transfer_normal_addr g = a \<and> dhmp_get_trans_from_addr (connect_trans p) g = Inr (Some (mw_trans mw)) \<and>
    lookup_info p3 g = Inr (Some (mw_addr_info mw)) \<and> infos p3 (mw_addr_info mw) = Some i' \<and>
    nvm_mr i' = mr\<lparr>mr_addr := a, mr_length := mw_length mw\<rparr> \<and> node_index i' = int n \<and> \<not> write_flag i' \<and>
    connect_trans p3 = connect_trans p \<and> transports p3 = transports p1 \<and> work_list p3 = work_list p \<and> mem p3 = mem p1 \<and>
    posted p3 = posted p1 \<and> works p3 = works p"
proof -
  let ?ai = "mw_addr_info mw" and ?mr = "mr\<lparr>mr_addr := a, mr_length := mw_length mw\<rparr>"
  obtain p1 f r s' where p1: "dhmp_post_send ec (mw_trans mw)
      (mk_msg DHMP_MSG_MALLOC_REQUEST (enc_mc_request \<lparr>mc_req_size = mw_length mw, mc_addr_info = ?ai\<rparr>)) p = Inr p1"
    "after_post ec (mw_trans mw) p p1" "last_frame p1 = Inr f" "serve_request es ts pad f s = Inr (r, s')"
    "after_post es ts (s\<lparr>mem := map_mem (mem s) a (unat (mw_length mw)) (junk es), regs := regs s @ [?mr]\<rparr>) s'"
    "via ec (mw_trans mw) es ts pad s p1 = p1\<lparr>infos := (infos p1)(?ai \<mapsto> i\<lparr>read_cnt := 0, write_cnt := 0, nvm_mr := ?mr\<rparr>)\<rparr>"
    using malloc_replied [OF link post server i(1) alloc, of pad] by blast
  note p1' = after_postD [OF p1(2)]
  let ?j = "i\<lparr>read_cnt := 0, write_cnt := 0, nvm_mr := ?mr\<rparr>"
  let ?q = "p1\<lparr>infos := (infos p1)(?ai \<mapsto> ?j)\<rparr>"
  have ended: "others p1 = ?q" using others p1'(7,8) p1(6) by (simp add: serves_def)
  have "length (connect_trans ?q) = 3" "connect_trans ?q ! n = Some (mw_trans mw)" "\<forall>k < n. connect_trans ?q ! k \<noteq> Some (mw_trans mw)"
    using nodes p1'(5) by simp_all
  note rest = malloc_rest [of ?q mw ?j a n, OF _ _ a this(1) nodes(2) this(2,3)]
  have h: "dhmp_malloc_work_handler ec others w mw p = malloc_work_rest w mw ?q"
    using p1(1) p1'(2) ended i n0 by (simp add: dhmp_malloc_work_handler_def wait_until_def)
  let ?g = "dhmp_transfer_dhmp_addr (connect_trans ?q) (mw_trans mw) a"
  let ?j' = "?j\<lparr>node_index := int n, write_flag := False, dram_mr := (dram_mr ?j)\<lparr>mr_addr := 0\<rparr>\<rparr>"
  let ?p3 = "?q\<lparr>infos := (infos ?q)(?ai \<mapsto> ?j'),
    addr_info_ht := (addr_info_ht ?q)(dhmp_hash_in_client ?g := ?ai # addr_info_ht ?q (dhmp_hash_in_client ?g))\<rparr>"
  have "nvm_mr ?j' = ?mr" "node_index ?j' = int n" "\<not> write_flag ?j'" by simp_all
  moreover have "infos ?p3 ?ai = Some ?j'" "connect_trans ?p3 = connect_trans p" "transports ?p3 = transports p1"
      "work_list ?p3 = work_list p" "mem ?p3 = mem p1" "posted ?p3 = posted p1" "works ?p3 = works p"
    using p1' by simp_all
  moreover have "malloc_work_rest w mw ?q = Inr (set_work w (DHMP_WORK_MALLOC (mw\<lparr>mw_res_addr := ?g, mw_done := True\<rparr>)) ?p3)"
      "dhmp_transfer_normal_addr ?g = a" "dhmp_get_trans_from_addr (connect_trans p) ?g = Inr (Some (mw_trans mw))"
      "lookup_info ?p3 ?g = Inr (Some ?ai)"
    using rest p1' by simp_all
  ultimately show ?thesis using p1(2-5) unfolding h by blast
qed

subsection \<open>The end of the wait\<close>

text \<open>The wait of \<open>dhmp_malloc_work_handler\<close> reads \<open>nvm_mr.length\<close> while the other thread, which handles the reply,
  copies the registration into \<open>nvm_mr\<close>; it may end before the copy does. \<open>mid_copy D\<close> is the struct when the bytes with an
  offset in \<open>D\<close> have been copied and the others have not: \<open>addr\<close> has the offsets 16 to 23,
  \<open>length\<close> 24 to 31.\<close>

definition mid_copy :: "nat set \<Rightarrow> ibv_mr \<Rightarrow> ibv_mr \<Rightarrow> ibv_mr" where
  "mid_copy D new old =
     mr_of (unpack mr_widths (map (\<lambda>i. if i \<in> D then pack (mr_fields new) ! i else pack (mr_fields old) ! i) [0..<48]))"

text \<open>The process \<open>q\<close> in the middle of \<open>dhmp_malloc_response_handler\<close>, which makes \<open>q'\<close> of it: the counters are
  set, and \<open>D\<close> of the registration is copied. The rest of the copy is \<open>mid_copy (- D)\<close>.\<close>

definition mid_reply :: "nat set \<Rightarrow> u64 \<Rightarrow> Proc \<Rightarrow> Proc \<Rightarrow> Proc" where
  "mid_reply D ai q q' =
     (case (infos q ai, infos q' ai) of
        (Some i, Some j) \<Rightarrow> set_info ai (j\<lparr>nvm_mr := mid_copy D (nvm_mr j) (nvm_mr i)\<rparr>) q'
      | _ \<Rightarrow> q')"

definition end_copy :: "nat set \<Rightarrow> u64 \<Rightarrow> ibv_mr \<Rightarrow> Proc \<Rightarrow> Proc" where
  "end_copy D ai mr q =
     (case infos q ai of
        Some i \<Rightarrow> set_info ai (i\<lparr>nvm_mr := mid_copy (- D) mr (nvm_mr i)\<rparr>) q
      | None \<Rightarrow> q)"

text \<open>The address is copied before the first byte of the length, as when bytes or words are copied
  in ascending order.\<close>

definition addr_first :: "nat set \<Rightarrow> bool" where
  "addr_first D \<longleftrightarrow> D \<inter> {24..<32} = {} \<or> {16..<24} \<subseteq> D"

lemma ascending_addr_first: "addr_first {..<n}"
  by (cases "n \<le> 24") (auto simp: addr_first_def)

lemma le_bytes_le_val: "le_bytes (length xs) (le_val xs) = xs"
proof (induction xs)
  case (Cons b xs)
  have "(256 :: byte) = 0" by simp
  then have "word_of_int (uint b + 256 * le_val xs) = b" by (simp only: of_int_add of_int_mult of_int_numeral) simp
  moreover have "(uint b + 256 * le_val xs) div 256 = le_val xs" using uint_bounded [of b] by simp
  ultimately show ?case using Cons by simp
qed simp

lemma le_val_range: "0 \<le> le_val xs \<and> le_val xs < 256 ^ length xs"
proof (induction xs)
  case (Cons b xs)
  then show ?case using uint_bounded [of b] by auto
qed simp

lemma le_bytes_word:
  "length xs = 8 \<Longrightarrow> le_bytes 8 (uint (w64 (le_val xs))) = xs"
  "length xs = 4 \<Longrightarrow> le_bytes 4 (uint (w32 (le_val xs))) = xs"
proof -
  show "le_bytes 8 (uint (w64 (le_val xs))) = xs" if "length xs = 8"
  proof -
    have "uint (w64 (le_val xs)) = le_val xs" using le_val_range [of xs] that by (simp add: unsigned_of_int take_bit_int_eq_self)
    then show ?thesis using le_bytes_le_val [of xs] that by simp
  qed
  show "le_bytes 4 (uint (w32 (le_val xs))) = xs" if "length xs = 4"
  proof -
    have "uint (w32 (le_val xs)) = le_val xs" using le_val_range [of xs] that by (simp add: unsigned_of_int take_bit_int_eq_self)
    then show ?thesis using le_bytes_le_val [of xs] that by simp
  qed
qed

text \<open>Writing back what was read gives the bytes again, up to the padding.\<close>

lemma pack_mr_of:
  assumes "length bs = 48"
  shows "take 44 (pack (mr_fields (mr_of (unpack mr_widths bs)))) = take 44 bs"
proof -
  have "pack (mr_fields (mr_of (unpack mr_widths bs))) = take 8 bs @ take 8 (drop 8 bs) @ take 8 (drop 16 bs) @ take 8 (drop 24 bs) @
      take 4 (drop 32 bs) @ take 4 (drop 36 bs) @ take 4 (drop 40 bs) @ le_bytes 4 0"
    using assms by (simp add: mr_fields_def mr_of_def mr_widths_def le_bytes_word)
  also have "\<dots> = take 44 bs @ le_bytes 4 0"
    using take_add [of 8 8 bs] take_add [of 16 8 bs] take_add [of 24 8 bs] take_add [of 32 4 bs] take_add [of 36 4 bs] take_add [of 40 4 bs]
    by simp
  finally show ?thesis using assms by simp
qed

lemma mr_of_prefix:
  assumes "take 44 bs = take 44 cs"
  shows "mr_of (unpack mr_widths bs) = mr_of (unpack mr_widths cs)"
proof -
  have "take k (drop j bs) = take k (drop j cs)" if "j + k \<le> 44" for j k
  proof -
    have "take k (drop j bs) = drop j (take (j + k) (take 44 bs))" using that by (simp add: take_drop min_def add.commute)
    also have "\<dots> = take k (drop j cs)" unfolding assms using that by (simp add: take_drop min_def add.commute)
    finally show ?thesis .
  qed
  from this [of 0 8] this [of 8 8] this [of 16 8] this [of 24 8] this [of 32 4] this [of 36 4] this [of 40 4]
  show ?thesis by (simp add: mr_of_def mr_widths_def)
qed

abbreviation mid_bytes :: "nat set \<Rightarrow> ibv_mr \<Rightarrow> ibv_mr \<Rightarrow> byte list" where
  "mid_bytes D new old \<equiv> map (\<lambda>i. if i \<in> D then pack (mr_fields new) ! i else pack (mr_fields old) ! i) [0..<48]"

lemma mid_bytes_copied: "{j..<j + k} \<subseteq> D \<Longrightarrow> j + k \<le> 48 \<Longrightarrow> take k (drop j (mid_bytes D new old)) = take k (drop j (pack (mr_fields new)))"
  by (rule nth_equalityI) (auto simp: subset_iff)

lemma mid_bytes_old: "D \<inter> {j..<j + k} = {} \<Longrightarrow> j + k \<le> 48 \<Longrightarrow> take k (drop j (mid_bytes D new old)) = take k (drop j (pack (mr_fields old)))"
  by (rule nth_equalityI) (auto simp: disjoint_iff)

lemma mr_of_addr_length:
  "mr_addr (mr_of (unpack mr_widths bs)) = w64 (le_val (take 8 (drop 16 bs)))"
  "mr_length (mr_of (unpack mr_widths bs)) = w64 (le_val (take 8 (drop 24 bs)))"
  by (simp_all add: mr_of_def mr_widths_def)

lemma mr_addr_bytes: "mr_addr m = w64 (le_val (take 8 (drop 16 (pack (mr_fields m)))))"
  and mr_length_bytes: "mr_length m = w64 (le_val (take 8 (drop 24 (pack (mr_fields m)))))"
  using mr_of_addr_length [of "pack (mr_fields m)"] by simp_all

lemma mid_copy_addr:
  "{16..<24} \<subseteq> D \<Longrightarrow> mr_addr (mid_copy D new old) = mr_addr new"
  "D \<inter> {16..<24} = {} \<Longrightarrow> mr_addr (mid_copy D new old) = mr_addr old"
  using mid_bytes_copied [of 16 8 D new old] mid_bytes_old [of D 16 8 new old]
  by (simp_all add: mid_copy_def mr_of_addr_length mr_addr_bytes [of new] mr_addr_bytes [of old])

lemma mid_copy_length:
  "D \<inter> {24..<32} = {} \<Longrightarrow> mr_length (mid_copy D new old) = mr_length old"
  "{24..<32} \<subseteq> D \<Longrightarrow> mr_length (mid_copy D new old) = mr_length new"
  using mid_bytes_copied [of 24 8 D new old] mid_bytes_old [of D 24 8 new old]
  by (simp_all add: mid_copy_def mr_of_addr_length mr_length_bytes [of new] mr_length_bytes [of old])

lemma mid_copy_rest: "mid_copy (- D) new (mid_copy D new old) = new"
proof -
  let ?old = "mid_copy D new old"
  have "take 44 (mid_bytes (- D) new ?old) = take 44 (pack (mr_fields new))"
  proof (rule nth_equalityI)
    fix i assume "i < length (take 44 (mid_bytes (- D) new ?old))"
    then have i: "i < 44" by simp
    have "pack (mr_fields ?old) ! i = mid_bytes D new old ! i"
      using arg_cong [OF pack_mr_of [of "mid_bytes D new old"], of "\<lambda>bs. bs ! i"] i by (simp add: mid_copy_def)
    then show "take 44 (mid_bytes (- D) new ?old) ! i = take 44 (pack (mr_fields new)) ! i" using i by simp
  qed simp
  then have "mid_copy (- D) new ?old = mr_of (unpack mr_widths (pack (mr_fields new)))"
    unfolding mid_copy_def [of "- D"] by (rule mr_of_prefix)
  then show ?thesis by simp
qed

text \<open>The wait does not end before the address is there.\<close>

lemma wait_end_addr:
  assumes "addr_first D" and "mr_length old = 0" and "mr_length (mid_copy D new old) \<noteq> 0"
  shows "mr_addr (mid_copy D new old) = mr_addr new"
  using assms mid_copy_length(1) [of D new old] mid_copy_addr(1) [of D new old] by (auto simp: addr_first_def)

text \<open>The process when the handler of the reply has stored the registration \<open>m\<close>, or what is there of it, and when the
  handler of the allocation has finished with it.\<close>

definition replied :: "u64 \<Rightarrow> dhmp_addr_info \<Rightarrow> ibv_mr \<Rightarrow> Proc \<Rightarrow> Proc" where
  "replied ai i m p = p\<lparr>infos := (infos p)(ai \<mapsto> i\<lparr>read_cnt := 0, write_cnt := 0, nvm_mr := m\<rparr>)\<rparr>"

definition allocated :: "u64 \<Rightarrow> dhmp_malloc_work \<Rightarrow> u64 \<Rightarrow> nat \<Rightarrow> dhmp_addr_info \<Rightarrow> ibv_mr \<Rightarrow> Proc \<Rightarrow> Proc" where
  "allocated w mw g n i m p =
     set_work w (DHMP_WORK_MALLOC (mw\<lparr>mw_res_addr := g, mw_done := True\<rparr>))
       (p\<lparr>infos := (infos p)(mw_addr_info mw \<mapsto> i\<lparr>read_cnt := 0, write_cnt := 0, nvm_mr := m, node_index := int n,
              write_flag := False, dram_mr := (dram_mr i)\<lparr>mr_addr := 0\<rparr>\<rparr>),
          addr_info_ht := (addr_info_ht p)(dhmp_hash_in_client g := mw_addr_info mw # addr_info_ht p (dhmp_hash_in_client g))\<rparr>)"

lemma mid_reply_replied:
  assumes "infos q ai = Some i"
  shows "mid_reply D ai q (replied ai i m q) = replied ai i (mid_copy D m (nvm_mr i)) q"
  using assms by (simp add: mid_reply_def replied_def set_info_def)

lemma end_copy_allocated:
  "end_copy D (mw_addr_info mw) m (allocated w mw g n i (mid_copy D m old) p) = allocated w mw g n i m p"
  by (cases p, cases i) (simp add: end_copy_def allocated_def set_info_def set_work_def mid_copy_rest)

lemma allocated_facts:
  "works (allocated w mw g n i m p) w = Some (DHMP_WORK_MALLOC (mw\<lparr>mw_res_addr := g, mw_done := True\<rparr>))"
  "connect_trans (allocated w mw g n i m p) = connect_trans p"
  "\<exists>i'. infos (allocated w mw g n i m p) (mw_addr_info mw) = Some i' \<and> nvm_mr i' = m \<and> node_index i' = int n \<and> \<not> write_flag i'"
  by (simp_all add: allocated_def set_work_def)

text \<open>Once the wait is over, the handler does the same whatever part of the registration behind the address has come.\<close>

lemma malloc_handled:
  assumes "link_ok ec (mw_trans mw) p" and "never_fails ec" and "link_ok es ts s" and "never_fails es" and "has_dev es"
    and "infos p (mw_addr_info mw) = Some i" and "mr_length (nvm_mr i) = 0"
    and "numa_at es (mw_length mw) = Some a" and "reg_mr es a (mw_length mw) = Some mr" and "a \<noteq> 0" and "uint a < 2 ^ 48"
    and "length (connect_trans p) = 3" and "n < 3" and "connect_trans p ! n = Some (mw_trans mw)"
    and "\<forall>j < n. connect_trans p ! j \<noteq> Some (mw_trans mw)"
  shows "\<exists>p1 g. infos p1 (mw_addr_info mw) = Some i \<and>
    via ec (mw_trans mw) es ts pad s p1 = replied (mw_addr_info mw) i (mr\<lparr>mr_addr := a, mr_length := mw_length mw\<rparr>) p1 \<and>
    dhmp_transfer_normal_addr g = a \<and> dhmp_get_trans_from_addr (connect_trans p1) g = Inr (Some (mw_trans mw)) \<and>
    (\<forall>others m. others p1 = replied (mw_addr_info mw) i m p1 \<and> mr_length m \<noteq> 0 \<and> mr_addr m = a \<longrightarrow>
       dhmp_malloc_work_handler ec others w mw p = Inr (allocated w mw g n i m p1) \<and>
       lookup_info (allocated w mw g n i m p1) g = Inr (Some (mw_addr_info mw)))"
proof -
  let ?ai = "mw_addr_info mw" and ?mr = "mr\<lparr>mr_addr := a, mr_length := mw_length mw\<rparr>"
  obtain p1 where p1: "dhmp_post_send ec (mw_trans mw)
      (mk_msg DHMP_MSG_MALLOC_REQUEST (enc_mc_request \<lparr>mc_req_size = mw_length mw, mc_addr_info = ?ai\<rparr>)) p = Inr p1"
    "after_post ec (mw_trans mw) p p1" "via ec (mw_trans mw) es ts pad s p1 = replied ?ai i ?mr p1"
    using malloc_replied [OF assms(1-6,8,9), of pad] by (auto simp: replied_def)
  note p1' = after_postD [OF p1(2)]
  define g where "g = dhmp_transfer_dhmp_addr (connect_trans p1) (mw_trans mw) a"
  have nodes: "length (connect_trans (replied ?ai i m p1)) = 3" "connect_trans (replied ?ai i m p1) ! n = Some (mw_trans mw)"
      "\<forall>k < n. connect_trans (replied ?ai i m p1) ! k \<noteq> Some (mw_trans mw)" "connect_trans (replied ?ai i m p1) = connect_trans p1"
      "infos (replied ?ai i m p1) ?ai = Some (i\<lparr>read_cnt := 0, write_cnt := 0, nvm_mr := m\<rparr>)" for m
    using assms(12-15) p1'(5) by (simp_all add: replied_def)
  have rest: "malloc_work_rest w mw (replied ?ai i m p1) = Inr (allocated w mw g n i m p1)" "dhmp_transfer_normal_addr g = a"
      "dhmp_get_trans_from_addr (connect_trans p1) g = Inr (Some (mw_trans mw))"
      "lookup_info (allocated w mw g n i m p1) g = Inr (Some ?ai)" if "mr_addr m = a" for m
    using malloc_rest [OF nodes(5) _ assms(10,11) nodes(1) assms(13) nodes(2,3)] that nodes(4)
    by (simp_all add: lookup_info_def set_work_def replied_def allocated_def g_def)
  have "dhmp_malloc_work_handler ec others w mw p = malloc_work_rest w mw (replied ?ai i m p1)"
    if "others p1 = replied ?ai i m p1" "mr_length m \<noteq> 0" for others m
    using p1(1) p1'(2) that assms(6,7) nodes(5) by (simp add: dhmp_malloc_work_handler_def wait_until_def)
  then show ?thesis using p1(3) p1'(2) assms(6) rest(1,4) rest(2,3) [of ?mr] by (intro exI [of _ p1] exI [of _ g]) simp
qed

text \<open>C14: \<open>dhmp_malloc_work_handler\<close>, the handler that the work thread runs for a work of \<open>dhmp_malloc\<close>, allocates remote memory
  end to end, also when its wait ends in the middle of the other thread's copy. When the server can allocate and register
  the region, the handler sends the request, the server's handler answers, and the reply's handler copies the registration,
  the address before the length; the wait ends when the length is not 0, whatever other bytes \<open>D\<close> have been copied by then.
  The work is finished with a global address that decodes to the region and the node, and under which the table finds the
  struct, which after the rest of the copy holds exactly the server's registration: the same state as when the whole reply
  is handled before the wait ends.\<close>

theorem remote_malloc_works:
  assumes "link_ok ec (mw_trans mw) p" and "never_fails ec" and "link_ok es ts s" and "never_fails es" and "has_dev es"
    and "infos p (mw_addr_info mw) = Some i" and "mr_length (nvm_mr i) = 0" and "mw_length mw \<noteq> 0"
    and "numa_at es (mw_length mw) = Some a" and "reg_mr es a (mw_length mw) = Some mr" and "a \<noteq> 0" and "uint a < 2 ^ 48"
    and "length (connect_trans p) = 3" and "n < 3" and "connect_trans p ! n = Some (mw_trans mw)"
    and "\<forall>j < n. connect_trans p ! j \<noteq> Some (mw_trans mw)"
    and "addr_first D" and "mr_length (mid_copy D (mr\<lparr>mr_addr := a, mr_length := mw_length mw\<rparr>) (nvm_mr i)) \<noteq> 0"
  shows "\<exists>p1 p' g i'.
    dhmp_malloc_work_handler ec (\<lambda>q. mid_reply D (mw_addr_info mw) q (via ec (mw_trans mw) es ts pad s q)) w mw p = Inr p1 \<and>
    end_copy D (mw_addr_info mw) (mr\<lparr>mr_addr := a, mr_length := mw_length mw\<rparr>) p1 = p' \<and>
    dhmp_malloc_work_handler ec (via ec (mw_trans mw) es ts pad s) w mw p = Inr p' \<and>
    works p' w = Some (DHMP_WORK_MALLOC (mw\<lparr>mw_res_addr := g, mw_done := True\<rparr>)) \<and> works p1 w = works p' w \<and>
    dhmp_transfer_normal_addr g = a \<and> dhmp_get_trans_from_addr (connect_trans p') g = Inr (Some (mw_trans mw)) \<and>
    lookup_info p' g = Inr (Some (mw_addr_info mw)) \<and> infos p' (mw_addr_info mw) = Some i' \<and>
    nvm_mr i' = mr\<lparr>mr_addr := a, mr_length := mw_length mw\<rparr> \<and> node_index i' = int n \<and> \<not> write_flag i'"
proof -
  let ?ai = "mw_addr_info mw" and ?mr = "mr\<lparr>mr_addr := a, mr_length := mw_length mw\<rparr>"
  let ?m = "mid_copy D ?mr (nvm_mr i)"
  have addr: "mr_addr ?m = a" using wait_end_addr [OF assms(17) assms(7) assms(18)] by simp
  obtain p1 g where h: "infos p1 ?ai = Some i" "via ec (mw_trans mw) es ts pad s p1 = replied ?ai i ?mr p1"
      "dhmp_transfer_normal_addr g = a" "dhmp_get_trans_from_addr (connect_trans p1) g = Inr (Some (mw_trans mw))"
      "\<And>others m. others p1 = replied ?ai i m p1 \<Longrightarrow> mr_length m \<noteq> 0 \<Longrightarrow> mr_addr m = a \<Longrightarrow>
         dhmp_malloc_work_handler ec others w mw p = Inr (allocated w mw g n i m p1) \<and>
         lookup_info (allocated w mw g n i m p1) g = Inr (Some ?ai)"
    using malloc_handled [OF assms(1-7,9-16), of pad w] by blast
  have mid: "mid_reply D ?ai p1 (via ec (mw_trans mw) es ts pad s p1) = replied ?ai i ?m p1"
    unfolding h(2) by (rule mid_reply_replied [OF h(1)])
  have "dhmp_malloc_work_handler ec (\<lambda>q. mid_reply D ?ai q (via ec (mw_trans mw) es ts pad s q)) w mw p
      = Inr (allocated w mw g n i ?m p1)"
    using h(5) [of "\<lambda>q. mid_reply D ?ai q (via ec (mw_trans mw) es ts pad s q)" ?m] mid addr assms(18) by blast
  moreover have "dhmp_malloc_work_handler ec (via ec (mw_trans mw) es ts pad s) w mw p = Inr (allocated w mw g n i ?mr p1)"
      "lookup_info (allocated w mw g n i ?mr p1) g = Inr (Some ?ai)"
    using h(5) [of "via ec (mw_trans mw) es ts pad s" ?mr] h(2) assms(8) by simp_all
  moreover obtain i' where "infos (allocated w mw g n i ?mr p1) ?ai = Some i'" "nvm_mr i' = ?mr" "node_index i' = int n" "\<not> write_flag i'"
    using allocated_facts(3) [of w mw g n i ?mr p1] by blast
  ultimately show ?thesis
    using h(3,4) by (intro exI [of _ "allocated w mw g n i ?m p1"] exI [of _ "allocated w mw g n i ?mr p1"] exI [of _ g] exI [of _ i'])
      (simp add: end_copy_allocated allocated_facts)
qed

theorem remote_malloc_works_witness:
  "let mw = \<lparr>mw_trans = 1, mw_addr_info = 16, mw_res_addr = 0, mw_length = 4096, mw_done = False\<rparr>;
       mr = null_mr\<lparr>mr_addr := 0x7f0000000000, mr_length := 4096, mr_lkey := 5, mr_rkey := 6\<rparr>
   in \<exists>p1 p' g. dhmp_malloc_work_handler demo_env (\<lambda>q. mid_reply {..<32} 16 q (via demo_env 1 demo_env 1 [] demo_proc q)) 8 mw demo_proc = Inr p1 \<and>
        end_copy {..<32} 16 mr p1 = p' \<and>
        works p' 8 = Some (DHMP_WORK_MALLOC (mw\<lparr>mw_res_addr := g, mw_done := True\<rparr>)) \<and>
        dhmp_transfer_normal_addr g = 0x7f0000000000 \<and> lookup_info p' g = Inr (Some 16)"
proof -
  let ?mw = "\<lparr>mw_trans = 1, mw_addr_info = 16, mw_res_addr = 0, mw_length = 4096, mw_done = False\<rparr>"
  let ?mr = "null_mr\<lparr>mr_addr := 0x7f0000000000, mr_length := 4096, mr_lkey := 5, mr_rkey := 6\<rparr>"
  have same: "?mr\<lparr>mr_addr := 0x7f0000000000, mr_length := mw_length ?mw\<rparr> = ?mr" by (simp add: null_mr_def)
  have seen: "mr_length (mid_copy {..<32} ?mr (nvm_mr fresh_info)) \<noteq> 0"
    using mid_copy_length(2) [of "{..<32}" ?mr "nvm_mr fresh_info"] by (simp add: null_mr_def subset_iff)
  from remote_malloc_works [of demo_env ?mw demo_proc demo_env 1 demo_proc fresh_info "0x7f0000000000" ?mr 1 "{..<32}" "[]" 8]
  show ?thesis using same seen ascending_addr_first by (auto simp: demo_simps fresh_info_def null_mr_def)
qed

text \<open>Were the length copied first, the handler would return \<open>NULL\<close> and free the struct that the other thread is
  writing to.\<close>

lemma length_first_gives_null:
  assumes "link_ok ec (mw_trans mw) p" and "never_fails ec" and "link_ok es ts s" and "never_fails es" and "has_dev es"
    and "infos p (mw_addr_info mw) = Some i" and "nvm_mr i = null_mr"
    and "numa_at es (mw_length mw) = Some a" and "reg_mr es a (mw_length mw) = Some mr"
    and "D \<inter> {16..<24} = {}" and "mr_length (mid_copy D (mr\<lparr>mr_addr := a, mr_length := mw_length mw\<rparr>) (nvm_mr i)) \<noteq> 0"
  shows "\<exists>p1. dhmp_malloc_work_handler ec (\<lambda>q. mid_reply D (mw_addr_info mw) q (via ec (mw_trans mw) es ts pad s q)) w mw p = Inr p1 \<and>
    works p1 w = Some (DHMP_WORK_MALLOC (mw\<lparr>mw_res_addr := 0, mw_done := True\<rparr>)) \<and> infos p1 (mw_addr_info mw) = None"
proof -
  let ?ai = "mw_addr_info mw" and ?mr = "mr\<lparr>mr_addr := a, mr_length := mw_length mw\<rparr>"
  obtain p1 where p1: "dhmp_post_send ec (mw_trans mw)
      (mk_msg DHMP_MSG_MALLOC_REQUEST (enc_mc_request \<lparr>mc_req_size = mw_length mw, mc_addr_info = ?ai\<rparr>)) p = Inr p1"
    "after_post ec (mw_trans mw) p p1"
    "via ec (mw_trans mw) es ts pad s p1 = p1\<lparr>infos := (infos p1)(?ai \<mapsto> i\<lparr>read_cnt := 0, write_cnt := 0, nvm_mr := ?mr\<rparr>)\<rparr>"
    using malloc_replied [OF assms(1-6,8,9), of pad] by blast
  have "mr_addr (mid_copy D ?mr null_mr) = 0" using mid_copy_addr(2) [OF assms(10), of ?mr null_mr] by (simp add: null_mr_def)
  then show ?thesis
    using p1 after_postD(2) [OF p1(2)] assms(6,7,11)
    by (simp add: dhmp_malloc_work_handler_def wait_until_def mid_reply_def set_info_def malloc_work_rest_def info_at_def set_work_def null_mr_def)
qed
text \<open>C39: When the server cannot allocate, the client never returns: the server answers with
  \<open>DHMP_MSG_MALLOC_ERROR\<close>, the handler for which is empty, and the length the work handler
  waits for stays 0.\<close>

theorem remote_malloc_error_hangs:
  assumes "link_ok ec (mw_trans mw) p" and "never_fails ec" and "link_ok es ts s" and "never_fails es" and "has_dev es"
    and "infos p (mw_addr_info mw) = Some i" and "mr_length (nvm_mr i) = 0" and "numa_at es (mw_length mw) = None"
  shows "dhmp_malloc_work_handler ec (via ec (mw_trans mw) es ts pad s) w mw p = Inl Spin"
proof -
  let ?t = "mw_trans mw" and ?q = "\<lparr>mc_req_size = mw_length mw, mc_addr_info = mw_addr_info mw\<rparr>"
  let ?r = "enc_mc_response \<lparr>mc_req_info = ?q, mc_mr = null_mr\<rparr>"
  obtain p1 where p1: "dhmp_post_send ec ?t (mk_msg DHMP_MSG_MALLOC_REQUEST (enc_mc_request ?q)) p = Inr p1"
      "last_frame p1 = Inr (msg_frame (mk_msg DHMP_MSG_MALLOC_REQUEST (enc_mc_request ?q)))" "infos p1 = infos p"
    using post_msg [OF assms(1,2), of "enc_mc_request ?q" DHMP_MSG_MALLOC_REQUEST] by (auto simp: enc_lengths after_postD)
  obtain s1 where s1: "dhmp_post_send es ts (mk_msg DHMP_MSG_MALLOC_ERROR ?r) s = Inr s1"
      "last_frame s1 = Inr (msg_frame (mk_msg DHMP_MSG_MALLOC_ERROR ?r))"
    using post_msg [OF assms(3,4), of ?r DHMP_MSG_MALLOC_ERROR] by (auto simp: enc_lengths after_postD)
  have "serve_request es ts pad (msg_frame (mk_msg DHMP_MSG_MALLOC_REQUEST (enc_mc_request ?q))) s
      = Inr (msg_frame (mk_msg DHMP_MSG_MALLOC_ERROR ?r), s1)"
    using s1 assms(5,8) mk_msg_facts(4) [of "enc_mc_request ?q" DHMP_MSG_MALLOC_REQUEST pad]
    by (simp add: serve_request_def recv_defs dhmp_malloc_request_handler_def dhmp_memory_malloc_register_def dec_encs enc_lengths)
  then have "via ec ?t es ts pad s p1 = p1"
    using p1(2) mk_msg_facts(4) [of ?r DHMP_MSG_MALLOC_ERROR pad]
    by (simp add: via_def round_trip_def recv_defs dhmp_malloc_error_handler_def enc_lengths)
  then show ?thesis
    using p1 assms(6,7) by (simp add: dhmp_malloc_work_handler_def wait_until_def)
qed

theorem remote_malloc_error_hangs_witness:
  "dhmp_malloc_work_handler demo_env (via demo_env 1 (demo_env\<lparr>numa_at := \<lambda>_. None\<rparr>) 1 [] demo_proc) 8
     \<lparr>mw_trans = 1, mw_addr_info = 16, mw_res_addr = 0, mw_length = 4096, mw_done = False\<rparr> demo_proc = Inl Spin"
  using remote_malloc_error_hangs [of demo_env "\<lparr>mw_trans = 1, mw_addr_info = 16, mw_res_addr = 0, mw_length = 4096, mw_done = False\<rparr>" demo_proc
      "demo_env\<lparr>numa_at := \<lambda>_. None\<rparr>" 1 demo_proc fresh_info "[]" 8]
  by (simp add: demo_simps fresh_info_def null_mr_def)

section \<open>Sending data in messages\<close>

definition outside_send_region :: "Proc \<Rightarrow> nat \<Rightarrow> u64 \<Rightarrow> nat \<Rightarrow> bool" where
  "outside_send_region p t a n \<longleftrightarrow>
     (\<forall>tr. transports p t = Some tr \<longrightarrow> (\<forall>i < n. SEND_REGION_SIZE \<le> unat (a + word_of_nat i - dmr_addr (send_mr tr))))"

lemma rd_mem_outside:
  assumes "\<forall>tr x. transports p t = Some tr \<and> SEND_REGION_SIZE \<le> unat (x - dmr_addr (send_mr tr)) \<longrightarrow> mem p' x = mem p x"
    and "transports p t = Some tr" and "outside_send_region p t a n"
  shows "rd_mem (mem p') a n = rd_mem (mem p) a n" and "mapped (mem p') a n = mapped (mem p) a n"
proof -
  have same: "mem p' (a + word_of_nat i) = mem p (a + word_of_nat i)" if "i < n" for i
    using assms that by (simp add: outside_send_region_def)
  show m: "mapped (mem p') a n = mapped (mem p) a n" using same by (simp add: mapped_def)
  have "map (\<lambda>i. the (mem p' (a + word_of_nat i))) [0..<n] = map (\<lambda>i. the (mem p (a + word_of_nat i))) [0..<n]"
    using same by simp
  then show "rd_mem (mem p') a n = rd_mem (mem p) a n" by (simp only: rd_mem_def m)
qed

lemma link_wr_mem:
  assumes "link_ok e t p" and "wr_mem (mem p) a bs = Inr m"
  shows "link_ok e t (p\<lparr>mem := m\<rparr>)"
  using assms wr_mem_mapped [OF assms(2)] by (auto simp: link_ok_def send_region_ok_def)

lemma after_post_reads:
  assumes "after_post e t p p'" and "outside_send_region p t a n"
  shows "rd_mem (mem p') a n = rd_mem (mem p) a n" and "mapped (mem p') a n = mapped (mem p) a n" and "outside_send_region p' t a n"
proof -
  obtain tr where tr: "transports p t = Some tr" using assms(1) by (auto simp: after_post_def)
  show "rd_mem (mem p') a n = rd_mem (mem p) a n" "mapped (mem p') a n = mapped (mem p) a n"
    using rd_mem_outside [OF after_postD(9) [OF assms(1)] tr assms(2)] by auto
  show "outside_send_region p' t a n" using assms by (auto simp: after_post_def outside_send_region_def)
qed

lemma server_send_write:
  assumes link: "link_ok es ts s" and post: "never_fails es" and r: "sr_is_write r" "length bs = unat (sr_req_size r)" "52 + length bs \<le> SINGLE_NORM_RECV_REGION"
    and m: "mapped (mem s) (sr_server_addr r) (length bs)"
  shows "\<exists>m' s'. serve_request es ts pad (msg_frame (mk_msg DHMP_MSG_SEND_REQUEST (enc_send_request r @ bs))) s =
      Inr (msg_frame (mk_msg DHMP_MSG_SEND_RESPONSE (enc_send_request r)), s') \<and>
    wr_mem (mem s) (sr_server_addr r) bs = Inr m' \<and> after_post es ts (s\<lparr>mem := m'\<rparr>) s'"
proof -
  obtain m' where m': "wr_mem (mem s) (sr_server_addr r) bs = Inr m'" using wr_mem_ok [OF m] by blast
  let ?s1 = "s\<lparr>mem := m'\<rparr>"
  have link1: "link_ok es ts ?s1" by (rule link_wr_mem [OF link m'])
  obtain s2 where s2: "dhmp_post_send es ts (mk_msg DHMP_MSG_SEND_RESPONSE (enc_send_request r)) ?s1 = Inr s2"
      "last_frame s2 = Inr (msg_frame (mk_msg DHMP_MSG_SEND_RESPONSE (enc_send_request r)))" "after_post es ts ?s1 s2"
    using post_msg [OF link1 post, of "enc_send_request r" DHMP_MSG_SEND_RESPONSE] by (auto simp: enc_lengths)
  have "msg_parse (msg_frame (mk_msg DHMP_MSG_SEND_REQUEST (enc_send_request r @ bs)) @ pad)
      = \<lparr>msg_type = msg_code DHMP_MSG_SEND_REQUEST, data_size = word_of_nat (40 + length bs), data = enc_send_request r @ bs @ pad\<rparr>"
    using mk_msg_facts(4) [of "enc_send_request r @ bs" DHMP_MSG_SEND_REQUEST pad] r(3) by (simp add: enc_lengths SINGLE_NORM_RECV_REGION_def)
  moreover have "length (msg_frame (mk_msg DHMP_MSG_SEND_REQUEST (enc_send_request r @ bs))) \<le> SINGLE_NORM_RECV_REGION"
    using r(3) by (intro short_frame) (simp add: enc_lengths)
  ultimately show ?thesis
    using s2 m' r by (simp add: serve_request_def recv_defs dhmp_send_request_handler_def dec_encs enc_lengths)
qed

lemma server_send_read:
  assumes link: "link_ok es ts s" and post: "never_fails es" and r: "\<not> sr_is_write r" "n = unat (sr_req_size r)" "n < 2 ^ 27"
    and m: "rd_mem (mem s) (sr_server_addr r) n = Inr bs"
  shows "\<exists>s'. serve_request es ts pad (msg_frame (mk_msg DHMP_MSG_SEND_REQUEST (enc_send_request r))) s =
      Inr (msg_frame (mk_msg DHMP_MSG_SEND_RESPONSE (enc_send_request r @ bs)), s') \<and> after_post es ts s s'"
proof -
  have len: "length bs = n" using rd_mem_nth [OF m] by simp
  obtain s2 where s2: "dhmp_post_send es ts (mk_msg DHMP_MSG_SEND_RESPONSE (enc_send_request r @ bs)) s = Inr s2"
      "last_frame s2 = Inr (msg_frame (mk_msg DHMP_MSG_SEND_RESPONSE (enc_send_request r @ bs)))" "after_post es ts s s2"
    using post_msg [OF link post, of "enc_send_request r @ bs" DHMP_MSG_SEND_RESPONSE] r(3) len by (auto simp: enc_lengths)
  then show ?thesis
    using r m mk_msg_facts(4) [of "enc_send_request r" DHMP_MSG_SEND_REQUEST pad] link
    by (simp add: serve_request_def recv_defs dhmp_send_request_handler_def dec_encs enc_lengths link_ok_def)
qed

lemma rdma_send_write:
  assumes link: "link_ok ec (sw_trans sw) p" and post: "never_fails ec" and links: "link_ok es ts s" and posts: "never_fails es"
    and w: "works p w = Some (DHMP_WORK_SEND sw)" and is_write: "sw_is_write sw" and fl: "\<not> sw_recv_flag sw"
    and rd: "rd_mem (mem p) (sw_local_addr sw) (unat (sw_length sw)) = Inr bs" and small: "52 + unat (sw_length sw) \<le> SINGLE_NORM_RECV_REGION"
    and mp: "mapped (mem s) a (unat (sw_length sw))" and others: "serves others ec (sw_trans sw) es ts pad s"
  shows "\<exists>p1 f g m' s'. dhmp_post_send ec (sw_trans sw) (mk_msg DHMP_MSG_SEND_REQUEST (enc_send_request (send_req w sw a) @ bs)) p = Inr p1 \<and>
    after_post ec (sw_trans sw) p p1 \<and> last_frame p1 = Inr f \<and> serve_request es ts pad f s = Inr (g, s') \<and>
    wr_mem (mem s) a bs = Inr m' \<and> after_post es ts (s\<lparr>mem := m'\<rparr>) s' \<and>
    round_trip ec (sw_trans sw) es ts pad s p1 = Inr (p1\<lparr>works := (works p)(w \<mapsto> DHMP_WORK_SEND (sw\<lparr>sw_recv_flag := True\<rparr>))\<rparr>, s') \<and>
    dhmp_rdma_send ec others w sw a p =
      Inr (p1\<lparr>works := (works p)(w \<mapsto> DHMP_WORK_SEND (sw\<lparr>sw_recv_flag := True, sw_done := True\<rparr>))\<rparr>)"
proof -
  let ?t = "sw_trans sw" and ?r = "send_req w sw a"
  let ?f = "msg_frame (mk_msg DHMP_MSG_SEND_REQUEST (enc_send_request ?r @ bs))"
  have len: "length bs = unat (sw_length sw)" using rd_mem_nth [OF rd] by simp
  have fits: "length (enc_send_request ?r @ bs) < 2 ^ 28" using small len by (simp add: enc_lengths SINGLE_NORM_RECV_REGION_def)
  obtain p1 where p1: "dhmp_post_send ec ?t (mk_msg DHMP_MSG_SEND_REQUEST (enc_send_request ?r @ bs)) p = Inr p1"
      "last_frame p1 = Inr ?f" "after_post ec ?t p p1"
    using post_msg [OF link post fits] by blast
  note p1' = after_postD [OF p1(3)]
  have rf: "sr_is_write ?r" "length bs = unat (sr_req_size ?r)" "52 + length bs \<le> SINGLE_NORM_RECV_REGION" "sr_server_addr ?r = a" "sr_task ?r = w"
    using is_write small len by (simp_all add: send_req_def)
  obtain m' s' where s': "serve_request es ts pad ?f s = Inr (msg_frame (mk_msg DHMP_MSG_SEND_RESPONSE (enc_send_request ?r)), s')"
      "wr_mem (mem s) a bs = Inr m'" "after_post es ts (s\<lparr>mem := m'\<rparr>) s'"
    using server_send_write [OF links posts rf(1,2,3), of pad] mp rf(4) len by auto
  let ?p2 = "p1\<lparr>works := (works p)(w \<mapsto> DHMP_WORK_SEND (sw\<lparr>sw_recv_flag := True\<rparr>))\<rparr>"
  have rt: "round_trip ec ?t es ts pad s p1 = Inr (?p2, s')"
    using p1(2) p1'(3) s'(1) rf w mk_msg_facts(4) [of "enc_send_request ?r" DHMP_MSG_SEND_RESPONSE pad]
    by (simp add: round_trip_def recv_defs dhmp_send_response_handler_def dec_encs enc_lengths)
  then have "others p1 = ?p2" using others p1'(7,8) by (simp add: serves_def via_def)
  then have "dhmp_rdma_send ec others w sw a p
      = Inr (p1\<lparr>works := (works p)(w \<mapsto> DHMP_WORK_SEND (sw\<lparr>sw_recv_flag := True, sw_done := True\<rparr>))\<rparr>)"
    using p1(1) p1'(3) w is_write fl rd link
    by (simp add: dhmp_rdma_send_def wait_until_def link_ok_def set_work_def)
  then show ?thesis using p1 s' rt by blast
qed

lemma rdma_send_read:
  assumes link: "link_ok ec (sw_trans sw) p" and post: "never_fails ec" and links: "link_ok es ts s" and posts: "never_fails es"
    and w: "works p w = Some (DHMP_WORK_SEND sw)" and is_read: "\<not> sw_is_write sw" and fl: "\<not> sw_recv_flag sw"
    and rd: "rd_mem (mem s) a (unat (sw_length sw)) = Inr bs" and small: "52 + unat (sw_length sw) \<le> SINGLE_NORM_RECV_REGION"
    and mp: "mapped (mem p) (sw_local_addr sw) (unat (sw_length sw))"
    and out: "outside_send_region p (sw_trans sw) (sw_local_addr sw) (unat (sw_length sw))"
    and others: "serves others ec (sw_trans sw) es ts pad s"
  shows "\<exists>p1 f g m s'. after_post ec (sw_trans sw) p p1 \<and> last_frame p1 = Inr f \<and> serve_request es ts pad f s = Inr (g, s') \<and>
    after_post es ts s s' \<and> wr_mem (mem p1) (sw_local_addr sw) bs = Inr m \<and>
    dhmp_rdma_send ec others w sw a p =
      Inr (p1\<lparr>mem := m, works := (works p)(w \<mapsto> DHMP_WORK_SEND (sw\<lparr>sw_recv_flag := True, sw_done := True\<rparr>))\<rparr>)"
proof -
  let ?t = "sw_trans sw" and ?r = "send_req w sw a"
  let ?f = "msg_frame (mk_msg DHMP_MSG_SEND_REQUEST (enc_send_request ?r))"
  have len: "length bs = unat (sw_length sw)" using rd_mem_nth [OF rd] by simp
  obtain p1 where p1: "dhmp_post_send ec ?t (mk_msg DHMP_MSG_SEND_REQUEST (enc_send_request ?r)) p = Inr p1"
      "last_frame p1 = Inr ?f" "after_post ec ?t p p1"
    using post_msg [OF link post, of "enc_send_request ?r" DHMP_MSG_SEND_REQUEST] by (auto simp: enc_lengths)
  note p1' = after_postD [OF p1(3)]
  obtain m where m: "wr_mem (mem p1) (sw_local_addr sw) bs = Inr m"
    using wr_mem_ok after_post_reads(2) [OF p1(3) out] mp len by metis
  have rf: "\<not> sr_is_write ?r" "unat (sr_req_size ?r) = length bs" "sr_server_addr ?r = a" "sr_task ?r = w" "sr_local_addr ?r = sw_local_addr sw"
    using is_read len by (simp_all add: send_req_def)
  obtain s' where s': "serve_request es ts pad ?f s = Inr (msg_frame (mk_msg DHMP_MSG_SEND_RESPONSE (enc_send_request ?r @ bs)), s')"
      "after_post es ts s s'"
    using server_send_read [OF links posts rf(1) rf(2) [symmetric]] rd small len rf(3)
    by (auto simp: SINGLE_NORM_RECV_REGION_def)
  let ?p2 = "p1\<lparr>mem := m, works := (works p)(w \<mapsto> DHMP_WORK_SEND (sw\<lparr>sw_recv_flag := True\<rparr>))\<rparr>"
  have "msg_parse (msg_frame (mk_msg DHMP_MSG_SEND_RESPONSE (enc_send_request ?r @ bs)) @ pad)
      = \<lparr>msg_type = msg_code DHMP_MSG_SEND_RESPONSE, data_size = word_of_nat (40 + length bs), data = enc_send_request ?r @ bs @ pad\<rparr>"
    using mk_msg_facts(4) [of "enc_send_request ?r @ bs" DHMP_MSG_SEND_RESPONSE pad] len small by (simp add: enc_lengths SINGLE_NORM_RECV_REGION_def)
  moreover have "length (msg_frame (mk_msg DHMP_MSG_SEND_RESPONSE (enc_send_request ?r @ bs))) \<le> SINGLE_NORM_RECV_REGION"
    using small len by (intro short_frame) (simp add: enc_lengths)
  ultimately have "via ec ?t es ts pad s p1 = ?p2"
    using p1(2) p1'(3) s'(1) rf m w
    by (simp add: via_def round_trip_def recv_defs dhmp_send_response_handler_def dec_encs enc_lengths)
  then have "others p1 = ?p2" using others p1'(7,8) by (simp add: serves_def)
  then have "dhmp_rdma_send ec others w sw a p
      = Inr (p1\<lparr>mem := m, works := (works p)(w \<mapsto> DHMP_WORK_SEND (sw\<lparr>sw_recv_flag := True, sw_done := True\<rparr>))\<rparr>)"
    using p1(1) p1'(3) w is_read fl by (simp add: dhmp_rdma_send_def wait_until_def set_work_def)
  then show ?thesis using p1 s' m by blast
qed

text \<open>Beyond the receive buffers nothing arrives, and the work handler waits for ever: the request of a write is
  too long, or the reply of a read.\<close>

lemma undelivered:
  assumes "last_frame p = Inr f" and "SINGLE_NORM_RECV_REGION < length f \<or>
    (\<exists>g s'. serve_request es ts pad f s = Inr (g, s') \<and> SINGLE_NORM_RECV_REGION < length g)"
  shows "round_trip ec tc es ts pad s p = Inl Spin" and "via ec tc es ts pad s p = p"
  using assms by (auto simp: round_trip_def via_def serve_request_def guardR_def)

lemma rdma_send_write_long:
  assumes "link_ok ec (sw_trans sw) p" and "never_fails ec"
    and w: "works p w = Some (DHMP_WORK_SEND sw)" and is_write: "sw_is_write sw" and fl: "\<not> sw_recv_flag sw"
    and rd: "rd_mem (mem p) (sw_local_addr sw) (unat (sw_length sw)) = Inr bs" and small: "unat (sw_length sw) < 2 ^ 27"
    and long: "SINGLE_NORM_RECV_REGION < 52 + unat (sw_length sw)"
  shows "dhmp_rdma_send ec (via ec (sw_trans sw) es ts pad s) w sw a p = Inl Spin"
proof -
  let ?bs = "enc_send_request (send_req w sw a) @ bs"
  have len: "length bs = unat (sw_length sw)" using rd_mem_nth [OF rd] by simp
  have fits: "length ?bs < 2 ^ 28" using small len by (simp add: enc_lengths)
  obtain p1 where p1: "dhmp_post_send ec (sw_trans sw) (mk_msg DHMP_MSG_SEND_REQUEST ?bs) p = Inr p1"
      "last_frame p1 = Inr (msg_frame (mk_msg DHMP_MSG_SEND_REQUEST ?bs))" "after_post ec (sw_trans sw) p p1"
    using post_msg [OF assms(1,2) fits] by blast
  have "SINGLE_NORM_RECV_REGION < length (msg_frame (mk_msg DHMP_MSG_SEND_REQUEST ?bs))"
    using long len fits length_mk_frame [of ?bs] by (simp add: enc_lengths)
  then have "via ec (sw_trans sw) es ts pad s p1 = p1" using undelivered(2) [OF p1(2)] by blast
  then show ?thesis
    using p1(1) after_postD(3) [OF p1(3)] w is_write fl rd assms(1) by (simp add: dhmp_rdma_send_def wait_until_def link_ok_def)
qed

lemma rdma_send_read_long:
  assumes "link_ok ec (sw_trans sw) p" and "never_fails ec" and "link_ok es ts s" and "never_fails es"
    and w: "works p w = Some (DHMP_WORK_SEND sw)" and is_read: "\<not> sw_is_write sw" and fl: "\<not> sw_recv_flag sw"
    and rd: "rd_mem (mem s) a (unat (sw_length sw)) = Inr bs" and small: "unat (sw_length sw) < 2 ^ 27"
    and long: "SINGLE_NORM_RECV_REGION < 52 + unat (sw_length sw)"
  shows "dhmp_rdma_send ec (via ec (sw_trans sw) es ts pad s) w sw a p = Inl Spin"
proof -
  let ?r = "send_req w sw a"
  have len: "length bs = unat (sw_length sw)" using rd_mem_nth [OF rd] by simp
  have fits: "length (enc_send_request ?r @ bs) < 2 ^ 28" using small len by (simp add: enc_lengths)
  obtain p1 where p1: "dhmp_post_send ec (sw_trans sw) (mk_msg DHMP_MSG_SEND_REQUEST (enc_send_request ?r)) p = Inr p1"
      "last_frame p1 = Inr (msg_frame (mk_msg DHMP_MSG_SEND_REQUEST (enc_send_request ?r)))" "after_post ec (sw_trans sw) p p1"
    using post_msg [OF assms(1,2), of "enc_send_request ?r" DHMP_MSG_SEND_REQUEST] by (auto simp: enc_lengths)
  have rf: "\<not> sr_is_write ?r" "unat (sr_req_size ?r) = length bs" "sr_server_addr ?r = a" using is_read len by (simp_all add: send_req_def)
  obtain s' where "serve_request es ts pad (msg_frame (mk_msg DHMP_MSG_SEND_REQUEST (enc_send_request ?r))) s =
      Inr (msg_frame (mk_msg DHMP_MSG_SEND_RESPONSE (enc_send_request ?r @ bs)), s')"
    using server_send_read [OF assms(3,4) rf(1) rf(2) [symmetric]] rd small len rf(3) by auto
  moreover have "SINGLE_NORM_RECV_REGION < length (msg_frame (mk_msg DHMP_MSG_SEND_RESPONSE (enc_send_request ?r @ bs)))"
    using long len fits length_mk_frame [of "enc_send_request ?r @ bs"] by (simp add: enc_lengths)
  ultimately have "via ec (sw_trans sw) es ts pad s p1 = p1" using undelivered(2) [OF p1(2)] by blast
  then show ?thesis
    using p1(1) after_postD(3) [OF p1(3)] w is_read fl by (simp add: dhmp_rdma_send_def wait_until_def)
qed

text \<open>C15: The two-sided write of \<open>dhmp_rdma_send\<close>. When the request with the data behind it fits into a receive buffer
  (12 bytes of message header, 40 of request and the data in 64 KiB), it reaches the server, whose handler copies exactly
  the caller's bytes to the address of the region, and the function returns with the work finished. A longer message,
  which the send region admits, is never delivered, and the function never returns.\<close>

theorem remote_send_write:
  assumes "link_ok ec (sw_trans sw) p" and "never_fails ec" and "link_ok es ts s" and "never_fails es"
    and "works p w = Some (DHMP_WORK_SEND sw)" and "sw_is_write sw" and "\<not> sw_recv_flag sw"
    and "rd_mem (mem p) (sw_local_addr sw) (unat (sw_length sw)) = Inr bs" and "unat (sw_length sw) < 2 ^ 27"
    and "mapped (mem s) a (unat (sw_length sw))" and "outside_send_region s ts a (unat (sw_length sw))"
  shows "if 52 + unat (sw_length sw) \<le> SINGLE_NORM_RECV_REGION
    then \<exists>p1 p2 s' p'. dhmp_post_send ec (sw_trans sw) (mk_msg DHMP_MSG_SEND_REQUEST (enc_send_request (send_req w sw a) @ bs)) p = Inr p1 \<and>
      round_trip ec (sw_trans sw) es ts pad s p1 = Inr (p2, s') \<and>
      rd_mem (mem s') a (unat (sw_length sw)) = Inr bs \<and>
      dhmp_rdma_send ec (via ec (sw_trans sw) es ts pad s) w sw a p = Inr p' \<and>
      works p' w = Some (DHMP_WORK_SEND (sw\<lparr>sw_recv_flag := True, sw_done := True\<rparr>)) \<and> mem p' = mem p1
    else dhmp_rdma_send ec (via ec (sw_trans sw) es ts pad s) w sw a p = Inl Spin"
proof (cases "52 + unat (sw_length sw) \<le> SINGLE_NORM_RECV_REGION")
  case True
  have len: "length bs = unat (sw_length sw)" using rd_mem_nth [OF assms(8)] by simp
  have "serves (via ec (sw_trans sw) es ts pad s) ec (sw_trans sw) es ts pad s" by (simp add: serves_def)
  from rdma_send_write [OF assms(1-8) True assms(10) this]
  obtain p1 m' s' where r: "dhmp_post_send ec (sw_trans sw) (mk_msg DHMP_MSG_SEND_REQUEST (enc_send_request (send_req w sw a) @ bs)) p = Inr p1"
      "wr_mem (mem s) a bs = Inr m'" "after_post es ts (s\<lparr>mem := m'\<rparr>) s'"
      "round_trip ec (sw_trans sw) es ts pad s p1 = Inr (p1\<lparr>works := (works p)(w \<mapsto> DHMP_WORK_SEND (sw\<lparr>sw_recv_flag := True\<rparr>))\<rparr>, s')"
      "dhmp_rdma_send ec (via ec (sw_trans sw) es ts pad s) w sw a p =
        Inr (p1\<lparr>works := (works p)(w \<mapsto> DHMP_WORK_SEND (sw\<lparr>sw_recv_flag := True, sw_done := True\<rparr>))\<rparr>)"
    by blast
  have "outside_send_region (s\<lparr>mem := m'\<rparr>) ts a (length bs)" using assms(11) len by (simp add: outside_send_region_def)
  then have "rd_mem (mem s') a (unat (sw_length sw)) = Inr bs"
    using after_post_reads(1) [OF r(3)] rd_wr_mem [OF r(2)] len assms(9) by simp
  then show ?thesis using r(1,4,5) True by simp
next
  case False
  then show ?thesis using rdma_send_write_long [OF assms(1,2,5-9)] by simp
qed

theorem remote_send_write_witness:
  "let sw = \<lparr>sw_trans = 1, sw_length = 2, sw_done = False, sw_dhmp_addr = 0, sw_local_addr = 0x1000, sw_recv_flag = False, sw_is_write = True\<rparr>;
       p = demo_proc\<lparr>works := [8 \<mapsto> DHMP_WORK_SEND sw]\<rparr>
   in \<exists>p'. dhmp_rdma_send demo_env (via demo_env 1 demo_env 1 [] demo_proc) 8 sw 0x2000 p = Inr p' \<and>
        works p' 8 = Some (DHMP_WORK_SEND (sw\<lparr>sw_recv_flag := True, sw_done := True\<rparr>))"
proof -
  let ?sw = "\<lparr>sw_trans = 1, sw_length = 2, sw_done = False, sw_dhmp_addr = 0, sw_local_addr = 0x1000, sw_recv_flag = False, sw_is_write = True\<rparr>"
  let ?p = "demo_proc\<lparr>works := [8 \<mapsto> DHMP_WORK_SEND ?sw]\<rparr>"
  have rd: "rd_mem (mem ?p) (sw_local_addr ?sw) (unat (sw_length ?sw)) = Inr [0, 0]"
    by (simp add: rd_mem_def demo_simps upt_rec)
  have out: "outside_send_region demo_proc 1 0x2000 (unat (sw_length ?sw))"
    by (auto simp: outside_send_region_def demo_simps SEND_REGION_SIZE_def less_2_cases_iff)
  show ?thesis
    using remote_send_write [of demo_env ?sw ?p demo_env 1 demo_proc 8 "[0, 0]" "0x2000" "[]", OF _ _ _ _ _ _ _ rd _ _ out]
    by (auto simp: demo_simps SINGLE_NORM_RECV_REGION_def)
qed

text \<open>C16: The two-sided read of \<open>dhmp_rdma_send\<close> fetches the server's bytes into the caller's buffer and returns with
  the work finished, when the reply with the data behind it fits into a receive buffer; a longer reply is never
  delivered, and the function never returns.\<close>

theorem remote_send_read:
  assumes "link_ok ec (sw_trans sw) p" and "never_fails ec" and "link_ok es ts s" and "never_fails es"
    and "works p w = Some (DHMP_WORK_SEND sw)" and "\<not> sw_is_write sw" and "\<not> sw_recv_flag sw"
    and "rd_mem (mem s) a (unat (sw_length sw)) = Inr bs" and "unat (sw_length sw) < 2 ^ 27"
    and "mapped (mem p) (sw_local_addr sw) (unat (sw_length sw))"
    and "outside_send_region p (sw_trans sw) (sw_local_addr sw) (unat (sw_length sw))"
  shows "if 52 + unat (sw_length sw) \<le> SINGLE_NORM_RECV_REGION
    then \<exists>p'. dhmp_rdma_send ec (via ec (sw_trans sw) es ts pad s) w sw a p = Inr p' \<and>
      works p' w = Some (DHMP_WORK_SEND (sw\<lparr>sw_recv_flag := True, sw_done := True\<rparr>)) \<and>
      rd_mem (mem p') (sw_local_addr sw) (unat (sw_length sw)) = Inr bs
    else dhmp_rdma_send ec (via ec (sw_trans sw) es ts pad s) w sw a p = Inl Spin"
proof (cases "52 + unat (sw_length sw) \<le> SINGLE_NORM_RECV_REGION")
  case True
  have len: "length bs = unat (sw_length sw)" using rd_mem_nth [OF assms(8)] by simp
  have "serves (via ec (sw_trans sw) es ts pad s) ec (sw_trans sw) es ts pad s" by (simp add: serves_def)
  from rdma_send_read [OF assms(1-8) True assms(10,11) this]
  obtain p1 m where r: "wr_mem (mem p1) (sw_local_addr sw) bs = Inr m"
      "dhmp_rdma_send ec (via ec (sw_trans sw) es ts pad s) w sw a p =
        Inr (p1\<lparr>mem := m, works := (works p)(w \<mapsto> DHMP_WORK_SEND (sw\<lparr>sw_recv_flag := True, sw_done := True\<rparr>))\<rparr>)"
    by blast
  moreover have "rd_mem m (sw_local_addr sw) (unat (sw_length sw)) = Inr bs" using rd_wr_mem [OF r(1)] len assms(9) by simp
  ultimately show ?thesis using True by simp
next
  case False
  then show ?thesis using rdma_send_read_long [OF assms(1-9)] by simp
qed

theorem remote_send_read_witness:
  "let sw = \<lparr>sw_trans = 1, sw_length = 2, sw_done = False, sw_dhmp_addr = 0, sw_local_addr = 0x1000, sw_recv_flag = False, sw_is_write = False\<rparr>;
       p = demo_proc\<lparr>works := [8 \<mapsto> DHMP_WORK_SEND sw]\<rparr>
   in \<exists>p'. dhmp_rdma_send demo_env (via demo_env 1 demo_env 1 [] (demo_proc\<lparr>mem := \<lambda>_. Some 7\<rparr>)) 8 sw 0x2000 p = Inr p' \<and>
        rd_mem (mem p') 0x1000 2 = Inr [7, 7]"
proof -
  let ?sw = "\<lparr>sw_trans = 1, sw_length = 2, sw_done = False, sw_dhmp_addr = 0, sw_local_addr = 0x1000, sw_recv_flag = False, sw_is_write = False\<rparr>"
  let ?p = "demo_proc\<lparr>works := [8 \<mapsto> DHMP_WORK_SEND ?sw]\<rparr>" and ?s = "demo_proc\<lparr>mem := \<lambda>_. Some 7\<rparr>"
  have rd: "rd_mem (mem ?s) 0x2000 (unat (sw_length ?sw)) = Inr [7, 7]"
    by (simp add: rd_mem_def demo_simps upt_rec)
  have out: "outside_send_region ?p (sw_trans ?sw) (sw_local_addr ?sw) (unat (sw_length ?sw))"
    by (auto simp: outside_send_region_def demo_simps SEND_REGION_SIZE_def less_2_cases_iff)
  show ?thesis
    using remote_send_read [of demo_env ?sw ?p demo_env 1 ?s 8 "0x2000" "[7, 7]" "[]", OF _ _ _ _ _ _ _ rd _ _ out]
    by (auto simp: demo_simps SINGLE_NORM_RECV_REGION_def)
qed

section \<open>A region in the table\<close>

definition demo_info :: dhmp_addr_info where
  "demo_info = fresh_info\<lparr>nvm_mr := null_mr\<lparr>mr_addr := 0x7f0000000000, mr_length := 4096, mr_rkey := 9\<rparr>\<rparr>"

definition demo_busy :: Proc where
  "demo_busy = demo_proc\<lparr>infos := [16 \<mapsto> demo_info], addr_info_ht := (\<lambda>_. [16])\<rparr>"

definition demo_rw :: dhmp_rw_work where
  "demo_rw = rw_work 1 0x7f0000000000 0x1000 16 0x10 False"

lemma demo_lookup [simp]: "lookup_info demo_busy 0x7f0000000000 = Inr (Some 16)"
  using normal_of_dhmp_addr [of "0x7f0000000000" 0]
  by (simp add: lookup_info_def demo_busy_def dhmp_get_addr_info_from_ht_def demo_info_def)

lemma demo_rw_fields [simp]: "rw_dhmp_addr demo_rw = 0x7f0000000000" "rw_local_addr demo_rw = 0x1000" "rw_length demo_rw = 16"
    "rw_offset demo_rw = 0x10"
  by (simp_all add: demo_rw_def rw_work_def)

lemma demo_facts: "infos demo_busy 16 = Some demo_info" "mapped (mem demo_busy) a n" "posted demo_busy = []" "link_ok demo_env 1 demo_busy"
    "malloc_ok demo_env" "\<not> post_err demo_env wr" "reg_mr demo_env a' n' = Some (null_mr\<lparr>mr_addr := a', mr_length := n', mr_lkey := 5, mr_rkey := 6\<rparr>)"
    "\<not> write_flag demo_info" "mr_addr (nvm_mr demo_info) = 0x7f0000000000" "int_of_size 16 = 16"
  by (simp_all add: demo_busy_def demo_simps demo_info_def fresh_info_def int_of_size_def signed_take_bit_int_eq_self)

section \<open>One-sided operations\<close>

text \<open>The completion of the request posted last is handled by the epoll thread.\<close>

definition nic_done :: "Env \<Rightarrow> ibv_wc_status \<Rightarrow> ibv_wc_opcode \<Rightarrow> Proc \<Rightarrow> Proc" where
  "nic_done e st op q =
     (case dhmp_comp_channel_handler e False False [\<lparr>wc_id = wr_id (last (posted q)), wc_status = st, wc_opcode = op\<rparr>] q of
        Inl _ \<Rightarrow> q | Inr q' \<Rightarrow> q')"

lemma bindR_Inr_id [simp]: "bindR m Inr = m"
  by (cases m) auto

lemma mset_remove1_snoc: "mset (remove1 x (xs @ [x])) = mset xs"
  by simp

text \<open>The request of a one-sided operation, and what the handlers leave. \<open>m\<close> is the memory after the
  network card has carried it out.\<close>

definition rw_request :: "ibv_wr_opcode \<Rightarrow> dhmp_rw_work \<Rightarrow> ibv_mr \<Rightarrow> ibv_mr \<Rightarrow> nat \<Rightarrow> ibv_send_wr" where
  "rw_request op rw remote mr k =
     \<lparr>wr_id = k, wr_qp = rw_trans rw, wr_opcode = op, wr_addr = rw_local_addr rw,
      wr_length = word_of_int (int_of_size (rw_length rw)), wr_lkey = mr_lkey mr,
      wr_remote_addr = mr_addr remote + rw_offset rw, wr_rkey = mr_rkey remote\<rparr>"

lemma write_work:
  assumes "lookup_info p (rw_dhmp_addr rw) = Inr (Some ai)" and i: "infos p ai = Some i" "\<not> write_flag i"
    and "malloc_ok e" and "never_fails e"
    and "reg_mr e (rw_local_addr rw) (word_of_int (int_of_size (rw_length rw))) = Some mr" and "mr_addr mr = rw_local_addr rw"
    and m: "mapped (mem p) (rw_local_addr rw) 12"
    and others: "\<And>q. posted q = posted p @ [rw_request IBV_WR_RDMA_WRITE rw (nvm_mr i) mr (next_task p)] \<Longrightarrow> mem q = mem p \<Longrightarrow>
      others q = nic_done e IBV_WC_SUCCESS IBV_WC_RDMA_WRITE q"
  shows "\<exists>tk. dhmp_write_work_handler e others w rw p = Inr (p\<lparr>tasks := tk, next_task := next_task p + 1,
    infos := (infos p)(ai \<mapsto> i\<lparr>write_cnt := write_cnt i + 1\<rparr>), regs := remove1 mr (regs p @ [mr]),
    posted := posted p @ [rw_request IBV_WR_RDMA_WRITE rw (nvm_mr i) mr (next_task p)],
    works := (works p)(w \<mapsto> DHMP_WORK_WRITE (rw\<lparr>rw_done := True\<rparr>))\<rparr>)"
proof -
  have i': "i\<lparr>write_cnt := c, write_flag := False\<rparr> = i\<lparr>write_cnt := c\<rparr>" for c using i(2) by (cases i) simp
  have len: "(ucast (word_of_int (int_of_size (rw_length rw)) :: u64) :: u32) = word_of_int (int_of_size (rw_length rw))"
    by (simp add: unsigned_of_int of_int_take_bit take_bit_word_eq_self)
  have rd: "\<exists>bs. rd_mem (mem p) (rw_local_addr rw) 12 = Inr bs" using m by (simp add: rd_mem_def)
  then show ?thesis
    using assms(1-8) len others
    by (intro exI [of _ "(tasks p)(next_task p \<mapsto> \<lparr>done_flag = True,
        task_sge = \<lparr>sge_addr = rw_local_addr rw, sge_length = word_of_int (int_of_size (rw_length rw)), sge_lkey = mr_lkey mr\<rparr>,
        task_trans = rw_trans rw, task_smr = Some mr, task_addr_info = ai\<rparr>)"])
      (auto simp: i' dhmp_write_work_handler_def wait_write_flag_def wait_until_def info_at_def set_info_def set_work_def
        dhmp_rdma_write_def dhmp_get_mr_from_send_list_def dhmp_write_task_create_def rw_task_def new_task_def make_wr_def Let_def
        wait_task_def nic_done_def dhmp_comp_channel_handler_def dhmp_wc_success_handler_def rw_request_def)
qed

lemma read_work:
  assumes "lookup_info p (rw_dhmp_addr rw) = Inr (Some ai)" and i: "infos p ai = Some i" "\<not> write_flag i"
    and "malloc_ok e" and "never_fails e"
    and "reg_mr e (rw_local_addr rw) (word_of_int (int_of_size (rw_length rw))) = Some mr" and "mr_addr mr = rw_local_addr rw"
    and m: "mapped m (rw_local_addr rw) 12"
    and others: "\<And>q. posted q = posted p @ [rw_request IBV_WR_RDMA_READ rw (nvm_mr i) mr (next_task p)] \<Longrightarrow> mem q = mem p \<Longrightarrow>
      others q = nic_done e IBV_WC_SUCCESS IBV_WC_RDMA_READ (q\<lparr>mem := m\<rparr>)"
  shows "\<exists>tk. dhmp_read_work_handler e others w rw p = Inr (p\<lparr>mem := m, tasks := tk, next_task := next_task p + 1,
    infos := (infos p)(ai \<mapsto> i\<lparr>read_cnt := read_cnt i + 1\<rparr>), regs := remove1 mr (regs p @ [mr]),
    posted := posted p @ [rw_request IBV_WR_RDMA_READ rw (nvm_mr i) mr (next_task p)],
    works := (works p)(w \<mapsto> DHMP_WORK_READ (rw\<lparr>rw_done := True\<rparr>))\<rparr>)"
proof -
  have len: "(ucast (word_of_int (int_of_size (rw_length rw)) :: u64) :: u32) = word_of_int (int_of_size (rw_length rw))"
    by (simp add: unsigned_of_int of_int_take_bit take_bit_word_eq_self)
  have rd: "\<exists>bs. rd_mem m (rw_local_addr rw) 12 = Inr bs" using m by (simp add: rd_mem_def)
  then show ?thesis
    using assms(1-7) len others
    by (intro exI [of _ "(tasks p)(next_task p \<mapsto> \<lparr>done_flag = True,
        task_sge = \<lparr>sge_addr = rw_local_addr rw, sge_length = word_of_int (int_of_size (rw_length rw)), sge_lkey = mr_lkey mr\<rparr>,
        task_trans = rw_trans rw, task_smr = Some mr, task_addr_info = 0\<rparr>)"])
      (auto simp: dhmp_read_work_handler_def wait_write_flag_def wait_until_def info_at_def set_info_def set_work_def
        dhmp_rdma_read_def dhmp_get_mr_from_send_list_def dhmp_read_task_create_def rw_task_def new_task_def make_wr_def Let_def
        wait_task_def nic_done_def dhmp_comp_channel_handler_def dhmp_wc_success_handler_def rw_request_def)
qed

lemma write_work_result:
  assumes "lookup_info p (rw_dhmp_addr rw) = Inr (Some ai)" and "infos p ai = Some i" and "\<not> write_flag i"
    and "malloc_ok e" and "never_fails e"
    and "reg_mr e (rw_local_addr rw) (word_of_int (int_of_size (rw_length rw))) = Some mr" and "mr_addr mr = rw_local_addr rw"
    and "mapped (mem p) (rw_local_addr rw) 12"
  shows "\<exists>p' wr. dhmp_write_work_handler e (nic_done e IBV_WC_SUCCESS IBV_WC_RDMA_WRITE) w rw p = Inr p' \<and>
    works p' w = Some (DHMP_WORK_WRITE (rw\<lparr>rw_done := True\<rparr>)) \<and> posted p' = posted p @ [wr] \<and>
    wr_opcode wr = IBV_WR_RDMA_WRITE \<and> wr_qp wr = rw_trans rw \<and> wr_addr wr = rw_local_addr rw \<and>
    wr_length wr = word_of_int (int_of_size (rw_length rw)) \<and>
    wr_remote_addr wr = mr_addr (nvm_mr i) + rw_offset rw \<and> wr_rkey wr = mr_rkey (nvm_mr i) \<and>
    infos p' ai = Some (i\<lparr>write_cnt := write_cnt i + 1\<rparr>) \<and> mset (regs p') = mset (regs p) \<and> mem p' = mem p"
proof -
  obtain tk where h: "dhmp_write_work_handler e (nic_done e IBV_WC_SUCCESS IBV_WC_RDMA_WRITE) w rw p = Inr (p\<lparr>tasks := tk,
      next_task := next_task p + 1, infos := (infos p)(ai \<mapsto> i\<lparr>write_cnt := write_cnt i + 1\<rparr>), regs := remove1 mr (regs p @ [mr]),
      posted := posted p @ [rw_request IBV_WR_RDMA_WRITE rw (nvm_mr i) mr (next_task p)],
      works := (works p)(w \<mapsto> DHMP_WORK_WRITE (rw\<lparr>rw_done := True\<rparr>))\<rparr>)"
    using write_work [OF assms refl] by blast
  then show ?thesis
    by (intro exI [of _ "rw_request IBV_WR_RDMA_WRITE rw (nvm_mr i) mr (next_task p)"] exI) (auto simp: rw_request_def)
qed

text \<open>C17: A remote write of the client is one RDMA write: the handler waits until no other
  write to the region is in flight, registers the caller's buffer, posts a request with the
  buffer, the length as an \<open>int\<close>, and the remote address \<open>addr + offset\<close> under the region's key,
  and when its completion has been handled it returns with the busy flag cleared and the
  registration released.\<close>

theorem remote_write_completes:
  assumes "lookup_info p (rw_dhmp_addr rw) = Inr (Some ai)" and "infos p ai = Some i" and "\<not> write_flag i"
    and "malloc_ok e" and "never_fails e"
    and "reg_mr e (rw_local_addr rw) (word_of_int (int_of_size (rw_length rw))) = Some mr" and "mr_addr mr = rw_local_addr rw"
    and "mapped (mem p) (rw_local_addr rw) 12"
  shows "\<exists>p' wr. dhmp_write_work_handler e (nic_done e IBV_WC_SUCCESS IBV_WC_RDMA_WRITE) w rw p = Inr p' \<and>
    works p' w = Some (DHMP_WORK_WRITE (rw\<lparr>rw_done := True\<rparr>)) \<and> posted p' = posted p @ [wr] \<and>
    wr_opcode wr = IBV_WR_RDMA_WRITE \<and> wr_qp wr = rw_trans rw \<and> wr_addr wr = rw_local_addr rw \<and>
    wr_length wr = word_of_int (int_of_size (rw_length rw)) \<and>
    wr_remote_addr wr = mr_addr (nvm_mr i) + rw_offset rw \<and> wr_rkey wr = mr_rkey (nvm_mr i) \<and>
    infos p' ai = Some (i\<lparr>write_cnt := write_cnt i + 1\<rparr>) \<and> mset (regs p') = mset (regs p)"
  using write_work_result [OF assms] by metis

theorem remote_write_completes_witness:
  "\<exists>p' wr. dhmp_write_work_handler demo_env (nic_done demo_env IBV_WC_SUCCESS IBV_WC_RDMA_WRITE) 8 demo_rw demo_busy = Inr p' \<and>
     posted p' = [wr] \<and> wr_remote_addr wr = 0x7f0000000010 \<and> wr_length wr = 16"
  using remote_write_completes [of demo_busy demo_rw 16 demo_info demo_env "null_mr\<lparr>mr_addr := 0x1000, mr_length := 16, mr_lkey := 5, mr_rkey := 6\<rparr>" 8]
    demo_lookup
  by (auto simp: demo_facts)

text \<open>C18: A remote read is one RDMA read into the caller's buffer, after the writes in
  flight.\<close>

theorem remote_read_completes:
  assumes "lookup_info p (rw_dhmp_addr rw) = Inr (Some ai)" and "infos p ai = Some i" and "\<not> write_flag i"
    and "malloc_ok e" and "never_fails e"
    and "reg_mr e (rw_local_addr rw) (word_of_int (int_of_size (rw_length rw))) = Some mr" and "mr_addr mr = rw_local_addr rw"
    and "mapped (mem p) (rw_local_addr rw) 12"
  shows "\<exists>p' wr. dhmp_read_work_handler e (nic_done e IBV_WC_SUCCESS IBV_WC_RDMA_READ) w rw p = Inr p' \<and>
    works p' w = Some (DHMP_WORK_READ (rw\<lparr>rw_done := True\<rparr>)) \<and> posted p' = posted p @ [wr] \<and>
    wr_opcode wr = IBV_WR_RDMA_READ \<and> wr_qp wr = rw_trans rw \<and> wr_addr wr = rw_local_addr rw \<and>
    wr_length wr = word_of_int (int_of_size (rw_length rw)) \<and>
    wr_remote_addr wr = mr_addr (nvm_mr i) + rw_offset rw \<and> wr_rkey wr = mr_rkey (nvm_mr i) \<and>
    infos p' ai = Some (i\<lparr>read_cnt := read_cnt i + 1\<rparr>) \<and> mset (regs p') = mset (regs p)"
proof -
  have same: "q = q\<lparr>mem := mem p\<rparr>" if "mem q = mem p" for q :: Proc using that by (cases q) simp
  obtain tk where h: "dhmp_read_work_handler e (nic_done e IBV_WC_SUCCESS IBV_WC_RDMA_READ) w rw p = Inr (p\<lparr>mem := mem p, tasks := tk,
      next_task := next_task p + 1, infos := (infos p)(ai \<mapsto> i\<lparr>read_cnt := read_cnt i + 1\<rparr>), regs := remove1 mr (regs p @ [mr]),
      posted := posted p @ [rw_request IBV_WR_RDMA_READ rw (nvm_mr i) mr (next_task p)],
      works := (works p)(w \<mapsto> DHMP_WORK_READ (rw\<lparr>rw_done := True\<rparr>))\<rparr>)"
    using read_work [OF assms, of "nic_done e IBV_WC_SUCCESS IBV_WC_RDMA_READ" w, OF arg_cong [OF same]] by blast
  then show ?thesis
    by (intro exI [of _ "rw_request IBV_WR_RDMA_READ rw (nvm_mr i) mr (next_task p)"] exI) (auto simp: rw_request_def)
qed

theorem remote_read_completes_witness:
  "\<exists>p' wr. dhmp_read_work_handler demo_env (nic_done demo_env IBV_WC_SUCCESS IBV_WC_RDMA_READ) 8 demo_rw demo_busy = Inr p' \<and>
     posted p' = [wr] \<and> wr_remote_addr wr = 0x7f0000000010 \<and> wr_length wr = 16"
  using remote_read_completes [of demo_busy demo_rw 16 demo_info demo_env "null_mr\<lparr>mr_addr := 0x1000, mr_length := 16, mr_lkey := 5, mr_rkey := 6\<rparr>" 8]
    demo_lookup
  by (auto simp: demo_facts)

text \<open>A failed completion is only logged, so a remote read or write whose request completes
  with an error never returns.\<close>

lemma failed_completion_hangs:
  assumes "lookup_info p (rw_dhmp_addr rw) = Inr (Some ai)" and "infos p ai = Some i" and "\<not> write_flag i"
    and "malloc_ok e" and "never_fails e"
    and "reg_mr e (rw_local_addr rw) (word_of_int (int_of_size (rw_length rw))) = Some mr" and "st \<noteq> IBV_WC_SUCCESS"
  shows "dhmp_write_work_handler e (nic_done e st op) w rw p = Inl Spin \<and> dhmp_read_work_handler e (nic_done e st op) w rw p = Inl Spin"
  using assms
  by (auto simp: dhmp_write_work_handler_def dhmp_read_work_handler_def wait_write_flag_def wait_until_def info_at_def set_info_def set_work_def
      dhmp_rdma_write_def dhmp_rdma_read_def dhmp_get_mr_from_send_list_def dhmp_write_task_create_def dhmp_read_task_create_def
      rw_task_def new_task_def make_wr_def Let_def wait_task_def nic_done_def dhmp_comp_channel_handler_def dhmp_wc_error_handler_def)

lemma failed_completion_hangs_witness:
  "dhmp_write_work_handler demo_env (nic_done demo_env IBV_WC_WR_FLUSH_ERR IBV_WC_RDMA_WRITE) 8 demo_rw demo_busy = Inl Spin"
  using failed_completion_hangs [of demo_busy demo_rw 16 demo_info demo_env "null_mr\<lparr>mr_addr := 0x1000, mr_length := 16, mr_lkey := 5, mr_rkey := 6\<rparr>"
      IBV_WC_WR_FLUSH_ERR IBV_WC_RDMA_WRITE 8] demo_lookup
  by (auto simp: demo_facts)

text \<open>Freeing remote memory never returns: neither side does anything with the messages,
  so the address the work handler waits to become \<open>NULL\<close> stays.\<close>

lemma remote_free_hangs:
  assumes "link_ok e (fw_trans fw) p" and "never_fails e" and "lookup_info p (fw_dhmp_addr fw) = Inr (Some ai)"
    and "infos p ai = Some i" and "mr_addr (nvm_mr i) \<noteq> 0"
    and "msg_type_of (msg_type m) = Some DHMP_MSG_FREE_RESPONSE"
  shows "dhmp_free_work_handler e (\<lambda>q. case dhmp_wc_recv_handler e t m q of Inl _ \<Rightarrow> q | Inr q' \<Rightarrow> q') w fw p = Inl Spin"
proof -
  let ?p1 = "p\<lparr>addr_info_ht := ht_del (dhmp_hash_in_client (fw_dhmp_addr fw)) ai (addr_info_ht p)\<rparr>"
  have link: "link_ok e (fw_trans fw) ?p1" using assms(1) by (simp add: link_ok_def send_region_ok_def)
  obtain p2 where "dhmp_post_send e (fw_trans fw) (mk_msg DHMP_MSG_FREE_REQUEST (enc_free_request \<lparr>fr_addr_info = ai, fr_mr = nvm_mr i\<rparr>)) ?p1 = Inr p2"
      "infos p2 = infos p"
    using post_msg [OF link assms(2), of "enc_free_request \<lparr>fr_addr_info = ai, fr_mr = nvm_mr i\<rparr>" DHMP_MSG_FREE_REQUEST]
    by (auto simp: enc_lengths after_postD)
  then show ?thesis
    using assms(3-6)
    by (simp add: dhmp_free_work_handler_def info_at_def wait_until_def dhmp_wc_recv_handler_def dhmp_free_response_handler_def)
qed

lemma remote_free_hangs_witness:
  "dhmp_free_work_handler demo_env (\<lambda>q. case dhmp_wc_recv_handler demo_env 1 (mk_msg DHMP_MSG_FREE_RESPONSE []) q of Inl _ \<Rightarrow> q | Inr q' \<Rightarrow> q') 8
     \<lparr>fw_trans = 1, fw_dhmp_addr = 0x7f0000000000, fw_done = False\<rparr> demo_busy = Inl Spin"
  using remote_free_hangs [of demo_env "\<lparr>fw_trans = 1, fw_dhmp_addr = 0x7f0000000000, fw_done = False\<rparr>" demo_busy 16 demo_info
      "mk_msg DHMP_MSG_FREE_RESPONSE []" 1 8] demo_lookup demo_facts(4)
  by (auto simp: demo_facts mk_msg_def msg_type_round_trip)

end
