(* ===== verification/RingSetup.thy ===== *)
theory RingSetup
  imports Exchange
begin

text \<open>
  How the ring buffer of a server comes to be: the first \<open>DHMP_BUFF_MALLOC_REQUEST\<close> of an upstream
  node allocates and registers the buffer and the struct \<open>LocalRingbuff\<close> that describes it, and
  every such request is answered with the two registrations.
\<close>

section \<open>Blocks that do not meet\<close>

lemma apart_sub: "apart b n a k \<Longrightarrow> d + j \<le> k \<Longrightarrow> apart b n (a + word_of_nat d) j"
  by (auto simp: apart_def add.assoc simp flip: of_nat_add)

lemma apart_le: "apart b n a k \<Longrightarrow> j \<le> k \<Longrightarrow> apart b n a j"
  by (auto simp: apart_def)

lemma apart_after: "n \<le> d \<Longrightarrow> d + k < 2 ^ 64 \<Longrightarrow> apart a n (a + word_of_nat d) k"
  by (auto simp: apart_def unat_of_nat64 add.assoc simp flip: of_nat_add)

lemma apart_before:
  assumes "k \<le> d" and "n + d < 2 ^ 64"
  shows "apart (a + word_of_nat d) n a k"
proof -
  have "n \<le> unat (word_of_nat i - word_of_nat d :: u64)" if "i < k" for i
    using that assms by (simp add: unat_sub_if' unat_of_nat64)
  then show ?thesis by (simp add: apart_def)
qed

lemma apart_from: "apart b n a k \<Longrightarrow> n' \<le> n \<Longrightarrow> apart b n' a k"
  by (auto simp: apart_def)

lemma mapped_map_mem: "n < 2 ^ 64 \<Longrightarrow> mapped (map_mem m a n x) a n"
  by (simp add: mapped_def map_mem_def unat_of_nat64)

lemma mapped_map_other: "mapped m b k \<Longrightarrow> mapped (map_mem m a n x) b k"
  by (simp add: mapped_def map_mem_def)

lemma mapped_part: "mapped m a n \<Longrightarrow> d + k \<le> n \<Longrightarrow> mapped m (a + word_of_nat d) k"
  by (auto simp: mapped_def add.assoc simp flip: of_nat_add)

section \<open>The struct and the buffer\<close>

text \<open>Pointers 0, size 64, the address of the buffer, no log parsed, a buffer of zeros.\<close>

definition ring_ready :: "memory \<Rightarrow> u64 \<Rightarrow> u64 \<Rightarrow> bool" where
  "ring_ready m a b \<longleftrightarrow> rd_mem m a 12 = Inr (pack [(4, 0), (4, 0), (4, 64)]) \<and> rd_mem m (a + 16) 24 = Inr (pack [(8, uint b), (8, 0), (8, uint b)]) \<and>
     rd_mem m (a + 48) 4 = Inr (pack [(4, 0)]) \<and> rd_mem m b 64 = Inr (replicate 64 0)"

lemma init_ring_ready:
  assumes "mapped m a 56" and "mapped m b 64" and ab: "apart a 56 b 64" and ba: "apart b 64 a 56"
  shows "\<exists>m'. init_ring a b m = Inr m' \<and> ring_ready m' a b \<and> (\<forall>x. 56 \<le> unat (x - a) \<longrightarrow> 64 \<le> unat (x - b) \<longrightarrow> m' x = m x) \<and>
    (\<forall>c k. mapped m c k \<longrightarrow> mapped m' c k)"
proof -
  have len [simp]: "length (pack [(4, 0), (4, 0), (4, 64)]) = 12" "length (pack [(4, 0)]) = 4"
    "length (pack [(8, uint b), (8, 0), (8, uint b)]) = 24" by simp_all
  obtain m1 where m1: "wr_mem m a (pack [(4, 0), (4, 0), (4, 64)]) = Inr m1"
    using wr_mem_ok [of m a "pack [(4, 0), (4, 0), (4, 64)]"] mapped_part [OF assms(1), of 0 12] by auto
  have k1: "mapped m1 c k" if "mapped m c k" for c k by (rule wr_mem_mapped [OF m1 that])
  obtain m2 where m2: "wr_mem m1 (a + 48) (pack [(4, 0)]) = Inr m2"
    using wr_mem_ok [of m1 "a + 48" "pack [(4, 0)]"] mapped_part [OF k1 [OF assms(1)], of 48 4] by auto
  have k2: "mapped m2 c k" if "mapped m c k" for c k by (rule wr_mem_mapped [OF m2 k1 [OF that]])
  obtain m3 where m3: "wr_mem m2 (a + 16) (pack [(8, uint b), (8, 0), (8, uint b)]) = Inr m3"
    using wr_mem_ok [of m2 "a + 16" "pack [(8, uint b), (8, 0), (8, uint b)]"] mapped_part [OF k2 [OF assms(1)], of 16 24] by auto
  have k3: "mapped m3 c k" if "mapped m c k" for c k by (rule wr_mem_mapped [OF m3 k2 [OF that]])
  obtain m4 where m4: "wr_mem m3 b (replicate 64 0) = Inr m4"
    using wr_mem_ok [of m3 b "replicate 64 0"] k3 [OF assms(2)] by auto
  have "rd_mem m4 a 12 = rd_mem m3 a 12" by (rule rd_wr_mem_apart [OF m4]) (simp add: apart_le [OF ba])
  also have "\<dots> = rd_mem m2 a 12" by (rule rd_wr_mem_apart [OF m3]) (use apart_before [of 12 16 24 a] in simp)
  also have "\<dots> = rd_mem m1 a 12" by (rule rd_wr_mem_apart [OF m2]) (use apart_before [of 12 48 4 a] in simp)
  also have "\<dots> = Inr (pack [(4, 0), (4, 0), (4, 64)])" using rd_wr_mem [OF m1] by simp
  finally have r1: "rd_mem m4 a 12 = Inr (pack [(4, 0), (4, 0), (4, 64)])" .
  have "rd_mem m4 (a + 16) 24 = rd_mem m3 (a + 16) 24" by (rule rd_wr_mem_apart [OF m4]) (use apart_sub [OF ba, of 16 24] in simp)
  then have r2: "rd_mem m4 (a + 16) 24 = Inr (pack [(8, uint b), (8, 0), (8, uint b)])" using rd_wr_mem [OF m3] by simp
  have "rd_mem m4 (a + 48) 4 = rd_mem m3 (a + 48) 4" by (rule rd_wr_mem_apart [OF m4]) (use apart_sub [OF ba, of 48 4] in simp)
  also have "\<dots> = rd_mem m2 (a + 48) 4"
    by (rule rd_wr_mem_apart [OF m3]) (use apart_after [of 24 32 4 "a + 16"] in \<open>simp add: add.assoc\<close>)
  also have "\<dots> = Inr (pack [(4, 0)])" using rd_wr_mem [OF m2] by simp
  finally have r3: "rd_mem m4 (a + 48) 4 = Inr (pack [(4, 0)])" .
  have r4: "rd_mem m4 b 64 = Inr (replicate 64 0)" using rd_wr_mem [OF m4] by simp
  have "m4 x = m x" if x: "56 \<le> unat (x - a)" "64 \<le> unat (x - b)" for x
  proof -
    have far: "56 - d \<le> unat (x - (a + word_of_nat d))" if "d \<le> 56" for d
    proof -
      have "unat (x - a - word_of_nat d) = unat (x - a) - d" using x(1) that by (simp add: unat_sub_if' unat_of_nat64)
      then show ?thesis using x(1) by (simp add: diff_diff_eq)
    qed
    have "m4 x = m3 x" by (rule wr_mem_other [OF m4]) (use x in simp)
    also have "\<dots> = m2 x" by (rule wr_mem_other [OF m3]) (use far [of 16] in simp)
    also have "\<dots> = m1 x" by (rule wr_mem_other [OF m2]) (use far [of 48] in simp)
    also have "\<dots> = m x" by (rule wr_mem_other [OF m1]) (use x in simp)
    finally show ?thesis .
  qed
  moreover have "mapped m4 c k" if "mapped m c k" for c k by (rule wr_mem_mapped [OF m4 k3 [OF that]])
  moreover have "init_ring a b m = Inr m4" using m1 m2 m3 m4 by (simp add: init_ring_def TOTAL_SIZE_n_def)
  ultimately show ?thesis using r1 r2 r3 r4 unfolding ring_ready_def by blast
qed

lemma rd_mem_cong:
  assumes "\<And>i. i < n \<Longrightarrow> m' (c + word_of_nat i) = m (c + word_of_nat i)"
  shows "rd_mem m' c n = rd_mem m c n"
proof -
  have "map (\<lambda>i. the (m' (c + word_of_nat i))) [0..<n] = map (\<lambda>i. the (m (c + word_of_nat i))) [0..<n]" using assms by simp
  moreover have "mapped m' c n = mapped m c n" using assms by (simp add: mapped_def)
  ultimately show ?thesis by (simp only: rd_mem_def)
qed

lemma ring_ready_kept:
  assumes "ring_ready m a b" and "\<And>x. unat (x - a) < 56 \<or> unat (x - b) < 64 \<Longrightarrow> m' x = m x"
  shows "ring_ready m' a b"
proof -
  have inside: "unat (c + word_of_nat d + word_of_nat i - c) < k" if "d + i < k" "k < 2 ^ 64" for c :: u64 and d i k
  proof -
    have "c + word_of_nat d + word_of_nat i - c = word_of_nat (d + i)" by simp
    then show ?thesis using that by (simp only: unat_of_nat64)
  qed
  have "rd_mem m' (a + word_of_nat d) n = rd_mem m (a + word_of_nat d) n" if "d + n \<le> 56" for d n
  proof (rule rd_mem_cong)
    fix i assume "i < n"
    then have "unat (a + word_of_nat d + word_of_nat i - a) < 56" using that by (intro inside) simp_all
    then show "m' (a + word_of_nat d + word_of_nat i) = m (a + word_of_nat d + word_of_nat i)" by (intro assms(2) disjI1)
  qed
  from this [of 0 12] this [of 16 24] this [of 48 4]
  have "rd_mem m' a 12 = rd_mem m a 12" "rd_mem m' (a + 16) 24 = rd_mem m (a + 16) 24" "rd_mem m' (a + 48) 4 = rd_mem m (a + 48) 4" by simp_all
  moreover have "rd_mem m' b 64 = rd_mem m b 64" 
  proof (rule rd_mem_cong)
    fix i :: nat assume "i < 64"
    then have "unat (b + word_of_nat 0 + word_of_nat i - b) < 64" by (intro inside) simp_all
    then show "m' (b + word_of_nat i) = m (b + word_of_nat i)" by (intro assms(2) disjI2) simp
  qed
  ultimately show ?thesis using assms(1) by (simp add: ring_ready_def)
qed

section \<open>Requests\<close>

lemma send_task_keeps_ring:
  assumes "dhmp_send_task_create e t tr msg p = Inr (r, p')"
  shows "recv_ring p' = recv_ring p \<and> server_id p' = server_id p"
proof (cases "malloc_ok e")
  case True
  with assms show ?thesis unfolding dhmp_send_task_create_def Let_def
    by (clarsimp simp: bindR_eq_Inr guardR_eq_Inr new_task_def simp del: le_bytes.simps split del: if_split)
next
  case False
  with assms show ?thesis by (simp add: dhmp_send_task_create_def)
qed

lemma post_send_keeps_ring:
  assumes "dhmp_post_send e t msg p = Inr p'"
  shows "recv_ring p' = recv_ring p \<and> server_id p' = server_id p"
proof -
  obtain tr where tr: "transports p t = Some tr" using assms by (cases "transports p t") (simp_all add: dhmp_post_send_def)
  show ?thesis
  proof (cases "trans_state tr = DHMP_TRANSPORT_STATE_CONNECTED")
    case True
    obtain r p1 where c: "dhmp_send_task_create e t tr msg p = Inr (r, p1)"
      using assms tr True by (cases "dhmp_send_task_create e t tr msg p") (auto simp: dhmp_post_send_def)
    have "p' = p1 \<or> (\<exists>w. p' = p1\<lparr>posted := w\<rparr>)"
      using assms tr True c by (cases r) (auto simp: dhmp_post_send_def Let_def split: if_splits)
    then show ?thesis using send_task_keeps_ring [OF c] by auto
  qed (use assms tr in \<open>simp add: dhmp_post_send_def\<close>)
qed

definition ring_reply :: "Proc \<Rightarrow> dhmp_buff_request \<Rightarrow> ibv_mr \<Rightarrow> ibv_mr \<Rightarrow> dhmp_msg" where
  "ring_reply s q ma mb = mk_msg DHMP_BUFF_MALLOC_RESPONSE (enc_buff_response \<lparr>bp_req_info = q, bp_mr_buff = ma, bp_mr_data = mb,
     bp_node_id = word_of_int (server_id s)\<rparr>)"

lemma serve_existing_ring:
  assumes link: "link_ok es ts s" and post: "never_fails es" and dev: "has_dev es" and ring: "recv_ring s = Some (ma, mb)"
    and tr: "transports s ts = Some tr"
  shows "\<exists>s'. serve_request es ts pad (msg_frame (mk_msg DHMP_BUFF_MALLOC_REQUEST (enc_buff_request q))) s =
      Inr (msg_frame (ring_reply s q ma mb), s') \<and> recv_ring s' = Some (ma, mb) \<and> server_id s' = server_id s \<and> link_ok es ts s' \<and>
    (\<forall>x. SEND_REGION_SIZE \<le> unat (x - dmr_addr (send_mr tr)) \<longrightarrow> mem s' x = mem s x) \<and>
    (\<exists>tr'. transports s' ts = Some tr' \<and> dmr_addr (send_mr tr') = dmr_addr (send_mr tr))"
proof -
  let ?bs = "enc_buff_response \<lparr>bp_req_info = q, bp_mr_buff = ma, bp_mr_data = mb, bp_node_id = word_of_int (server_id s)\<rparr>"
  obtain s' where s': "dhmp_post_send es ts (mk_msg DHMP_BUFF_MALLOC_RESPONSE ?bs) s = Inr s'"
      "last_frame s' = Inr (msg_frame (mk_msg DHMP_BUFF_MALLOC_RESPONSE ?bs))" "link_ok es ts s'"
      "\<forall>tr x. transports s ts = Some tr \<and> SEND_REGION_SIZE \<le> unat (x - dmr_addr (send_mr tr)) \<longrightarrow> mem s' x = mem s x"
      "\<exists>tr tr'. transports s ts = Some tr \<and> transports s' ts = Some tr' \<and> dmr_addr (send_mr tr') = dmr_addr (send_mr tr)"
    using post_msg [OF link post, of ?bs DHMP_BUFF_MALLOC_RESPONSE] by (auto simp: enc_lengths after_post_def)
  have "msg_parse (msg_frame (mk_msg DHMP_BUFF_MALLOC_REQUEST (enc_buff_request q)) @ pad)
      = \<lparr>msg_type = msg_code DHMP_BUFF_MALLOC_REQUEST, data_size = 32, data = enc_buff_request q @ pad\<rparr>"
    using mk_msg_facts(4) [of "enc_buff_request q"] by (simp add: enc_lengths)
  then have "serve_request es ts pad (msg_frame (mk_msg DHMP_BUFF_MALLOC_REQUEST (enc_buff_request q))) s = Inr (msg_frame (ring_reply s q ma mb), s')"
    using s'(1,2) dev ring
    by (simp add: serve_request_def recv_defs dhmp_malloc_buff_request_handler_def dec_encs enc_lengths ring_reply_def)
  with s' post_send_keeps_ring [OF s'(1)] ring tr show ?thesis by auto
qed

text \<open>The first request behaves like a later one that finds the ring made.\<close>

lemma first_request:
  assumes link: "link_ok es ts s" and none: "recv_ring s = None"
    and a: "malloc_at es 56 = Some a" "reg_mr es a 56 = Some ma" and b: "malloc_at es 64 = Some b" "reg_mr es b 64 = Some mb"
    and ab: "apart a 56 b 64" and ba: "apart b 64 a 56"
  shows "\<exists>s3. recv_ring s3 = Some (ma, mb) \<and> server_id s3 = server_id s \<and> transports s3 = transports s \<and> link_ok es ts s3 \<and>
    ring_ready (mem s3) a b \<and>
    (\<forall>msg. dhmp_malloc_buff_request_handler es ts msg s = dhmp_malloc_buff_request_handler es ts msg s3)"
proof -
  let ?m = "map_mem (map_mem (mem s) a 56 (junk es)) b 64 (junk es)"
  have "mapped ?m a 56" "mapped ?m b 64"
    by (rule mapped_map_other [OF mapped_map_mem], simp) (rule mapped_map_mem, simp)
  then obtain m where m: "init_ring a b ?m = Inr m" "ring_ready m a b" "\<And>c k. mapped ?m c k \<Longrightarrow> mapped m c k"
    using init_ring_ready [OF _ _ ab ba] by blast
  let ?s3 = "s\<lparr>mem := m, regs := regs s @ [ma, mb], recv_ring := Some (ma, mb)\<rparr>"
  have ok: "malloc_ok es" using link by (simp add: link_ok_def)
  have "make_recv_ring es s = Inr (Some (ma, mb), ?s3)"
    using a b m(1) ok by (simp add: make_recv_ring_def dhmp_memory_register_def sizeof_LocalRingbuff_def TOTAL_SIZE_n_def)
  then have "dhmp_malloc_buff_request_handler es ts msg s = dhmp_malloc_buff_request_handler es ts msg ?s3" for msg
    using none by (simp add: dhmp_malloc_buff_request_handler_def)
  moreover have "mapped m c k" if "mapped (mem s) c k" for c k using m(3) mapped_map_other that by blast
  then have "link_ok es ts ?s3" using link by (auto simp: link_ok_def send_region_ok_def)
  ultimately show ?thesis using m(2) by (intro exI [of _ ?s3]) simp
qed

lemma ring_outlives:
  assumes "ring_ready m a b" and "apart r SEND_REGION_SIZE a 56" and "apart r SEND_REGION_SIZE b 64"
    and "\<forall>x. SEND_REGION_SIZE \<le> unat (x - r) \<longrightarrow> m' x = m x"
  shows "ring_ready m' a b"
proof (rule ring_ready_kept [OF assms(1)])
  fix x assume x: "unat (x - a) < 56 \<or> unat (x - b) < 64"
  have at: "c + word_of_nat (unat (x - c)) = x" for c by simp
  have "SEND_REGION_SIZE \<le> unat (x - r)"
    using x assms(2,3) at unfolding apart_def by metis
  with assms(4) show "m' x = m x" by blast
qed

section \<open>Property\<close>

text \<open>C19: The ring buffer of a server. The first request of an upstream node makes the struct and
  the buffer, in the state the reader starts from: pointers 0, size 64, the buffer all zeros.
  The answer carries the registrations of both. A further request gets the same two
  registrations, and the ring stays as it is.\<close>

theorem ring_made_once:
  assumes "link_ok es ts s" and "never_fails es" and "has_dev es" and "transports s ts = Some tr" and "recv_ring s = None"
    and "malloc_at es 56 = Some a" and "reg_mr es a 56 = Some ma" and "malloc_at es 64 = Some b" and "reg_mr es b 64 = Some mb"
    and "apart a 56 b 64" and "apart b 64 a 56"
    and "apart (dmr_addr (send_mr tr)) SEND_REGION_SIZE a 56" and "apart (dmr_addr (send_mr tr)) SEND_REGION_SIZE b 64"
  shows "\<exists>s' s''. serve_request es ts pad (msg_frame (mk_msg DHMP_BUFF_MALLOC_REQUEST (enc_buff_request q))) s =
      Inr (msg_frame (ring_reply s q ma mb), s') \<and> recv_ring s' = Some (ma, mb) \<and> ring_ready (mem s') a b \<and>
    serve_request es ts pad (msg_frame (mk_msg DHMP_BUFF_MALLOC_REQUEST (enc_buff_request q'))) s' =
      Inr (msg_frame (ring_reply s q' ma mb), s'') \<and> recv_ring s'' = Some (ma, mb) \<and> ring_ready (mem s'') a b"
proof -
  obtain s3 where s3: "recv_ring s3 = Some (ma, mb)" "server_id s3 = server_id s" "transports s3 = transports s" "link_ok es ts s3"
      "ring_ready (mem s3) a b" "\<And>msg. dhmp_malloc_buff_request_handler es ts msg s = dhmp_malloc_buff_request_handler es ts msg s3"
    using first_request [OF assms(1,5-11)] by blast
  have reply: "ring_reply s3 = ring_reply s" using s3(2) by (simp add: ring_reply_def fun_eq_iff)
  have first: "serve_request es ts pad (msg_frame (mk_msg DHMP_BUFF_MALLOC_REQUEST (enc_buff_request q))) s =
      serve_request es ts pad (msg_frame (mk_msg DHMP_BUFF_MALLOC_REQUEST (enc_buff_request q))) s3"
    using mk_msg_facts(4) [of "enc_buff_request q" DHMP_BUFF_MALLOC_REQUEST pad] s3(6)
    by (simp add: serve_request_def dhmp_wc_recv_handler_def msg_type_round_trip enc_lengths)
  obtain s' tr' where s': "serve_request es ts pad (msg_frame (mk_msg DHMP_BUFF_MALLOC_REQUEST (enc_buff_request q))) s3 =
      Inr (msg_frame (ring_reply s3 q ma mb), s')" "recv_ring s' = Some (ma, mb)" "server_id s' = server_id s3" "link_ok es ts s'"
    and m': "\<forall>x. SEND_REGION_SIZE \<le> unat (x - dmr_addr (send_mr tr)) \<longrightarrow> mem s' x = mem s3 x"
    and tr': "transports s' ts = Some tr'" "dmr_addr (send_mr tr') = dmr_addr (send_mr tr)"
    using serve_existing_ring [OF s3(4) assms(2,3) s3(1), of tr pad q] s3(3) assms(4) by auto
  obtain s'' where s'': "serve_request es ts pad (msg_frame (mk_msg DHMP_BUFF_MALLOC_REQUEST (enc_buff_request q'))) s' =
      Inr (msg_frame (ring_reply s' q' ma mb), s'')" "recv_ring s'' = Some (ma, mb)"
    and m'': "\<forall>x. SEND_REGION_SIZE \<le> unat (x - dmr_addr (send_mr tr')) \<longrightarrow> mem s'' x = mem s' x"
    using serve_existing_ring [OF s'(4) assms(2,3) s'(2) tr'(1), of pad q'] by blast
  have ready: "ring_ready (mem s') a b" by (rule ring_outlives [OF s3(5) assms(12,13) m'])
  have "ring_ready (mem s'') a b" by (rule ring_outlives [OF ready assms(12,13) m'' [unfolded tr'(2)]])
  moreover have "ring_reply s' = ring_reply s" using s3(2) s'(3) by (simp add: ring_reply_def fun_eq_iff)
  ultimately show ?thesis using first s' s'' ready reply by auto
qed

lemma demo_apart: "apart 0x10000 56 0x20000 64" "apart 0x20000 64 0x10000 56"
    "apart 0x100000000 SEND_REGION_SIZE 0x10000 56" "apart 0x100000000 SEND_REGION_SIZE 0x20000 64"
  using apart_after [of 56 65536 64 "0x10000"] apart_before [of 56 65536 64 "0x10000"]
    apart_before [of 56 4294901760 SEND_REGION_SIZE "0x10000"] apart_before [of 64 4294836224 SEND_REGION_SIZE "0x20000"]
  by (simp_all add: SEND_REGION_SIZE_def)

theorem ring_made_once_witness:
  "\<exists>f s' g s'' ma mb. serve_request demo_env 1 [] (msg_frame (mk_msg DHMP_BUFF_MALLOC_REQUEST (enc_buff_request
        \<lparr>bq_node_id = 0, bq_work = 8, bq_buff_addr_info = 16, bq_buff_mate_addr_info = 24\<rparr>))) demo_proc = Inr (f, s') \<and>
     serve_request demo_env 1 [] (msg_frame (mk_msg DHMP_BUFF_MALLOC_REQUEST (enc_buff_request
        \<lparr>bq_node_id = 2, bq_work = 8, bq_buff_addr_info = 16, bq_buff_mate_addr_info = 24\<rparr>))) s' = Inr (g, s'') \<and>
     recv_ring s'' = Some (ma, mb) \<and> mr_addr ma = 0x10000 \<and> ring_ready (mem s'') 0x10000 0x20000"
proof -
  let ?q = "\<lambda>n. \<lparr>bq_node_id = n, bq_work = 8, bq_buff_addr_info = 16, bq_buff_mate_addr_info = 24\<rparr>"
  let ?ma = "null_mr\<lparr>mr_addr := 0x10000, mr_length := 56, mr_lkey := 5, mr_rkey := 6\<rparr>"
    and ?mb = "null_mr\<lparr>mr_addr := 0x20000, mr_length := 64, mr_lkey := 5, mr_rkey := 6\<rparr>"
  have "\<exists>s' s''. serve_request demo_env 1 [] (msg_frame (mk_msg DHMP_BUFF_MALLOC_REQUEST (enc_buff_request (?q 0)))) demo_proc =
      Inr (msg_frame (ring_reply demo_proc (?q 0) ?ma ?mb), s') \<and> recv_ring s' = Some (?ma, ?mb) \<and> ring_ready (mem s') 0x10000 0x20000 \<and>
    serve_request demo_env 1 [] (msg_frame (mk_msg DHMP_BUFF_MALLOC_REQUEST (enc_buff_request (?q 2)))) s' =
      Inr (msg_frame (ring_reply demo_proc (?q 2) ?ma ?mb), s'') \<and> recv_ring s'' = Some (?ma, ?mb) \<and> ring_ready (mem s'') 0x10000 0x20000"
    by (rule ring_made_once [where tr = demo_trans, OF demo_link(1)]) (use demo_apart in \<open>simp_all add: demo_env_def demo_proc_def demo_trans_def\<close>)
  then show ?thesis by force
qed

end
