(* ===== verification/RingMemory.thy ===== *)
theory RingMemory
  imports RingSetup LogChain
begin

text \<open>
  The ring buffer in the memory of the process that owns it. \<open>RingBuffer\<close> applies the writes of
  the upstream node to the record \<open>LocalRingbuff\<close>, \<open>RingSetup\<close> shows the bytes of the struct and of
  the buffer that \<open>init_ring\<close> leaves in memory, and \<open>Exchange\<close> which RDMA request a remote
  write posts. Here the three meet: the record is what the struct in memory says, and a remote
  write that has completed does to it what the model of the ring says.
\<close>

section \<open>The struct in memory\<close>

definition decode_ring :: "memory \<Rightarrow> u64 \<Rightarrow> LocalRingbuff res" where
  "decode_ring m a =
     bindR (rd_mem m a 12) (\<lambda>h.
     bindR (rd_mem m (a + 16) 8) (\<lambda>p.
     bindR (rd_mem m (a + 48) 4) (\<lambda>k.
     bindR (rd_mem m (word_of_int (le_val p)) (nat (bytes_int (bslice h 8 4)))) (\<lambda>buf.
       Inr \<lparr>wr_pointer = bytes_int (bslice h 0 4), rd_pointer = bytes_int (bslice h 4 4), rsize = bytes_int (bslice h 8 4),
            buff_addr = buf, rd_key_pointer = bytes_int k\<rparr>))))"

text \<open>The struct at \<open>a\<close>, 56 bytes, and its buffer at \<open>b\<close> hold the ring \<open>peer\<close> and do not overlap.\<close>

definition ring_in :: "memory \<Rightarrow> u64 \<Rightarrow> u64 \<Rightarrow> LocalRingbuff \<Rightarrow> bool" where
  "ring_in m a b peer \<longleftrightarrow> decode_ring m a = Inr peer \<and> rd_mem m (a + 16) 8 = Inr (le_bytes 8 (uint b)) \<and>
     apart a 56 b (length (buff_addr peer)) \<and> apart b (length (buff_addr peer)) a 56"

text \<open>The remote address and the bytes of a write to the ring: \<open>update_wr_remote\<close> writes the first
  word of the struct, the other writes go to the buffer.\<close>

fun rop_write :: "u64 \<Rightarrow> u64 \<Rightarrow> rop \<Rightarrow> u64 \<times> byte list" where
  "rop_write a b (BuffWrite off bs) = (b + word_of_int off, bs)"
| "rop_write a b (WrWrite p) = (a, int_bytes p)"

fun mem_rops :: "u64 \<Rightarrow> u64 \<Rightarrow> rop list \<Rightarrow> memory \<Rightarrow> memory res" where
  "mem_rops a b [] m = Inr m"
| "mem_rops a b (r # rs) m = (case rop_write a b r of (x, bs) \<Rightarrow> bindR (wr_mem m x bs) (mem_rops a b rs))"

section \<open>Parts of the struct\<close>

lemma word_of_le_val [simp]: "(word_of_int (le_val (le_bytes 8 (uint b))) :: u64) = b"
  by (simp add: le_val_le_bytes uint_mod64)

lemma ring_inE:
  assumes "ring_in m a b peer"
  obtains h k where "rd_mem m a 12 = Inr h" "length h = 12" "rd_mem m (a + 48) 4 = Inr k"
    "rd_mem m b (length (buff_addr peer)) = Inr (buff_addr peer)"
    "peer = \<lparr>wr_pointer = bytes_int (bslice h 0 4), rd_pointer = bytes_int (bslice h 4 4), rsize = bytes_int (bslice h 8 4),
       buff_addr = buff_addr peer, rd_key_pointer = bytes_int k\<rparr>"
    "length (buff_addr peer) = nat (bytes_int (bslice h 8 4))"
proof -
  obtain h k buf where "rd_mem m a 12 = Inr h" "rd_mem m (a + 48) 4 = Inr k" "rd_mem m b (nat (bytes_int (bslice h 8 4))) = Inr buf"
      "peer = \<lparr>wr_pointer = bytes_int (bslice h 0 4), rd_pointer = bytes_int (bslice h 4 4), rsize = bytes_int (bslice h 8 4),
         buff_addr = buf, rd_key_pointer = bytes_int k\<rparr>"
    using assms by (auto simp: ring_in_def decode_ring_def bindR_eq_Inr)
  moreover have "length h = 12" "length buf = nat (bytes_int (bslice h 8 4))"
    using rd_mem_nth [of m a 12 h] rd_mem_nth [of m b _ buf] calculation by auto
  ultimately show thesis using that [of h k] by simp
qed

lemma ring_inI:
  assumes "rd_mem m a 12 = Inr h" and "rd_mem m (a + 16) 8 = Inr (le_bytes 8 (uint b))" and "rd_mem m (a + 48) 4 = Inr k"
    and "rd_mem m b (length buf) = Inr buf" and "length buf = nat (bytes_int (bslice h 8 4))"
    and "apart a 56 b (length buf)" and "apart b (length buf) a 56"
  shows "ring_in m a b \<lparr>wr_pointer = bytes_int (bslice h 0 4), rd_pointer = bytes_int (bslice h 4 4),
    rsize = bytes_int (bslice h 8 4), buff_addr = buf, rd_key_pointer = bytes_int k\<rparr>"
  using assms by (simp add: ring_in_def decode_ring_def)

lemma bytes_int_less: "bytes_int bs < 2 ^ 31"
  using signed_take_bit_int_less_exp [of 31 "le_val bs"] by (simp add: bytes_int_def)

text \<open>A write inside one block leaves the block apart from it alone, and changes the block as \<open>blit\<close>
  does.\<close>

lemma apart_inner:
  assumes "apart b n a k" and "d + j \<le> n" and "n < 2 ^ 64"
  shows "apart (b + word_of_nat d) j a k"
  unfolding apart_def
proof (intro allI impI)
  fix i assume "i < k"
  then have x: "n \<le> unat (a + word_of_nat i - b)" using assms(1) by (simp add: apart_def)
  have d: "unat (word_of_nat d :: u64) = d" using assms(2,3) by (intro unat_of_nat64) simp
  have "j \<le> unat (x - word_of_nat d)" if "n \<le> unat x" for x :: u64
    using that assms(2) d by (simp add: unat_sub_if')
  from this [OF x] show "j \<le> unat (a + word_of_nat i - (b + word_of_nat d))" by (simp add: diff_diff_eq)
qed

lemma rd_mem_inner_write:
  assumes "rd_mem m b (length buf) = Inr buf" and "wr_mem m (b + word_of_nat d) bs = Inr m'" and "d + length bs \<le> length buf"
    and "length buf < 2 ^ 64"
  shows "rd_mem m' b (length buf) = Inr (blit d bs buf)"
proof (rule rd_mem_eq)
  show "length (blit d bs buf) = length buf" using assms(3) by simp
  fix i assume i: "i < length buf"
  show "m' (b + word_of_nat i) = Some (blit d bs buf ! i)"
  proof (cases "d \<le> i \<and> i < d + length bs")
    case True
    then have "i - d < length bs" by auto
    then have "m' (b + word_of_nat d + word_of_nat (i - d)) = Some (bs ! (i - d))"
      by (rule wr_mem_same [OF assms(2), rotated]) (use assms(3,4) in simp)
    moreover have "b + word_of_nat d + word_of_nat (i - d) = b + word_of_nat i"
      using True by (simp add: add.assoc flip: of_nat_add)
    ultimately show ?thesis using True assms(3) by (simp add: nth_blit)
  next
    case False
    have "length bs \<le> unat (word_of_nat i - word_of_nat d :: u64)"
      using False i assms(3,4) by (auto simp: unat_sub_if' unat_of_nat64)
    then have "m' (b + word_of_nat i) = m (b + word_of_nat i)"
      by (intro wr_mem_other [OF assms(2)]) simp
    then show ?thesis using False i assms(3) rd_mem_nth [OF assms(1)] by (auto simp: nth_blit)
  qed
qed

section \<open>Writes to the ring\<close>

definition word_fits :: "rop \<Rightarrow> bool" where
  "word_fits r = (case r of BuffWrite off bs \<Rightarrow> True | WrWrite p \<Rightarrow> - (2 ^ 31) \<le> p \<and> p < 2 ^ 31)"

lemma buff_write_in_memory:
  assumes "ring_in m a b peer" and "rop_apply (BuffWrite off bs) peer = Inr peer'"
  shows "\<exists>m'. wr_mem m (b + word_of_int off) bs = Inr m' \<and> ring_in m' a b peer'"
proof -
  obtain h k where r: "rd_mem m a 12 = Inr h" "length h = 12" "rd_mem m (a + 48) 4 = Inr k"
      "rd_mem m b (length (buff_addr peer)) = Inr (buff_addr peer)" "length (buff_addr peer) = nat (bytes_int (bslice h 8 4))"
      "peer = \<lparr>wr_pointer = bytes_int (bslice h 0 4), rd_pointer = bytes_int (bslice h 4 4), rsize = bytes_int (bslice h 8 4),
         buff_addr = buff_addr peer, rd_key_pointer = bytes_int k\<rparr>"
    using ring_inE [OF assms(1)] by metis
  have o: "0 \<le> off" "nat off + length bs \<le> length (buff_addr peer)" "peer' = peer\<lparr>buff_addr := blit (nat off) bs (buff_addr peer)\<rparr>"
    using assms(2) by (auto simp: guardR_eq_Inr)
  have w: "b + word_of_int off = b + word_of_nat (nat off)" using o(1) by (simp add: of_nat_nat)
  have small: "length (buff_addr peer) < 2 ^ 64" using r(5) bytes_int_less [of "bslice h 8 4"] by simp
  have "mapped m b (length (buff_addr peer))" using r(4) by (simp add: rd_mem_def guardR_eq_Inr)
  then obtain m' where m': "wr_mem m (b + word_of_nat (nat off)) bs = Inr m'"
    using wr_mem_ok mapped_part o(2) by blast
  have a56: "apart (b + word_of_nat (nat off)) (length bs) a 56"
    using assms(1) o(2) small by (intro apart_inner [where n = "length (buff_addr peer)"]) (auto simp: ring_in_def)
  have "rd_mem m' a 12 = Inr h" "rd_mem m' (a + 16) 8 = Inr (le_bytes 8 (uint b))" "rd_mem m' (a + 48) 4 = Inr k"
    using rd_wr_mem_apart [OF m'] apart_le [OF a56, of 12] apart_sub [OF a56, of 16 8] apart_sub [OF a56, of 48 4] r(1,3) assms(1)
    by (simp_all add: ring_in_def)
  from ring_inI [OF this, of "blit (nat off) bs (buff_addr peer)"]
  have "ring_in m' a b (peer\<lparr>buff_addr := blit (nat off) bs (buff_addr peer)\<rparr>)"
    using rd_mem_inner_write [OF r(4) m' o(2) small] r(5) o(2) assms(1) by (subst r(6)) (simp add: ring_in_def)
  then show ?thesis using m' w o(3) by simp
qed

lemma wr_write_in_memory:
  assumes "ring_in m a b peer" and "word_fits (WrWrite p)"
  shows "\<exists>m'. wr_mem m a (int_bytes p) = Inr m' \<and> ring_in m' a b (peer\<lparr>wr_pointer := p\<rparr>)"
proof -
  obtain h k where r: "rd_mem m a 12 = Inr h" "length h = 12" "rd_mem m (a + 48) 4 = Inr k"
      "rd_mem m b (length (buff_addr peer)) = Inr (buff_addr peer)" "length (buff_addr peer) = nat (bytes_int (bslice h 8 4))"
      "peer = \<lparr>wr_pointer = bytes_int (bslice h 0 4), rd_pointer = bytes_int (bslice h 4 4), rsize = bytes_int (bslice h 8 4),
         buff_addr = buff_addr peer, rd_key_pointer = bytes_int k\<rparr>"
    using ring_inE [OF assms(1)] by metis
  let ?h = "blit 0 (int_bytes p) h"
  have "mapped m a 12" using r(1) by (simp add: rd_mem_def guardR_eq_Inr)
  then obtain m' where m': "wr_mem m (a + word_of_nat 0) (int_bytes p) = Inr m'"
    using wr_mem_ok [of m a "int_bytes p"] mapped_part [of m a 12 0 4] by auto
  have "rd_mem m' a 12 = Inr ?h" using rd_mem_inner_write [of m a h 0, OF _ m'] r(1,2) by simp
  moreover have "rd_mem m' (a + 16) 8 = Inr (le_bytes 8 (uint b))" "rd_mem m' (a + 48) 4 = Inr k"
    using rd_wr_mem_apart [OF m', of "a + 16" 8] rd_wr_mem_apart [OF m', of "a + 48" 4]
      apart_after [of 4 16 8 a] apart_after [of 4 48 4 a] r(3) assms(1)
    by (simp_all add: ring_in_def)
  moreover have "rd_mem m' b (length (buff_addr peer)) = Inr (buff_addr peer)"
    using rd_wr_mem_apart [OF m'] apart_from [of a 56 b _ 4] r(4) assms(1) by (simp add: ring_in_def)
  moreover have "bslice ?h 0 4 = int_bytes p" "bslice ?h 4 4 = bslice h 4 4" "bslice ?h 8 4 = bslice h 8 4"
    using r(2) bslice_blit_same [of 0 "int_bytes p" h] bslice_blit_other [of 0 "int_bytes p" h] by simp_all
  moreover have "bytes_int (int_bytes p) = p" using assms(2) by (simp add: word_fits_def bytes_int_bytes)
  ultimately have "ring_in m' a b (peer\<lparr>wr_pointer := p\<rparr>)"
    using ring_inI [of m' a ?h b k "buff_addr peer"] r(5) assms(1) by (subst r(6)) (simp add: ring_in_def)
  then show ?thesis using m' by simp
qed

lemma rop_in_memory:
  assumes "ring_in m a b peer" and "rop_apply r peer = Inr peer'" and "word_fits r"
  shows "\<exists>m'. wr_mem m (fst (rop_write a b r)) (snd (rop_write a b r)) = Inr m' \<and> ring_in m' a b peer'"
  using assms buff_write_in_memory wr_write_in_memory by (cases r) fastforce+

text \<open>A sequence of writes.\<close>

lemma rops_in_memory:
  assumes "ring_in m a b peer" and "run_rops rs peer = Inr peer'" and "\<forall>r \<in> set rs. word_fits r"
  shows "\<exists>m'. mem_rops a b rs m = Inr m' \<and> ring_in m' a b peer'"
  using assms
proof (induction rs arbitrary: m peer)
  case (Cons r rs)
  then obtain p1 where p1: "rop_apply r peer = Inr p1" "run_rops rs p1 = Inr peer'" by (auto simp: bindR_eq_Inr)
  then obtain m1 where "wr_mem m (fst (rop_write a b r)) (snd (rop_write a b r)) = Inr m1" "ring_in m1 a b p1"
    using rop_in_memory [OF Cons.prems(1) p1(1)] Cons.prems(3) by auto
  then show ?case using Cons.IH [OF _ p1(2)] Cons.prems(3) by (auto split: prod.splits)
qed simp

text \<open>Announcing a log is such a sequence: afterwards the struct in memory has the header behind what
  was unread before, and room for the value.\<close>

lemma mate_write_in_memory:
  assumes "ring_in m a b peer" and "in_sync rb peer" and "int (length buf) = mateLen" and "0 \<le> dataLen"
    and "mateLen + dataLen \<le> rb_free_size peer" and "rb_write_mate True peer rb buf mateLen dataLen = Inr (pos, rb', ops)"
  shows "\<exists>m' peer' reserved. mem_rops a b ops m = Inr m' \<and> ring_in m' a b peer' \<and> in_sync rb' peer' \<and>
    unread peer' = unread peer @ buf @ reserved \<and> length reserved = nat dataLen"
proof -
  have small: "rsize peer < 2 ^ 31"
    by (rule ring_inE [OF assms(1)]) (metis bytes_int_less LocalRingbuff.select_convs(1) Ringbuff.select_convs(3))
  have fit: "mateLen + dataLen < rsize peer"
    using assms(2,5) data_size_range [of peer] by (simp add: in_sync_def local_wf_def rb_free_size_def)
  have sum: "mateLen + dataLen < 2 ^ 31" "in_int (mateLen + dataLen)" using fit small assms(3,4) by auto
  obtain peer' reserved where r: "run_rops ops peer = Inr peer'" "in_sync rb' peer'"
      "unread peer' = unread peer @ buf @ reserved" "length reserved = nat dataLen"
    using rb_write_mate_result [OF assms(2-4) sum(1)] assms(5,6) by auto
  have "\<exists>wr. ops = rb_write_data rb buf (wr_pointer rb) mateLen @ [WrWrite wr] \<and> 0 \<le> wr \<and> wr \<le> rsize peer"
    using rb_write_mate_ops [where rb = rb and peer = peer and mateLen = mateLen and dataLen = dataLen and buf = buf]
      in_sync_free [OF assms(2)] assms(3,5,6) sum(2) rb_write_mate_run(3) [OF assms(2-5)]
    by (auto simp: Let_def)
  moreover have "word_fits x" if "x \<in> set (rb_write_data rb buf (wr_pointer rb) mateLen)" for x
    using rb_write_data_BuffWrite [OF that] by (auto simp: word_fits_def)
  moreover have "word_fits (WrWrite wr)" if "0 \<le> wr" "wr \<le> rsize peer" for wr
    using that small by (simp add: word_fits_def)
  ultimately have "\<forall>x \<in> set ops. word_fits x" by auto
  then show ?thesis using rops_in_memory [OF assms(1) r(1)] r(2-4) by blast
qed

section \<open>From the request to the ring\<close>

text \<open>What \<open>init_ring\<close> leaves in memory is the empty ring the log layer starts from.\<close>

lemma ring_ready_in:
  assumes "ring_ready m a b" and "apart a 56 b 64" and "apart b 64 a 56"
  shows "ring_in m a b new_ring"
proof -
  have split: "rd_mem m (a + 16) 8 = Inr (le_bytes 8 (uint b))"
    using rd_mem_prefix [of m "a + 16" 24 _ 8] assms(1) by (simp add: ring_ready_def pack_def)
  let ?h = "int_bytes 0 @ int_bytes 0 @ int_bytes 64"
  have "rd_mem m a 12 = Inr ?h" "rd_mem m (a + 48) 4 = Inr (int_bytes 0)" "rd_mem m b 64 = Inr (replicate 64 0)"
    using assms(1) by (simp_all add: ring_ready_def pack_def int_bytes_def)
  moreover have "bslice ?h 0 4 = int_bytes 0" "bslice ?h 4 4 = int_bytes 0" "bslice ?h 8 4 = int_bytes 64"
    by (simp_all add: bslice_def)
  ultimately show ?thesis
    using ring_inI [of m a ?h b "int_bytes 0" "replicate 64 0"] assms(2,3) split
    by (simp add: bytes_int_bytes new_ring_def TOTAL_SIZE_def)
qed

text \<open>A network card is a function of the request, the memory of the process that posted it and the
  memory it is aimed at. The law is what a completed RDMA write has done.\<close>

definition rdma_write_done :: "(ibv_send_wr \<Rightarrow> memory \<Rightarrow> memory \<Rightarrow> memory) \<Rightarrow> bool" where
  "rdma_write_done nic \<longleftrightarrow> (\<forall>wr cm sm bs m'. wr_opcode wr = IBV_WR_RDMA_WRITE \<longrightarrow>
     rd_mem cm (wr_addr wr) (unat (wr_length wr)) = Inr bs \<longrightarrow> wr_mem sm (wr_remote_addr wr) bs = Inr m' \<longrightarrow> nic wr cm sm = m')"

lemma size_of_length:
  assumes "n < 2 ^ 31"
  shows "unat (word_of_int (int_of_size (word_of_nat n)) :: u32) = n"
proof -
  have "uint (word_of_nat n :: u64) = int n" using unat_of_nat64 [of n] assms by (simp add: uint_nat)
  then have "int_of_size (word_of_nat n) = int n"
    using assms by (simp add: int_of_size_def signed_take_bit_int_eq_self)
  then show ?thesis using assms by (simp add: unat_of_nat take_bit_nat_eq_self)
qed

text \<open>A write to the ring that the log layer describes as an operation on the ring reaches the
  memory of its owner. When the caller's buffer holds the bytes, and the region and the offset name
  the place (the first word of the struct for \<open>update_wr_remote\<close>, a place in the buffer for the others),
  the work handler of \<open>dhmp_write\<close> returns, and once the request it posted has completed, the struct
  and the buffer in the memory of the owner hold the ring after this operation.\<close>

lemma ring_write_over_rdma:
  assumes "ring_in m a b peer" and "rop_apply r peer = Inr peer'" and "word_fits r" and "rdma_write_done nic"
    and "rop_write a b r = (mr_addr (nvm_mr i) + rw_offset rw, bs)" and "rd_mem (mem p) (rw_local_addr rw) (length bs) = Inr bs"
    and "rw_length rw = word_of_nat (length bs)" and "length bs < 2 ^ 31"
    and "lookup_info p (rw_dhmp_addr rw) = Inr (Some ai)" and "infos p ai = Some i" and "\<not> write_flag i"
    and "malloc_ok e" and "never_fails e"
    and "reg_mr e (rw_local_addr rw) (word_of_int (int_of_size (rw_length rw))) = Some mr" and "mr_addr mr = rw_local_addr rw"
    and "mapped (mem p) (rw_local_addr rw) 12"
  shows "\<exists>p' wr. dhmp_write_work_handler e (nic_done e IBV_WC_SUCCESS IBV_WC_RDMA_WRITE) w rw p = Inr p' \<and>
    posted p' = posted p @ [wr] \<and> ring_in (nic wr (mem p') m) a b peer'"
proof -
  obtain p' wr where h: "dhmp_write_work_handler e (nic_done e IBV_WC_SUCCESS IBV_WC_RDMA_WRITE) w rw p = Inr p'"
      "posted p' = posted p @ [wr]" "wr_opcode wr = IBV_WR_RDMA_WRITE" "wr_addr wr = rw_local_addr rw"
      "wr_length wr = word_of_int (int_of_size (rw_length rw))" "wr_remote_addr wr = mr_addr (nvm_mr i) + rw_offset rw"
      "mem p' = mem p"
    using write_work_result [OF assms(9-16)] by metis
  obtain m' where m': "wr_mem m (wr_remote_addr wr) bs = Inr m'" "ring_in m' a b peer'"
    using rop_in_memory [OF assms(1-3)] assms(5) h(6) by auto
  have "rd_mem (mem p') (wr_addr wr) (unat (wr_length wr)) = Inr bs"
    using assms(6-8) h(4,5,7) size_of_length [OF assms(8)] by simp
  then have "nic wr (mem p') m = m'" using assms(4) h(3) m'(1) unfolding rdma_write_done_def by blast
  then show ?thesis using h(1,2) m'(2) by blast
qed

definition demo_nic :: "ibv_send_wr \<Rightarrow> memory \<Rightarrow> memory \<Rightarrow> memory" where
  "demo_nic wr cm sm =
     (case bindR (rd_mem cm (wr_addr wr) (unat (wr_length wr))) (wr_mem sm (wr_remote_addr wr)) of
        Inl _ \<Rightarrow> sm | Inr m' \<Rightarrow> m')"

definition demo_ring_mem :: memory where
  "demo_ring_mem = (case init_ring 0x10000 0x7f0000000000 (\<lambda>_. Some 0) of Inl _ \<Rightarrow> \<lambda>_. None | Inr m \<Rightarrow> m)"

lemma demo_ring_in: "ring_in demo_ring_mem 0x10000 0x7f0000000000 new_ring"
proof -
  have ap: "apart 0x10000 56 0x7f0000000000 64" "apart 0x7f0000000000 64 0x10000 56"
    using apart_after [of 56 "0x7effffff0000" 64 "0x10000"] apart_before [of 56 "0x7effffff0000" 64 "0x10000"] by simp_all
  then have "\<exists>m. init_ring 0x10000 0x7f0000000000 (\<lambda>_. Some 0) = Inr m \<and> ring_ready m 0x10000 0x7f0000000000"
    using init_ring_ready [of "\<lambda>_. Some 0" "0x10000" "0x7f0000000000"] by (auto simp: mapped_def)
  then show ?thesis using ring_ready_in ap by (auto simp: demo_ring_mem_def)
qed

lemma ring_write_over_rdma_witness:
  "\<exists>p' wr. dhmp_write_work_handler demo_env (nic_done demo_env IBV_WC_SUCCESS IBV_WC_RDMA_WRITE) 8 demo_rw
       (demo_busy\<lparr>mem := \<lambda>_. Some 7\<rparr>) = Inr p' \<and>
     decode_ring (demo_nic wr (mem p') demo_ring_mem) 0x10000 =
       Inr (new_ring\<lparr>buff_addr := replicate 16 0 @ replicate 16 7 @ replicate 32 0\<rparr>)"
proof -
  let ?p = "demo_busy\<lparr>mem := \<lambda>_. Some 7\<rparr>" and ?bs = "replicate 16 (7 :: byte)"
  have rd: "rd_mem (mem ?p) 0x1000 16 = Inr ?bs" by (rule rd_mem_eq) simp_all
  have lk: "lookup_info ?p 0x7f0000000000 = Inr (Some 16)" using demo_lookup by (simp add: lookup_info_def)
  have ap: "rop_apply (BuffWrite 16 ?bs) new_ring = Inr (new_ring\<lparr>buff_addr := replicate 16 0 @ ?bs @ replicate 32 0\<rparr>)"
    by (simp add: new_ring_def TOTAL_SIZE_def blit_def)
  have "rdma_write_done demo_nic" by (auto simp: rdma_write_done_def demo_nic_def)
  from ring_write_over_rdma [OF demo_ring_in ap _ this, of demo_info demo_rw ?bs ?p 16 demo_env
      "null_mr\<lparr>mr_addr := 0x1000, mr_length := 16, mr_lkey := 5, mr_rkey := 6\<rparr>" 8]
  show ?thesis using rd lk by (auto simp: demo_facts word_fits_def ring_in_def mapped_def)
qed

end
