(* ===== verification/Session.thy ===== *)
theory Session
  imports RingMemory
begin

text \<open>
  A program that uses a remote region. Its calls (\<open>dhmp_malloc\<close>, \<open>dhmp_send\<close>, \<open>dhmp_read\<close>, \<open>dhmp_write\<close>) put a work
  on the list, the work thread handles it, the request goes to the server as a message or is
  carried out by the network card, and the epoll thread handles the reply or the completion.
  Here all of these run together, call after call. The specification is small: a region is a list of
  bytes, a write stores bytes of the caller's memory in it and a read copies bytes of it
  back, in the order of the calls, whichever kind of transfer they use.

  The messages of the server are delivered as their bytes, so the receive buffers are not part of
  the memory; the send region of the client is, and the caller must stay out of it.
\<close>

section \<open>The other side of a call\<close>

text \<open>The client, the server, what lies behind a message in a receive buffer, and the network card: a
  function of the request, the memory of the process that posted it and the memory of the
  other, which returns both.\<close>

record Setup =
  cl_env :: Env
  cl_trans :: nat
  sv_env :: Env
  sv_trans :: nat
  behind :: "byte list"
  rnic :: "ibv_send_wr \<Rightarrow> memory \<Rightarrow> memory \<Rightarrow> memory \<times> memory"

text \<open>What a card has done when it reports success.\<close>

definition card_ok :: "Setup \<Rightarrow> bool" where
  "card_ok n \<longleftrightarrow>
     (\<forall>wr cm sm bs m'. wr_opcode wr = IBV_WR_RDMA_WRITE \<longrightarrow> rd_mem cm (wr_addr wr) (unat (wr_length wr)) = Inr bs \<longrightarrow>
        wr_mem sm (wr_remote_addr wr) bs = Inr m' \<longrightarrow> rnic n wr cm sm = (cm, m')) \<and>
     (\<forall>wr cm sm bs m'. wr_opcode wr = IBV_WR_RDMA_READ \<longrightarrow> rd_mem sm (wr_remote_addr wr) (unat (wr_length wr)) = Inr bs \<longrightarrow>
        wr_mem cm (wr_addr wr) bs = Inr m' \<longrightarrow> rnic n wr cm sm = (m', sm))"

text \<open>What happens to the client \<open>p\<close> while its work thread waits, and to the server \<open>s\<close>: the request posted
  last is carried out.\<close>

definition at_client :: "Setup \<Rightarrow> Proc \<Rightarrow> Proc \<Rightarrow> Proc" where
  "at_client n s p =
     (let wr = last (posted p);
          p' = p\<lparr>mem := fst (rnic n wr (mem p) (mem s))\<rparr>
      in case wr_opcode wr of
           IBV_WR_SEND \<Rightarrow> via (cl_env n) (cl_trans n) (sv_env n) (sv_trans n) (behind n) s p
         | IBV_WR_RDMA_WRITE \<Rightarrow> nic_done (cl_env n) IBV_WC_SUCCESS IBV_WC_RDMA_WRITE p'
         | IBV_WR_RDMA_READ \<Rightarrow> nic_done (cl_env n) IBV_WC_SUCCESS IBV_WC_RDMA_READ p'
         | _ \<Rightarrow> p)"

definition at_server :: "Setup \<Rightarrow> Proc \<Rightarrow> Proc \<Rightarrow> Proc res" where
  "at_server n p s =
     (let wr = last (posted p)
      in if wr_opcode wr = IBV_WR_SEND
         then bindR (last_frame p) (\<lambda>f. bindR (serve_request (sv_env n) (sv_trans n) (behind n) f s) (\<lambda>(g, s'). Inr s'))
         else Inr (s\<lparr>mem := snd (rnic n wr (mem p) (mem s))\<rparr>))"

text \<open>While a caller waits, the work thread takes the work and handles it.\<close>

definition work_turn :: "Setup \<Rightarrow> Proc \<Rightarrow> Proc \<Rightarrow> Proc" where
  "work_turn n s p = (case work_thread_turn (cl_env n) (at_client n s) p of Inl _ \<Rightarrow> p | Inr p' \<Rightarrow> p')"

section \<open>Calls\<close>

text \<open>A program: it stores bytes in its own memory, and moves bytes between a buffer and the region in
  messages or with one-sided operations. \<open>g\<close> is the global address of the region, \<open>w\<close> the address of the
  work struct on the stack.\<close>

datatype call =
    Store u64 "byte list"
  | Send u64 u64 bool
  | Write u64 u64 u64
  | Read u64 u64 u64

fun do_call :: "Setup \<Rightarrow> u64 \<Rightarrow> u64 \<Rightarrow> call \<Rightarrow> Proc \<Rightarrow> Proc \<Rightarrow> (int \<times> Proc) res" where
  "do_call n w g (Store a bs) s p = bindR (wr_mem (mem p) a bs) (\<lambda>m. Inr (0, p\<lparr>mem := m\<rparr>))"
| "do_call n w g (Send b k is_write) s p = dhmp_send (cl_env n) (work_turn n s) w g b k is_write p"
| "do_call n w g (Write b k off) s p = dhmp_write (cl_env n) (work_turn n s) w g b k off False p"
| "do_call n w g (Read b k off) s p = dhmp_read (cl_env n) (work_turn n s) w g b k off False p"

fun remote :: "call \<Rightarrow> bool" where
  "remote (Store a bs) = False"
| "remote (Send b k is_write) = True"
| "remote (Write b k off) = True"
| "remote (Read b k off) = True"

text \<open>A call with what it does at the server: \<open>talks\<close> says that it sends a request when it returns 0. A
  sequence of calls gives the list of their results.\<close>

definition sys_call :: "Setup \<Rightarrow> bool \<Rightarrow> (Proc \<Rightarrow> Proc \<Rightarrow> (int \<times> Proc) res) \<Rightarrow> Proc \<Rightarrow> Proc \<Rightarrow> (int \<times> Proc \<times> Proc) res" where
  "sys_call n talks f p s =
     bindR (f s p) (\<lambda>(r, p'). bindR (if talks \<and> r = 0 then at_server n p' s else Inr s) (\<lambda>s'. Inr (r, p', s')))"

fun run_seq :: "Setup \<Rightarrow> (bool \<times> (Proc \<Rightarrow> Proc \<Rightarrow> (int \<times> Proc) res)) list \<Rightarrow> Proc \<Rightarrow> Proc \<Rightarrow> (int list \<times> Proc \<times> Proc) res" where
  "run_seq n [] p s = Inr ([], p, s)"
| "run_seq n ((talks, f) # fs) p s =
     bindR (sys_call n talks f p s) (\<lambda>(r, p', s'). bindR (run_seq n fs p' s') (\<lambda>(rs, q). Inr (r # rs, q)))"

definition run_calls :: "Setup \<Rightarrow> u64 \<Rightarrow> u64 \<Rightarrow> call list \<Rightarrow> Proc \<Rightarrow> Proc \<Rightarrow> (int list \<times> Proc \<times> Proc) res" where
  "run_calls n w g cs = run_seq n (map (\<lambda>c. (remote c, do_call n w g c)) cs)"

section \<open>Specification\<close>

text \<open>A call on the caller's memory and the bytes of the region. A message must fit into a receive buffer of the
  other side: 12 bytes of message header, 40 of request and the data in 64 KiB (what longer ones do is said in \<open>Exchange\<close>). A request
  of the card has less than 2^31 bytes; the buffer of a one-sided operation must have the 12
  bytes that the handler of the completion reads.\<close>

fun spec_call :: "call \<Rightarrow> memory \<times> byte list \<Rightarrow> (memory \<times> byte list) res" where
  "spec_call (Store a bs) (m, R) = bindR (wr_mem m a bs) (\<lambda>m'. Inr (m', R))"
| "spec_call (Send b k is_write) (m, R) = guardR (unat k \<le> length R \<and> 52 + unat k \<le> SINGLE_NORM_RECV_REGION) UB
     (if is_write then bindR (rd_mem m b (unat k)) (\<lambda>bs. Inr (m, blit 0 bs R))
      else bindR (wr_mem m b (take (unat k) R)) (\<lambda>m'. Inr (m', R)))"
| "spec_call (Write b k off) (m, R) = guardR (unat off + unat k \<le> length R \<and> unat k < 2 ^ 31 \<and> mapped m b 12) UB
     (bindR (rd_mem m b (unat k)) (\<lambda>bs. Inr (m, blit (unat off) bs R)))"
| "spec_call (Read b k off) (m, R) = guardR (unat off + unat k \<le> length R \<and> unat k < 2 ^ 31 \<and> mapped m b 12) UB
     (bindR (wr_mem m b (take (unat k) (drop (unat off) R))) (\<lambda>m'. Inr (m', R)))"

fun spec_calls :: "call list \<Rightarrow> memory \<times> byte list \<Rightarrow> (memory \<times> byte list) res" where
  "spec_calls [] st = Inr st"
| "spec_calls (c # cs) st = bindR (spec_call c st) (spec_calls cs)"

text \<open>The memory of the client without its send region.\<close>

definition own_mem :: "Setup \<Rightarrow> Proc \<Rightarrow> memory" where
  "own_mem n p x =
     (case transports p (cl_trans n) of
        None \<Rightarrow> None
      | Some tr \<Rightarrow> if SEND_REGION_SIZE \<le> unat (x - dmr_addr (send_mr tr)) then mem p x else None)"

section \<open>Between two calls\<close>

definition setup_ok :: "Setup \<Rightarrow> bool" where
  "setup_ok n \<longleftrightarrow> card_ok n \<and> never_fails (cl_env n) \<and> never_fails (sv_env n) \<and>
     (\<forall>a k. \<exists>mr. reg_mr (cl_env n) a k = Some mr \<and> mr_addr mr = a)"

text \<open>The client: its link works, no work waits, and the table has the region at \<open>a\<close> under the address \<open>g\<close>,
  with no write in flight.\<close>

definition client_ready :: "Setup \<Rightarrow> u64 \<Rightarrow> u64 \<Rightarrow> Proc \<Rightarrow> bool" where
  "client_ready n g a p \<longleftrightarrow> link_ok (cl_env n) (cl_trans n) p \<and> work_list p = [] \<and>
     dhmp_get_trans_from_addr (connect_trans p) g = Inr (Some (cl_trans n)) \<and>
     (\<exists>ai i. lookup_info p g = Inr (Some ai) \<and> infos p ai = Some i \<and> \<not> write_flag i \<and> mr_addr (nvm_mr i) = a)"

text \<open>The server: its link works and the region at \<open>a\<close> holds \<open>R\<close>.\<close>

definition server_ready :: "Setup \<Rightarrow> u64 \<Rightarrow> byte list \<Rightarrow> Proc \<Rightarrow> bool" where
  "server_ready n a R s \<longleftrightarrow> link_ok (sv_env n) (sv_trans n) s \<and> rd_mem (mem s) a (length R) = Inr R \<and>
     outside_send_region s (sv_trans n) a (length R) \<and> length R < 2 ^ 64"

section \<open>The caller's memory\<close>

lemma own_mem_cong: "transports p' = transports p \<Longrightarrow> mem p' = mem p \<Longrightarrow> own_mem n p' = own_mem n p"
  by (rule ext) (simp add: own_mem_def split: option.split)

lemma own_mem_updates [simp]:
  "own_mem n (p\<lparr>works := a\<rparr>) = own_mem n p" "own_mem n (p\<lparr>infos := b\<rparr>) = own_mem n p" "own_mem n (p\<lparr>work_list := c\<rparr>) = own_mem n p"
  by (rule own_mem_cong; simp)+

lemma own_mem_Some: "own_mem n p x = Some v \<Longrightarrow> mem p x = Some v"
  by (auto simp: own_mem_def split: option.splits if_splits)

lemma own_mem_outside:
  assumes "own_mem n p x \<noteq> None" and "transports p (cl_trans n) = Some tr"
  shows "SEND_REGION_SIZE \<le> unat (x - dmr_addr (send_mr tr))"
  using assms by (auto simp: own_mem_def split: if_splits)

lemma rd_own: "rd_mem (own_mem n p) b k = Inr bs \<Longrightarrow> rd_mem (mem p) b k = Inr bs"
  using rd_mem_nth [of "own_mem n p" b k bs] by (intro rd_mem_eq) (auto dest: own_mem_Some)

lemma mapped_own:
  assumes "mapped (own_mem n p) b k"
  shows "mapped (mem p) b k" and "outside_send_region p (cl_trans n) b k"
  using assms own_mem_Some own_mem_outside unfolding mapped_def outside_send_region_def by blast+

lemma wr_mem_at: "wr_mem m a bs = Inr m' \<Longrightarrow> m' x = (if unat (x - a) < length bs then Some (bs ! unat (x - a)) else m x)"
  by (auto simp: wr_mem_def guardR_eq_Inr)

lemma wr_own:
  assumes "wr_mem (own_mem n p) b bs = Inr m'"
  shows "\<exists>m. wr_mem (mem p) b bs = Inr m \<and> own_mem n (p\<lparr>mem := m\<rparr>) = m'"
proof -
  have mp: "mapped (own_mem n p) b (length bs)" using assms by (simp add: wr_mem_def guardR_eq_Inr)
  then obtain m where m: "wr_mem (mem p) b bs = Inr m" using wr_mem_ok mapped_own(1) by blast
  have inside: "own_mem n p x \<noteq> None" if "unat (x - b) < length bs" for x
    using mp [unfolded mapped_def, rule_format, OF that] by simp
  have "own_mem n (p\<lparr>mem := m\<rparr>) x = m' x" for x
  proof (cases "unat (x - b) < length bs")
    case True
    obtain tr where tr: "transports p (cl_trans n) = Some tr"
      using inside [OF True] by (cases "transports p (cl_trans n)") (simp_all add: own_mem_def)
    then show ?thesis using True own_mem_outside [OF inside [OF True] tr] by (simp add: own_mem_def wr_mem_at [OF assms] wr_mem_at [OF m])
  next
    case False
    then show ?thesis by (simp add: own_mem_def wr_mem_at [OF assms] wr_mem_at [OF m] split: option.split)
  qed
  then show ?thesis using m by blast
qed

lemma own_after_post:
  assumes "after_post e (cl_trans n) p p'"
  shows "own_mem n p' = own_mem n p"
  using assms by (intro ext) (auto simp: after_post_def own_mem_def split: option.split)

text \<open>What the caller writes into its memory leaves the message in the send region alone.\<close>

lemma frame_kept:
  assumes "after_post e (cl_trans n) p0 p" and "wr_mem (own_mem n p) b bs = Inr m'" and "wr_mem (mem p) b bs = Inr m"
  shows "last_frame (p\<lparr>mem := m\<rparr>) = last_frame p"
proof -
  let ?wr = "last (posted p)"
  obtain tr k where tr: "transports p (cl_trans n) = Some tr" "wr_addr ?wr = dmr_addr (send_mr tr) + word_of_nat k"
      "k + unat (wr_length ?wr) \<le> SEND_REGION_SIZE"
    using assms(1) by (auto simp: after_post_def)
  have out: "outside_send_region p (cl_trans n) b (length bs)"
    using assms(2) mapped_own(2) by (simp add: wr_mem_def guardR_eq_Inr)
  have "apart b (length bs) (wr_addr ?wr) (unat (wr_length ?wr))"
    unfolding apart_def
  proof (intro allI impI)
    fix j assume j: "j < unat (wr_length ?wr)"
    let ?x = "wr_addr ?wr + word_of_nat j"
    have x: "?x - dmr_addr (send_mr tr) = word_of_nat (k + j)" by (simp add: tr(2))
    have "unat (?x - dmr_addr (send_mr tr)) < SEND_REGION_SIZE"
      unfolding x using j tr(3) by (subst unat_of_nat64) (auto simp: SEND_REGION_SIZE_def)
    moreover have "b + word_of_nat (unat (?x - b)) = ?x" by simp
    ultimately show "length bs \<le> unat (?x - b)"
      using out tr(1) unfolding outside_send_region_def by (metis linorder_not_less)
  qed
  then show ?thesis using rd_wr_mem_apart [OF assms(3)] by (simp add: last_frame_def Let_def)
qed

section \<open>A call waits for its work\<close>

lemma submit_turn:
  assumes "work_list p = []" and "\<not> work_done k" and "works q w = Some k'" and "work_done k'"
    and "work_thread_turn (cl_env n) (at_client n s) (p\<lparr>works := (works p)(w \<mapsto> k), work_list := [w]\<rparr>) = Inr q"
  shows "submit (work_turn n s) w k p = Inr (k', q\<lparr>works := (works q)(w := None)\<rparr>)"
  using assms by (simp add: submit_def wait_until_def set_work_def work_turn_def)

lemma turn_takes:
  assumes "work_list p = []"
  shows "work_thread_turn e others (p\<lparr>works := (works p)(w \<mapsto> k), work_list := [w]\<rparr>) =
    (case k of
       DHMP_WORK_MALLOC mw \<Rightarrow> dhmp_malloc_work_handler e others w mw (p\<lparr>works := (works p)(w \<mapsto> k)\<rparr>)
     | DHMP_WORK_FREE fw \<Rightarrow> dhmp_free_work_handler e others w fw (p\<lparr>works := (works p)(w \<mapsto> k)\<rparr>)
     | DHMP_WORK_READ rw \<Rightarrow> dhmp_read_work_handler e others w rw (p\<lparr>works := (works p)(w \<mapsto> k)\<rparr>)
     | DHMP_WORK_WRITE rw \<Rightarrow> dhmp_write_work_handler e others w rw (p\<lparr>works := (works p)(w \<mapsto> k)\<rparr>)
     | DHMP_WORK_SEND sw \<Rightarrow> dhmp_send_work_handler e others w sw (p\<lparr>works := (works p)(w \<mapsto> k)\<rparr>)
     | DHMP_WORK_CLOSE cw \<Rightarrow> dhmp_close_work_handler e w cw (p\<lparr>works := (works p)(w \<mapsto> k)\<rparr>)
     | DHMP_BUFF_MALLOC bw \<Rightarrow> dhmp_buff_malloc_work_handler e others w bw (p\<lparr>works := (works p)(w \<mapsto> k)\<rparr>)
     | DHMP_WORK_POLL \<Rightarrow> Inr (p\<lparr>works := (works p)(w \<mapsto> k)\<rparr>)
     | DHMP_WORK_DONE \<Rightarrow> Inr (p\<lparr>works := (works p)(w \<mapsto> k)\<rparr>))"
proof -
  have "p\<lparr>works := (works p)(w \<mapsto> k), work_list := []\<rparr> = p\<lparr>works := (works p)(w \<mapsto> k)\<rparr>" using assms by (cases p) simp
  then show ?thesis by (cases k) (simp_all add: work_thread_turn_def Let_def)
qed

lemma client_readyD:
  assumes "client_ready n g a p"
  shows "usable_trans p g = Inr (Some (cl_trans n))" "malloc_ok (cl_env n)" "work_list p = []"
    "link_ok (cl_env n) (cl_trans n) p"
  using assms by (auto simp: client_ready_def link_ok_def usable_trans_def)

text \<open>The table still finds the region when only counters and flags of its struct have changed.\<close>

lemma client_ready_kept:
  assumes "client_ready n g a p" and "infos p ai = Some i"
    and "link_ok (cl_env n) (cl_trans n) p'" and "work_list p' = []" and "connect_trans p' = connect_trans p"
    and "addr_info_ht p' = addr_info_ht p" and "infos p' = (infos p)(ai \<mapsto> i')" and "nvm_mr i' = nvm_mr i" and "\<not> write_flag i'"
  shows "client_ready n g a p'"
proof -
  obtain aj j where j: "lookup_info p g = Inr (Some aj)" "infos p aj = Some j" "\<not> write_flag j" "mr_addr (nvm_mr j) = a"
    using assms(1) by (auto simp: client_ready_def)
  have "find_info (infos p') x (addr_info_ht p h) = find_info (infos p) x (addr_info_ht p h)" for x h
    using assms(2,7,8) by (intro find_info_cong) simp
  then have "lookup_info p' g = Inr (Some aj)"
    using j(1) assms(6) by (simp add: lookup_info_def dhmp_get_addr_info_from_ht_def split: if_splits)
  moreover have "\<exists>j'. infos p' aj = Some j' \<and> \<not> write_flag j' \<and> mr_addr (nvm_mr j') = a"
    using j assms(2,7-9) by (cases "aj = ai") auto
  ultimately show ?thesis using assms(1,3-5) by (auto simp: client_ready_def)
qed

lemma serves_at_client [simp]:
  "serves (at_client n s) (cl_env n) (cl_trans n) (sv_env n) (sv_trans n) (behind n) s"
  by (simp add: serves_def at_client_def)

section \<open>Messages\<close>

text \<open>\<open>dhmp_send\<close> returns when the handler's exchange of messages does, in the state that it leaves.\<close>

lemma send_call:
  assumes ready: "client_ready n g a p"
    and sw: "sw = \<lparr>sw_trans = cl_trans n, sw_length = k, sw_done = False, sw_dhmp_addr = g, sw_local_addr = b,
      sw_recv_flag = False, sw_is_write = is_write\<rparr>"
    and exchange: "\<And>P. link_ok (cl_env n) (cl_trans n) P \<Longrightarrow> works P w = Some (DHMP_WORK_SEND sw) \<Longrightarrow> own_mem n P = own_mem n p \<Longrightarrow>
      \<exists>p1 m. after_post (cl_env n) (cl_trans n) P p1 \<and> link_ok (cl_env n) (cl_trans n) (p1\<lparr>mem := m\<rparr>) \<and> result p1 m \<and>
        dhmp_rdma_send (cl_env n) (at_client n s) w sw a P =
          Inr (p1\<lparr>mem := m, works := (works P)(w \<mapsto> DHMP_WORK_SEND (sw\<lparr>sw_recv_flag := True, sw_done := True\<rparr>))\<rparr>)"
  shows "\<exists>p1 m p'. result p1 m \<and> dhmp_send (cl_env n) (work_turn n s) w g b k is_write p = Inr (0, p') \<and>
    posted p' = posted p1 \<and> mem p' = m \<and> transports p' = transports p1 \<and> posted p1 \<noteq> [] \<and>
    wr_opcode (last (posted p1)) = IBV_WR_SEND \<and> client_ready n g a p'"
proof -
  obtain ai i where i: "lookup_info p g = Inr (Some ai)" "infos p ai = Some i" "\<not> write_flag i" "mr_addr (nvm_mr i) = a"
    using ready by (auto simp: client_ready_def)
  note c = client_readyD [OF ready]
  define j where "j = (if is_write then i\<lparr>write_flag := True, write_cnt := write_cnt i + 1\<rparr> else i\<lparr>write_flag := True, read_cnt := read_cnt i + 1\<rparr>)"
  define P where "P = p\<lparr>works := (works p)(w \<mapsto> DHMP_WORK_SEND sw), infos := (infos p)(ai \<mapsto> j)\<rparr>"
  have "link_ok (cl_env n) (cl_trans n) P" "own_mem n P = own_mem n p"
    using c(4) by (simp_all add: P_def link_ok_def send_region_ok_def)
  then obtain p1 m where p1: "after_post (cl_env n) (cl_trans n) P p1" "link_ok (cl_env n) (cl_trans n) (p1\<lparr>mem := m\<rparr>)" "result p1 m"
      "dhmp_rdma_send (cl_env n) (at_client n s) w sw a P =
        Inr (p1\<lparr>mem := m, works := (works P)(w \<mapsto> DHMP_WORK_SEND (sw\<lparr>sw_recv_flag := True, sw_done := True\<rparr>))\<rparr>)"
    using exchange [of P] by (auto simp: P_def)
  note p1' = after_postD [OF p1(1)]
  let ?k = "DHMP_WORK_SEND (sw\<lparr>sw_recv_flag := True, sw_done := True\<rparr>)"
  let ?q = "p1\<lparr>mem := m, works := (works P)(w \<mapsto> ?k), infos := (infos p)(ai \<mapsto> j\<lparr>write_flag := False\<rparr>)\<rparr>"
  have "dhmp_send_work_handler (cl_env n) (at_client n s) w sw (p\<lparr>works := (works p)(w \<mapsto> DHMP_WORK_SEND sw)\<rparr>) = Inr ?q"
    using i p1(4) p1'(2) unfolding P_def j_def
    by (simp add: dhmp_send_work_handler_def lookup_info_def sw wait_write_flag_def wait_until_def info_at_def set_info_def set_work_def Let_def
        cong: if_cong)
  then have "submit (work_turn n s) w (DHMP_WORK_SEND sw) p = Inr (?k, ?q\<lparr>works := (works ?q)(w := None)\<rparr>)"
    using turn_takes [OF c(3)] by (intro submit_turn [OF c(3)]) (simp_all add: sw)
  then have "dhmp_send (cl_env n) (work_turn n s) w g b k is_write p = Inr (0, ?q\<lparr>works := (works ?q)(w := None)\<rparr>)"
    using c(1,2) by (simp add: dhmp_send_def sw)
  moreover have "client_ready n g a (?q\<lparr>works := (works ?q)(w := None)\<rparr>)"
    using p1(2) p1'(4,5,6) c(3) i
    by (intro client_ready_kept [OF ready i(2), where i' = "j\<lparr>write_flag := False\<rparr>"]) (auto simp: P_def j_def link_ok_def send_region_ok_def)
  ultimately show ?thesis
    using p1(3) p1'(7,8) by (intro exI [of _ p1] exI [of _ m] exI [of _ "?q\<lparr>works := (works ?q)(w := None)\<rparr>"]) simp
qed

lemma mem_same: "mem p = m \<Longrightarrow> p\<lparr>mem := m\<rparr> = (p :: Proc)"
  by (cases p) simp

lemma last_frame_cong: "posted p = posted q \<Longrightarrow> mem p = mem q \<Longrightarrow> last_frame p = last_frame q"
  by (simp add: last_frame_def)

lemma server_posted:
  assumes "server_ready n a R s" and "after_post (sv_env n) (sv_trans n) s s'"
  shows "server_ready n a R s'"
  using assms after_post_reads [OF assms(2), of a "length R"] after_postD(1) [OF assms(2)] by (simp add: server_ready_def)

lemma server_written:
  assumes "server_ready n a R s" and "wr_mem (mem s) (a + word_of_nat d) bs = Inr m" and "d + length bs \<le> length R"
  shows "server_ready n a (blit d bs R) (s\<lparr>mem := m\<rparr>)"
  using assms rd_mem_inner_write [of "mem s" a R d bs m] link_wr_mem [OF _ assms(2)]
  by (auto simp: server_ready_def outside_send_region_def)

lemma region_mapped:
  assumes "server_ready n a R s" and "d + k \<le> length R"
  shows "mapped (mem s) (a + word_of_nat d) k" and "rd_mem (mem s) (a + word_of_nat d) k = Inr (take k (drop d R))"
proof -
  show "rd_mem (mem s) (a + word_of_nat d) k = Inr (take k (drop d R))"
    using assms rd_mem_suffix [of "mem s" a "length R" R d] rd_mem_prefix [of "mem s" _ "length R - d" "drop d R" k]
    by (simp add: server_ready_def)
  then show "mapped (mem s) (a + word_of_nat d) k" by (simp add: rd_mem_def guardR_eq_Inr)
qed

text \<open>A call that does what the specification says.\<close>

definition refined :: "Setup \<Rightarrow> u64 \<Rightarrow> u64 \<Rightarrow> u64 \<Rightarrow> call \<Rightarrow> Proc \<Rightarrow> Proc \<Rightarrow> memory \<Rightarrow> byte list \<Rightarrow> bool" where
  "refined n w g a c p s m R \<longleftrightarrow> (\<exists>p' s'. do_call n w g c s p = Inr (0, p') \<and> (if remote c then at_server n p' s else Inr s) = Inr s' \<and>
     client_ready n g a p' \<and> own_mem n p' = m \<and> server_ready n a R s')"

lemma send_write_refined:
  assumes ok: "setup_ok n" and client: "client_ready n g a p" and server: "server_ready n a R s"
    and k: "unat k \<le> length R" "52 + unat k \<le> SINGLE_NORM_RECV_REGION" and bs: "rd_mem (own_mem n p) b (unat k) = Inr bs"
  shows "refined n w g a (Send b k True) p s (own_mem n p) (blit 0 bs R)"
proof -
  let ?sw = "\<lparr>sw_trans = cl_trans n, sw_length = k, sw_done = False, sw_dhmp_addr = g, sw_local_addr = b, sw_recv_flag = False, sw_is_write = True\<rparr>"
  let ?result = "\<lambda>p1 m. m = mem p1 \<and> own_mem n p1 = own_mem n p \<and> (\<exists>f r m' s'. last_frame p1 = Inr f \<and>
    serve_request (sv_env n) (sv_trans n) (behind n) f s = Inr (r, s') \<and> wr_mem (mem s) a bs = Inr m' \<and>
    after_post (sv_env n) (sv_trans n) (s\<lparr>mem := m'\<rparr>) s')"
  have len: "length bs = unat k" using rd_mem_nth [OF bs] by simp
  have "\<exists>p1 m. after_post (cl_env n) (cl_trans n) P p1 \<and> link_ok (cl_env n) (cl_trans n) (p1\<lparr>mem := m\<rparr>) \<and> ?result p1 m \<and>
      dhmp_rdma_send (cl_env n) (at_client n s) w ?sw a P =
        Inr (p1\<lparr>mem := m, works := (works P)(w \<mapsto> DHMP_WORK_SEND (?sw\<lparr>sw_recv_flag := True, sw_done := True\<rparr>))\<rparr>)"
    if P: "link_ok (cl_env n) (cl_trans n) P" "works P w = Some (DHMP_WORK_SEND ?sw)" "own_mem n P = own_mem n p" for P
  proof -
    have "rd_mem (mem P) b (unat k) = Inr bs" using rd_own [of n P] P(3) bs by simp
    then obtain p1 f r m' s' where r: "after_post (cl_env n) (cl_trans n) P p1" "last_frame p1 = Inr f"
        "serve_request (sv_env n) (sv_trans n) (behind n) f s = Inr (r, s')" "wr_mem (mem s) a bs = Inr m'"
        "after_post (sv_env n) (sv_trans n) (s\<lparr>mem := m'\<rparr>) s'"
        "dhmp_rdma_send (cl_env n) (at_client n s) w ?sw a P =
          Inr (p1\<lparr>works := (works P)(w \<mapsto> DHMP_WORK_SEND (?sw\<lparr>sw_recv_flag := True, sw_done := True\<rparr>))\<rparr>)"
      using rdma_send_write [of "cl_env n" ?sw P "sv_env n" "sv_trans n" s w bs a "at_client n s" "behind n"] P(1,2)
        ok server region_mapped(1) [OF server, of 0 "unat k"] k
      by (auto simp: setup_ok_def server_ready_def)
    then show ?thesis
      using after_postD(1) [OF r(1)] own_after_post [OF r(1)] P(3) by (intro exI [of _ p1] exI [of _ "mem p1"]) (auto simp: mem_same)
  qed
  from send_call [OF client refl this]
  obtain p1 m p' where c: "?result p1 m" and p': "dhmp_send (cl_env n) (work_turn n s) w g b k True p = Inr (0, p')" "posted p' = posted p1"
      "mem p' = m" "transports p' = transports p1" "posted p1 \<noteq> []" "wr_opcode (last (posted p1)) = IBV_WR_SEND" "client_ready n g a p'"
    by blast
  from c obtain f r m' s' where r: "m = mem p1" "own_mem n p1 = own_mem n p" "last_frame p1 = Inr f"
      "serve_request (sv_env n) (sv_trans n) (behind n) f s = Inr (r, s')"
      "wr_mem (mem s) a bs = Inr m'" "after_post (sv_env n) (sv_trans n) (s\<lparr>mem := m'\<rparr>) s'"
    by blast
  have m: "mem p' = mem p1" using p'(3) r(1) by simp
  have "at_server n p' s = Inr s'" using p'(2,6) r(3,4) last_frame_cong [OF p'(2) m] by (simp add: at_server_def)
  moreover have "server_ready n a (blit 0 bs R) s'"
    using server_posted [OF server_written [OF server, of 0 bs] r(6)] r(5) k len by simp
  ultimately show ?thesis using p'(1,7) r(2) own_mem_cong [OF p'(4) m] by (simp add: refined_def)
qed

lemma send_read_refined:
  assumes ok: "setup_ok n" and client: "client_ready n g a p" and server: "server_ready n a R s"
    and k: "unat k \<le> length R" "52 + unat k \<le> SINGLE_NORM_RECV_REGION" and m': "wr_mem (own_mem n p) b (take (unat k) R) = Inr m'"
  shows "refined n w g a (Send b k False) p s m' R"
proof -
  let ?sw = "\<lparr>sw_trans = cl_trans n, sw_length = k, sw_done = False, sw_dhmp_addr = g, sw_local_addr = b, sw_recv_flag = False, sw_is_write = False\<rparr>"
  let ?result = "\<lambda>p1 m. own_mem n (p1\<lparr>mem := m\<rparr>) = m' \<and> (\<exists>f r s'. last_frame (p1\<lparr>mem := m\<rparr>) = Inr f \<and>
    serve_request (sv_env n) (sv_trans n) (behind n) f s = Inr (r, s') \<and> after_post (sv_env n) (sv_trans n) s s')"
  have "\<exists>p1 m. after_post (cl_env n) (cl_trans n) P p1 \<and> link_ok (cl_env n) (cl_trans n) (p1\<lparr>mem := m\<rparr>) \<and> ?result p1 m \<and>
      dhmp_rdma_send (cl_env n) (at_client n s) w ?sw a P =
        Inr (p1\<lparr>mem := m, works := (works P)(w \<mapsto> DHMP_WORK_SEND (?sw\<lparr>sw_recv_flag := True, sw_done := True\<rparr>))\<rparr>)"
    if P: "link_ok (cl_env n) (cl_trans n) P" "works P w = Some (DHMP_WORK_SEND ?sw)" "own_mem n P = own_mem n p" for P
  proof -
    have "mapped (own_mem n P) b (unat k)" using m' P(3) k by (simp add: wr_mem_def guardR_eq_Inr)
    then obtain p1 f r m s' where r: "after_post (cl_env n) (cl_trans n) P p1" "last_frame p1 = Inr f"
        "serve_request (sv_env n) (sv_trans n) (behind n) f s = Inr (r, s')" "after_post (sv_env n) (sv_trans n) s s'"
        "wr_mem (mem p1) b (take (unat k) R) = Inr m"
        "dhmp_rdma_send (cl_env n) (at_client n s) w ?sw a P =
          Inr (p1\<lparr>mem := m, works := (works P)(w \<mapsto> DHMP_WORK_SEND (?sw\<lparr>sw_recv_flag := True, sw_done := True\<rparr>))\<rparr>)"
      using rdma_send_read [of "cl_env n" ?sw P "sv_env n" "sv_trans n" s w a "take (unat k) R" "at_client n s" "behind n"] P(1,2)
        ok server region_mapped(2) [OF server, of 0 "unat k"] k mapped_own [of n P b "unat k"]
      by (auto simp: setup_ok_def server_ready_def)
    have own: "own_mem n p1 = own_mem n p" using own_after_post [OF r(1)] P(3) by simp
    then have "own_mem n (p1\<lparr>mem := m\<rparr>) = m'" using wr_own [of n p1 b "take (unat k) R" m'] m' r(5) by auto
    moreover have "last_frame (p1\<lparr>mem := m\<rparr>) = last_frame p1" using frame_kept [OF r(1) _ r(5)] own m' by simp
    ultimately show ?thesis using r link_wr_mem [OF after_postD(1) [OF r(1)] r(5)] by (intro exI [of _ p1] exI [of _ m]) auto
  qed
  from send_call [OF client refl this]
  obtain p1 m p' where c: "?result p1 m" and p': "dhmp_send (cl_env n) (work_turn n s) w g b k False p = Inr (0, p')" "posted p' = posted p1"
      "mem p' = m" "transports p' = transports p1" "posted p1 \<noteq> []" "wr_opcode (last (posted p1)) = IBV_WR_SEND" "client_ready n g a p'"
    by blast
  from c obtain f r s' where r: "own_mem n (p1\<lparr>mem := m\<rparr>) = m'" "last_frame (p1\<lparr>mem := m\<rparr>) = Inr f"
      "serve_request (sv_env n) (sv_trans n) (behind n) f s = Inr (r, s')" "after_post (sv_env n) (sv_trans n) s s'"
    by blast
  have "at_server n p' s = Inr s'"
    using p'(2,3,6) r(2,3) last_frame_cong [of p' "p1\<lparr>mem := m\<rparr>"] by (simp add: at_server_def)
  moreover have "own_mem n p' = m'" using own_mem_cong [of p' "p1\<lparr>mem := m\<rparr>" n] p'(3,4) r(1) by simp
  ultimately show ?thesis using p'(1,7) server_posted [OF server r(4)] by (simp add: refined_def)
qed

section \<open>One-sided operations\<close>

lemma length_as_int: "unat k < 2 ^ 31 \<Longrightarrow> unat (word_of_int (int_of_size k) :: u32) = unat k"
  using size_of_length [of "unat k"] by simp

lemma client_ready_rw:
  assumes "client_ready n g a p" and "infos p ai = Some i"
    and "nvm_mr j = nvm_mr i" and "\<not> write_flag j" and "\<forall>x l. mapped (mem p) x l \<longrightarrow> mapped m x l"
  shows "client_ready n g a (p\<lparr>mem := m, tasks := tk, next_task := nt, infos := (infos p)(ai \<mapsto> j), regs := rg, posted := ps, works := ws\<rparr>)"
proof -
  have "link_ok (cl_env n) (cl_trans n) (p\<lparr>mem := m\<rparr>)"
    using assms(5) client_readyD(4) [OF assms(1)] by (auto simp: link_ok_def send_region_ok_def)
  then show ?thesis
    using client_readyD(3) [OF assms(1)]
    by (intro client_ready_kept [OF assms(1,2), where i' = j]) (simp_all add: assms(3,4) link_ok_def send_region_ok_def)
qed

text \<open>\<open>dhmp_write\<close> and \<open>dhmp_read\<close> return 0 and do to the two memories what the card does; every region in the
  client's table can be used afterwards.\<close>

lemma write_call:
  assumes ok: "setup_ok n" and client: "client_ready n g a p" and k: "unat k < 2 ^ 31" and head: "mapped (mem p) b 12"
    and bs: "rd_mem (mem p) b (unat k) = Inr bs" and m: "wr_mem (mem s) (a + off) bs = Inr m"
  shows "\<exists>p'. dhmp_write (cl_env n) (work_turn n s) w g b k off atomic p = Inr (0, p') \<and> at_server n p' s = Inr (s\<lparr>mem := m\<rparr>) \<and>
    mem p' = mem p \<and> transports p' = transports p \<and> (\<forall>g a. client_ready n g a p \<longrightarrow> client_ready n g a p')"
proof -
  let ?rw = "rw_work (cl_trans n) g b k off atomic"
  let ?P = "p\<lparr>works := (works p)(w \<mapsto> DHMP_WORK_WRITE ?rw)\<rparr>"
  obtain ai i where i: "lookup_info p g = Inr (Some ai)" "infos p ai = Some i" "\<not> write_flag i" "mr_addr (nvm_mr i) = a"
    using client by (auto simp: client_ready_def)
  obtain mr where mr: "reg_mr (cl_env n) b (word_of_int (int_of_size k)) = Some mr" "mr_addr mr = b"
    using ok unfolding setup_ok_def by blast
  note c = client_readyD [OF client]
  let ?wr = "rw_request IBV_WR_RDMA_WRITE ?rw (nvm_mr i) mr (next_task p)"
  have card: "rnic n ?wr (mem p) (mem s) = (mem p, m)"
    using ok m bs length_as_int [OF k] i(4) by (auto simp: setup_ok_def card_ok_def rw_request_def rw_work_def)
  have "\<exists>tk. dhmp_write_work_handler (cl_env n) (at_client n s) w ?rw ?P = Inr (?P\<lparr>tasks := tk, next_task := next_task ?P + 1,
    infos := (infos ?P)(ai \<mapsto> i\<lparr>write_cnt := write_cnt i + 1\<rparr>), regs := remove1 mr (regs ?P @ [mr]),
    posted := posted ?P @ [rw_request IBV_WR_RDMA_WRITE ?rw (nvm_mr i) mr (next_task ?P)],
    works := (works ?P)(w \<mapsto> DHMP_WORK_WRITE (?rw\<lparr>rw_done := True\<rparr>))\<rparr>)"
  proof (rule write_work)
    fix q :: Proc assume q: "posted q = posted ?P @ [rw_request IBV_WR_RDMA_WRITE ?rw (nvm_mr i) mr (next_task ?P)]" "mem q = mem ?P"
    then have "last (posted q) = ?wr" "mem q = mem p" by simp_all
    then show "at_client n s q = nic_done (cl_env n) IBV_WC_SUCCESS IBV_WC_RDMA_WRITE q"
      using card by (simp add: at_client_def Let_def rw_request_def mem_same)
  qed (use i c ok mr head in \<open>simp_all add: rw_work_def lookup_info_def setup_ok_def\<close>)
  then obtain tk where h: "dhmp_write_work_handler (cl_env n) (at_client n s) w ?rw ?P = Inr (p\<lparr>mem := mem p, tasks := tk, next_task := next_task p + 1,
    infos := (infos p)(ai \<mapsto> i\<lparr>write_cnt := write_cnt i + 1\<rparr>), regs := remove1 mr (regs p @ [mr]), posted := posted p @ [?wr],
    works := (works p)(w \<mapsto> DHMP_WORK_WRITE (?rw\<lparr>rw_done := True\<rparr>))\<rparr>)" (is "_ = Inr ?q")
    by (auto simp: mem_same)
  let ?q' = "?q\<lparr>works := (works ?q)(w := None)\<rparr>"
  have "submit (work_turn n s) w (DHMP_WORK_WRITE ?rw) p = Inr (DHMP_WORK_WRITE (?rw\<lparr>rw_done := True\<rparr>), ?q')"
    using turn_takes [OF c(3)] h by (intro submit_turn [OF c(3)]) (simp_all add: rw_work_def)
  then have "dhmp_write (cl_env n) (work_turn n s) w g b k off atomic p = Inr (0, ?q')"
    using c(1,2) by (simp add: dhmp_write_def)
  moreover have "at_server n ?q' s = Inr (s\<lparr>mem := m\<rparr>)"
    using card by (simp add: at_server_def rw_request_def)
  moreover have "client_ready n g a ?q'" if "client_ready n g a p" for g a
    using client_ready_rw [OF that i(2), of "i\<lparr>write_cnt := write_cnt i + 1\<rparr>" "mem p"] i(3) by simp
  ultimately show ?thesis by (intro exI [of _ ?q']) simp
qed

lemma read_call:
  assumes ok: "setup_ok n" and client: "client_ready n g a p" and k: "unat k < 2 ^ 31" and head: "mapped (mem p) b 12"
    and bs: "rd_mem (mem s) (a + off) (unat k) = Inr bs" and m: "wr_mem (mem p) b bs = Inr m"
  shows "\<exists>p'. dhmp_read (cl_env n) (work_turn n s) w g b k off atomic p = Inr (0, p') \<and> at_server n p' s = Inr s \<and>
    mem p' = m \<and> transports p' = transports p \<and> (\<forall>g a. client_ready n g a p \<longrightarrow> client_ready n g a p')"
proof -
  let ?rw = "rw_work (cl_trans n) g b k off atomic"
  let ?P = "p\<lparr>works := (works p)(w \<mapsto> DHMP_WORK_READ ?rw)\<rparr>"
  obtain ai i where i: "lookup_info p g = Inr (Some ai)" "infos p ai = Some i" "\<not> write_flag i" "mr_addr (nvm_mr i) = a"
    using client by (auto simp: client_ready_def)
  obtain mr where mr: "reg_mr (cl_env n) b (word_of_int (int_of_size k)) = Some mr" "mr_addr mr = b"
    using ok unfolding setup_ok_def by blast
  note c = client_readyD [OF client]
  let ?wr = "rw_request IBV_WR_RDMA_READ ?rw (nvm_mr i) mr (next_task p)"
  have wr: "wr_opcode ?wr = IBV_WR_RDMA_READ" "wr_addr ?wr = b" "unat (wr_length ?wr) = unat k" "wr_remote_addr ?wr = a + off"
    using i(4) length_as_int [OF k] by (simp_all add: rw_request_def rw_work_def)
  have card: "rnic n ?wr cm (mem s) = (cm', mem s)" if "wr_mem cm b bs = Inr cm'" for cm cm'
    using ok that bs wr by (simp add: setup_ok_def card_ok_def)
  have "\<exists>tk. dhmp_read_work_handler (cl_env n) (at_client n s) w ?rw ?P = Inr (?P\<lparr>mem := m, tasks := tk, next_task := next_task ?P + 1,
    infos := (infos ?P)(ai \<mapsto> i\<lparr>read_cnt := read_cnt i + 1\<rparr>), regs := remove1 mr (regs ?P @ [mr]),
    posted := posted ?P @ [rw_request IBV_WR_RDMA_READ ?rw (nvm_mr i) mr (next_task ?P)],
    works := (works ?P)(w \<mapsto> DHMP_WORK_READ (?rw\<lparr>rw_done := True\<rparr>))\<rparr>)"
  proof (rule read_work)
    fix q :: Proc assume q: "posted q = posted ?P @ [rw_request IBV_WR_RDMA_READ ?rw (nvm_mr i) mr (next_task ?P)]" "mem q = mem ?P"
    then have "last (posted q) = ?wr" "mem q = mem p" by simp_all
    then show "at_client n s q = nic_done (cl_env n) IBV_WC_SUCCESS IBV_WC_RDMA_READ (q\<lparr>mem := m\<rparr>)"
      using card [OF m] wr(1) by (simp add: at_client_def Let_def)
  qed (use i c ok mr wr_mem_mapped [OF m head] in \<open>simp_all add: rw_work_def lookup_info_def setup_ok_def\<close>)
  then obtain tk where h: "dhmp_read_work_handler (cl_env n) (at_client n s) w ?rw ?P = Inr (p\<lparr>mem := m, tasks := tk, next_task := next_task p + 1,
    infos := (infos p)(ai \<mapsto> i\<lparr>read_cnt := read_cnt i + 1\<rparr>), regs := remove1 mr (regs p @ [mr]), posted := posted p @ [?wr],
    works := (works p)(w \<mapsto> DHMP_WORK_READ (?rw\<lparr>rw_done := True\<rparr>))\<rparr>)" (is "_ = Inr ?q")
    by auto
  let ?q' = "?q\<lparr>works := (works ?q)(w := None)\<rparr>"
  have "submit (work_turn n s) w (DHMP_WORK_READ ?rw) p = Inr (DHMP_WORK_READ (?rw\<lparr>rw_done := True\<rparr>), ?q')"
    using turn_takes [OF c(3)] h by (intro submit_turn [OF c(3)]) (simp_all add: rw_work_def)
  then have "dhmp_read (cl_env n) (work_turn n s) w g b k off atomic p = Inr (0, ?q')" using c(1,2) by (simp add: dhmp_read_def)
  moreover have "mapped (mem p) b (length bs)" using m by (simp add: wr_mem_def guardR_eq_Inr)
  then obtain m2 where "wr_mem m b bs = Inr m2" using wr_mem_ok [OF wr_mem_mapped [OF m]] by blast
  then have "at_server n ?q' s = Inr s" using card wr(1) by (simp add: at_server_def mem_same)
  moreover have "client_ready n g a ?q'" if "client_ready n g a p" for g a
    using client_ready_rw [OF that i(2), of "i\<lparr>read_cnt := read_cnt i + 1\<rparr>" m] i(3) wr_mem_mapped [OF m] by simp
  ultimately show ?thesis by (intro exI [of _ ?q']) simp
qed

lemma write_refined:
  assumes ok: "setup_ok n" and client: "client_ready n g a p" and server: "server_ready n a R s"
    and k: "unat off + unat k \<le> length R" "unat k < 2 ^ 31" and head: "mapped (own_mem n p) b 12"
    and bs: "rd_mem (own_mem n p) b (unat k) = Inr bs"
  shows "refined n w g a (Write b k off) p s (own_mem n p) (blit (unat off) bs R)"
proof -
  have len: "length bs = unat k" using rd_mem_nth [OF bs] by simp
  obtain m where m: "wr_mem (mem s) (a + word_of_nat (unat off)) bs = Inr m"
    using wr_mem_ok region_mapped(1) [OF server k(1)] len by metis
  then obtain p' where p': "dhmp_write (cl_env n) (work_turn n s) w g b k off False p = Inr (0, p')" "at_server n p' s = Inr (s\<lparr>mem := m\<rparr>)"
      "mem p' = mem p" "transports p' = transports p" "client_ready n g a p'"
    using write_call [OF ok client k(2) mapped_own(1) [OF head] rd_own [OF bs], of s off m w False] client by auto
  then show ?thesis using server_written [OF server m] k len own_mem_cong [OF p'(4,3)] by (simp add: refined_def)
qed

lemma read_refined:
  assumes ok: "setup_ok n" and client: "client_ready n g a p" and server: "server_ready n a R s"
    and k: "unat off + unat k \<le> length R" "unat k < 2 ^ 31" and head: "mapped (own_mem n p) b 12"
    and m': "wr_mem (own_mem n p) b (take (unat k) (drop (unat off) R)) = Inr m'"
  shows "refined n w g a (Read b k off) p s m' R"
proof -
  obtain m where m: "wr_mem (mem p) b (take (unat k) (drop (unat off) R)) = Inr m" "own_mem n (p\<lparr>mem := m\<rparr>) = m'"
    using wr_own [OF m'] by blast
  then obtain p' where p': "dhmp_read (cl_env n) (work_turn n s) w g b k off False p = Inr (0, p')" "at_server n p' s = Inr s"
      "mem p' = m" "transports p' = transports p" "client_ready n g a p'"
    using read_call [OF ok client k(2) mapped_own(1) [OF head], of s off _ m w False] client region_mapped(2) [OF server k(1)] by auto
  moreover have "own_mem n p' = m'" using own_mem_cong [of p' "p\<lparr>mem := m\<rparr>" n] p'(3,4) m(2) by simp
  ultimately show ?thesis using server by (simp add: refined_def)
qed

section \<open>Programs\<close>

lemma store_refined:
  assumes "client_ready n g a p" and "server_ready n a R s" and "wr_mem (own_mem n p) b bs = Inr m'"
  shows "refined n w g a (Store b bs) p s m' R"
proof -
  obtain m where m: "wr_mem (mem p) b bs = Inr m" "own_mem n (p\<lparr>mem := m\<rparr>) = m'" using wr_own [OF assms(3)] by blast
  have "client_ready n g a (p\<lparr>mem := m\<rparr>)"
    using assms(1) link_wr_mem [OF client_readyD(4) [OF assms(1)] m(1)] by (simp add: client_ready_def lookup_info_def)
  then show ?thesis using assms(2) m by (simp add: refined_def)
qed

lemma call_refined:
  assumes "setup_ok n" and "client_ready n g a p" and "server_ready n a R s" and "spec_call c (own_mem n p, R) = Inr (m, R')"
  shows "refined n w g a c p s m R'"
proof (cases c)
  case (Store b bs)
  then show ?thesis using assms store_refined by (auto simp: bindR_eq_Inr)
next
  case (Send b k is_write)
  then show ?thesis using assms send_write_refined send_read_refined by (cases is_write) (auto simp: bindR_eq_Inr guardR_eq_Inr)
next
  case (Write b k off)
  then show ?thesis using assms write_refined by (auto simp: bindR_eq_Inr guardR_eq_Inr)
next
  case (Read b k off)
  then show ?thesis using assms read_refined by (auto simp: bindR_eq_Inr guardR_eq_Inr)
qed

lemma calls_refined:
  assumes "setup_ok n" and "client_ready n g a p" and "server_ready n a R s" and "spec_calls cs (own_mem n p, R) = Inr (m, R')"
  shows "\<exists>p' s'. run_calls n w g cs p s = Inr (replicate (length cs) 0, p', s') \<and> client_ready n g a p' \<and> own_mem n p' = m \<and>
    server_ready n a R' s'"
  using assms(2-4)
proof (induction cs arbitrary: p s R)
  case (Cons c cs)
  then obtain m1 R1 where c: "spec_call c (own_mem n p, R) = Inr (m1, R1)" "spec_calls cs (m1, R1) = Inr (m, R')"
    by (auto simp: bindR_eq_Inr)
  then obtain p1 s1 where "do_call n w g c s p = Inr (0, p1)" "(if remote c then at_server n p1 s else Inr s) = Inr s1"
      "client_ready n g a p1" "own_mem n p1 = m1" "server_ready n a R1 s1"
    using call_refined [OF assms(1) Cons.prems(1,2)] unfolding refined_def by blast
  then show ?case using Cons.IH [of p1 R1 s1] c(2) by (auto simp: run_calls_def sys_call_def split: if_splits)
qed (simp add: run_calls_def)

section \<open>Opening a region\<close>

lemma rd_map_mem:
  assumes "k < 2 ^ 64"
  shows "rd_mem (map_mem m a k v) a k = Inr (replicate k v)"
  using assms by (intro rd_mem_eq) (simp_all add: map_mem_def unat_of_nat64)

lemma server_mapped:
  assumes "link_ok (sv_env n) (sv_trans n) s" and "outside_send_region s (sv_trans n) a (unat k)"
  shows "server_ready n a (replicate (unat (k :: u64)) v) (s\<lparr>mem := map_mem (mem s) a (unat k) v, regs := rg\<rparr>)"
proof -
  have "unat k < 2 ^ 64" using unsigned_less [of k, where 'a = nat] by simp
  then show ?thesis
    using assms rd_map_mem [of "unat k" "mem s" a v] link_map_mem [OF assms(1), where a = a and n = "unat k" and b = v and r = rg]
    by (simp add: server_ready_def outside_send_region_def)
qed

text \<open>\<open>dhmp_malloc\<close> leaves both sides ready for calls on a region that is filled with whatever the allocator
  returned.\<close>

lemma malloc_opens:
  assumes ok: "setup_ok n" and client: "link_ok (cl_env n) (cl_trans n) p" "work_list p = []"
    and nodes: "length (connect_trans p) = 3" "d < 3" "connect_trans p ! d = Some (cl_trans n)"
      "\<forall>j < d. connect_trans p ! j \<noteq> Some (cl_trans n)"
    and server: "link_ok (sv_env n) (sv_trans n) s" "has_dev (sv_env n)" and k: "k \<noteq> 0"
    and alloc: "numa_at (sv_env n) k = Some a" "reg_mr (sv_env n) a k = Some mr" "a \<noteq> 0" "uint a < 2 ^ 48"
    and out: "outside_send_region s (sv_trans n) a (unat k)"
  shows "\<exists>g p' s'. dhmp_malloc (cl_env n) (work_turn n s) w (Some ai) k (int d) p = Inr (g, p') \<and> at_server n p' s = Inr s' \<and>
    dhmp_transfer_normal_addr g = a \<and> client_ready n g a p' \<and> own_mem n p' = own_mem n p \<and>
    server_ready n a (replicate (unat k) (junk (sv_env n))) s'"
proof -
  let ?mw = "\<lparr>mw_trans = cl_trans n, mw_addr_info = ai, mw_res_addr = 0, mw_length = k, mw_done = False\<rparr>"
  let ?fresh = "set_info ai fresh_info p"
  let ?P = "?fresh\<lparr>works := (works ?fresh)(w \<mapsto> DHMP_WORK_MALLOC ?mw)\<rparr>"
  have "link_ok (cl_env n) (cl_trans n) ?P" "infos ?P ai = Some fresh_info" "connect_trans ?P = connect_trans p" "mr_length (nvm_mr fresh_info) = 0"
    using client(1) by (simp_all add: set_info_def link_ok_def send_region_ok_def fresh_info_def null_mr_def)
  then obtain p1 p3 f r s' g i' where h: "after_post (cl_env n) (cl_trans n) ?P p1" "last_frame p1 = Inr f"
      "serve_request (sv_env n) (sv_trans n) (behind n) f s = Inr (r, s')"
      "after_post (sv_env n) (sv_trans n) (s\<lparr>mem := map_mem (mem s) a (unat k) (junk (sv_env n)),
        regs := regs s @ [mr\<lparr>mr_addr := a, mr_length := k\<rparr>]\<rparr>) s'"
      "dhmp_malloc_work_handler (cl_env n) (at_client n s) w ?mw ?P =
        Inr (set_work w (DHMP_WORK_MALLOC (?mw\<lparr>mw_res_addr := g, mw_done := True\<rparr>)) p3)"
      "dhmp_transfer_normal_addr g = a" "dhmp_get_trans_from_addr (connect_trans p) g = Inr (Some (cl_trans n))"
      "lookup_info p3 g = Inr (Some ai)" "infos p3 ai = Some i'" "nvm_mr i' = mr\<lparr>mr_addr := a, mr_length := k\<rparr>" "\<not> write_flag i'"
      "connect_trans p3 = connect_trans p" "transports p3 = transports p1" "work_list p3 = work_list p" "mem p3 = mem p1"
      "posted p3 = posted p1"
    using malloc_work [of "cl_env n" ?mw ?P "sv_env n" "sv_trans n" s fresh_info a mr d "at_client n s" "behind n" w]
      ok server k alloc nodes
    by (auto simp: setup_ok_def set_info_def)
  note p1 = after_postD [OF h(1)]
  let ?k = "DHMP_WORK_MALLOC (?mw\<lparr>mw_res_addr := g, mw_done := True\<rparr>)"
  let ?p' = "p3\<lparr>works := (works p3)(w := None)\<rparr>"
  have empty: "work_list ?fresh = []" using client(2) by (simp add: set_info_def)
  have "submit (work_turn n s) w (DHMP_WORK_MALLOC ?mw) ?fresh = Inr (?k, (set_work w ?k p3)\<lparr>works := (works (set_work w ?k p3))(w := None)\<rparr>)"
    using turn_takes [OF empty] h(5) by (intro submit_turn [OF empty]) (simp_all add: set_work_def)
  then have "submit (work_turn n s) w (DHMP_WORK_MALLOC ?mw) ?fresh = Inr (?k, ?p')" by (simp add: set_work_def)
  moreover have "dhmp_node_select_by_id p (int d) = Inr (Some (cl_trans n))"
    using nodes client(1) by (auto simp: dhmp_node_select_by_id_def link_ok_def)
  ultimately have "dhmp_malloc (cl_env n) (work_turn n s) w (Some ai) k (int d) p = Inr (g, ?p')"
    using client(1) k by (simp add: dhmp_malloc_def link_ok_def)
  moreover have "at_server n ?p' s = Inr s'"
    using last_frame_cong [of p3 p1] h(2,3,15,16) p1(8) by (simp add: at_server_def)
  moreover have "client_ready n g a ?p'"
    using p1(1) h client(2) by (auto simp: client_ready_def link_ok_def send_region_ok_def lookup_info_def)
  moreover have "own_mem n ?p' = own_mem n p"
    using own_mem_cong [OF h(13,15)] own_after_post [OF h(1)] by (simp add: set_info_def)
  ultimately show ?thesis using h(6) server_posted [OF server_mapped [OF server(1) out] h(4)] by blast
qed


definition demo_card :: "ibv_send_wr \<Rightarrow> memory \<Rightarrow> memory \<Rightarrow> memory \<times> memory" where
  "demo_card wr cm sm =
     (case wr_opcode wr of
        IBV_WR_RDMA_WRITE \<Rightarrow>
          (case bindR (rd_mem cm (wr_addr wr) (unat (wr_length wr))) (wr_mem sm (wr_remote_addr wr)) of Inl _ \<Rightarrow> (cm, sm) | Inr m' \<Rightarrow> (cm, m'))
      | IBV_WR_RDMA_READ \<Rightarrow>
          (case bindR (rd_mem sm (wr_remote_addr wr) (unat (wr_length wr))) (wr_mem cm (wr_addr wr)) of Inl _ \<Rightarrow> (cm, sm) | Inr m' \<Rightarrow> (m', sm))
      | _ \<Rightarrow> (cm, sm))"

definition demo_setup :: Setup where
  "demo_setup = \<lparr>cl_env = demo_env, cl_trans = 1, sv_env = demo_env, sv_trans = 1, behind = [], rnic = demo_card\<rparr>"

lemma demo_setup_fields [simp]: "cl_env demo_setup = demo_env" "cl_trans demo_setup = 1" "sv_env demo_setup = demo_env" "sv_trans demo_setup = 1"
  by (simp_all add: demo_setup_def)

lemma demo_setup_ok: "setup_ok demo_setup"
  by (simp add: setup_ok_def card_ok_def demo_setup_def demo_card_def demo_env_def)

lemma demo_own: "unat b + k \<le> 0x100000000 \<Longrightarrow> mapped (own_mem demo_setup demo_proc) b k"
proof -
  assume b: "unat b + k \<le> 0x100000000"
  have "SEND_REGION_SIZE \<le> unat (b + word_of_nat i - 0x100000000)" if "i < k" for i
  proof -
    have "unat (b + word_of_nat i) = unat b + i"
      using b that unat_of_nat64 [of i] unat_add_lem [of b "word_of_nat i"] by simp
    then show ?thesis using b that by (simp add: unat_sub_if' SEND_REGION_SIZE_def)
  qed
  then show ?thesis by (simp add: mapped_def own_mem_def demo_proc_def demo_trans_def)
qed

definition demo_calls :: "call list" where
  "demo_calls = [Store 0x1000 [1, 2, 3, 4, 5, 6, 7, 8, 9, 10, 11, 12], Send 0x1000 4 True, Write 0x1000 2 6, Read 0x2000 8 0]"

lemma demo_spec:
  "\<exists>m. spec_calls demo_calls (own_mem demo_setup demo_proc, replicate 8 0) = Inr (m, [1, 2, 3, 4, 0, 0, 1, 2]) \<and>
     rd_mem m 0x2000 8 = Inr [1, 2, 3, 4, 0, 0, 1, 2]"
proof -
  let ?bs = "[1, 2, 3, 4, 5, 6, 7, 8, 9, 10, 11, 12] :: byte list" and ?R = "[1, 2, 3, 4, 0, 0, 1, 2] :: byte list"
  have len: "length ?bs = 12" "length ?R = 8" by simp_all
  have own: "mapped (own_mem demo_setup demo_proc) 0x1000 12" "mapped (own_mem demo_setup demo_proc) 0x2000 12" by (rule demo_own; simp)+
  then obtain m1 where m1: "wr_mem (own_mem demo_setup demo_proc) 0x1000 ?bs = Inr m1" using wr_mem_ok [of "own_mem demo_setup demo_proc" "0x1000" ?bs] by (auto simp: numeral_eq_Suc)
  have rd: "rd_mem m1 0x1000 12 = Inr ?bs" using rd_wr_mem [OF m1] unfolding len by simp
  note mp = wr_mem_mapped [OF m1 own(1)] wr_mem_mapped [OF m1 own(2)]
  obtain m2 where m2: "wr_mem m1 0x2000 ?R = Inr m2"
    using wr_mem_ok [of m1 "0x2000" ?R] mapped_sub [OF mp(2), of 0 8] by (auto simp: numeral_eq_Suc)
  have R: "replicate 8 0 = [0, 0, 0, 0, 0, 0, 0, 0 :: byte]" by (simp add: numeral_eq_Suc)
  have "spec_call (Send 0x1000 4 True) (m1, [0, 0, 0, 0, 0, 0, 0, 0]) = Inr (m1, [1, 2, 3, 4, 0, 0, 0, 0])"
    using rd_mem_prefix [OF rd, of 4] by (simp add: blit_def SINGLE_NORM_RECV_REGION_def)
  moreover have "spec_call (Write 0x1000 2 6) (m1, [1, 2, 3, 4, 0, 0, 0, 0]) = Inr (m1, ?R)"
    using rd_mem_prefix [OF rd, of 2] mp(1) by (simp add: blit_def)
  moreover have "spec_call (Read 0x2000 8 0) (m1, ?R) = Inr (m2, ?R)" using m2 mp(2) by simp
  ultimately have "spec_calls demo_calls (own_mem demo_setup demo_proc, replicate 8 0) = Inr (m2, ?R)"
    unfolding R demo_calls_def using m1 by simp
  moreover have "rd_mem m2 0x2000 8 = Inr ?R" using rd_wr_mem [OF m2] unfolding len by simp
  ultimately show ?thesis by blast
qed


end
