(* ===== verification/RingCalls.thy ===== *)
theory RingCalls
  imports Session
begin

text \<open>
  The writer's side of the ring on top of the API. \<open>RingBuffer\<close> describes \<open>check_remote_size\<close>, \<open>rb_write_mate\<close>,
  \<open>rb_write_data\<close> and \<open>update_wr_remote\<close> on records and returns the remote operations they post. Here
  the same functions work on memory: the struct \<open>remote_buff\<close> is in the memory of the process, its fields are
  read and stored there, and every remote operation is a call of \<open>dhmp_read\<close> or \<open>dhmp_write\<close> with all that
  happens in it. The functions of \<open>RingBuffer\<close> are the specification, and the relation \<open>log_link\<close> between
  the two is a simulation.
\<close>

section \<open>Functions on memory\<close>

definition ld_int :: "u64 \<Rightarrow> Proc \<Rightarrow> int res" where
  "ld_int a p = bindR (rd_mem (mem p) a 4) (\<lambda>bs. Inr (bytes_int bs))"

definition ld_ptr :: "u64 \<Rightarrow> Proc \<Rightarrow> u64 res" where
  "ld_ptr a p = bindR (rd_mem (mem p) a 8) (\<lambda>bs. Inr (word_of_int (le_val bs)))"

definition st_int :: "u64 \<Rightarrow> int \<Rightarrow> Proc \<Rightarrow> Proc res" where
  "st_int a v p = bindR (wr_mem (mem p) a (int_bytes v)) (\<lambda>m. Inr (p\<lparr>mem := m\<rparr>))"

text \<open>The fields of the struct at \<open>x\<close>: the pointers at 0 and 4, the size at 8, the number of the node at 12, the
  global addresses of the remote struct and buffer at 16 and 24.\<close>

definition ld_ring :: "u64 \<Rightarrow> Proc \<Rightarrow> Ringbuff res" where
  "ld_ring x p =
     bindR (ld_int x p) (\<lambda>wr. bindR (ld_int (x + 4) p) (\<lambda>rd. bindR (ld_int (x + 8) p) (\<lambda>sz.
       Inr \<lparr>wr_pointer = wr, rd_pointer = rd, rsize = sz\<rparr>)))"

definition write_mem :: "Setup \<Rightarrow> u64 \<Rightarrow> u64 \<Rightarrow> u64 \<Rightarrow> u64 \<Rightarrow> u64 \<Rightarrow> bool \<Rightarrow> Proc \<Rightarrow> Proc \<Rightarrow> (int \<times> Proc \<times> Proc) res" where
  "write_mem n w g l k off atomic = sys_call n True (\<lambda>s. dhmp_write (cl_env n) (work_turn n s) w g l k off atomic)"

definition read_mem :: "Setup \<Rightarrow> u64 \<Rightarrow> u64 \<Rightarrow> u64 \<Rightarrow> u64 \<Rightarrow> u64 \<Rightarrow> bool \<Rightarrow> Proc \<Rightarrow> Proc \<Rightarrow> (int \<times> Proc \<times> Proc) res" where
  "read_mem n w g l k off atomic = sys_call n True (\<lambda>s. dhmp_read (cl_env n) (work_turn n s) w g l k off atomic)"

definition update_wr_remote_mem :: "Setup \<Rightarrow> u64 \<Rightarrow> u64 \<Rightarrow> Proc \<Rightarrow> Proc \<Rightarrow> (Proc \<times> Proc) res" where
  "update_wr_remote_mem n w x p s =
     bindR (ld_ptr (x + 16) p) (\<lambda>mate. bindR (write_mem n w mate x 4 0 True p s) (\<lambda>(_, p, s). Inr (p, s)))"

definition check_remote_size_mem :: "Setup \<Rightarrow> u64 \<Rightarrow> u64 \<Rightarrow> int \<Rightarrow> Proc \<Rightarrow> Proc \<Rightarrow> (bool \<times> Proc \<times> Proc) res" where
  "check_remote_size_mem n w x waitWriteLen p s =
     bindR (ld_ptr (x + 16) p) (\<lambda>mate.
     bindR (read_mem n w mate (x + 4) 4 4 True p s) (\<lambda>(re, p, s).
       if re = - 1 then Inr (False, p, s)
       else bindR (ld_ring x p) (\<lambda>rb. Inr (\<not> waitWriteLen > rb_free_size rb, p, s))))"

text \<open>The part that \<open>rb_write_mate\<close> and \<open>rb_write_data\<close> have in common: one write, or two when the bytes do not
  fit before the end of the ring. The result is \<open>pos\<close> plus the length that is left, for \<open>update_wr_local\<close>.\<close>

definition put_parts :: "Setup \<Rightarrow> u64 \<Rightarrow> u64 \<Rightarrow> int \<Rightarrow> u64 \<Rightarrow> int \<Rightarrow> int \<Rightarrow> Proc \<Rightarrow> Proc \<Rightarrow> (int \<times> Proc \<times> Proc) res" where
  "put_parts n w buff sz upper_api_buf ln pos p s =
     (if pos + ln > sz
      then let left_size = sz - pos
           in bindR (write_mem n w buff upper_api_buf (word_of_int left_size) (word_of_int pos) False p s) (\<lambda>(_, p, s).
              bindR (write_mem n w buff (upper_api_buf + word_of_int left_size) (word_of_int (ln - left_size)) 0 False p s) (\<lambda>(_, p, s).
                Inr (0 + (ln - left_size), p, s)))
      else bindR (write_mem n w buff upper_api_buf (word_of_int ln) (word_of_int pos) False p s) (\<lambda>(_, p, s). Inr (pos + ln, p, s)))"

definition rb_write_mate_mem :: "Setup \<Rightarrow> u64 \<Rightarrow> u64 \<Rightarrow> u64 \<Rightarrow> int \<Rightarrow> int \<Rightarrow> Proc \<Rightarrow> Proc \<Rightarrow> (int \<times> Proc \<times> Proc) res" where
  "rb_write_mate_mem n w x upper_api_buf mateLen dataLen p s =
     guardR (in_int (mateLen + dataLen)) UB
     (bindR (ld_int x p) (\<lambda>start.
     bindR (check_remote_size_mem n w x (mateLen + dataLen) p s) (\<lambda>(room, p, s).
       if \<not> room then Inr (- 1, p, s)
       else
         bindR (ld_int x p) (\<lambda>pos. bindR (ld_int (x + 8) p) (\<lambda>sz. bindR (ld_ptr (x + 24) p) (\<lambda>buff.
         bindR (put_parts n w buff sz upper_api_buf mateLen pos p s) (\<lambda>(pos, p, s).
         bindR (st_int x pos p) (\<lambda>p.
         bindR (ld_int x p) (\<lambda>pos.
           let (dataLen, pos) = (if pos + dataLen > sz then (dataLen - (sz - pos), 0) else (dataLen, pos))
           in bindR (st_int x (pos + dataLen) p) (\<lambda>p.
              bindR (update_wr_remote_mem n w x p s) (\<lambda>(p, s). Inr (start, p, s))))))))))))"

definition rb_write_data_mem :: "Setup \<Rightarrow> u64 \<Rightarrow> u64 \<Rightarrow> u64 \<Rightarrow> int \<Rightarrow> int \<Rightarrow> Proc \<Rightarrow> Proc \<Rightarrow> (Proc \<times> Proc) res" where
  "rb_write_data_mem n w x upper_api_buf start dataLen p s =
     bindR (ld_int (x + 8) p) (\<lambda>sz. bindR (ld_ptr (x + 24) p) (\<lambda>buff.
     bindR (put_parts n w buff sz upper_api_buf dataLen start p s) (\<lambda>(_, p, s). Inr (p, s))))"

section \<open>One call\<close>

text \<open>What a call keeps of the client.\<close>

definition stays_ready :: "Setup \<Rightarrow> Proc \<Rightarrow> Proc \<Rightarrow> bool" where
  "stays_ready n p p' \<longleftrightarrow> (\<forall>g a. client_ready n g a p \<longrightarrow> client_ready n g a p')"

lemma stays_ready_trans: "stays_ready n p q \<Longrightarrow> stays_ready n q r \<Longrightarrow> stays_ready n p r"
  by (simp add: stays_ready_def)

lemma buff_put:
  assumes "setup_ok n" and "client_ready n buff b p" and "ring_in (mem s) a b peer" and "rop_apply (BuffWrite off bs) peer = Inr peer'"
    and "rd_mem (mem p) l (length bs) = Inr bs" and "mapped (mem p) l 12" and "length bs < 2 ^ 31"
  shows "\<exists>p' s'. write_mem n w buff l (word_of_nat (length bs)) (word_of_int off) atomic p s = Inr (0, p', s') \<and>
    mem p' = mem p \<and> stays_ready n p p' \<and> ring_in (mem s') a b peer'"
proof -
  obtain m where m: "wr_mem (mem s) (b + word_of_int off) bs = Inr m" "ring_in m a b peer'"
    using buff_write_in_memory [OF assms(3,4)] by blast
  have k: "unat (word_of_nat (length bs) :: u64) = length bs" using assms(7) by (intro unat_of_nat64) simp
  then show ?thesis
    using write_call [OF assms(1,2), of "word_of_nat (length bs)" l bs s "word_of_int off" m w atomic] assms(5-7) m
    by (auto simp: write_mem_def sys_call_def stays_ready_def)
qed

lemma pointer_put:
  assumes "setup_ok n" and "client_ready n mate a p" and "ring_in (mem s) a b peer" and "word_fits (WrWrite v)"
    and "rd_mem (mem p) x 4 = Inr (int_bytes v)" and "mapped (mem p) x 12"
  shows "\<exists>p' s'. write_mem n w mate x 4 0 True p s = Inr (0, p', s') \<and> mem p' = mem p \<and> stays_ready n p p' \<and>
    ring_in (mem s') a b (peer\<lparr>wr_pointer := v\<rparr>)"
proof -
  obtain m where m: "wr_mem (mem s) a (int_bytes v) = Inr m" "ring_in m a b (peer\<lparr>wr_pointer := v\<rparr>)"
    using wr_write_in_memory [OF assms(3,4)] by blast
  then show ?thesis
    using write_call [OF assms(1,2), of 4 x "int_bytes v" s 0 m w True] assms(5,6)
    by (auto simp: write_mem_def sys_call_def stays_ready_def)
qed

lemma pointer_get:
  assumes "setup_ok n" and "client_ready n mate a p" and "ring_in (mem s) a b peer" and "mapped (mem p) l 12"
  shows "\<exists>bs m p'. read_mem n w mate l 4 4 True p s = Inr (0, p', s) \<and> wr_mem (mem p) l bs = Inr m \<and> length bs = 4 \<and>
    bytes_int bs = rd_pointer peer \<and> mem p' = m \<and> stays_ready n p p'"
proof -
  obtain h k where h: "rd_mem (mem s) a 12 = Inr h" "length h = 12" "rd_pointer peer = bytes_int (bslice h 4 4)"
    by (rule ring_inE [OF assms(3)]) (metis Ringbuff.select_convs(2))
  have "rd_mem (mem s) (a + 4) 4 = Inr (bslice h 4 4)"
    using rd_mem_prefix [OF rd_mem_suffix [OF h(1), of 4], of 4] by (simp add: bslice_def)
  moreover have len: "length (bslice h 4 4) = 4" using h(2) by (simp add: bslice_def)
  moreover obtain m where m: "wr_mem (mem p) l (bslice h 4 4) = Inr m"
    using wr_mem_ok [of "mem p" l "bslice h 4 4"] mapped_part [OF assms(4), of 0 4] len by auto
  ultimately show ?thesis
    using read_call [OF assms(1,2), of 4 l s 4 "bslice h 4 4" m w True] assms(4) h(3)
    by (auto simp: read_mem_def sys_call_def stays_ready_def)
qed

lemma put_parts_ok:
  assumes ok: "setup_ok n" and client: "client_ready n buff b p" and ring: "ring_in (mem s) a b peer"
    and run: "run_rops (rb_write_data rb buf pos ln) peer = Inr peer'" and sz: "rsize rb = sz" "sz < 2 ^ 31"
    and ln: "int (length buf) = ln" "ln \<le> sz" and pos: "0 \<le> pos" "pos \<le> sz"
    and buf: "rd_mem (mem p) l (length buf) = Inr buf" "mapped (mem p) l (length buf + 12)"
  shows "\<exists>p' s'. put_parts n w buff sz l ln pos p s = Inr (wrap_ptr sz (pos + ln), p', s') \<and> mem p' = mem p \<and> stays_ready n p p' \<and>
    ring_in (mem s') a b peer'"
proof (cases "pos + ln > sz")
  case True
  let ?d = "nat (sz - pos)"
  let ?bs = "take ?d buf" and ?cs = "drop ?d buf"
  have d: "?d \<le> length buf" "word_of_nat ?d = (word_of_int (sz - pos) :: u64)" using True ln pos by (simp_all add: of_nat_nat)
  have cs: "take (nat (ln - (sz - pos))) ?cs = ?cs" using ln pos by simp
  have r: "rd_mem (mem p) l (length ?bs) = Inr ?bs" "rd_mem (mem p) (l + word_of_nat ?d) (length ?cs) = Inr ?cs"
    using rd_mem_prefix [OF buf(1) d(1)] rd_mem_suffix [OF buf(1) d(1)] d(1) by simp_all
  have mp: "mapped (mem p) l 12" "mapped (mem p) (l + word_of_nat ?d) 12"
    using mapped_part [OF buf(2), of 0 12] mapped_part [OF buf(2), of ?d 12] d(1) by simp_all
  have small: "length ?bs < 2 ^ 31" "length ?cs < 2 ^ 31" using ln sz by auto
  obtain p1 where peer1: "rop_apply (BuffWrite pos ?bs) peer = Inr p1" "rop_apply (BuffWrite 0 ?cs) p1 = Inr peer'"
    using run True sz cs by (auto simp: rb_write_data_def Let_def bindR_eq_Inr simp del: rop_apply.simps)
  obtain q1 s1 where q1: "write_mem n w buff l (word_of_nat (length ?bs)) (word_of_int pos) False p s = Inr (0, q1, s1)"
      "mem q1 = mem p" "stays_ready n p q1" "ring_in (mem s1) a b p1"
    using buff_put [OF ok client ring peer1(1) r(1) mp(1) small(1)] by blast
  have "client_ready n buff b q1" using client q1(3) by (simp add: stays_ready_def)
  then obtain q2 s2 where q2: "write_mem n w buff (l + word_of_nat ?d) (word_of_nat (length ?cs)) (word_of_int 0) False q1 s1 = Inr (0, q2, s2)"
      "mem q2 = mem q1" "stays_ready n q1 q2" "ring_in (mem s2) a b peer'"
    using buff_put [OF ok _ q1(4) peer1(2), of buff q1 "l + word_of_nat ?d" w False] r(2) mp(2) small(2) q1(2) by auto
  have lens: "word_of_nat (length ?bs) = (word_of_int (sz - pos) :: u64)" "word_of_nat (length ?cs) = (word_of_int (ln - (sz - pos)) :: u64)"
  proof -
    show "word_of_nat (length ?bs) = (word_of_int (sz - pos) :: u64)" using d by (simp add: min_absorb2)
    have "int (length ?cs) = ln - (sz - pos)" using True ln pos by simp
    then show "word_of_nat (length ?cs) = (word_of_int (ln - (sz - pos)) :: u64)" by (metis of_int_of_nat_eq)
  qed
  show ?thesis
    using True q1(1,2) q2 lens d(2) stays_ready_trans [OF q1(3) q2(3)] by (simp add: put_parts_def wrap_ptr_def Let_def)
next
  case False
  have w: "word_of_nat (length buf) = (word_of_int ln :: u64)" using ln(1) by (metis of_int_of_nat_eq)
  have "rop_apply (BuffWrite pos buf) peer = Inr peer'"
    using run False sz ln(1) by (auto simp: rb_write_data_def Let_def bindR_eq_Inr simp del: rop_apply.simps)
  then show ?thesis
    using buff_put [OF ok client ring _ buf(1), of pos peer' w False] mapped_part [OF buf(2), of 0 12] False sz ln w
    by (auto simp: put_parts_def wrap_ptr_def)
qed

section \<open>The struct of the writer\<close>

definition int_at :: "memory \<Rightarrow> u64 \<Rightarrow> int \<Rightarrow> bool" where
  "int_at m a v \<longleftrightarrow> (\<exists>bs. rd_mem m a 4 = Inr bs \<and> bytes_int bs = v)"

definition remote_in :: "memory \<Rightarrow> u64 \<Rightarrow> u64 \<Rightarrow> u64 \<Rightarrow> RemoteRingbuff \<Rightarrow> bool" where
  "remote_in m x mate buff rb \<longleftrightarrow> mapped m x 32 \<and> int_at m x (wr_pointer rb) \<and> int_at m (x + 4) (rd_pointer rb) \<and>
     int_at m (x + 8) (rsize rb) \<and> rd_mem m (x + 16) 8 = Inr (le_bytes 8 (uint mate)) \<and> rd_mem m (x + 24) 8 = Inr (le_bytes 8 (uint buff))"

lemma remote_in_loads:
  assumes "remote_in (mem p) x mate buff rb"
  shows "ld_int x p = Inr (wr_pointer rb)" "ld_int (x + 8) p = Inr (rsize rb)" "ld_ptr (x + 16) p = Inr mate" "ld_ptr (x + 24) p = Inr buff"
    "ld_ring x p = Inr \<lparr>wr_pointer = wr_pointer rb, rd_pointer = rd_pointer rb, rsize = rsize rb\<rparr>"
  using assms by (auto simp: remote_in_def int_at_def ld_int_def ld_ptr_def ld_ring_def)

lemma int_at_apart: "wr_mem m a bs = Inr m' \<Longrightarrow> apart a (length bs) b 4 \<Longrightarrow> int_at m' b v = int_at m b v"
  by (simp add: int_at_def rd_wr_mem_apart)

lemma int_at_written: "wr_mem m a bs = Inr m' \<Longrightarrow> length bs = 4 \<Longrightarrow> int_at m' a (bytes_int bs)"
  using rd_wr_mem [of m a bs m'] by (simp add: int_at_def)

lemma remote_in_stored:
  assumes "remote_in m x mate buff rb" and "length bs = 4"
  shows "wr_mem m x bs = Inr m' \<Longrightarrow> remote_in m' x mate buff (rb\<lparr>wr_pointer := bytes_int bs\<rparr>)"
    and "wr_mem m (x + 4) bs = Inr m' \<Longrightarrow> remote_in m' x mate buff (rb\<lparr>rd_pointer := bytes_int bs\<rparr>)"
proof -
  assume m: "wr_mem m x bs = Inr m'"
  show "remote_in m' x mate buff (rb\<lparr>wr_pointer := bytes_int bs\<rparr>)"
    using assms wr_mem_mapped [OF m] int_at_written [OF m] int_at_apart [OF m] rd_wr_mem_apart [OF m]
      apart_after [of 4 4 4 x] apart_after [of 4 8 4 x] apart_after [of 4 16 8 x] apart_after [of 4 24 8 x]
    by (simp add: remote_in_def)
next
  assume m: "wr_mem m (x + 4) bs = Inr m'"
  show "remote_in m' x mate buff (rb\<lparr>rd_pointer := bytes_int bs\<rparr>)"
    using assms wr_mem_mapped [OF m] int_at_written [OF m] int_at_apart [OF m] rd_wr_mem_apart [OF m]
      apart_before [of 4 4 4 x] apart_after [of 4 4 4 "x + 4"] apart_after [of 4 12 8 "x + 4"] apart_after [of 4 20 8 "x + 4"]
    by (simp add: remote_in_def add.assoc)
qed

text \<open>The simulation relation.\<close>

definition log_link :: "Setup \<Rightarrow> u64 \<Rightarrow> u64 \<Rightarrow> u64 \<Rightarrow> RemoteRingbuff \<Rightarrow> LocalRingbuff \<Rightarrow> Proc \<Rightarrow> Proc \<Rightarrow> bool" where
  "log_link n x a b rb peer p s \<longleftrightarrow> (\<exists>mate buff. remote_in (mem p) x mate buff rb \<and> client_ready n mate a p \<and> client_ready n buff b p) \<and>
     ring_in (mem s) a b peer"

lemma stays_ready_store:
  assumes "wr_mem (mem p) a bs = Inr m"
  shows "stays_ready n p (p\<lparr>mem := m\<rparr>)"
  using link_wr_mem [OF _ assms] by (simp add: stays_ready_def client_ready_def lookup_info_def)

lemma st_int_ok:
  assumes "remote_in (mem p) x mate buff rb" and "0 \<le> v" and "v < 2 ^ 31"
  shows "\<exists>p'. st_int x v p = Inr p' \<and> remote_in (mem p') x mate buff (rb\<lparr>wr_pointer := v\<rparr>) \<and> rd_mem (mem p') x 4 = Inr (int_bytes v) \<and> stays_ready n p p'"
proof -
  have "mapped (mem p) x 4" using mapped_part [of "mem p" x 32 0 4] assms(1) by (simp add: remote_in_def)
  then obtain m where m: "wr_mem (mem p) x (int_bytes v) = Inr m" using wr_mem_ok [of "mem p" x "int_bytes v"] by auto
  then show ?thesis
    using remote_in_stored(1) [OF assms(1) _ m] bytes_int_bytes [of v] assms(2,3) rd_wr_mem [OF m] stays_ready_store [OF m]
    by (simp add: st_int_def)
qed

lemma check_remote_size_ok:
  assumes "setup_ok n" and "remote_in (mem p) x mate buff rb" and "client_ready n mate a p" and "ring_in (mem s) a b peer"
  shows "\<exists>p' m bs. check_remote_size_mem n w x k p s = Inr (k \<le> rb_free_size (rb\<lparr>rd_pointer := rd_pointer peer\<rparr>), p', s) \<and>
    remote_in (mem p') x mate buff (rb\<lparr>rd_pointer := rd_pointer peer\<rparr>) \<and> stays_ready n p p' \<and>
    wr_mem (mem p) (x + 4) bs = Inr (mem p') \<and> length bs = 4"
proof -
  have "mapped (mem p) (x + 4) 12" using mapped_part [of "mem p" x 32 4 12] assms(2) by (simp add: remote_in_def)
  then obtain bs m p' where r: "read_mem n w mate (x + 4) 4 4 True p s = Inr (0, p', s)" "wr_mem (mem p) (x + 4) bs = Inr m"
      "length bs = 4" "bytes_int bs = rd_pointer peer" "mem p' = m" "stays_ready n p p'"
    using pointer_get [OF assms(1,3,4)] by blast
  have "remote_in (mem p') x mate buff (rb\<lparr>rd_pointer := rd_pointer peer\<rparr>)"
    using remote_in_stored(2) [OF assms(2) r(3,2)] r(4,5) by simp
  then show ?thesis
    using r remote_in_loads [OF assms(2)] remote_in_loads [of p' x mate buff "rb\<lparr>rd_pointer := rd_pointer peer\<rparr>"]
    by (auto simp: check_remote_size_mem_def rb_free_size_def rb_data_size_def)
qed

lemma ring_in_size:
  assumes "ring_in m a b peer"
  shows "rsize peer < 2 ^ 31"
  by (rule ring_inE [OF assms]) (metis bytes_int_less LocalRingbuff.select_convs(1) Ringbuff.select_convs(3))

section \<open>Announcing a log\<close>

lemma write_mate_room:
  assumes ok: "setup_ok n" and remote: "remote_in (mem p) x mate buff rb" and clients: "client_ready n mate a p" "client_ready n buff b p"
    and ring: "ring_in (mem s) a b peer" and sync: "in_sync rb peer" and len: "int (length buf) = mateLen" "0 \<le> dataLen"
    and buf: "rd_mem (mem p) l (length buf) = Inr buf" "mapped (mem p) l (length buf + 12)" "apart (x + 4) 4 l (length buf)"
    and room: "mateLen + dataLen \<le> rb_free_size peer"
  defines "wr \<equiv> wrap_ptr (rsize rb) (wrap_ptr (rsize rb) (wr_pointer rb + mateLen) + dataLen)"
  shows "\<exists>p' s' peer'. rb_write_mate_mem n w x l mateLen dataLen p s = Inr (wr_pointer rb, p', s') \<and>
    run_rops (rb_write_data rb buf (wr_pointer rb) mateLen @ [WrWrite wr]) peer = Inr peer' \<and>
    log_link n x a b (rb\<lparr>rd_pointer := rd_pointer peer, wr_pointer := wr\<rparr>) peer' p' s'"
proof -
  let ?sz = "rsize rb" and ?pos = "wr_pointer rb" and ?rb = "rb\<lparr>rd_pointer := rd_pointer peer\<rparr>"
  let ?e = "wrap_ptr ?sz (?pos + mateLen)"
  have wf: "local_wf peer" "?sz = rsize peer" "?pos = wr_pointer peer" using sync by (auto simp: in_sync_def)
  have sz: "?sz < 2 ^ 31" using ring_in_size [OF ring] wf(2) by simp
  have pos: "0 \<le> ?pos" "?pos \<le> ?sz" using wf by (auto simp: local_wf_def ring_wf_def)
  have small: "mateLen \<le> ?sz" "dataLen \<le> ?sz"
    using room len data_size_range [of peer] wf by (auto simp: rb_free_size_def local_wf_def)
  have fit: "in_int (mateLen + dataLen)"
    using room len sz wf data_size_range [of peer] by (simp add: local_wf_def rb_free_size_def)
  note run = rb_write_mate_run [OF sync len room]
  have e: "0 \<le> ?e" "?e \<le> ?sz" using wrap_ptr_range [of "?pos + mateLen" ?sz] pos small len by auto
  have wr: "0 \<le> wr" "wr \<le> ?sz" using run(3) wf(2) by (auto simp: wr_def)
  have free: "rb_free_size ?rb = rb_free_size peer" by (rule in_sync_free [OF sync])
  obtain p1 bs where p1: "check_remote_size_mem n w x (mateLen + dataLen) p s = Inr (True, p1, s)"
      "remote_in (mem p1) x mate buff ?rb" "stays_ready n p p1" "wr_mem (mem p) (x + 4) bs = Inr (mem p1)" "length bs = 4"
    using check_remote_size_ok [OF ok remote clients(1) ring, of w "mateLen + dataLen"] room free by auto
  have b1: "rd_mem (mem p1) l (length buf) = Inr buf" "mapped (mem p1) l (length buf + 12)"
    using rd_wr_mem_apart [OF p1(4)] p1(5) buf wr_mem_mapped [OF p1(4)] by simp_all
  have "client_ready n buff b p1" using p1(3) clients(2) by (simp add: stays_ready_def)
  from put_parts_ok [OF ok this ring run(1) refl sz len(1) small(1) pos b1]
  obtain p2 s2 where p2: "put_parts n w buff ?sz l mateLen ?pos p1 s = Inr (?e, p2, s2)" "mem p2 = mem p1" "stays_ready n p1 p2"
      "ring_in (mem s2) a b (peer\<lparr>buff_addr := ring_put (buff_addr peer) (wr_pointer peer) buf\<rparr>)"
    by blast
  obtain p3 where p3: "st_int x ?e p2 = Inr p3" "remote_in (mem p3) x mate buff (?rb\<lparr>wr_pointer := ?e\<rparr>)" "stays_ready n p2 p3"
    using st_int_ok [of p2 x mate buff ?rb ?e n] p1(2) p2(2) e sz by auto
  obtain p4 where p4: "st_int x wr p3 = Inr p4" "remote_in (mem p4) x mate buff (?rb\<lparr>wr_pointer := wr\<rparr>)"
      "rd_mem (mem p4) x 4 = Inr (int_bytes wr)" "stays_ready n p3 p4"
    using st_int_ok [OF p3(2), of wr n] wr sz by auto
  have k4: "stays_ready n p p4" using p1(3) p2(3) p3(3) p4(4) stays_ready_trans by blast
  have m4: "mapped (mem p4) x 12" using mapped_part [of "mem p4" x 32 0 12] p4(2) by (simp add: remote_in_def)
  have "client_ready n mate a p4" "word_fits (WrWrite wr)" using k4 clients(1) wr sz by (auto simp: stays_ready_def word_fits_def)
  then obtain p5 s5 where p5: "write_mem n w mate x 4 0 True p4 s2 = Inr (0, p5, s5)" "mem p5 = mem p4" "stays_ready n p4 p5"
      "ring_in (mem s5) a b (peer\<lparr>buff_addr := ring_put (buff_addr peer) (wr_pointer peer) buf, wr_pointer := wr\<rparr>)"
    using pointer_put [OF ok _ p2(4) _ p4(3) m4] by blast
  have "stays_ready n p p5" using k4 p5(3) by (rule stays_ready_trans)
  then have "log_link n x a b (?rb\<lparr>wr_pointer := wr\<rparr>) (peer\<lparr>buff_addr := ring_put (buff_addr peer) (wr_pointer peer) buf, wr_pointer := wr\<rparr>) p5 s5"
    using p4(2) p5(2,4) clients by (auto simp: log_link_def stays_ready_def)
  moreover have "rb_write_mate_mem n w x l mateLen dataLen p s = Inr (?pos, p5, s5)"
  proof -
    note lds = remote_in_loads [OF remote] remote_in_loads [OF p1(2)] remote_in_loads [OF p3(2)] remote_in_loads [OF p4(2)]
    have "?e + dataLen > ?sz \<Longrightarrow> dataLen - (?sz - ?e) = wr" "\<not> ?e + dataLen > ?sz \<Longrightarrow> ?e + dataLen = wr"
      unfolding wr_def wrap_ptr_def [of ?sz "?e + dataLen"] by simp_all
    then show ?thesis
      using lds p1(1) p2(1) p3(1) p4(1) p5(1) fit
      by (cases "?e + dataLen > ?sz") (simp_all add: rb_write_mate_mem_def update_wr_remote_mem_def)
  qed
  moreover have "run_rops (rb_write_data rb buf ?pos mateLen @ [WrWrite wr]) peer =
      Inr (peer\<lparr>buff_addr := ring_put (buff_addr peer) (wr_pointer peer) buf, wr_pointer := wr\<rparr>)"
    using run(1) by (simp add: run_rops_append)
  ultimately show ?thesis by blast
qed

lemma rb_write_mate_overflow:
  "\<not> in_int (mateLen + dataLen) \<Longrightarrow>
     rb_write_mate_mem n w x l mateLen dataLen p s = Inl UB \<and> rb_write_mate c peer rb buf mateLen dataLen = Inl UB"
  by (simp add: rb_write_mate_mem_def rb_write_mate_def guardR_def)

text \<open>C7: Announcing a log over RDMA. \<open>rb_write_mate\<close> on memory, with the struct of the writer in the memory of its
  process and every remote operation a call of the API, does what \<open>rb_write_mate\<close> on records says. It reads the
  reader's pointer with \<open>dhmp_read\<close>. When the log fits it writes the header with one or two \<open>dhmp_write\<close>s, moves its pointer
  and publishes it with another; the struct and the buffer in the memory of the peer then hold the ring to which the header has been
  appended, with room for the value behind it. When it does not fit, it returns \<open>-1\<close> and the ring is as it was. This is said for lengths for which \<open>rb_write_mate\<close> on
  records has a result, those whose sum is an \<open>int\<close>; beyond them the sum \<open>totalLen\<close> of the code overflows before
  anything is done, and both models are undefined.\<close>

theorem rb_write_mate_over_rdma:
  assumes "setup_ok n" and "log_link n x a b rb peer p s" and "in_sync rb peer" and "int (length buf) = mateLen" and "0 \<le> dataLen"
    and "rd_mem (mem p) l (length buf) = Inr buf" and "mapped (mem p) l (length buf + 12)" and "apart (x + 4) 4 l (length buf)"
    and "rb_write_mate True peer rb buf mateLen dataLen = Inr (start, rb', ops)"
  shows "\<exists>p' s' peer'. rb_write_mate_mem n w x l mateLen dataLen p s = Inr (start, p', s') \<and> run_rops ops peer = Inr peer' \<and>
    log_link n x a b rb' peer' p' s' \<and> in_sync rb' peer' \<and>
    (if mateLen + dataLen \<le> rb_free_size peer
     then \<exists>reserved. unread peer' = unread peer @ buf @ reserved \<and> length reserved = nat dataLen
     else start = - 1 \<and> peer' = peer)"
proof -
  obtain mate buff where c: "remote_in (mem p) x mate buff rb" "client_ready n mate a p" "client_ready n buff b p" "ring_in (mem s) a b peer"
    using assms(2) by (auto simp: log_link_def)
  have fit: "in_int (mateLen + dataLen)" using assms(9) by (simp add: rb_write_mate_def guardR_eq_Inr)
  then have sum: "mateLen + dataLen < 2 ^ 31" by (simp add: in_int_def)
  show ?thesis
  proof (cases "mateLen + dataLen \<le> rb_free_size peer")
    case True
    let ?wr = "wrap_ptr (rsize rb) (wrap_ptr (rsize rb) (wr_pointer rb + mateLen) + dataLen)"
    obtain p' s' peer' where w: "rb_write_mate_mem n w x l mateLen dataLen p s = Inr (wr_pointer rb, p', s')"
        "run_rops (rb_write_data rb buf (wr_pointer rb) mateLen @ [WrWrite ?wr]) peer = Inr peer'"
        "log_link n x a b (rb\<lparr>rd_pointer := rd_pointer peer, wr_pointer := ?wr\<rparr>) peer' p' s'"
      using write_mate_room [OF assms(1) c(1-4) assms(3-8) True] by blast
    have "start = wr_pointer rb" "rb' = rb\<lparr>rd_pointer := rd_pointer peer, wr_pointer := ?wr\<rparr>"
        "ops = rb_write_data rb buf (wr_pointer rb) mateLen @ [WrWrite ?wr]"
      using rb_write_mate_ops [where rb = rb and peer = peer and mateLen = mateLen and dataLen = dataLen and buf = buf] assms(3,4,9) True fit
      by (simp_all add: in_sync_free Let_def)
    then show ?thesis using w rb_write_mate_result [OF assms(3-5) sum] assms(9) True by auto
  next
    case False
    obtain p' where p': "check_remote_size_mem n w x (mateLen + dataLen) p s = Inr (False, p', s)"
        "remote_in (mem p') x mate buff (rb\<lparr>rd_pointer := rd_pointer peer\<rparr>)" "stays_ready n p p'"
      using check_remote_size_ok [OF assms(1) c(1,2,4), of w "mateLen + dataLen"] False in_sync_free [OF assms(3)] by auto
    have r: "start = - 1" "rb' = rb\<lparr>rd_pointer := rd_pointer peer\<rparr>" "ops = []"
      using assms(9) False fit in_sync_free [OF assms(3)] by (auto simp: rb_write_mate_def check_remote_size_def Let_def)
    have "log_link n x a b rb' peer p' s" "in_sync rb' peer"
      using p'(2,3) c(2-4) r(2) assms(3) by (auto simp: log_link_def stays_ready_def in_sync_def)
    then show ?thesis using p'(1) r False fit remote_in_loads(1) [OF c(1)] by (simp add: rb_write_mate_mem_def)
  qed
qed

text \<open>Writing the value later does the writes of \<open>rb_write_data\<close>.\<close>

lemma rb_write_data_over_rdma:
  assumes "setup_ok n" and "log_link n x a b rb peer p s" and "rsize rb = rsize peer" and "int (length buf) = dataLen"
    and "dataLen \<le> rsize rb" and "0 \<le> start" and "start \<le> rsize rb"
    and "rd_mem (mem p) l (length buf) = Inr buf" and "mapped (mem p) l (length buf + 12)"
    and "run_rops (rb_write_data rb buf start dataLen) peer = Inr peer'"
  shows "\<exists>p' s'. rb_write_data_mem n w x l start dataLen p s = Inr (p', s') \<and> log_link n x a b rb peer' p' s'"
proof -
  obtain mate buff where c: "remote_in (mem p) x mate buff rb" "client_ready n mate a p" "client_ready n buff b p" "ring_in (mem s) a b peer"
    using assms(2) by (auto simp: log_link_def)
  have sz: "rsize rb < 2 ^ 31" using ring_in_size [OF c(4)] assms(3) by simp
  obtain p' s' where p': "put_parts n w buff (rsize rb) l dataLen start p s = Inr (wrap_ptr (rsize rb) (start + dataLen), p', s')"
      "mem p' = mem p" "stays_ready n p p'" "ring_in (mem s') a b peer'"
    using put_parts_ok [OF assms(1) c(3,4) assms(10) refl sz assms(4-9)] by blast
  then show ?thesis
    using c remote_in_loads [OF c(1)] by (auto simp: rb_write_data_mem_def log_link_def stays_ready_def)
qed

text \<open>A writer with its struct at \<open>0x1000\<close>, and the empty ring of its peer.\<close>

definition demo_remote :: RemoteRingbuff where
  "demo_remote = \<lparr>wr_pointer = 0, rd_pointer = 0, rsize = 64, node_id = 1\<rparr>"

definition demo_remote_bytes :: "byte list" where
  "demo_remote_bytes = int_bytes 0 @ int_bytes 0 @ int_bytes 64 @ int_bytes 1 @ le_bytes 8 (uint (0x10000 :: u64)) @ le_bytes 8 (uint (0x7f0000000000 :: u64))"

definition demo_writer :: Proc where
  "demo_writer = demo_proc\<lparr>mem := (case wr_mem (\<lambda>_. Some 7) 0x1000 demo_remote_bytes of Inl _ \<Rightarrow> (\<lambda>_. None) | Inr m \<Rightarrow> m),
     infos := [16 \<mapsto> fresh_info\<lparr>nvm_mr := null_mr\<lparr>mr_addr := 0x10000\<rparr>\<rparr>, 32 \<mapsto> fresh_info\<lparr>nvm_mr := null_mr\<lparr>mr_addr := 0x7f0000000000\<rparr>\<rparr>],
     addr_info_ht := (\<lambda>_. [16, 32]), connect_trans := [Some 1, None, None]\<rparr>"

lemma demo_writer_mem: "wr_mem (\<lambda>_. Some 7) 0x1000 demo_remote_bytes = Inr (mem demo_writer)"
  by (simp add: demo_writer_def wr_mem_def mapped_def)

lemma demo_remote_length: "length demo_remote_bytes = 32"
  by (simp add: demo_remote_bytes_def)

lemma demo_remote_in: "remote_in (mem demo_writer) 0x1000 0x10000 0x7f0000000000 demo_remote"
proof -
  have rd: "rd_mem (mem demo_writer) 0x1000 32 = Inr demo_remote_bytes"
    using rd_wr_mem [OF demo_writer_mem] by (simp add: demo_remote_length)
  have at: "rd_mem (mem demo_writer) (0x1000 + word_of_nat k) j = Inr (take j (drop k demo_remote_bytes))" if "k + j \<le> 32" for k j
    using rd_mem_prefix [OF rd_mem_suffix [OF rd, of k], of j] that by simp
  have "mapped (mem demo_writer) 0x1000 32" using rd by (simp add: rd_mem_def guardR_eq_Inr)
  then show ?thesis
    using at [of 0 4] at [of 4 4] at [of 8 4] at [of 16 8] at [of 24 8] bytes_int_bytes [of 0] bytes_int_bytes [of 64]
    by (simp add: remote_in_def int_at_def demo_remote_def demo_remote_bytes_def)
qed

lemma demo_clients: "client_ready demo_setup 0x10000 0x10000 demo_writer" "client_ready demo_setup 0x7f0000000000 0x7f0000000000 demo_writer"
proof -
  have m: "mapped (mem demo_writer) a k" for a k
    using wr_mem_mapped [OF demo_writer_mem] by (simp add: mapped_def)
  have "link_ok demo_env 1 demo_writer" using m by (simp add: link_ok_def send_region_ok_def demo_writer_def demo_proc_def demo_trans_def demo_env_def)
  then show "client_ready demo_setup 0x10000 0x10000 demo_writer" "client_ready demo_setup 0x7f0000000000 0x7f0000000000 demo_writer"
    using normal_of_dhmp_addr [of "0x10000" 0] normal_of_dhmp_addr [of "0x7f0000000000" 0]
    by (simp_all add: client_ready_def demo_writer_def demo_proc_def dhmp_get_trans_from_addr_def lookup_info_def
        dhmp_get_addr_info_from_ht_def fresh_info_def)
qed

theorem rb_write_mate_over_rdma_witness:
  "\<exists>p' s' peer'. rb_write_mate_mem demo_setup 8 0x1000 0x2000 16 4 demo_writer (demo_proc\<lparr>mem := demo_ring_mem\<rparr>) = Inr (0, p', s') \<and>
     decode_ring (mem s') 0x10000 = Inr peer' \<and> take 16 (unread peer') = replicate 16 7 \<and> length (unread peer') = 20"
proof -
  let ?s = "demo_proc\<lparr>mem := demo_ring_mem\<rparr>" and ?bs = "replicate 16 (7 :: byte)"
  have link: "log_link demo_setup 0x1000 0x10000 0x7f0000000000 demo_remote new_ring demo_writer ?s"
    using demo_remote_in demo_clients demo_ring_in by (auto simp: log_link_def)
  have sync: "in_sync demo_remote new_ring" using new_ring_wf by (simp add: in_sync_def demo_remote_def new_ring_def TOTAL_SIZE_def)
  have "apart 0x1000 32 0x2000 16" using apart_after [of 32 "0x1000" 16 "0x1000"] by simp
  then have "rd_mem (mem demo_writer) 0x2000 16 = rd_mem (\<lambda>_. Some 7) 0x2000 16"
    using rd_wr_mem_apart [OF demo_writer_mem, of "0x2000" 16] demo_remote_length by simp
  also have "\<dots> = Inr ?bs" by (rule rd_mem_eq) simp_all
  finally have rd: "rd_mem (mem demo_writer) 0x2000 16 = Inr ?bs" .
  have mp: "mapped (mem demo_writer) 0x2000 28" using wr_mem_mapped [OF demo_writer_mem] by (simp add: mapped_def)
  have ap: "apart (0x1000 + 4) 4 0x2000 16" using apart_after [of 4 "0xffc" 16 "0x1004"] by simp
  have free: "rb_free_size new_ring = 63" by (simp add: rb_free_size_def rb_data_size_def new_ring_def TOTAL_SIZE_def)
  obtain start rb' ops where w: "rb_write_mate True new_ring demo_remote ?bs 16 4 = Inr (start, rb', ops)"
    using rb_write_mate_result [OF sync, of ?bs 16 4] by auto
  have "start = 0"
    using w free in_sync_free [OF sync] rb_write_mate_ops [where rb = demo_remote and peer = new_ring and mateLen = 16 and dataLen = 4 and buf = ?bs]
    by (simp add: Let_def demo_remote_def)
  then show ?thesis
    using rb_write_mate_over_rdma [OF demo_setup_ok link sync _ _ _ _ _ w, of "0x2000" 8] rd mp ap free new_ring_wf(2)
    by (auto simp: log_link_def ring_in_def)
qed

end
