(* ===== verification/HashExtras.thy ===== *)
theory HashExtras
  imports HashCodes
begin

text \<open>
  The function pointer \<open>hash\<close> of \<open>src/dhmp_hash.c\<close>, and \<open>murmur3_32\<close> of \<open>src/mid_hashmap.c\<close>, an older version
  of the hash on signed integers that nothing calls. Its arithmetic is that of \<open>int\<close>: a product or sum
  out of range and a left shift of a negative value or out of range are undefined, a right shift is
  arithmetic, and the multiplications of the final mix are unsigned because their constants are.
\<close>

section \<open>The pointer\<close>

type_synonym hash_func = "byte list \<Rightarrow> u32"

definition dhmp_hash_init :: "hash_func option \<Rightarrow> hash_func option" where
  "dhmp_hash_init h = Some MurmurHash3_x86_32"

text \<open>\<open>dhmp_hash_in_client\<close> with the call through the pointer, which is \<open>NULL\<close> until \<open>dhmp_hash_init\<close> ran.\<close>

definition hash_in_client_ptr :: "hash_func option \<Rightarrow> u64 \<Rightarrow> nat res" where
  "hash_in_client_ptr h addr =
     (case h of
        None \<Rightarrow> Inl UB
      | Some f \<Rightarrow> Inr ((unat (f (addr_bytes addr)) mod DHMP_CLIENT_HT_SIZE + DHMP_CLIENT_HT_SIZE) mod DHMP_CLIENT_HT_SIZE))"

lemma hash_after_init: "hash_in_client_ptr (dhmp_hash_init h) addr = Inr (dhmp_hash_in_client addr)"
  by (simp add: hash_in_client_ptr_def dhmp_hash_init_def dhmp_hash_in_client_def Let_def)

section \<open>murmur3_32\<close>

definition in32 :: "int \<Rightarrow> bool" where
  "in32 x \<longleftrightarrow> - (2 ^ 31) \<le> x \<and> x < 2 ^ 31"

definition sint_res :: "int \<Rightarrow> int res" where
  "sint_res x = guardR (in32 x) UB (Inr x)"

definition shl :: "int \<Rightarrow> nat \<Rightarrow> int res" where
  "shl x n = guardR (0 \<le> x) UB (sint_res (x * 2 ^ n))"

definition umul :: "int \<Rightarrow> int \<Rightarrow> int" where
  "umul x c = signed_take_bit 31 (x * c)"

definition old_c1 :: int where "old_c1 = signed_take_bit 31 0xcc9e2d51"
definition old_c2 :: int where "old_c2 = 0x1b873593"
definition old_n :: int where "old_n = signed_take_bit 31 0xe6546b64"

definition srotl :: "int \<Rightarrow> nat \<Rightarrow> int res" where
  "srotl x r = bindR (shl x r) (\<lambda>a. Inr (a OR drop_bit (32 - r) x))"

definition old_mix :: "int \<Rightarrow> int res" where
  "old_mix k =
     bindR (sint_res (k * old_c1)) (\<lambda>k.
     bindR (srotl k 15) (\<lambda>k.
     sint_res (k * old_c2)))"

definition read_int :: "byte list \<Rightarrow> int \<Rightarrow> int res" where
  "read_int key off = guardR (0 \<le> off \<and> off + 4 \<le> int (length key)) UB (Inr (bytes_int (bslice key (nat off) 4)))"

text \<open>The loop over the blocks.\<close>

fun old_blocks :: "byte list \<Rightarrow> nat list \<Rightarrow> int \<Rightarrow> int res" where
  "old_blocks key [] h = Inr h"
| "old_blocks key (i # js) h =
     bindR (read_int key (4 * int i)) (\<lambda>k.
     bindR (old_mix k) (\<lambda>k.
     bindR (srotl (h XOR k) 13) (\<lambda>r.
     bindR (sint_res (r * 5)) (\<lambda>r.
     bindR (sint_res (r + old_n)) (\<lambda>h. old_blocks key js h)))))"

text \<open>The \<open>switch\<close>: the tail is read as integers, not as characters.\<close>

definition old_tail :: "byte list \<Rightarrow> int \<Rightarrow> int \<Rightarrow> int \<Rightarrow> int res" where
  "old_tail key off n h =
     bindR (if n = 3 then bindR (read_int key (off + 8)) (\<lambda>t. shl t 16) else Inr 0) (\<lambda>k3.
     bindR (if n \<ge> 2 then bindR (read_int key (off + 4)) (\<lambda>t. bindR (shl t 8) (\<lambda>t. Inr (k3 XOR t))) else Inr k3) (\<lambda>k2.
     if n \<ge> 1 then bindR (read_int key off) (\<lambda>t. bindR (old_mix (k2 XOR t)) (\<lambda>k. Inr (h XOR k))) else Inr h))"

definition murmur3_32 :: "int \<Rightarrow> byte list \<Rightarrow> int res" where
  "murmur3_32 listSize key =
     (let nblocks = (if listSize < 0 then - ((- listSize) div 4) else listSize div 4)
      in bindR (old_blocks key [0..<nat nblocks] 6) (\<lambda>h.
         bindR (old_tail key (4 * nblocks) (listSize AND 3) h) (\<lambda>h.
         let h = h XOR listSize;
             h = h XOR drop_bit 16 h;
             h = umul h 0x85ebca6b;
             h = h XOR drop_bit 13 h;
             h = umul h 0xc2b2ae35
         in Inr (h XOR drop_bit 16 h))))"

text \<open>The first multiplication and the rotation behind it are defined for 0 only.\<close>

lemma old_mix_zero:
  assumes "old_mix k = Inr r"
  shows "k = 0"
proof (rule ccontr)
  assume k: "k \<noteq> 0"
  have c: "old_c1 = - 862048943" by (simp add: old_c1_def)
  obtain a where "shl (k * old_c1) 15 = Inr a"
    using assms by (auto simp: old_mix_def srotl_def sint_res_def bindR_eq_Inr guardR_eq_Inr)
  then have "0 \<le> k * old_c1" "k * old_c1 * 2 ^ 15 < 2 ^ 31"
    by (auto simp: shl_def sint_res_def guardR_eq_Inr in32_def)
  then show False using k unfolding c by simp
qed

lemma old_blocks_zero:
  "old_blocks key js h = Inr r \<Longrightarrow> i \<in> set js \<Longrightarrow> read_int key (4 * int i) = Inr 0"
proof (induction key js h rule: old_blocks.induct)
  case (2 key j js h)
  then show ?case using old_mix_zero by (fastforce simp: bindR_eq_Inr)
qed simp

text \<open>A table size that is used as the length of the key makes the function read past short keys, and any
  block that is not 0 makes it undefined.\<close>

lemma murmur3_32_defined:
  assumes "murmur3_32 listSize key = Inr h" and "0 \<le> i" and "4 * i + 4 \<le> listSize"
  shows "4 * i + 4 \<le> int (length key) \<and> bytes_int (bslice key (nat (4 * i)) 4) = 0"
proof -
  have "nat i \<in> set [0..<nat (listSize div 4)]" using assms(2,3) by auto
  moreover obtain r where "old_blocks key [0..<nat (listSize div 4)] 6 = Inr r"
    using assms by (auto simp: murmur3_32_def Let_def bindR_eq_Inr)
  ultimately have "read_int key (4 * int (nat i)) = Inr 0" using old_blocks_zero by blast
  then show ?thesis using assms(2) by (simp add: read_int_def guardR_eq_Inr)
qed

lemma murmur3_32_key: "murmur3_32 1024 [0x6b, 0x65, 0x79, 0] \<noteq> Inr h"
  using murmur3_32_defined [of 1024 "[0x6b, 0x65, 0x79, 0]" h 0] by (auto simp: bytes_int_def bslice_def)

end
