(* ===== verification/HashRuns.thy ===== *)
theory HashRuns
  imports HashTable
begin

text \<open>
  Whole runs of the hash map of \<open>src/mid_hashmap.c\<close>: a new map under any sequence of \<open>put\<close> and
  \<open>remove\<close> stays well-formed through every doubling and halving, and answers as a partial map
  does. \<open>clear\<close> ends the life of a map: it leaves no bucket behind.
\<close>

section \<open>Sequences of operations\<close>

datatype ('k, 'v) hop = HPut 'k 'v | HRemove 'k

fun hm_run :: "('k \<Rightarrow> byte list) \<Rightarrow> ('k, 'v) hop list \<Rightarrow> ('k, 'v) HashMap \<Rightarrow> ('k, 'v) HashMap res" where
  "hm_run rd [] m = Inr m"
| "hm_run rd (HPut k v # ops) m = bindR (map_put rd m k v) (hm_run rd ops)"
| "hm_run rd (HRemove k # ops) m = bindR (map_remove rd m k) (\<lambda>(r, m'). hm_run rd ops m')"

fun map_run :: "('k \<Rightarrow> byte list) \<Rightarrow> ('k, 'v) hop list \<Rightarrow> (byte list \<Rightarrow> 'v option) \<Rightarrow> byte list \<Rightarrow> 'v option" where
  "map_run rd [] M = M"
| "map_run rd (HPut k v # ops) M = map_run rd ops (M(rd k \<mapsto> v))"
| "map_run rd (HRemove k # ops) M = map_run rd ops (M(rd k := None))"

lemma hm_run_correct:
  assumes "map_wf rd m" and "hsize m + int (length ops) < 2 ^ 30"
  shows "\<exists>m'. hm_run rd ops m = Inr m' \<and> map_wf rd m' \<and> hm_map rd m' = map_run rd ops (hm_map rd m)"
  using assms
proof (induction rd ops m rule: hm_run.induct)
  case (2 rd k v ops m)
  obtain m1 where "map_put rd m k v = Inr m1" "map_wf rd m1" "hm_map rd m1 = (hm_map rd m)(rd k \<mapsto> v)" "hsize m1 \<le> hsize m + 1"
    using sh.put_correct [of rd m 0 k v] "2.prems" by (auto simp: numeral_2_eq_2)
  then show ?case using "2.IH" [of m1] "2.prems"(2) by (auto simp del: fun_upd_apply)
next
  case (3 rd k ops m)
  obtain r m1 where "map_remove rd m k = Inr (r, m1)" "map_wf rd m1" "hm_map rd m1 = (hm_map rd m)(rd k := None)" "hsize m1 \<le> hsize m"
    using sh.remove_correct [of rd m 1 k] "3.prems" by (auto simp: numeral_2_eq_2)
  then show ?case using "3.IH" [of m1] "3.prems"(2) by (auto simp del: fun_upd_apply)
qed simp

section \<open>Properties\<close>

text \<open>C34: A map made by \<open>createHashMap\<close> with any positive number of buckets goes through every sequence of
  fewer than \<open>2 ^ 30\<close> calls of \<open>defaultPut\<close> and \<open>defaultRemove\<close> without a fault. It is well-formed at the end:
  as many buckets as its size says, each key in the bucket of its hash, no string twice, the
  number of entries equal to its count. And \<open>defaultGet\<close> and \<open>defaultExists\<close> answer for every key, by the
  string it points to, as the partial map does that the same calls make.\<close>

theorem hash_run_wf:
  fixes ops :: "('k, 'v) hop list"
  assumes "0 < n" and "n < 2 ^ 31" and "length ops < 2 ^ 30"
  shows "\<exists>m m'. createHashMap n = Some m \<and> hm_run rd ops m = Inr m' \<and> hm_wf (hashCode_of rd) rd m' \<and>
    (\<forall>k. defaultGet (hashCode_of rd) (defaultEqual rd) m' k = Inr (map_run rd ops Map.empty (rd k)) \<and>
      defaultExists (hashCode_of rd) (defaultEqual rd) m' k = Inr (map_run rd ops Map.empty (rd k) \<noteq> None))"
proof -
  obtain m :: "('k, 'v) HashMap" where m: "createHashMap n = Some m" "map_wf rd m" "hm_map rd m = Map.empty" "hsize m = 0"
    using createHashMap_wf [OF assms(1,2)] by blast
  obtain m' where m': "hm_run rd ops m = Inr m'" "map_wf rd m'" "hm_map rd m' = map_run rd ops Map.empty"
    using hm_run_correct [OF m(2), of ops] m(3,4) assms(3) by auto
  then show ?thesis using m(1) sh.get_correct [OF m'(2)] sh.exists_correct [OF m'(2)] by auto
qed

theorem hash_run_wf_witness:
  "let rd = (\<lambda>k::nat. [of_nat k] :: byte list); ops = [HPut 7 (1::nat), HPut 8 2, HRemove 7]
   in \<exists>m m'. createHashMap 1 = Some m \<and> hm_run rd ops m = Inr m' \<and> hm_wf (hashCode_of rd) rd m' \<and>
        defaultGet (hashCode_of rd) (defaultEqual rd) m' 8 = Inr (Some 2) \<and>
        defaultExists (hashCode_of rd) (defaultEqual rd) m' 7 = Inr False"
proof -
  let ?rd = "\<lambda>k::nat. [of_nat k] :: byte list" and ?ops = "[HPut 7 (1::nat), HPut 8 2, HRemove 7]"
  have "map_run ?rd ?ops Map.empty (?rd 8) = Some 2" "map_run ?rd ?ops Map.empty (?rd 7) = None" by simp_all
  then show ?thesis using hash_run_wf [of 1 ?ops ?rd] unfolding Let_def by fastforce
qed

text \<open>After \<open>defaultClear\<close> the map has no bucket, and the next call that computes one divides by zero.\<close>

lemma put_after_clear: "map_put rd (defaultClear m) k v = Inl UB"
  by (simp add: defaultClear_def numeral_2_eq_2 defaultPut.simps(2) bucket_ok_def Let_def)

end
