(* ===== verification/KernelList.thy ===== *)
theory KernelList
  imports Prelude
begin

text \<open>
  The doubly linked lists of \<open>include/linux/list.h\<close>. The nodes are a partial store from
  addresses to \<open>struct list_head\<close>; an access to an address outside the store is undefined, and so is
  one through the two poison values once a node has been deleted. A function whose name starts
  with two underscores in the source has the prefix \<open>raw_\<close> here. \<open>ring m zs\<close> says that the nodes
  \<open>zs\<close>, head included, form a circle in \<open>m\<close> in this order; \<open>is_list m h xs\<close> that \<open>xs\<close> are the
  entries behind the head \<open>h\<close>. Every operation is shown to do on the circle what the
  corresponding operation does on a HOL list, and to leave every other node alone; the
  iteration macros visit the entries in order and end.
\<close>

section \<open>Nodes and their fields\<close>

record list_head =
  lh_next :: u64
  lh_prev :: u64

type_synonym list_mem = "u64 \<Rightarrow> list_head option"

definition LIST_POISON1 :: u64 where
  "LIST_POISON1 = 0x00100100"

definition LIST_POISON2 :: u64 where
  "LIST_POISON2 = 0x00200200"

definition get_next :: "u64 \<Rightarrow> list_mem \<Rightarrow> u64 res" where
  "get_next p m = (case m p of None \<Rightarrow> Inl UB | Some n \<Rightarrow> Inr (lh_next n))"

definition get_prev :: "u64 \<Rightarrow> list_mem \<Rightarrow> u64 res" where
  "get_prev p m = (case m p of None \<Rightarrow> Inl UB | Some n \<Rightarrow> Inr (lh_prev n))"

definition set_next :: "u64 \<Rightarrow> u64 \<Rightarrow> list_mem \<Rightarrow> list_mem res" where
  "set_next p v m = (case m p of None \<Rightarrow> Inl UB | Some n \<Rightarrow> Inr (m(p \<mapsto> n\<lparr>lh_next := v\<rparr>)))"

definition set_prev :: "u64 \<Rightarrow> u64 \<Rightarrow> list_mem \<Rightarrow> list_mem res" where
  "set_prev p v m = (case m p of None \<Rightarrow> Inl UB | Some n \<Rightarrow> Inr (m(p \<mapsto> n\<lparr>lh_prev := v\<rparr>)))"

section \<open>Operations\<close>

definition INIT_LIST_HEAD :: "u64 \<Rightarrow> list_mem \<Rightarrow> list_mem res" where
  "INIT_LIST_HEAD l m = bindR (set_next l l m) (set_prev l l)"

definition raw_list_add :: "u64 \<Rightarrow> u64 \<Rightarrow> u64 \<Rightarrow> list_mem \<Rightarrow> list_mem res" where
  "raw_list_add new prv nxt m =
     bindR (set_prev nxt new m) (\<lambda>m.
     bindR (set_next new nxt m) (\<lambda>m.
     bindR (set_prev new prv m) (\<lambda>m.
     set_next prv new m)))"

definition list_add :: "u64 \<Rightarrow> u64 \<Rightarrow> list_mem \<Rightarrow> list_mem res" where
  "list_add new head m = bindR (get_next head m) (\<lambda>nxt. raw_list_add new head nxt m)"

definition list_add_tail :: "u64 \<Rightarrow> u64 \<Rightarrow> list_mem \<Rightarrow> list_mem res" where
  "list_add_tail new head m = bindR (get_prev head m) (\<lambda>prv. raw_list_add new prv head m)"

definition raw_list_del :: "u64 \<Rightarrow> u64 \<Rightarrow> list_mem \<Rightarrow> list_mem res" where
  "raw_list_del prv nxt m = bindR (set_prev nxt prv m) (\<lambda>m. set_next prv nxt m)"

definition raw_list_del_entry :: "u64 \<Rightarrow> list_mem \<Rightarrow> list_mem res" where
  "raw_list_del_entry entry m =
     bindR (get_prev entry m) (\<lambda>prv. bindR (get_next entry m) (\<lambda>nxt. raw_list_del prv nxt m))"

definition list_del :: "u64 \<Rightarrow> list_mem \<Rightarrow> list_mem res" where
  "list_del entry m =
     bindR (get_prev entry m) (\<lambda>prv. bindR (get_next entry m) (\<lambda>nxt.
     bindR (raw_list_del prv nxt m) (\<lambda>m.
     bindR (set_next entry LIST_POISON1 m) (\<lambda>m.
     set_prev entry LIST_POISON2 m))))"

definition list_replace :: "u64 \<Rightarrow> u64 \<Rightarrow> list_mem \<Rightarrow> list_mem res" where
  "list_replace old new m =
     bindR (get_next old m) (\<lambda>nxt.
     bindR (set_next new nxt m) (\<lambda>m.
     bindR (get_next new m) (\<lambda>nxt.
     bindR (set_prev nxt new m) (\<lambda>m.
     bindR (get_prev old m) (\<lambda>prv.
     bindR (set_prev new prv m) (\<lambda>m.
     bindR (get_prev new m) (\<lambda>prv.
     set_next prv new m)))))))"

definition list_replace_init :: "u64 \<Rightarrow> u64 \<Rightarrow> list_mem \<Rightarrow> list_mem res" where
  "list_replace_init old new m = bindR (list_replace old new m) (INIT_LIST_HEAD old)"

definition list_del_init :: "u64 \<Rightarrow> list_mem \<Rightarrow> list_mem res" where
  "list_del_init entry m = bindR (raw_list_del_entry entry m) (INIT_LIST_HEAD entry)"

definition list_move :: "u64 \<Rightarrow> u64 \<Rightarrow> list_mem \<Rightarrow> list_mem res" where
  "list_move l head m = bindR (raw_list_del_entry l m) (list_add l head)"

definition list_move_tail :: "u64 \<Rightarrow> u64 \<Rightarrow> list_mem \<Rightarrow> list_mem res" where
  "list_move_tail l head m = bindR (raw_list_del_entry l m) (list_add_tail l head)"

definition list_is_last :: "u64 \<Rightarrow> u64 \<Rightarrow> list_mem \<Rightarrow> bool res" where
  "list_is_last l head m = bindR (get_next l m) (\<lambda>nxt. Inr (nxt = head))"

definition list_empty :: "u64 \<Rightarrow> list_mem \<Rightarrow> bool res" where
  "list_empty head m = bindR (get_next head m) (\<lambda>nxt. Inr (nxt = head))"

definition list_empty_careful :: "u64 \<Rightarrow> list_mem \<Rightarrow> bool res" where
  "list_empty_careful head m =
     bindR (get_next head m) (\<lambda>nxt.
     if nxt = head then bindR (get_prev head m) (\<lambda>prv. Inr (nxt = prv)) else Inr False)"

definition list_rotate_left :: "u64 \<Rightarrow> list_mem \<Rightarrow> list_mem res" where
  "list_rotate_left head m =
     bindR (list_empty head m) (\<lambda>e.
     if \<not> e then bindR (get_next head m) (\<lambda>first. list_move_tail first head m) else Inr m)"

definition list_is_singular :: "u64 \<Rightarrow> list_mem \<Rightarrow> bool res" where
  "list_is_singular head m =
     bindR (list_empty head m) (\<lambda>e.
     if \<not> e then bindR (get_next head m) (\<lambda>nxt. bindR (get_prev head m) (\<lambda>prv. Inr (nxt = prv)))
     else Inr False)"

definition raw_list_cut_position :: "u64 \<Rightarrow> u64 \<Rightarrow> u64 \<Rightarrow> list_mem \<Rightarrow> list_mem res" where
  "raw_list_cut_position l head entry m =
     bindR (get_next entry m) (\<lambda>new_first.
     bindR (get_next head m) (\<lambda>first.
     bindR (set_next l first m) (\<lambda>m.
     bindR (get_next l m) (\<lambda>first.
     bindR (set_prev first l m) (\<lambda>m.
     bindR (set_prev l entry m) (\<lambda>m.
     bindR (set_next entry l m) (\<lambda>m.
     bindR (set_next head new_first m) (\<lambda>m.
     set_prev new_first head m))))))))"

definition list_cut_position :: "u64 \<Rightarrow> u64 \<Rightarrow> u64 \<Rightarrow> list_mem \<Rightarrow> list_mem res" where
  "list_cut_position l head entry m =
     bindR (list_empty head m) (\<lambda>e. if e then Inr m else
     bindR (list_is_singular head m) (\<lambda>s.
     bindR (get_next head m) (\<lambda>first.
     if s \<and> first \<noteq> entry \<and> head \<noteq> entry then Inr m
     else if entry = head then INIT_LIST_HEAD l m
     else raw_list_cut_position l head entry m)))"

definition raw_list_splice :: "u64 \<Rightarrow> u64 \<Rightarrow> u64 \<Rightarrow> list_mem \<Rightarrow> list_mem res" where
  "raw_list_splice l prv nxt m =
     bindR (get_next l m) (\<lambda>first.
     bindR (get_prev l m) (\<lambda>lst.
     bindR (set_prev first prv m) (\<lambda>m.
     bindR (set_next prv first m) (\<lambda>m.
     bindR (set_next lst nxt m) (\<lambda>m.
     set_prev nxt lst m)))))"

definition list_splice :: "u64 \<Rightarrow> u64 \<Rightarrow> list_mem \<Rightarrow> list_mem res" where
  "list_splice l head m =
     bindR (list_empty l m) (\<lambda>e.
     if \<not> e then bindR (get_next head m) (\<lambda>nxt. raw_list_splice l head nxt m) else Inr m)"

definition list_splice_tail :: "u64 \<Rightarrow> u64 \<Rightarrow> list_mem \<Rightarrow> list_mem res" where
  "list_splice_tail l head m =
     bindR (list_empty l m) (\<lambda>e.
     if \<not> e then bindR (get_prev head m) (\<lambda>prv. raw_list_splice l prv head m) else Inr m)"

definition list_splice_init :: "u64 \<Rightarrow> u64 \<Rightarrow> list_mem \<Rightarrow> list_mem res" where
  "list_splice_init l head m =
     bindR (list_empty l m) (\<lambda>e.
     if \<not> e then bindR (get_next head m) (\<lambda>nxt. bindR (raw_list_splice l head nxt m) (INIT_LIST_HEAD l))
     else Inr m)"

definition list_splice_tail_init :: "u64 \<Rightarrow> u64 \<Rightarrow> list_mem \<Rightarrow> list_mem res" where
  "list_splice_tail_init l head m =
     bindR (list_empty l m) (\<lambda>e.
     if \<not> e then bindR (get_prev head m) (\<lambda>prv. bindR (raw_list_splice l prv head m) (INIT_LIST_HEAD l))
     else Inr m)"

section \<open>Entries and iteration\<close>

text \<open>\<open>container_of\<close>: the struct that has the node as its member at offset \<open>off\<close>.\<close>

definition list_entry :: "u64 \<Rightarrow> u64 \<Rightarrow> u64" where
  "list_entry p off = p - off"

definition list_first_entry :: "u64 \<Rightarrow> u64 \<Rightarrow> list_mem \<Rightarrow> u64 res" where
  "list_first_entry p off m = bindR (get_next p m) (\<lambda>q. Inr (list_entry q off))"

definition list_last_entry :: "u64 \<Rightarrow> u64 \<Rightarrow> list_mem \<Rightarrow> u64 res" where
  "list_last_entry p off m = bindR (get_prev p m) (\<lambda>q. Inr (list_entry q off))"

definition list_first_entry_or_null :: "u64 \<Rightarrow> u64 \<Rightarrow> list_mem \<Rightarrow> u64 res" where
  "list_first_entry_or_null p off m =
     bindR (list_empty p m) (\<lambda>e. if \<not> e then list_first_entry p off m else Inr 0)"

definition list_next_entry :: "u64 \<Rightarrow> u64 \<Rightarrow> list_mem \<Rightarrow> u64 res" where
  "list_next_entry pos off m = bindR (get_next (pos + off) m) (\<lambda>q. Inr (list_entry q off))"

definition list_prev_entry :: "u64 \<Rightarrow> u64 \<Rightarrow> list_mem \<Rightarrow> u64 res" where
  "list_prev_entry pos off m = bindR (get_prev (pos + off) m) (\<lambda>q. Inr (list_entry q off))"

text \<open>The body of a loop goes on or leaves it. A \<open>for\<close> loop over a cursor that may run forever is a
  function into \<open>option\<close>: \<open>None\<close> means that it does not end.\<close>

datatype 'a flow = Continue 'a | Break 'a

type_synonym ('m, 's) body = "u64 \<Rightarrow> 'm \<times> 's \<Rightarrow> ('m \<times> 's) flow res"

partial_function (option) cursor_loop ::
    "(u64 \<Rightarrow> bool) \<Rightarrow> (u64 \<Rightarrow> 'm \<Rightarrow> u64 res) \<Rightarrow> ('m, 's) body \<Rightarrow> u64 \<Rightarrow> 'm \<times> 's \<Rightarrow> ('m \<times> 's) res option" where
  "cursor_loop stop step body pos st =
     (if stop pos then Some (Inr st)
      else (case body pos st of
              Inl e \<Rightarrow> Some (Inl e)
            | Inr fl \<Rightarrow>
                (case fl of
                   Break st' \<Rightarrow> Some (Inr st')
                 | Continue st' \<Rightarrow>
                     (case step pos (fst st') of
                        Inl e \<Rightarrow> Some (Inl e)
                      | Inr pos' \<Rightarrow> cursor_loop stop step body pos' st'))))"

partial_function (option) safe_loop ::
    "(u64 \<Rightarrow> bool) \<Rightarrow> (u64 \<Rightarrow> 'm \<Rightarrow> u64 res) \<Rightarrow> ('m, 's) body \<Rightarrow> u64 \<Rightarrow> u64 \<Rightarrow> 'm \<times> 's \<Rightarrow> ('m \<times> 's) res option" where
  "safe_loop stop step body pos n st =
     (if stop pos then Some (Inr st)
      else (case body pos st of
              Inl e \<Rightarrow> Some (Inl e)
            | Inr fl \<Rightarrow>
                (case fl of
                   Break st' \<Rightarrow> Some (Inr st')
                 | Continue st' \<Rightarrow>
                     (case step n (fst st') of
                        Inl e \<Rightarrow> Some (Inl e)
                      | Inr n' \<Rightarrow> safe_loop stop step body n n' st'))))"

definition run_loop :: "'a res \<Rightarrow> ('a \<Rightarrow> 'b res option) \<Rightarrow> 'b res option" where
  "run_loop r f = (case r of Inl e \<Rightarrow> Some (Inl e) | Inr x \<Rightarrow> f x)"

definition list_for_each :: "(list_mem, 's) body \<Rightarrow> u64 \<Rightarrow> list_mem \<times> 's \<Rightarrow> (list_mem \<times> 's) res option" where
  "list_for_each body head st =
     run_loop (get_next head (fst st)) (\<lambda>pos. cursor_loop (\<lambda>p. p = head) get_next body pos st)"

definition list_for_each_prev :: "(list_mem, 's) body \<Rightarrow> u64 \<Rightarrow> list_mem \<times> 's \<Rightarrow> (list_mem \<times> 's) res option" where
  "list_for_each_prev body head st =
     run_loop (get_prev head (fst st)) (\<lambda>pos. cursor_loop (\<lambda>p. p = head) get_prev body pos st)"

definition list_for_each_safe :: "(list_mem, 's) body \<Rightarrow> u64 \<Rightarrow> list_mem \<times> 's \<Rightarrow> (list_mem \<times> 's) res option" where
  "list_for_each_safe body head st =
     run_loop (get_next head (fst st)) (\<lambda>pos.
     run_loop (get_next pos (fst st)) (\<lambda>n.
     safe_loop (\<lambda>p. p = head) get_next body pos n st))"

definition list_for_each_entry :: "u64 \<Rightarrow> (list_mem, 's) body \<Rightarrow> u64 \<Rightarrow> list_mem \<times> 's \<Rightarrow> (list_mem \<times> 's) res option" where
  "list_for_each_entry off body head st =
     run_loop (list_first_entry head off (fst st)) (\<lambda>pos.
     cursor_loop (\<lambda>p. p + off = head) (\<lambda>p. list_next_entry p off) body pos st)"

definition list_for_each_entry_reverse :: "u64 \<Rightarrow> (list_mem, 's) body \<Rightarrow> u64 \<Rightarrow> list_mem \<times> 's \<Rightarrow> (list_mem \<times> 's) res option" where
  "list_for_each_entry_reverse off body head st =
     run_loop (list_last_entry head off (fst st)) (\<lambda>pos.
     cursor_loop (\<lambda>p. p + off = head) (\<lambda>p. list_prev_entry p off) body pos st)"

definition list_for_each_entry_safe :: "u64 \<Rightarrow> (list_mem, 's) body \<Rightarrow> u64 \<Rightarrow> list_mem \<times> 's \<Rightarrow> (list_mem \<times> 's) res option" where
  "list_for_each_entry_safe off body head st =
     run_loop (list_first_entry head off (fst st)) (\<lambda>pos.
     run_loop (list_next_entry pos off (fst st)) (\<lambda>n.
     safe_loop (\<lambda>p. p + off = head) (\<lambda>p. list_next_entry p off) body pos n st))"

section \<open>Circles of nodes\<close>

definition nx :: "list_mem \<Rightarrow> u64 \<Rightarrow> u64 option" where
  "nx m a = map_option lh_next (m a)"

definition pv :: "list_mem \<Rightarrow> u64 \<Rightarrow> u64 option" where
  "pv m a = map_option lh_prev (m a)"

definition adj :: "list_mem \<Rightarrow> u64 \<Rightarrow> u64 \<Rightarrow> bool" where
  "adj m a b \<longleftrightarrow> nx m a = Some b \<and> pv m b = Some a"

fun path :: "list_mem \<Rightarrow> u64 list \<Rightarrow> bool" where
  "path m (a # b # zs) \<longleftrightarrow> adj m a b \<and> path m (b # zs)"
| "path m zs \<longleftrightarrow> True"

definition ring :: "list_mem \<Rightarrow> u64 list \<Rightarrow> bool" where
  "ring m zs \<longleftrightarrow> zs \<noteq> [] \<and> distinct zs \<and> path m zs \<and> adj m (last zs) (hd zs)"

abbreviation is_list :: "list_mem \<Rightarrow> u64 \<Rightarrow> u64 list \<Rightarrow> bool" where
  "is_list m h xs \<equiv> ring m (h # xs)"

subsection \<open>Field accesses\<close>

definition upd_next :: "u64 \<Rightarrow> u64 \<Rightarrow> list_mem \<Rightarrow> list_mem" where
  "upd_next p v m = (case m p of None \<Rightarrow> m | Some n \<Rightarrow> m(p \<mapsto> n\<lparr>lh_next := v\<rparr>))"

definition upd_prev :: "u64 \<Rightarrow> u64 \<Rightarrow> list_mem \<Rightarrow> list_mem" where
  "upd_prev p v m = (case m p of None \<Rightarrow> m | Some n \<Rightarrow> m(p \<mapsto> n\<lparr>lh_prev := v\<rparr>))"

lemma set_field [simp]:
  "p \<in> dom m \<Longrightarrow> set_next p v m = Inr (upd_next p v m)"
  "p \<in> dom m \<Longrightarrow> set_prev p v m = Inr (upd_prev p v m)"
  by (auto simp: set_next_def set_prev_def upd_next_def upd_prev_def)

lemma set_field_out [simp]:
  "p \<notin> dom m \<Longrightarrow> set_next p v m = Inl UB" "p \<notin> dom m \<Longrightarrow> set_prev p v m = Inl UB"
  "p \<notin> dom m \<Longrightarrow> get_next p m = Inl UB" "p \<notin> dom m \<Longrightarrow> get_prev p m = Inl UB"
  by (auto simp: set_next_def set_prev_def get_next_def get_prev_def domIff)

lemma get_field [simp]:
  "nx m p = Some v \<Longrightarrow> get_next p m = Inr v" "pv m p = Some v \<Longrightarrow> get_prev p m = Inr v"
  by (auto simp: get_next_def get_prev_def nx_def pv_def)

lemma upd_field [simp]:
  "p \<in> dom m \<Longrightarrow> nx (upd_next p v m) a = (if a = p then Some v else nx m a)"
  "pv (upd_next p v m) a = pv m a"
  "p \<in> dom m \<Longrightarrow> pv (upd_prev p v m) a = (if a = p then Some v else pv m a)"
  "nx (upd_prev p v m) a = nx m a"
  by (auto simp: upd_next_def upd_prev_def nx_def pv_def split: option.split)

lemma nx_pv_dom:
  "nx m a = Some b \<Longrightarrow> a \<in> dom m" "pv m a = Some b \<Longrightarrow> a \<in> dom m"
  by (auto simp: nx_def pv_def)

lemma nx_pv_cong:
  "m' a = m a \<Longrightarrow> nx m' a = nx m a" "m' a = m a \<Longrightarrow> pv m' a = pv m a"
  by (auto simp: nx_def pv_def)

lemma upd_dom [simp]:
  "dom (upd_next p v m) = dom m" "dom (upd_prev p v m) = dom m"
  by (auto simp: upd_next_def upd_prev_def split: option.split)

lemma upd_other [simp]:
  "a \<noteq> p \<Longrightarrow> upd_next p v m a = m a" "a \<noteq> p \<Longrightarrow> upd_prev p v m a = m a"
  by (auto simp: upd_next_def upd_prev_def split: option.split)

subsection \<open>Paths and circles\<close>

lemma path_append:
  "path m (xs @ zs) \<longleftrightarrow>
     path m xs \<and> path m zs \<and> (xs \<noteq> [] \<and> zs \<noteq> [] \<longrightarrow> adj m (last xs) (hd zs))"
proof (induction m xs rule: path.induct)
  case (1 m a b xs) then show ?case by auto
qed (cases zs; auto)+

lemma path_cong:
  assumes "\<And>a. a \<in> set (butlast zs) \<Longrightarrow> nx m' a = nx m a"
    and "\<And>a. a \<in> set (tl zs) \<Longrightarrow> pv m' a = pv m a"
  shows "path m' zs = path m zs"
  using assms by (induction m zs rule: path.induct) (auto simp: adj_def split: if_splits)

lemma ring_frame:
  assumes "\<And>a. a \<in> set zs \<Longrightarrow> m' a = m a"
  shows "ring m' zs = ring m zs"
proof (cases "zs = []")
  case False
  then have "path m' zs = path m zs"
    by (intro path_cong nx_pv_cong) (auto simp: assms in_set_butlastD list.set_sel(2))
  with False assms show ?thesis by (simp add: ring_def adj_def nx_def pv_def)
qed (simp add: ring_def)

lemma ring_rotate:
  assumes "ring m (xs @ zs)"
  shows "ring m (zs @ xs)"
  using assms by (cases "xs = []"; cases "zs = []") (auto simp: ring_def path_append)

lemma ring_dom:
  assumes "ring m zs" and "a \<in> set zs"
  shows "a \<in> dom m"
proof -
  obtain xs ys where "zs = xs @ a # ys" using split_list [OF assms(2)] by blast
  then have "ring m (a # ys @ xs)" using ring_rotate [of m xs "a # ys"] assms(1) by simp
  then have "pv m a = Some (last (a # ys @ xs))" by (simp add: ring_def adj_def)
  then show ?thesis by (rule nx_pv_dom(2))
qed

lemma ends_once:
  assumes "distinct ys" and "ys \<noteq> []"
  shows "last ys \<notin> set (butlast ys)" "hd ys \<notin> set (tl ys)"
  using assms by (induction ys) (auto dest: in_set_butlastD)

text \<open>Two disjoint paths whose ends are made to point to each other are a circle, and so is a path
  whose ends are.\<close>

lemma ring_join:
  assumes "path m xs" and "path m zs" and "xs \<noteq> []" and "zs \<noteq> []" and d: "distinct (xs @ zs)"
    and n: "\<And>a. a \<in> set (xs @ zs) \<Longrightarrow>
      nx m' a = (if a = last zs then Some (hd xs) else if a = last xs then Some (hd zs) else nx m a)"
    and p: "\<And>a. a \<in> set (xs @ zs) \<Longrightarrow>
      pv m' a = (if a = hd zs then Some (last xs) else if a = hd xs then Some (last zs) else pv m a)"
  shows "ring m' (xs @ zs)"
proof -
  have dis: "last xs \<notin> set zs" "last zs \<notin> set xs" "hd xs \<notin> set zs" "hd zs \<notin> set xs"
    using assms(3,4) d by (auto dest: last_in_set hd_in_set)
  have "path m' ys = path m ys" if "ys = xs \<or> ys = zs" for ys
  proof (rule path_cong)
    fix a assume "a \<in> set (butlast ys)"
    then show "nx m' a = nx m a"
      using that dis ends_once [of ys] d assms(3,4) by (subst n) (auto dest: in_set_butlastD)
  next
    fix a assume "a \<in> set (tl ys)"
    then show "pv m' a = pv m a"
      using that dis ends_once [of ys] d assms(3,4) by (subst p) (auto dest: list.set_sel(2))
  qed
  moreover have "adj m' (last xs) (hd zs)" "adj m' (last zs) (hd xs)"
    using assms(3,4) dis by (auto simp: adj_def n p)
  ultimately show ?thesis using assms by (simp add: ring_def path_append)
qed

lemma ring_close:
  assumes "path m zs" and "zs \<noteq> []" and d: "distinct zs"
    and n: "\<And>a. a \<in> set zs \<Longrightarrow> nx m' a = (if a = last zs then Some (hd zs) else nx m a)"
    and p: "\<And>a. a \<in> set zs \<Longrightarrow> pv m' a = (if a = hd zs then Some (last zs) else pv m a)"
  shows "ring m' zs"
proof -
  have "path m' zs = path m zs"
  proof (rule path_cong)
    fix a assume "a \<in> set (butlast zs)"
    then show "nx m' a = nx m a" using ends_once [OF d] assms(2) by (subst n) (auto dest: in_set_butlastD)
  next
    fix a assume "a \<in> set (tl zs)"
    then show "pv m' a = pv m a" using ends_once [OF d] assms(2) by (subst p) (auto dest: list.set_sel(2))
  qed
  then show ?thesis using assms by (auto simp: ring_def adj_def n p)
qed

lemma ring_ConsD:
  assumes "ring m (a # zs)" and "zs \<noteq> []"
  shows "nx m a = Some (hd zs)" "pv m a = Some (last zs)" "path m zs" "distinct zs" "a \<notin> set zs"
    and "a \<in> dom m" "hd zs \<in> dom m" "last zs \<in> dom m"
  using assms ring_dom [OF assms(1)] by (auto simp: ring_def path_append [of m "[a]" zs, simplified] adj_def)

section \<open>The operations on circles\<close>

text \<open>Nothing outside \<open>S\<close> changes, and nothing is allocated or freed.\<close>

definition only :: "u64 set \<Rightarrow> list_mem \<Rightarrow> list_mem \<Rightarrow> bool" where
  "only S m m' \<longleftrightarrow> dom m' = dom m \<and> (\<forall>a. a \<notin> S \<longrightarrow> m' a = m a)"

lemma only_refl [simp, intro]: "only S m m"
  by (simp add: only_def)

lemma only_upd [simp, intro]:
  "only S m m' \<Longrightarrow> p \<in> S \<Longrightarrow> only S m (upd_next p v m')"
  "only S m m' \<Longrightarrow> p \<in> S \<Longrightarrow> only S m (upd_prev p v m')"
  unfolding only_def by (metis upd_dom(1) upd_other(1)) (metis only_def upd_dom(2) upd_other(2))

lemma only_trans:
  "only S m m' \<Longrightarrow> only T m' m'' \<Longrightarrow> only (S \<union> T) m m''"
  by (auto simp: only_def)

lemma only_mono:
  "only S m m' \<Longrightarrow> S \<subseteq> T \<Longrightarrow> only T m m'"
  by (auto simp: only_def)

lemma only_ring:
  "only S m m' \<Longrightarrow> set zs \<inter> S = {} \<Longrightarrow> ring m' zs = ring m zs"
  by (rule ring_frame) (auto simp: only_def)

lemma INIT_LIST_HEAD_ring:
  assumes "l \<in> dom m"
  shows "\<exists>m'. INIT_LIST_HEAD l m = Inr m' \<and> ring m' [l] \<and> only {l} m m'"
  using assms by (simp add: INIT_LIST_HEAD_def ring_def adj_def)

lemma raw_list_add_ring:
  assumes "ring m zs" and "new \<notin> set zs" and "new \<in> dom m"
  shows "\<exists>m'. raw_list_add new (last zs) (hd zs) m = Inr m' \<and> ring m' (new # zs) \<and> only (set (new # zs)) m m'"
proof -
  have ne: "zs \<noteq> []" and in_m: "hd zs \<in> dom m" "last zs \<in> dom m"
    using assms(1) ring_dom by (auto simp: ring_def)
  let ?m = "upd_next (last zs) new (upd_prev new (last zs) (upd_next new (hd zs) (upd_prev (hd zs) new m)))"
  have "raw_list_add new (last zs) (hd zs) m = Inr ?m" using assms in_m by (simp add: raw_list_add_def)
  moreover have "ring ?m ([new] @ zs)"
  proof (rule ring_join [where m = m])
    show "path m zs" "distinct ([new] @ zs)" using assms by (auto simp: ring_def)
  qed (use ne in_m assms in auto)
  moreover have "only (set (new # zs)) m ?m" using ne by simp
  ultimately show ?thesis by auto
qed

lemma list_add_ring:
  assumes "is_list m h xs" and "new \<notin> set (h # xs)" and "new \<in> dom m"
  shows "\<exists>m'. list_add new h m = Inr m' \<and> is_list m' h (new # xs) \<and> only (set (h # new # xs)) m m'"
proof -
  have r: "ring m (xs @ [h])" using ring_rotate [of m "[h]" xs] assms(1) by simp
  then have "nx m h = Some (hd (xs @ [h]))"
    using assms(1) by (cases xs) (auto simp: ring_def adj_def)
  moreover obtain m' where "raw_list_add new h (hd (xs @ [h])) m = Inr m'" "ring m' (new # xs @ [h])"
      "only (set (new # xs @ [h])) m m'"
    using raw_list_add_ring [OF r] assms by auto
  moreover have "ring m' (h # new # xs)" using ring_rotate [of m' "new # xs" "[h]"] calculation(3) by simp
  ultimately show ?thesis by (auto simp: list_add_def insert_commute)
qed

lemma list_add_tail_ring:
  assumes "is_list m h xs" and "new \<notin> set (h # xs)" and "new \<in> dom m"
  shows "\<exists>m'. list_add_tail new h m = Inr m' \<and> is_list m' h (xs @ [new]) \<and> only (set (h # new # xs)) m m'"
proof -
  have "pv m h = Some (last (h # xs))" using assms(1) by (auto simp: ring_def adj_def)
  moreover obtain m' where "raw_list_add new (last (h # xs)) h m = Inr m'" "ring m' ([new] @ h # xs)"
      "only (set (new # h # xs)) m m'"
    using raw_list_add_ring [OF assms] by auto
  moreover have "ring m' (h # xs @ [new])" using ring_rotate [of m' "[new]" "h # xs"] calculation(3) by simp
  ultimately show ?thesis by (auto simp: list_add_tail_def insert_commute)
qed

lemma raw_list_del_ring:
  assumes "ring m (e # zs)" and "zs \<noteq> []"
  shows "\<exists>m'. raw_list_del (last zs) (hd zs) m = Inr m' \<and> ring m' zs \<and> only (set zs) m m'"
proof -
  note f = ring_ConsD [OF assms]
  let ?m = "upd_next (last zs) (hd zs) (upd_prev (hd zs) (last zs) m)"
  have "raw_list_del (last zs) (hd zs) m = Inr ?m" using f by (simp add: raw_list_del_def)
  moreover have "ring ?m zs" using f assms(2) by (intro ring_close [where m = m]) auto
  moreover have "only (set zs) m ?m" using assms(2) by simp
  ultimately show ?thesis by auto
qed

lemma raw_list_del_entry_ring:
  assumes "is_list m h (xs @ e # ys)"
  shows "\<exists>m' p n. get_prev e m = Inr p \<and> get_next e m = Inr n \<and> raw_list_del p n m = Inr m' \<and>
    raw_list_del_entry e m = Inr m' \<and> is_list m' h (xs @ ys) \<and> m' e = m e \<and> only (set (h # xs @ ys)) m m'"
proof -
  let ?zs = "ys @ h # xs"
  have r: "ring m (e # ?zs)" using ring_rotate [of m "h # xs" "e # ys"] assms by simp
  then obtain m' where m': "raw_list_del (last ?zs) (hd ?zs) m = Inr m'" "ring m' ?zs" "only (set ?zs) m m'"
    using raw_list_del_ring [OF r] by auto
  moreover have "get_prev e m = Inr (last ?zs)" "get_next e m = Inr (hd ?zs)" "e \<notin> set ?zs"
    using ring_ConsD [OF r] by auto
  moreover have "ring m' (h # xs @ ys)" using ring_rotate [of m' ys "h # xs"] m'(2) by simp
  moreover have "only (set (h # xs @ ys)) m m'" using m'(3) by (simp add: Un_commute)
  ultimately show ?thesis by (auto simp: raw_list_del_entry_def only_def)
qed

lemma list_del_ring:
  assumes "is_list m h (xs @ e # ys)"
  shows "\<exists>m'. list_del e m = Inr m' \<and> is_list m' h (xs @ ys) \<and>
    m' e = Some \<lparr>lh_next = LIST_POISON1, lh_prev = LIST_POISON2\<rparr> \<and> only (set (h # xs @ e # ys)) m m'"
proof -
  obtain m1 p n where m1: "get_prev e m = Inr p" "get_next e m = Inr n" "raw_list_del p n m = Inr m1"
      "is_list m1 h (xs @ ys)" "m1 e = m e" "only (set (h # xs @ ys)) m m1"
    using raw_list_del_entry_ring [OF assms] by blast
  have e: "e \<in> dom m1" "e \<notin> set (h # xs @ ys)" using assms m1(5) ring_dom [OF assms, of e] by (auto simp: ring_def)
  let ?m = "upd_prev e LIST_POISON2 (upd_next e LIST_POISON1 m1)"
  have "list_del e m = Inr ?m" using m1 e by (simp add: list_del_def)
  moreover have o: "only {e} m1 ?m" by simp
  moreover have "is_list ?m h (xs @ ys)" using only_ring [OF o] e m1(4) by auto
  moreover have "?m e = Some \<lparr>lh_next = LIST_POISON1, lh_prev = LIST_POISON2\<rparr>"
    using e(1) by (auto simp: upd_next_def upd_prev_def split: option.split)
  moreover have "only (set (h # xs @ e # ys)) m ?m" by (rule only_mono [OF only_trans [OF m1(6) o]]) auto
  ultimately show ?thesis by blast
qed

lemma list_del_init_ring:
  assumes "is_list m h (xs @ e # ys)"
  shows "\<exists>m'. list_del_init e m = Inr m' \<and> is_list m' h (xs @ ys) \<and> ring m' [e] \<and> only (set (h # xs @ e # ys)) m m'"
proof -
  obtain m1 where m1: "raw_list_del_entry e m = Inr m1"
      "is_list m1 h (xs @ ys)" "m1 e = m e" "only (set (h # xs @ ys)) m m1"
    using raw_list_del_entry_ring [OF assms] by blast
  have e: "e \<in> dom m1" "e \<notin> set (h # xs @ ys)" using assms m1(3) ring_dom [OF assms, of e] by (auto simp: ring_def)
  obtain m' where m': "INIT_LIST_HEAD e m1 = Inr m'" "ring m' [e]" "only {e} m1 m'"
    using INIT_LIST_HEAD_ring [OF e(1)] by blast
  have "is_list m' h (xs @ ys)" using only_ring [OF m'(3)] e m1(2) by auto
  moreover have "only (set (h # xs @ e # ys)) m m'" by (rule only_mono [OF only_trans [OF m1(4) m'(3)]]) auto
  ultimately show ?thesis using m1(1) m' by (simp add: list_del_init_def)
qed

lemma list_replace_ring:
  assumes "ring m (old # zs)" and "new \<notin> set (old # zs)" and "new \<in> dom m"
  shows "\<exists>m'. list_replace old new m = Inr m' \<and> ring m' (new # zs) \<and> only (set (new # old # zs)) m m'"
proof (cases "zs = []")
  case True
  then have f: "nx m old = Some old" "pv m old = Some old" "old \<in> dom m"
    using assms(1) ring_dom [OF assms(1)] by (auto simp: ring_def adj_def)
  then show ?thesis using assms True by (simp add: list_replace_def ring_def adj_def)
next
  case False
  note f = ring_ConsD [OF assms(1) False]
  let ?m = "upd_next (last zs) new (upd_prev new (last zs) (upd_prev (hd zs) new (upd_next new (hd zs) m)))"
  have out: "hd zs \<noteq> old" "last zs \<noteq> old" "hd zs \<noteq> new" "last zs \<noteq> new" "old \<noteq> new"
    using f(5) assms(2) False by auto
  have "list_replace old new m = Inr ?m" using f assms out by (simp add: list_replace_def)
  moreover have "ring ?m ([new] @ zs)"
    using f assms False out by (intro ring_join [where m = m]) auto
  moreover have "only (set (new # old # zs)) m ?m" using False by simp
  ultimately show ?thesis by auto
qed

lemma list_replace_init_ring:
  assumes "ring m (old # zs)" and "new \<notin> set (old # zs)" and "new \<in> dom m"
  shows "\<exists>m'. list_replace_init old new m = Inr m' \<and> ring m' (new # zs) \<and> ring m' [old] \<and> only (set (new # old # zs)) m m'"
proof -
  obtain m1 where m1: "list_replace old new m = Inr m1" "ring m1 (new # zs)" "only (set (new # old # zs)) m m1"
    using list_replace_ring [OF assms] by blast
  have "old \<in> dom m1" using m1(3) ring_dom [OF assms(1)] by (simp add: only_def)
  then obtain m' where m': "INIT_LIST_HEAD old m1 = Inr m'" "ring m' [old]" "only {old} m1 m'"
    using INIT_LIST_HEAD_ring by blast
  have "old \<notin> set (new # zs)" using assms by (auto simp: ring_def)
  then have "ring m' (new # zs)" using only_ring [OF m'(3), of "new # zs"] m1(2) by simp
  moreover have "only (set (new # old # zs)) m m'" by (rule only_mono [OF only_trans [OF m1(3) m'(3)]]) auto
  ultimately show ?thesis using m1(1) m' by (simp add: list_replace_init_def)
qed

text \<open>An entry moves from one list to another.\<close>

lemma list_move_ring:
  assumes "is_list m h (xs @ e # ys)" and "is_list m k zs" and "set (h # xs @ e # ys) \<inter> set (k # zs) = {}"
  shows "\<exists>m'. list_move e k m = Inr m' \<and> is_list m' h (xs @ ys) \<and> is_list m' k (e # zs)"
    and "\<exists>m'. list_move_tail e k m = Inr m' \<and> is_list m' h (xs @ ys) \<and> is_list m' k (zs @ [e])"
proof -
  obtain m1 where m1: "raw_list_del_entry e m = Inr m1" "is_list m1 h (xs @ ys)" "m1 e = m e" "only (set (h # xs @ ys)) m m1"
    using raw_list_del_entry_ring [OF assms(1)] by blast
  have e: "e \<in> dom m1" "e \<notin> set (h # xs @ ys)" "e \<notin> set (k # zs)"
    using assms(1,3) m1(3) ring_dom [OF assms(1), of e] by (auto simp: ring_def)
  have k: "is_list m1 k zs" using only_ring [OF m1(4), of "k # zs"] assms(2,3) by auto
  have keep: "is_list m2 h (xs @ ys)" if "only (set (k # e # zs)) m1 m2" for m2
    using only_ring [OF that, of "h # xs @ ys"] assms(3) e(2) m1(2) by auto
  show "\<exists>m'. list_move e k m = Inr m' \<and> is_list m' h (xs @ ys) \<and> is_list m' k (e # zs)"
    using list_add_ring [OF k e(3,1)] keep m1(1) by (auto simp: list_move_def)
  show "\<exists>m'. list_move_tail e k m = Inr m' \<and> is_list m' h (xs @ ys) \<and> is_list m' k (zs @ [e])"
    using list_add_tail_ring [OF k e(3,1)] keep m1(1) by (auto simp: list_move_tail_def)
qed

lemma list_tests:
  assumes "is_list m h xs"
  shows "list_empty h m = Inr (xs = [])"
    and "list_empty_careful h m = Inr (xs = [])"
    and "list_is_singular h m = Inr (length xs = 1)"
    and "e \<in> set xs \<Longrightarrow> list_is_last e h m = Inr (e = last xs)"
proof -
  have h: "nx m h = Some (hd (xs @ [h]))" "pv m h = Some (last (h # xs))"
    using assms by (cases xs; auto simp: ring_def adj_def)+
  have out: "h \<notin> set xs" "distinct xs" using assms by (auto simp: ring_def)
  then have hd: "hd (xs @ [h]) = h \<longleftrightarrow> xs = []" by (cases xs) auto
  show e: "list_empty h m = Inr (xs = [])" using h hd by (simp add: list_empty_def)
  show "list_empty_careful h m = Inr (xs = [])" using h hd by (auto simp: list_empty_careful_def)
  have "xs \<noteq> [] \<Longrightarrow> hd (xs @ [h]) = last (h # xs) \<longleftrightarrow> length xs = 1"
    using out by (cases xs) auto
  then show "list_is_singular h m = Inr (length xs = 1)" using h e by (auto simp: list_is_singular_def)
  assume "e \<in> set xs"
  then obtain ys zs where xs: "xs = ys @ e # zs" using split_list by metis
  then have "ring m (e # zs @ h # ys)" using ring_rotate [of m "h # ys" "e # zs"] assms by simp
  then have "nx m e = Some (hd (zs @ h # ys))" by (rule ring_ConsD) simp
  moreover have "hd (zs @ h # ys) = h \<longleftrightarrow> e = last xs" using out xs by (cases zs) (auto dest: last_in_set)
  ultimately show "list_is_last e h m = Inr (e = last xs)" by (simp add: list_is_last_def)
qed

lemma list_rotate_left_ring:
  assumes "is_list m h xs"
  shows "\<exists>m'. list_rotate_left h m = Inr m' \<and> is_list m' h (rotate1 xs) \<and> only (set (h # xs)) m m'"
proof (cases xs)
  case Nil
  then show ?thesis using list_tests(1) [OF assms] assms by (simp add: list_rotate_left_def)
next
  case (Cons e ys)
  have n: "nx m h = Some e" using assms Cons by (simp add: ring_def adj_def)
  obtain m1 where m1: "raw_list_del_entry e m = Inr m1" "is_list m1 h ys" "m1 e = m e" "only (set (h # ys)) m m1"
    using raw_list_del_entry_ring [of m h "[]" e ys] assms Cons by auto
  have "e \<in> dom m1" "e \<notin> set (h # ys)" using assms Cons m1(3) ring_dom [OF assms, of e] by (auto simp: ring_def)
  then obtain m' where m': "list_add_tail e h m1 = Inr m'" "is_list m' h (ys @ [e])" "only (set (h # e # ys)) m1 m'"
    using list_add_tail_ring [OF m1(2)] by blast
  moreover have "only (set (h # xs)) m m'"
    by (rule only_mono [OF only_trans [OF m1(4) m'(3)]]) (auto simp: Cons)
  ultimately show ?thesis
    using n m1 Cons list_tests(1) [OF assms] by (simp add: list_rotate_left_def list_move_tail_def)
qed

subsection \<open>Joining and cutting\<close>

lemma raw_list_splice_ring:
  assumes "is_list m l xs" and "xs \<noteq> []" and "ring m zs" and "set (l # xs) \<inter> set zs = {}"
  shows "\<exists>m'. raw_list_splice l (last zs) (hd zs) m = Inr m' \<and> ring m' (xs @ zs) \<and> m' l = m l \<and>
    only (set (xs @ zs)) m m'"
proof -
  note f = ring_ConsD [OF assms(1,2)]
  have z: "zs \<noteq> []" "path m zs" "distinct zs" "hd zs \<in> dom m" "last zs \<in> dom m"
    using assms(3) ring_dom by (auto simp: ring_def)
  let ?m = "upd_prev (hd zs) (last xs) (upd_next (last xs) (hd zs) (upd_next (last zs) (hd xs) (upd_prev (hd xs) (last zs) m)))"
  have "raw_list_splice l (last zs) (hd zs) m = Inr ?m" using f z by (simp add: raw_list_splice_def)
  moreover have "hd zs \<notin> set (l # xs)" "last zs \<notin> set (l # xs)" using assms(4) z(1) hd_in_set last_in_set by blast+
  then have ne: "hd zs \<noteq> l" "last zs \<noteq> l" "hd zs \<noteq> hd xs" "last zs \<noteq> last xs" "hd xs \<noteq> l" "last xs \<noteq> l"
    using f(5) assms(2) hd_in_set [OF assms(2)] last_in_set [OF assms(2)] by auto
  moreover have "ring ?m (xs @ zs)"
    using f z assms ne by (intro ring_join [where m = m]) auto
  moreover have "only (set (xs @ zs)) m ?m" using z(1) assms(2) by simp
  ultimately show ?thesis by auto
qed

lemma list_splice_ring:
  assumes "is_list m l xs" and "is_list m h ys" and "set (l # xs) \<inter> set (h # ys) = {}"
  shows "\<exists>m'. list_splice l h m = Inr m' \<and> is_list m' h (xs @ ys)"
    and "\<exists>m'. list_splice_init l h m = Inr m' \<and> is_list m' h (xs @ ys) \<and> is_list m' l []"
proof -
  have e: "list_empty l m = Inr (xs = [])" using list_tests(1) [OF assms(1)] .
  have r: "ring m (ys @ [h])" using ring_rotate [of m "[h]" ys] assms(2) by simp
  have n: "nx m h = Some (hd (ys @ [h]))" using assms(2) by (cases ys) (auto simp: ring_def adj_def)
  have out: "l \<notin> set (h # xs @ ys)" using assms by (auto simp: ring_def)
  have "\<exists>m'. raw_list_splice l h (hd (ys @ [h])) m = Inr m' \<and> is_list m' h (xs @ ys) \<and> l \<in> dom m'" if ne: "xs \<noteq> []"
  proof -
    obtain m' where m': "raw_list_splice l h (hd (ys @ [h])) m = Inr m'" "ring m' ((xs @ ys) @ [h])" "m' l = m l"
      using raw_list_splice_ring [OF assms(1) ne r] assms(3) by auto
    moreover have "l \<in> dom m" using ring_dom [OF assms(1)] by simp
    ultimately show ?thesis using ring_rotate [OF m'(2)] by auto
  qed
  note sp = this
  show "\<exists>m'. list_splice l h m = Inr m' \<and> is_list m' h (xs @ ys)"
    using e n sp assms by (cases "xs = []") (auto simp: list_splice_def)
  show "\<exists>m'. list_splice_init l h m = Inr m' \<and> is_list m' h (xs @ ys) \<and> is_list m' l []"
  proof (cases "xs = []")
    case False
    then obtain m1 where m1: "raw_list_splice l h (hd (ys @ [h])) m = Inr m1" "is_list m1 h (xs @ ys)" "l \<in> dom m1"
      using sp by blast
    obtain m' where m': "INIT_LIST_HEAD l m1 = Inr m'" "ring m' [l]" "only {l} m1 m'"
      using INIT_LIST_HEAD_ring [OF m1(3)] by blast
    have "is_list m' h (xs @ ys)" using only_ring [OF m'(3), of "h # xs @ ys"] m1(2) out by simp
    then show ?thesis using e n m1 m' False by (simp add: list_splice_init_def)
  qed (use assms e in \<open>simp add: list_splice_init_def\<close>)
qed

lemma list_splice_tail_ring:
  assumes "is_list m l xs" and "is_list m h ys" and "set (l # xs) \<inter> set (h # ys) = {}"
  shows "\<exists>m'. list_splice_tail l h m = Inr m' \<and> is_list m' h (ys @ xs)"
    and "\<exists>m'. list_splice_tail_init l h m = Inr m' \<and> is_list m' h (ys @ xs) \<and> is_list m' l []"
proof -
  have e: "list_empty l m = Inr (xs = [])" using list_tests(1) [OF assms(1)] .
  have p: "pv m h = Some (last (h # ys))" using assms(2) by (auto simp: ring_def adj_def)
  have out: "l \<notin> set (h # ys @ xs)" using assms by (auto simp: ring_def)
  have "\<exists>m'. raw_list_splice l (last (h # ys)) h m = Inr m' \<and> is_list m' h (ys @ xs) \<and> l \<in> dom m'" if ne: "xs \<noteq> []"
  proof -
    obtain m' where m': "raw_list_splice l (last (h # ys)) h m = Inr m'" "ring m' (xs @ h # ys)" "m' l = m l"
      using raw_list_splice_ring [OF assms(1) ne assms(2,3)] by auto
    moreover have "l \<in> dom m" using ring_dom [OF assms(1)] by simp
    ultimately show ?thesis using ring_rotate [OF m'(2)] by auto
  qed
  note sp = this
  show "\<exists>m'. list_splice_tail l h m = Inr m' \<and> is_list m' h (ys @ xs)"
    using e p sp assms by (cases "xs = []") (auto simp: list_splice_tail_def)
  show "\<exists>m'. list_splice_tail_init l h m = Inr m' \<and> is_list m' h (ys @ xs) \<and> is_list m' l []"
  proof (cases "xs = []")
    case False
    then obtain m1 where m1: "raw_list_splice l (last (h # ys)) h m = Inr m1" "is_list m1 h (ys @ xs)" "l \<in> dom m1"
      using sp by blast
    obtain m' where m': "INIT_LIST_HEAD l m1 = Inr m'" "ring m' [l]" "only {l} m1 m'"
      using INIT_LIST_HEAD_ring [OF m1(3)] by blast
    have "is_list m' h (ys @ xs)" using only_ring [OF m'(3), of "h # ys @ xs"] m1(2) out by simp
    then show ?thesis using e p m1 m' False by (simp add: list_splice_tail_init_def)
  qed (use assms e in \<open>simp add: list_splice_tail_init_def\<close>)
qed

lemma raw_list_cut_position_ring:
  assumes r: "is_list m h (xs @ e # ys)" and "l \<notin> set (h # xs @ e # ys)" and "l \<in> dom m"
  shows "\<exists>m'. raw_list_cut_position l h e m = Inr m' \<and> is_list m' l (xs @ [e]) \<and> is_list m' h ys"
proof -
  let ?f = "hd (xs @ [e])" and ?n = "hd (ys @ [h])"
  have p: "path m (xs @ [e])" "path m ys" and d: "distinct (h # xs @ e # ys)" and n: "nx m h = Some ?f" "pv m ?f = Some h"
    using r path_append [of m "h # xs @ [e]" ys] path_append [of m "[h]" "xs @ [e]"]
    by (auto simp: ring_def adj_def hd_append)
  have "ring m (e # ys @ h # xs)" using ring_rotate [of m "h # xs" "e # ys"] r by simp
  then have e: "nx m e = Some ?n" using ring_ConsD(1) [of m e "ys @ h # xs"] by (cases ys) auto
  have dom_m: "h \<in> dom m" "e \<in> dom m" "?f \<in> dom m" "?n \<in> dom m"
    using ring_dom [OF r] by (cases xs; cases ys; auto)+
  let ?m = "upd_prev ?n h (upd_next h ?n (upd_next e l (upd_prev l e (upd_prev ?f l (upd_next l ?f m)))))"
  have ne: "e \<noteq> l" "h \<noteq> l" "h \<noteq> e" "?f \<noteq> l" "?n \<noteq> l" "?f \<noteq> ?n" "?f \<noteq> h" "?n \<noteq> e"
    using assms(2) d by (cases xs; cases ys; auto)+
  have "raw_list_cut_position l h e m = Inr ?m"
    using n e dom_m ne assms(3) by (simp add: raw_list_cut_position_def)
  moreover have "ring ?m ([l] @ (xs @ [e]))"
    using p(1) d dom_m ne assms by (intro ring_join [where m = m]) (cases ys; auto)+
  moreover have "ring ?m (h # ys)"
  proof (cases "ys = []")
    case True then show ?thesis using dom_m ne assms(3) by (simp add: ring_def adj_def)
  next
    case False
    have nl: "last ys \<noteq> e" "last ys \<noteq> h" "last ys \<noteq> l" "e \<notin> set ys" "?f \<notin> set ys"
      using d assms(2) last_in_set [OF False] by (cases xs; auto)+
    have "nx m (last ys) = Some h" "pv m h = Some (last ys)" using r False by (simp_all add: ring_def adj_def)
    then have "ring ?m ([h] @ ys)"
      using p(2) d dom_m ne nl False assms(2,3) by (intro ring_join [where m = m]) auto
    then show ?thesis by simp
  qed
  ultimately show ?thesis by auto
qed

lemma list_cut_position_ring:
  assumes "is_list m h (xs @ ys)" and "is_list m l []" and "l \<notin> set (h # xs @ ys)" and e: "e = last (h # xs)"
  shows "\<exists>m'. list_cut_position l h e m = Inr m' \<and> is_list m' l xs \<and> is_list m' h ys"
proof -
  note t = list_tests [OF assms(1)]
  have n: "nx m h = Some (hd (xs @ ys @ [h]))"
    using assms(1) by (cases xs; cases ys) (auto simp: ring_def adj_def)
  show ?thesis
  proof (cases xs rule: rev_cases)
    case Nil
    obtain m' where m': "INIT_LIST_HEAD l m = Inr m'" "ring m' [l]" "only {l} m m'"
      using INIT_LIST_HEAD_ring [of l m] ring_dom [OF assms(2)] by auto
    have "is_list m' h ys" using only_ring [OF m'(3), of "h # ys"] assms(1,3) Nil by simp
    then show ?thesis using t n m' Nil assms(1,2) e by (cases "ys = []") (simp_all add: list_cut_position_def)
  next
    case (snoc zs c)
    have "h \<notin> set xs" using assms(1) by (simp add: ring_def)
    then have c: "c \<noteq> h" "e = c" using snoc e by auto
    moreover have "l \<in> dom m" using ring_dom [OF assms(2)] by simp
    then have "\<exists>m'. raw_list_cut_position l h c m = Inr m' \<and> is_list m' l (zs @ [c]) \<and> is_list m' h ys"
      using raw_list_cut_position_ring [of m h zs c ys l] assms(1,3) snoc by simp
    moreover have "length (xs @ ys) = 1 \<Longrightarrow> hd (xs @ ys @ [h]) = c" using snoc by (cases zs) auto
    ultimately show ?thesis using t n snoc by (auto simp: list_cut_position_def)
  qed
qed

section \<open>Iteration\<close>

text \<open>What a loop over the members of a HOL list does.\<close>

fun fold_body :: "('x \<Rightarrow> 'a \<Rightarrow> 'a flow res) \<Rightarrow> 'x list \<Rightarrow> 'a \<Rightarrow> 'a res" where
  "fold_body body [] st = Inr st"
| "fold_body body (x # xs) st =
     (case body x st of
        Inl e \<Rightarrow> Inl e
      | Inr fl \<Rightarrow> (case fl of Break st' \<Rightarrow> Inr st' | Continue st' \<Rightarrow> fold_body body xs st'))"

lemma cursor_loop_fold:
  assumes "I st" and "\<And>p. p \<in> set ps \<Longrightarrow> \<not> stop p" and "stop z"
    and "\<And>as p bs st. ps = as @ p # bs \<Longrightarrow> I st \<Longrightarrow> step p (fst st) = Inr (hd (bs @ [z]))"
    and "\<And>p st st'. p \<in> set ps \<Longrightarrow> I st \<Longrightarrow> body p st = Inr (Continue st') \<Longrightarrow> I st'"
  shows "cursor_loop stop step body (hd (ps @ [z])) st = Some (fold_body body ps st)"
  using assms
proof (induction ps arbitrary: st)
  case Nil then show ?case by (subst cursor_loop.simps) simp
next
  case (Cons p ps)
  have next_step: "step p (fst st') = Inr (hd (ps @ [z]))" if "I st'" for st'
    using Cons.prems(4) [of "[]" p ps st'] that by simp
  have rest: "cursor_loop stop step body (hd (ps @ [z])) st' = Some (fold_body body ps st')" if "I st'" for st'
  proof (rule Cons.IH [OF that])
    fix as q bs st2 assume "ps = as @ q # bs" "I st2"
    then show "step q (fst st2) = Inr (hd (bs @ [z]))" using Cons.prems(4) [of "p # as" q bs st2] by simp
  next
    fix q s1 s2 assume "q \<in> set ps" "I s1" "body q s1 = Inr (Continue s2)"
    then show "I s2" using Cons.prems(5) [of q s1 s2] by simp
  qed (use Cons.prems(2,3) in auto)
  have keep: "I st'" if "body p st = Inr (Continue st')" for st'
    using Cons.prems(5) [of p st st'] Cons.prems(1) that by simp
  show ?case
  proof (cases "body p st")
    case (Inr fl)
    then show ?thesis
      using Cons.prems(1,2) keep next_step rest by (subst cursor_loop.simps) (cases fl; simp)
  qed (use Cons.prems(2) in \<open>subst cursor_loop.simps; simp\<close>)
qed

lemma safe_loop_fold:
  assumes "R ps st" and "step (hd (ps @ [z])) (fst st) = Inr n" and "\<And>p. p \<in> set ps \<Longrightarrow> \<not> stop p" and "stop z"
    and "\<And>q ds st. R (q # ds) st \<Longrightarrow> step q (fst st) = Inr (hd (ds @ [z]))"
    and "\<And>st. R [] st \<Longrightarrow> \<exists>w. step z (fst st) = Inr w"
    and "\<And>as p bs st st'. ps = as @ p # bs \<Longrightarrow> R (p # bs) st \<Longrightarrow> body p st = Inr (Continue st') \<Longrightarrow> R bs st'"
  shows "safe_loop stop step body (hd (ps @ [z])) n st = Some (fold_body body ps st)"
  using assms(1-4,7)
proof (induction ps arbitrary: st n)
  case Nil then show ?case by (subst safe_loop.simps) simp
next
  case (Cons p ps)
  have n: "n = hd (ps @ [z])" using assms(5) [OF Cons.prems(1)] Cons.prems(2) by simp
  have rest: "\<exists>w. step n (fst st') = Inr w \<and> safe_loop stop step body n w st' = Some (fold_body body ps st')" if R: "R ps st'" for st'
  proof -
    obtain w where w: "step n (fst st') = Inr w"
      using assms(5) [of "hd ps" "tl ps" st'] assms(6) [of st'] R n by (cases ps) auto
    have "safe_loop stop step body (hd (ps @ [z])) w st' = Some (fold_body body ps st')"
    proof (rule Cons.IH [OF R])
      fix as q bs s1 s2 assume "ps = as @ q # bs" "R (q # bs) s1" "body q s1 = Inr (Continue s2)"
      then show "R bs s2" using Cons.prems(5) [of "p # as" q bs s1 s2] by simp
    qed (use w n Cons.prems(3,4) in auto)
    then show ?thesis using w n by blast
  qed
  show ?case
  proof (cases "body p st")
    case (Inr fl)
    then show ?thesis
      using Cons.prems(1,3) Cons.prems(5) [of "[]" p ps st] rest by (subst safe_loop.simps) (cases fl; fastforce)
  qed (use Cons.prems(3) in \<open>subst safe_loop.simps; simp\<close>)
qed

lemma ring_step:
  assumes "is_list m h (as @ p # bs)"
  shows "nx m p = Some (hd (bs @ [h]))" "pv m p = Some (last (h # as))"
proof -
  have "ring m (p # bs @ h # as)" using ring_rotate [of m "h # as" "p # bs"] assms by simp
  then have "nx m p = Some (hd (bs @ h # as))" "pv m p = Some (last (bs @ h # as))" by (rule ring_ConsD; simp)+
  then show "nx m p = Some (hd (bs @ [h]))" "pv m p = Some (last (h # as))" by (cases bs; simp)+
qed

lemma ring_ends:
  assumes "is_list m h xs"
  shows "nx m h = Some (hd (xs @ [h]))" "pv m h = Some (hd (rev xs @ [h]))"
  using assms by (cases xs; auto simp: ring_def adj_def hd_append hd_rev)+

text \<open>The four plain loops visit the entries in order, or in reverse order, and end, for any body that
  keeps the list.\<close>

lemma list_for_each_fold:
  assumes "is_list m h xs"
    and "\<And>p st st'. p \<in> set xs \<Longrightarrow> is_list (fst st) h xs \<Longrightarrow> body p st = Inr (Continue st') \<Longrightarrow> is_list (fst st') h xs"
  shows "list_for_each body h (m, s) = Some (fold_body body xs (m, s))"
    and "list_for_each_prev body h (m, s) = Some (fold_body body (rev xs) (m, s))"
proof -
  have h: "h \<notin> set xs" using assms(1) by (simp add: ring_def)
  have "cursor_loop (\<lambda>p. p = h) get_next body (hd (xs @ [h])) (m, s) = Some (fold_body body xs (m, s))"
    by (rule cursor_loop_fold [where I = "\<lambda>st. is_list (fst st) h xs"]) (use assms h in \<open>auto simp: ring_step\<close>)
  then show "list_for_each body h (m, s) = Some (fold_body body xs (m, s))"
    using ring_ends [OF assms(1)] by (simp add: list_for_each_def run_loop_def)
  have "get_prev p (fst st) = Inr (hd (bs @ [h]))" if "rev xs = as @ p # bs" "is_list (fst st) h xs" for as p bs and st :: "list_mem \<times> 'a"
  proof -
    have "xs = rev bs @ p # rev as" using that(1) by (simp add: rev_eq_append_conv)
    then show ?thesis using ring_step(2) [of "fst st" h "rev bs" p "rev as"] that(2)
      by (cases bs) auto
  qed
  then have "cursor_loop (\<lambda>p. p = h) get_prev body (hd (rev xs @ [h])) (m, s) = Some (fold_body body (rev xs) (m, s))"
    by (intro cursor_loop_fold [where I = "\<lambda>st. is_list (fst st) h xs"]) (use assms h in auto)
  then show "list_for_each_prev body h (m, s) = Some (fold_body body (rev xs) (m, s))"
    using ring_ends [OF assms(1)] by (simp add: list_for_each_prev_def run_loop_def)
qed

text \<open>The structs that have their list node at offset \<open>off\<close>.\<close>

abbreviation nodes_at :: "u64 \<Rightarrow> u64 list \<Rightarrow> u64 list" where
  "nodes_at off ps \<equiv> map (\<lambda>p. p + off) ps"

lemma nodes_at_hd: "hd (nodes_at off ps @ [h]) - off = hd (ps @ [h - off])"
  by (cases ps) auto

lemma list_for_each_entry_fold:
  assumes "is_list m h (nodes_at off ps)"
    and "\<And>p st st'. p \<in> set ps \<Longrightarrow> is_list (fst st) h (nodes_at off ps) \<Longrightarrow> body p st = Inr (Continue st') \<Longrightarrow>
      is_list (fst st') h (nodes_at off ps)"
  shows "list_for_each_entry off body h (m, s) = Some (fold_body body ps (m, s))"
    and "list_for_each_entry_reverse off body h (m, s) = Some (fold_body body (rev ps) (m, s))"
proof -
  let ?I = "\<lambda>st :: list_mem \<times> 'a. is_list (fst st) h (nodes_at off ps)"
  have h: "p + off \<noteq> h" if "p \<in> set ps" for p using assms(1) that by (auto simp: ring_def)
  have "list_next_entry p off (fst st) = Inr (hd (bs @ [h - off]))" if "ps = as @ p # bs" "?I st" for as p bs st
    using ring_step(1) [of "fst st" h "nodes_at off as" "p + off" "nodes_at off bs"] that
    by (simp add: list_next_entry_def list_entry_def nodes_at_hd)
  then have "cursor_loop (\<lambda>p. p + off = h) (\<lambda>p. list_next_entry p off) body (hd (ps @ [h - off])) (m, s) =
      Some (fold_body body ps (m, s))"
    by (intro cursor_loop_fold [where I = ?I]) (use assms h in auto)
  then show "list_for_each_entry off body h (m, s) = Some (fold_body body ps (m, s))"
    using ring_ends [OF assms(1)]
    by (simp add: list_for_each_entry_def list_first_entry_def list_entry_def run_loop_def nodes_at_hd)
  have "list_prev_entry p off (fst st) = Inr (hd (bs @ [h - off]))" if "rev ps = as @ p # bs" "?I st" for as p bs st
  proof -
    have "ps = rev bs @ p # rev as" using that(1) by (simp add: rev_eq_append_conv)
    then show ?thesis
      using ring_step(2) [of "fst st" h "nodes_at off (rev bs)" "p + off" "nodes_at off (rev as)"] that(2)
      by (cases bs) (auto simp: list_prev_entry_def list_entry_def)
  qed
  then have "cursor_loop (\<lambda>p. p + off = h) (\<lambda>p. list_prev_entry p off) body (hd (rev ps @ [h - off])) (m, s) =
      Some (fold_body body (rev ps) (m, s))"
    by (intro cursor_loop_fold [where I = ?I]) (use assms h in auto)
  then show "list_for_each_entry_reverse off body h (m, s) = Some (fold_body body (rev ps) (m, s))"
    using ring_ends(2) [OF assms(1)] nodes_at_hd [of off "rev ps" h]
    by (simp add: list_for_each_entry_reverse_def list_last_entry_def list_entry_def run_loop_def rev_map)
qed

text \<open>The body of a safe loop may unlink or free the entry it is at: it only has to leave the later
  entries and the head where they are.\<close>

lemma list_for_each_entry_safe_fold:
  assumes "is_list m h (nodes_at off ps)"
    and keep: "\<And>as p bs st st'. ps = as @ p # bs \<Longrightarrow> body p st = Inr (Continue st') \<Longrightarrow> h \<in> dom (fst st) \<Longrightarrow>
      h \<in> dom (fst st') \<and> (\<forall>q \<in> set bs. nx (fst st') (q + off) = nx (fst st) (q + off))"
  shows "list_for_each_entry_safe off body h (m, s) = Some (fold_body body ps (m, s))"
proof -
  let ?R = "\<lambda>bs st :: list_mem \<times> 'a. h \<in> dom (fst st) \<and>
    (\<forall>cs q ds. bs = cs @ q # ds \<longrightarrow> nx (fst st) (q + off) = Some (hd (nodes_at off ds @ [h])))"
  have h: "p + off \<noteq> h" if "p \<in> set ps" for p using assms(1) that by (auto simp: ring_def)
  have "nx m (q + off) = Some (hd (nodes_at off ds @ [h]))" if "ps = cs @ q # ds" for cs q ds
    using ring_step(1) [of m h "nodes_at off cs" "q + off" "nodes_at off ds"] assms(1) that by simp
  then have R: "?R ps (m, s)" using ring_dom [OF assms(1), of h] by simp
  obtain n where n: "list_next_entry (hd (ps @ [h - off])) off m = Inr n"
    using ring_step(1) [of m h "[]" "hd ps + off" "nodes_at off (tl ps)"] ring_ends(1) [OF assms(1)] assms(1)
    by (cases ps) (auto simp: list_next_entry_def)
  have "safe_loop (\<lambda>p. p + off = h) (\<lambda>p. list_next_entry p off) body (hd (ps @ [h - off])) n (m, s) =
      Some (fold_body body ps (m, s))"
  proof (rule safe_loop_fold [where R = ?R and z = "h - off"])
    fix q ds and st :: "list_mem \<times> 'a" assume "?R (q # ds) st"
    then have "nx (fst st) (q + off) = Some (hd (nodes_at off ds @ [h]))" by (metis append_Nil)
    then show "list_next_entry q off (fst st) = Inr (hd (ds @ [h - off]))"
      by (simp add: list_next_entry_def list_entry_def nodes_at_hd)
  next
    fix st :: "list_mem \<times> 'a" assume "?R [] st"
    then show "\<exists>w. list_next_entry (h - off) off (fst st) = Inr w"
      by (auto simp: list_next_entry_def get_next_def)
  next
    fix as p bs st st' assume a: "ps = as @ p # bs" "?R (p # bs) st" "body p st = Inr (Continue st')"
    have "nx (fst st) (q + off) = Some (hd (nodes_at off ds @ [h]))" if "bs = cs @ q # ds" for cs q ds
      using a(2) that by (metis append_Cons)
    then show "?R bs st'" using keep [OF a(1,3)] a(2) by simp
  qed (use R n h in auto)
  then show ?thesis
    using ring_ends(1) [OF assms(1)] n
    by (simp add: list_for_each_entry_safe_def list_first_entry_def list_entry_def run_loop_def nodes_at_hd)
qed

lemma list_for_each_safe_entry:
  "list_for_each_safe body h st = list_for_each_entry_safe 0 body h st"
proof -
  have "(\<lambda>p. list_next_entry p 0) = get_next" "list_first_entry h 0 = get_next h"
    by (simp_all add: fun_eq_iff list_next_entry_def list_first_entry_def list_entry_def bindR_def split: sum.split)
  then show ?thesis by (simp add: list_for_each_safe_def list_for_each_entry_safe_def) (metis)
qed

section \<open>Sequences of insertions and deletions\<close>

text \<open>
  The interface of an intrusive list: a memory represents a sequence of structs, a struct that is
  not in the sequence can be inserted, one that is can be deleted. \<open>spare m x\<close> says that the
  struct \<open>x\<close> is allocated, in or out of the list. Every run of insertions and deletions that
  makes sense on the sequence is then carried out without a fault.
\<close>

datatype 'a cmd = Add 'a | Del 'a

fun seq_run :: "('a \<Rightarrow> 'a list \<Rightarrow> 'a list) \<Rightarrow> 'a cmd list \<Rightarrow> 'a list \<Rightarrow> 'a list option" where
  "seq_run ins [] xs = Some xs"
| "seq_run ins (Add x # cs) xs = (if x \<in> set xs then None else seq_run ins cs (ins x xs))"
| "seq_run ins (Del x # cs) xs = (if x \<in> set xs then seq_run ins cs (remove1 x xs) else None)"

fun mem_run :: "('a \<Rightarrow> 'm \<Rightarrow> 'm res) \<Rightarrow> ('a \<Rightarrow> 'm \<Rightarrow> 'm res) \<Rightarrow> 'a cmd list \<Rightarrow> 'm \<Rightarrow> 'm res" where
  "mem_run add del [] m = Inr m"
| "mem_run add del (Add x # cs) m = bindR (add x m) (mem_run add del cs)"
| "mem_run add del (Del x # cs) m = bindR (del x m) (mem_run add del cs)"

locale entry_seq =
  fixes rep :: "'m \<Rightarrow> 'a list \<Rightarrow> bool"
    and spare :: "'m \<Rightarrow> 'a \<Rightarrow> bool"
    and ins :: "'a \<Rightarrow> 'a list \<Rightarrow> 'a list"
    and add :: "'a \<Rightarrow> 'm \<Rightarrow> 'm res"
    and del :: "'a \<Rightarrow> 'm \<Rightarrow> 'm res"
  assumes add_rep: "rep m xs \<Longrightarrow> x \<notin> set xs \<Longrightarrow> spare m x \<Longrightarrow>
      \<exists>m'. add x m = Inr m' \<and> rep m' (ins x xs) \<and> (\<forall>y. spare m y \<longrightarrow> spare m' y)"
    and del_rep: "rep m (xs @ x # ys) \<Longrightarrow>
      \<exists>m'. del x m = Inr m' \<and> rep m' (xs @ ys) \<and> (\<forall>y. spare m y \<longrightarrow> spare m' y)"
    and rep_distinct: "rep m xs \<Longrightarrow> distinct xs"
begin

lemma del_remove1:
  assumes "rep m xs" and "x \<in> set xs"
  shows "\<exists>m'. del x m = Inr m' \<and> rep m' (remove1 x xs) \<and> (\<forall>y. spare m y \<longrightarrow> spare m' y)"
proof -
  obtain as bs where "xs = as @ x # bs" "x \<notin> set as" using split_list_first [OF assms(2)] by blast
  then show ?thesis using del_rep [of m as x bs] assms(1) by (simp add: remove1_append)
qed

lemma run_refines:
  assumes "rep m xs" and "seq_run ins cs xs = Some ys" and "\<forall>x. Add x \<in> set cs \<longrightarrow> spare m x"
  shows "\<exists>m'. mem_run add del cs m = Inr m' \<and> rep m' ys"
  using assms
proof (induction cs arbitrary: m xs)
  case (Cons c cs)
  show ?case
  proof (cases c)
    case (Add x)
    then obtain m' where "add x m = Inr m'" "rep m' (ins x xs)" "\<forall>y. spare m y \<longrightarrow> spare m' y"
      using add_rep [of m xs x] Cons.prems by (auto split: if_splits)
    then show ?thesis using Cons.IH [of m' "ins x xs"] Cons.prems Add by (auto split: if_splits)
  next
    case (Del x)
    then obtain m' where "del x m = Inr m'" "rep m' (remove1 x xs)" "\<forall>y. spare m y \<longrightarrow> spare m' y"
      using del_remove1 [of m xs x] Cons.prems by (auto split: if_splits)
    then show ?thesis using Cons.IH [of m' "remove1 x xs"] Cons.prems Del by (auto split: if_splits)
  qed
qed simp

end

abbreviation queue_rep :: "u64 \<Rightarrow> u64 \<Rightarrow> list_mem \<Rightarrow> u64 list \<Rightarrow> bool" where
  "queue_rep h off m ps \<equiv> is_list m h (nodes_at off ps)"

abbreviation spare_entry :: "u64 \<Rightarrow> u64 \<Rightarrow> list_mem \<Rightarrow> u64 \<Rightarrow> bool" where
  "spare_entry h off m p \<equiv> p + off \<in> dom m \<and> p + off \<noteq> h"

interpretation tailq: entry_seq "queue_rep h off" "spare_entry h off" "\<lambda>x xs. xs @ [x]"
  "\<lambda>p. list_add_tail (p + off) h" "\<lambda>p. list_del (p + off)" for h off
proof unfold_locales
  fix m ps p assume "queue_rep h off m ps" "p \<notin> set ps" "spare_entry h off m p"
  then show "\<exists>m'. list_add_tail (p + off) h m = Inr m' \<and> queue_rep h off m' (ps @ [p]) \<and>
      (\<forall>y. spare_entry h off m y \<longrightarrow> spare_entry h off m' y)"
    using list_add_tail_ring [of m h "nodes_at off ps" "p + off"] by (fastforce simp: only_def)
next
  fix m as p bs assume "queue_rep h off m (as @ p # bs)"
  then show "\<exists>m'. list_del (p + off) m = Inr m' \<and> queue_rep h off m' (as @ bs) \<and>
      (\<forall>y. spare_entry h off m y \<longrightarrow> spare_entry h off m' y)"
    using list_del_ring [of m h "nodes_at off as" "p + off" "nodes_at off bs"] by (auto simp: only_def)
next
  fix m ps assume "queue_rep h off m ps"
  then have "distinct (nodes_at off ps)" by (simp add: ring_def)
  then show "distinct ps" by (simp add: distinct_map)
qed

text \<open>A node that has been deleted cannot be deleted again: the poison values are not addresses of
  nodes.\<close>

lemma list_del_twice:
  assumes "is_list m h (xs @ e # ys)" and "LIST_POISON1 \<notin> dom m"
  shows "bindR (list_del e m) (list_del e) = Inl UB"
proof -
  obtain m' where m': "list_del e m = Inr m'" "m' e = Some \<lparr>lh_next = LIST_POISON1, lh_prev = LIST_POISON2\<rparr>"
      "only (set (h # xs @ e # ys)) m m'"
    using list_del_ring [OF assms(1)] by blast
  have "LIST_POISON1 \<notin> dom m'" using m'(3) assms(2) by (simp add: only_def)
  moreover have "get_prev e m' = Inr LIST_POISON2" "get_next e m' = Inr LIST_POISON1"
    using m'(2) by (simp_all add: get_prev_def get_next_def)
  ultimately show ?thesis using m'(1) by (simp add: list_del_def raw_list_del_def)
qed

section \<open>Properties of the lists\<close>

text \<open>A walk that notes the structs it sees.\<close>

definition collect :: "('m, u64 list) body" where
  "collect p st = Inr (Continue (fst st, snd st @ [p]))"

lemma collect_fold: "fold_body collect ps (m, s) = Inr (m, s @ ps)"
  by (induction ps arbitrary: s) (simp_all add: collect_def)

lemma collect_keeps: "collect p st = Inr (Continue st') \<Longrightarrow> fst st' = fst st"
  by (auto simp: collect_def)

text \<open>A list of two structs with their nodes at offset 16, an unused struct, and an empty list.\<close>

definition demo_list :: list_mem where
  "demo_list = [0x100 \<mapsto> \<lparr>lh_next = 0x210, lh_prev = 0x310\<rparr>, 0x210 \<mapsto> \<lparr>lh_next = 0x310, lh_prev = 0x100\<rparr>,
     0x310 \<mapsto> \<lparr>lh_next = 0x100, lh_prev = 0x210\<rparr>, 0x410 \<mapsto> \<lparr>lh_next = 0, lh_prev = 0\<rparr>,
     0x500 \<mapsto> \<lparr>lh_next = 0x500, lh_prev = 0x500\<rparr>]"

lemma demo_list_is:
  "is_list demo_list 0x100 [0x210, 0x310]" "is_list demo_list 0x500 []" "0x410 \<in> dom demo_list"
  by (simp_all add: demo_list_def ring_def adj_def nx_def pv_def)

text \<open>C28: every sequence of \<open>list_add_tail\<close> and \<open>list_del\<close> that adds structs which are allocated and not
  on the list, and deletes structs which are on it, runs without a fault, and walking the list afterwards sees exactly the structs, in the order in which they were added,
  that a HOL list under appending and removing holds.\<close>

theorem list_run_refines:
  assumes "is_list m h (nodes_at off ps)" and "seq_run (\<lambda>x xs. xs @ [x]) cs ps = Some qs"
    and "\<forall>x. Add x \<in> set cs \<longrightarrow> x + off \<in> dom m \<and> x + off \<noteq> h"
  shows "\<exists>m'. mem_run (\<lambda>p. list_add_tail (p + off) h) (\<lambda>p. list_del (p + off)) cs m = Inr m' \<and>
    is_list m' h (nodes_at off qs) \<and> list_for_each_entry off collect h (m', []) = Some (Inr (m', qs))"
proof -
  obtain m' where m': "mem_run (\<lambda>p. list_add_tail (p + off) h) (\<lambda>p. list_del (p + off)) cs m = Inr m'"
      "is_list m' h (nodes_at off qs)"
    using tailq.run_refines [OF assms] by blast
  have "list_for_each_entry off collect h (m', []) = Some (fold_body collect qs (m', []))"
    by (rule list_for_each_entry_fold(1) [OF m'(2)]) (auto simp: collect_def)
  then show ?thesis using m' by (simp add: collect_fold)
qed

theorem list_run_refines_witness:
  "\<exists>m'. mem_run (\<lambda>p. list_add_tail (p + 16) 0x100) (\<lambda>p. list_del (p + 16)) [Del 0x200, Add 0x400, Add 0x200] demo_list = Inr m' \<and>
    list_for_each_entry 16 collect 0x100 (m', []) = Some (Inr (m', [0x300, 0x400, 0x200]))"
proof -
  have "is_list demo_list 0x100 (nodes_at 16 [0x200, 0x300])" using demo_list_is(1) by simp
  moreover have "seq_run (\<lambda>x xs. xs @ [x]) [Del 0x200, Add 0x400, Add 0x200] [0x200, 0x300 :: u64] = Some [0x300, 0x400, 0x200]" by simp
  ultimately show ?thesis
    using list_run_refines [of demo_list "0x100" 16 "[0x200, 0x300]" "[Del 0x200, Add 0x400, Add 0x200]" "[0x300, 0x400, 0x200]"]
    by (auto simp: demo_list_def)
qed

text \<open>C30: the loops \<open>list_for_each_entry\<close> and \<open>list_for_each_entry_reverse\<close> end, and run their body once for
  each struct on the list, in order or in reverse order, until it breaks or faults; this holds for
  every body that keeps the list as it is.\<close>

theorem list_walk_ends:
  assumes "is_list m h (nodes_at off ps)"
    and "\<forall>p st st'. p \<in> set ps \<longrightarrow> is_list (fst st) h (nodes_at off ps) \<longrightarrow> body p st = Inr (Continue st') \<longrightarrow>
      is_list (fst st') h (nodes_at off ps)"
  shows "list_for_each_entry off body h (m, s) = Some (fold_body body ps (m, s)) \<and>
    list_for_each_entry_reverse off body h (m, s) = Some (fold_body body (rev ps) (m, s))"
  using list_for_each_entry_fold [OF assms(1), of body s] assms(2) by blast

theorem list_walk_ends_witness:
  "list_for_each_entry 16 collect 0x100 (demo_list, []) = Some (Inr (demo_list, [0x200, 0x300])) \<and>
   list_for_each_entry_reverse 16 collect 0x100 (demo_list, []) = Some (Inr (demo_list, [0x300, 0x200]))"
proof -
  have l: "is_list demo_list 0x100 (nodes_at 16 [0x200, 0x300])" using demo_list_is(1) by simp
  have k: "\<forall>p st st'. p \<in> set [0x200, 0x300] \<longrightarrow> is_list (fst st) 0x100 (nodes_at 16 [0x200, 0x300]) \<longrightarrow>
      collect p st = Inr (Continue st') \<longrightarrow> is_list (fst st') 0x100 (nodes_at 16 [0x200, 0x300])"
    by (metis collect_keeps)
  show ?thesis using list_walk_ends [OF l k, of "[]"] by (simp add: collect_fold del: fold_body.simps)
qed

text \<open>\<open>list_cut_position\<close> moves the entries up to the given one to an empty list and leaves the rest;
  \<open>list_splice_init\<close> puts them back, so that both lists are what they were. The given entry may
  be the head itself, which moves nothing, or the last one, which moves all.\<close>

lemma cut_splice_round_trip:
  assumes "is_list m h (xs @ ys)" and "is_list m l []" and "l \<notin> set (h # xs @ ys)" and "e = last (h # xs)"
  shows "\<exists>m1 m2. list_cut_position l h e m = Inr m1 \<and> is_list m1 l xs \<and> is_list m1 h ys \<and>
    list_splice_init l h m1 = Inr m2 \<and> is_list m2 h (xs @ ys) \<and> is_list m2 l []"
proof -
  obtain m1 where m1: "list_cut_position l h e m = Inr m1" "is_list m1 l xs" "is_list m1 h ys"
    using list_cut_position_ring [OF assms] by blast
  have "set (l # xs) \<inter> set (h # ys) = {}" using assms(1,3) by (auto simp: ring_def)
  then show ?thesis using m1 list_splice_ring(2) [OF m1(2,3)] by blast
qed

lemma cut_splice_round_trip_witness:
  "\<exists>m1 m2. list_cut_position 0x500 0x100 0x210 demo_list = Inr m1 \<and> is_list m1 0x500 [0x210] \<and> is_list m1 0x100 [0x310] \<and>
    list_splice_init 0x500 0x100 m1 = Inr m2 \<and> is_list m2 0x100 [0x210, 0x310]"
  using cut_splice_round_trip [of demo_list "0x100" "[0x210]" "[0x310]" "0x500" "0x210"] demo_list_is by auto

end
