(* ===== verification/KernelHlist.thy ===== *)
theory KernelHlist
  imports KernelList
begin

text \<open>
  The lists with a single head pointer of \<open>include/linux/list.h\<close>, which the buckets of the
  client's address table are. A node points to the pointer that points to it: to the \<open>first\<close> of the
  head or to the \<open>next\<close> of the node before it. Such a pointer to a pointer names the field it points
  to, so that a write through it changes this field. \<open>is_hlist M h xs\<close> says that \<open>xs\<close> are
  the nodes behind the head \<open>h\<close>.
\<close>

section \<open>Nodes\<close>

datatype hlist_pp = PP_NULL | PP_first u64 | PP_next u64 | PP_poison

record hlist_node =
  hn_next :: u64
  hn_pprev :: hlist_pp

record hlist_mem =
  h_first :: "u64 \<Rightarrow> u64 option"
  h_node :: "u64 \<Rightarrow> hlist_node option"

definition get_pp :: "hlist_pp \<Rightarrow> hlist_mem \<Rightarrow> u64 res" where
  "get_pp pp M =
     (case pp of
        PP_first h \<Rightarrow> (case h_first M h of None \<Rightarrow> Inl UB | Some p \<Rightarrow> Inr p)
      | PP_next a \<Rightarrow> (case h_node M a of None \<Rightarrow> Inl UB | Some n \<Rightarrow> Inr (hn_next n))
      | PP_NULL \<Rightarrow> Inl UB
      | PP_poison \<Rightarrow> Inl UB)"

definition set_pp :: "hlist_pp \<Rightarrow> u64 \<Rightarrow> hlist_mem \<Rightarrow> hlist_mem res" where
  "set_pp pp v M =
     (case pp of
        PP_first h \<Rightarrow> guardR (h_first M h \<noteq> None) UB (Inr (M\<lparr>h_first := (h_first M)(h \<mapsto> v)\<rparr>))
      | PP_next a \<Rightarrow>
          (case h_node M a of None \<Rightarrow> Inl UB | Some n \<Rightarrow> Inr (M\<lparr>h_node := (h_node M)(a \<mapsto> n\<lparr>hn_next := v\<rparr>)\<rparr>))
      | PP_NULL \<Rightarrow> Inl UB
      | PP_poison \<Rightarrow> Inl UB)"

definition get_pprev :: "u64 \<Rightarrow> hlist_mem \<Rightarrow> hlist_pp res" where
  "get_pprev a M = (case h_node M a of None \<Rightarrow> Inl UB | Some n \<Rightarrow> Inr (hn_pprev n))"

definition set_pprev :: "u64 \<Rightarrow> hlist_pp \<Rightarrow> hlist_mem \<Rightarrow> hlist_mem res" where
  "set_pprev a pp M =
     (case h_node M a of None \<Rightarrow> Inl UB | Some n \<Rightarrow> Inr (M\<lparr>h_node := (h_node M)(a \<mapsto> n\<lparr>hn_pprev := pp\<rparr>)\<rparr>))"

section \<open>Operations\<close>

definition INIT_HLIST_HEAD :: "u64 \<Rightarrow> hlist_mem \<Rightarrow> hlist_mem res" where
  "INIT_HLIST_HEAD h = set_pp (PP_first h) 0"

definition INIT_HLIST_NODE :: "u64 \<Rightarrow> hlist_mem \<Rightarrow> hlist_mem res" where
  "INIT_HLIST_NODE n M = bindR (set_pp (PP_next n) 0 M) (set_pprev n PP_NULL)"

definition hlist_unhashed :: "u64 \<Rightarrow> hlist_mem \<Rightarrow> bool res" where
  "hlist_unhashed n M = bindR (get_pprev n M) (\<lambda>pp. Inr (pp = PP_NULL))"

definition hlist_empty :: "u64 \<Rightarrow> hlist_mem \<Rightarrow> bool res" where
  "hlist_empty h M = bindR (get_pp (PP_first h) M) (\<lambda>p. Inr (p = 0))"

definition raw_hlist_del :: "u64 \<Rightarrow> hlist_mem \<Rightarrow> hlist_mem res" where
  "raw_hlist_del n M =
     bindR (get_pp (PP_next n) M) (\<lambda>nxt.
     bindR (get_pprev n M) (\<lambda>pprev.
     bindR (set_pp pprev nxt M) (\<lambda>M.
     if nxt \<noteq> 0 then set_pprev nxt pprev M else Inr M)))"

definition hlist_del :: "u64 \<Rightarrow> hlist_mem \<Rightarrow> hlist_mem res" where
  "hlist_del n M =
     bindR (raw_hlist_del n M) (\<lambda>M.
     bindR (set_pp (PP_next n) LIST_POISON1 M) (\<lambda>M.
     set_pprev n PP_poison M))"

definition hlist_del_init :: "u64 \<Rightarrow> hlist_mem \<Rightarrow> hlist_mem res" where
  "hlist_del_init n M =
     bindR (hlist_unhashed n M) (\<lambda>u.
     if \<not> u then bindR (raw_hlist_del n M) (INIT_HLIST_NODE n) else Inr M)"

definition hlist_add_head :: "u64 \<Rightarrow> u64 \<Rightarrow> hlist_mem \<Rightarrow> hlist_mem res" where
  "hlist_add_head n h M =
     bindR (get_pp (PP_first h) M) (\<lambda>first.
     bindR (set_pp (PP_next n) first M) (\<lambda>M.
     bindR (if first \<noteq> 0 then set_pprev first (PP_next n) M else Inr M) (\<lambda>M.
     bindR (set_pp (PP_first h) n M) (\<lambda>M.
     set_pprev n (PP_first h) M))))"

definition hlist_add_before :: "u64 \<Rightarrow> u64 \<Rightarrow> hlist_mem \<Rightarrow> hlist_mem res" where
  "hlist_add_before n nxt M =
     bindR (get_pprev nxt M) (\<lambda>pp.
     bindR (set_pprev n pp M) (\<lambda>M.
     bindR (set_pp (PP_next n) nxt M) (\<lambda>M.
     bindR (set_pprev nxt (PP_next n) M) (\<lambda>M.
     bindR (get_pprev n M) (\<lambda>pp.
     set_pp pp n M)))))"

definition hlist_add_behind :: "u64 \<Rightarrow> u64 \<Rightarrow> hlist_mem \<Rightarrow> hlist_mem res" where
  "hlist_add_behind n prv M =
     bindR (get_pp (PP_next prv) M) (\<lambda>nxt.
     bindR (set_pp (PP_next n) nxt M) (\<lambda>M.
     bindR (set_pp (PP_next prv) n M) (\<lambda>M.
     bindR (set_pprev n (PP_next prv) M) (\<lambda>M.
     bindR (get_pp (PP_next n) M) (\<lambda>nxt.
     if nxt \<noteq> 0 then set_pprev nxt (PP_next n) M else Inr M)))))"

definition hlist_add_fake :: "u64 \<Rightarrow> hlist_mem \<Rightarrow> hlist_mem res" where
  "hlist_add_fake n = set_pprev n (PP_next n)"

definition hlist_move_list :: "u64 \<Rightarrow> u64 \<Rightarrow> hlist_mem \<Rightarrow> hlist_mem res" where
  "hlist_move_list old new M =
     bindR (get_pp (PP_first old) M) (\<lambda>first.
     bindR (set_pp (PP_first new) first M) (\<lambda>M.
     bindR (if first \<noteq> 0 then set_pprev first (PP_first new) M else Inr M) (\<lambda>M.
     set_pp (PP_first old) 0 M)))"

definition hlist_entry_safe :: "u64 \<Rightarrow> u64 \<Rightarrow> u64" where
  "hlist_entry_safe p off = (if p \<noteq> 0 then p - off else 0)"

definition hlist_next_entry :: "u64 \<Rightarrow> u64 \<Rightarrow> hlist_mem \<Rightarrow> u64 res" where
  "hlist_next_entry off pos M = bindR (get_pp (PP_next (pos + off)) M) (\<lambda>p. Inr (hlist_entry_safe p off))"

definition hlist_for_each_entry ::
    "u64 \<Rightarrow> (hlist_mem, 's) body \<Rightarrow> u64 \<Rightarrow> hlist_mem \<times> 's \<Rightarrow> (hlist_mem \<times> 's) res option" where
  "hlist_for_each_entry off body head st =
     run_loop (get_pp (PP_first head) (fst st)) (\<lambda>first.
     cursor_loop (\<lambda>pos. pos = 0) (hlist_next_entry off) body (hlist_entry_safe first off) st)"

section \<open>Chains of nodes\<close>

definition at_pp :: "hlist_mem \<Rightarrow> hlist_pp \<Rightarrow> u64 option" where
  "at_pp M pp = (case pp of PP_first h \<Rightarrow> h_first M h | PP_next a \<Rightarrow> map_option hn_next (h_node M a) | _ \<Rightarrow> None)"

definition pprev_of :: "hlist_mem \<Rightarrow> u64 \<Rightarrow> hlist_pp option" where
  "pprev_of M a = map_option hn_pprev (h_node M a)"

fun hseg :: "hlist_mem \<Rightarrow> hlist_pp \<Rightarrow> u64 list \<Rightarrow> bool" where
  "hseg M pp [] \<longleftrightarrow> True"
| "hseg M pp (x # xs) \<longleftrightarrow> at_pp M pp = Some x \<and> x \<noteq> 0 \<and> pprev_of M x = Some pp \<and> hseg M (PP_next x) xs"

definition end_pp :: "hlist_pp \<Rightarrow> u64 list \<Rightarrow> hlist_pp" where
  "end_pp pp xs = (if xs = [] then pp else PP_next (last xs))"

definition hchain :: "hlist_mem \<Rightarrow> hlist_pp \<Rightarrow> u64 list \<Rightarrow> bool" where
  "hchain M pp xs \<longleftrightarrow> hseg M pp xs \<and> at_pp M (end_pp pp xs) = Some 0"

definition is_hlist :: "hlist_mem \<Rightarrow> u64 \<Rightarrow> u64 list \<Rightarrow> bool" where
  "is_hlist M h xs \<longleftrightarrow> distinct xs \<and> hchain M (PP_first h) xs"

definition upd_pp :: "hlist_pp \<Rightarrow> u64 \<Rightarrow> hlist_mem \<Rightarrow> hlist_mem" where
  "upd_pp pp v M =
     (case pp of
        PP_first h \<Rightarrow> M\<lparr>h_first := (h_first M)(h \<mapsto> v)\<rparr>
      | PP_next a \<Rightarrow> M\<lparr>h_node := (h_node M)(a := map_option (\<lambda>n. n\<lparr>hn_next := v\<rparr>) (h_node M a))\<rparr>
      | _ \<Rightarrow> M)"

definition upd_pprev :: "u64 \<Rightarrow> hlist_pp \<Rightarrow> hlist_mem \<Rightarrow> hlist_mem" where
  "upd_pprev a pp M = M\<lparr>h_node := (h_node M)(a := map_option (\<lambda>n. n\<lparr>hn_pprev := pp\<rparr>) (h_node M a))\<rparr>"

lemma hfield_set [simp]:
  "at_pp M pp \<noteq> None \<Longrightarrow> set_pp pp v M = Inr (upd_pp pp v M)"
  "a \<in> dom (h_node M) \<Longrightarrow> set_pprev a pp M = Inr (upd_pprev a pp M)"
  by (auto simp: at_pp_def set_pp_def upd_pp_def set_pprev_def upd_pprev_def guardR_def split: hlist_pp.splits)

lemma hfield_get [simp]:
  "at_pp M pp = Some v \<Longrightarrow> get_pp pp M = Inr v"
  "pprev_of M a = Some pp \<Longrightarrow> get_pprev a M = Inr pp"
  by (auto simp: at_pp_def get_pp_def pprev_of_def get_pprev_def split: hlist_pp.splits)

lemma hfield_upd [simp]:
  "at_pp M pp \<noteq> None \<Longrightarrow> at_pp (upd_pp pp v M) q = (if q = pp then Some v else at_pp M q)"
  "pprev_of (upd_pp pp v M) a = pprev_of M a"
  "at_pp (upd_pprev a pp M) q = at_pp M q"
  "a \<in> dom (h_node M) \<Longrightarrow> pprev_of (upd_pprev a pp M) b = (if b = a then Some pp else pprev_of M b)"
  by (auto simp: at_pp_def upd_pp_def upd_pprev_def pprev_of_def option.map_comp o_def split: hlist_pp.splits)

lemma hupd_dom [simp]:
  "dom (h_node (upd_pp pp v M)) = dom (h_node M)" "dom (h_node (upd_pprev a pp M)) = dom (h_node M)"
  by (auto simp: upd_pp_def upd_pprev_def split: hlist_pp.splits if_splits)

lemma hnode_dom:
  "at_pp M (PP_next a) = None \<longleftrightarrow> a \<notin> dom (h_node M)" "pprev_of M a = None \<longleftrightarrow> a \<notin> dom (h_node M)"
  by (auto simp: at_pp_def pprev_of_def)

lemma hseg_cong:
  assumes "xs \<noteq> [] \<Longrightarrow> at_pp M' pp = at_pp M pp"
    and "\<And>a. a \<in> set (butlast xs) \<Longrightarrow> at_pp M' (PP_next a) = at_pp M (PP_next a)"
    and "\<And>a. a \<in> set xs \<Longrightarrow> pprev_of M' a = pprev_of M a"
  shows "hseg M' pp xs = hseg M pp xs"
  using assms
proof (induction xs arbitrary: pp)
  case (Cons x xs)
  then show ?case using Cons.IH [of "PP_next x"] by (cases "xs = []") auto
qed simp

lemma hseg_append:
  "hseg M pp (xs @ ys) \<longleftrightarrow> hseg M pp xs \<and> hseg M (end_pp pp xs) ys"
  by (induction xs arbitrary: pp) (auto simp: end_pp_def)

lemma end_pp_append: "end_pp pp (xs @ ys) = end_pp (end_pp pp xs) ys"
  by (simp add: end_pp_def)

lemma hchain_append:
  "hchain M pp (xs @ ys) \<longleftrightarrow> hseg M pp xs \<and> hchain M (end_pp pp xs) ys"
  by (auto simp: hchain_def hseg_append end_pp_append)

lemma hchain_Cons:
  "hchain M pp (x # xs) \<longleftrightarrow> at_pp M pp = Some x \<and> x \<noteq> 0 \<and> pprev_of M x = Some pp \<and> hchain M (PP_next x) xs"
  by (auto simp: hchain_def end_pp_def)

lemma hchain_first:
  "hchain M pp xs \<Longrightarrow> at_pp M pp = Some (if xs = [] then 0 else hd xs)"
  by (cases xs) (auto simp: hchain_def end_pp_def)

lemma hchain_cong:
  assumes "at_pp M' pp = at_pp M pp"
    and "\<And>a. a \<in> set xs \<Longrightarrow> at_pp M' (PP_next a) = at_pp M (PP_next a) \<and> pprev_of M' a = pprev_of M a"
  shows "hchain M' pp xs = hchain M pp xs"
proof -
  have "hseg M' pp xs = hseg M pp xs" using assms by (intro hseg_cong) (auto dest: in_set_butlastD)
  then show ?thesis using assms by (simp add: hchain_def end_pp_def)
qed

text \<open>A chain that is hung below another pointer.\<close>

lemma hchain_move:
  assumes "hchain M pp ys" and "distinct ys"
    and "at_pp M' q = Some (if ys = [] then 0 else hd ys)" and "ys \<noteq> [] \<Longrightarrow> pprev_of M' (hd ys) = Some q"
    and "\<And>a. a \<in> set ys \<Longrightarrow> at_pp M' (PP_next a) = at_pp M (PP_next a)"
    and "\<And>a. a \<in> set (tl ys) \<Longrightarrow> pprev_of M' a = pprev_of M a"
  shows "hchain M' q ys"
proof (cases ys)
  case (Cons y zs)
  have "hchain M' (PP_next y) zs = hchain M (PP_next y) zs"
    using assms(5,6) Cons by (intro hchain_cong) auto
  then show ?thesis using assms Cons by (simp add: hchain_Cons)
qed (use assms in \<open>simp add: hchain_def end_pp_def\<close>)

lemma hseg_dom:
  assumes "hseg M pp xs" and "a \<in> set xs"
  shows "a \<in> dom (h_node M)" "a \<noteq> 0"
  using assms by (induction xs arbitrary: pp) (auto simp: pprev_of_def)

lemma is_hlist_dom:
  assumes "is_hlist M h xs" and "a \<in> set xs"
  shows "a \<in> dom (h_node M)" "a \<noteq> 0"
  using hseg_dom [of M "PP_first h" xs a] assms by (simp_all add: is_hlist_def hchain_def)

definition honly :: "u64 \<Rightarrow> u64 set \<Rightarrow> hlist_mem \<Rightarrow> hlist_mem \<Rightarrow> bool" where
  "honly h S M M' \<longleftrightarrow> dom (h_node M') = dom (h_node M) \<and>
     (\<forall>q. q \<noteq> PP_first h \<and> q \<notin> PP_next ` S \<longrightarrow> at_pp M' q = at_pp M q) \<and>
     (\<forall>a. a \<notin> S \<longrightarrow> pprev_of M' a = pprev_of M a)"

lemma honly_hlist:
  assumes "honly h S M M'" and "k \<noteq> h" and "set zs \<inter> S = {}"
  shows "is_hlist M' k zs = is_hlist M k zs"
proof -
  have "hchain M' (PP_first k) zs = hchain M (PP_first k) zs"
    using assms by (intro hchain_cong) (auto simp: honly_def)
  then show ?thesis by (simp add: is_hlist_def)
qed

section \<open>The operations on chains\<close>

lemma hlist_add_head_rep:
  assumes "is_hlist M h xs" and "n \<notin> set xs" and "n \<in> dom (h_node M)" and "n \<noteq> 0"
  shows "\<exists>M'. hlist_add_head n h M = Inr M' \<and> is_hlist M' h (n # xs) \<and> honly h (set (n # xs)) M M'"
proof -
  let ?f = "if xs = [] then 0 else hd xs"
  let ?M1 = "upd_pp (PP_next n) ?f M"
  let ?M2 = "if xs = [] then ?M1 else upd_pprev ?f (PP_next n) ?M1"
  let ?M = "upd_pprev n (PP_first h) (upd_pp (PP_first h) n ?M2)"
  have x: "xs \<noteq> [] \<Longrightarrow> hd xs \<in> dom (h_node M) \<and> hd xs \<noteq> 0 \<and> hd xs \<noteq> n"
    using assms(2) is_hlist_dom [OF assms(1)] by force
  have f: "at_pp M (PP_first h) = Some ?f" "hchain M (PP_first h) xs" "distinct xs"
    using assms(1) hchain_first by (auto simp: is_hlist_def)
  have n: "at_pp M (PP_next n) \<noteq> None" using assms(3) by (simp add: hnode_dom)
  have "hlist_add_head n h M = Inr ?M"
    using f(1) n x assms(3) by (cases "xs = []") (simp_all add: hlist_add_head_def)
  moreover have "hchain ?M (PP_next n) xs"
    using f n x assms ends_once [OF f(3)]
    by (intro hchain_move [OF f(2,3)]) (auto dest: list.set_sel(2) split: if_splits)
  then have "is_hlist ?M h (n # xs)"
    using f n x assms by (auto simp: is_hlist_def hchain_Cons)
  moreover have "honly h (set (n # xs)) M ?M"
    using f n x assms by (cases "xs = []") (auto simp: honly_def)
  ultimately show ?thesis by blast
qed

text \<open>What deleting a node leaves, whatever then happens to the node itself.\<close>

lemma raw_hlist_del_rep:
  assumes "is_hlist M h (xs @ e # ys)"
  shows "\<exists>M'. raw_hlist_del e M = Inr M' \<and> is_hlist M' h (xs @ ys) \<and> honly h (set (xs @ ys)) M M'"
proof -
  let ?pp = "end_pp (PP_first h) xs" and ?f = "if ys = [] then 0 else hd ys"
  let ?M1 = "upd_pp ?pp ?f M"
  let ?M = "if ys = [] then ?M1 else upd_pprev ?f ?pp ?M1"
  have c: "hseg M (PP_first h) xs" "at_pp M ?pp = Some e" "e \<noteq> 0" "pprev_of M e = Some ?pp" "hchain M (PP_next e) ys"
    and d: "distinct (xs @ e # ys)"
    using assms by (auto simp: is_hlist_def hchain_append hchain_Cons)
  have y: "ys \<noteq> [] \<Longrightarrow> hd ys \<in> dom (h_node M) \<and> hd ys \<noteq> 0 \<and> hd ys \<notin> set xs"
    using d is_hlist_dom [OF assms, of "hd ys"] hd_in_set [of ys] by auto
  have nx: "at_pp M (PP_next e) = Some ?f" using hchain_first [OF c(5)] .
  have pp: "PP_next a \<noteq> ?pp" if "a \<in> set ys" for a
    using that d by (auto simp: end_pp_def dest: last_in_set)
  have "raw_hlist_del e M = Inr ?M"
    using c nx y by (cases "ys = []") (simp_all add: raw_hlist_del_def)
  moreover have "hseg ?M (PP_first h) xs = hseg M (PP_first h) xs"
    using c y d ends_once(1) [of xs]
    by (intro hseg_cong) (auto simp: end_pp_def split: if_splits)
  moreover have "hchain ?M ?pp ys"
    using c y d pp ends_once(2) [of ys] by (intro hchain_move [OF c(5)]) (auto dest: list.set_sel(2) split: if_splits)
  ultimately have "raw_hlist_del e M = Inr ?M" "is_hlist ?M h (xs @ ys)"
    using c d by (auto simp: is_hlist_def hchain_append)
  moreover have "honly h (set (xs @ ys)) M ?M"
    using c y by (cases "ys = []") (auto simp: honly_def end_pp_def)
  ultimately show ?thesis by blast
qed

lemma hlist_del_rep:
  assumes "is_hlist M h (xs @ e # ys)"
  shows "\<exists>M'. hlist_del e M = Inr M' \<and> is_hlist M' h (xs @ ys) \<and> honly h (set (xs @ e # ys)) M M'"
    and "\<exists>M'. hlist_del_init e M = Inr M' \<and> is_hlist M' h (xs @ ys) \<and> hlist_unhashed e M' = Inr True \<and>
      honly h (set (xs @ e # ys)) M M'"
proof -
  obtain M1 where M1: "raw_hlist_del e M = Inr M1" "is_hlist M1 h (xs @ ys)" "honly h (set (xs @ ys)) M M1"
    using raw_hlist_del_rep [OF assms] by blast
  have e: "e \<notin> set (xs @ ys)" "e \<in> dom (h_node M1)" "at_pp M1 (PP_next e) \<noteq> None"
    using assms is_hlist_dom [OF assms, of e] M1(3) by (auto simp: is_hlist_def honly_def hnode_dom)
  have pe: "pprev_of M e = Some (end_pp (PP_first h) xs)"
    using assms by (simp add: is_hlist_def hchain_append hchain_Cons)
  have keep: "is_hlist M2 h (xs @ ys) \<and> honly h (set (xs @ e # ys)) M M2"
    if "M2 = upd_pprev e pp (upd_pp (PP_next e) v M1)" for M2 pp v
  proof -
    have "hchain M2 (PP_first h) (xs @ ys) = hchain M1 (PP_first h) (xs @ ys)"
      using that e by (intro hchain_cong) auto
    then show ?thesis using M1(2,3) that e by (auto simp: is_hlist_def honly_def)
  qed
  show "\<exists>M'. hlist_del e M = Inr M' \<and> is_hlist M' h (xs @ ys) \<and> honly h (set (xs @ e # ys)) M M'"
    using M1(1) e keep by (auto simp: hlist_del_def)
  have "end_pp (PP_first h) xs \<noteq> PP_NULL" by (simp add: end_pp_def)
  then show "\<exists>M'. hlist_del_init e M = Inr M' \<and> is_hlist M' h (xs @ ys) \<and> hlist_unhashed e M' = Inr True \<and>
      honly h (set (xs @ e # ys)) M M'"
    using M1(1) e keep pe by (auto simp: hlist_del_init_def hlist_unhashed_def INIT_HLIST_NODE_def)
qed

lemma hlist_tests:
  assumes "is_hlist M h xs"
  shows "hlist_empty h M = Inr (xs = [])"
    and "e \<in> set xs \<Longrightarrow> hlist_unhashed e M = Inr False"
proof -
  have "at_pp M (PP_first h) = Some (if xs = [] then 0 else hd xs)"
    using assms hchain_first by (auto simp: is_hlist_def)
  then show "hlist_empty h M = Inr (xs = [])"
    using is_hlist_dom(2) [OF assms, of "hd xs"] by (cases xs) (auto simp: hlist_empty_def)
  assume "e \<in> set xs"
  then obtain ys zs where "xs = ys @ e # zs" by (metis split_list)
  then have "pprev_of M e = Some (end_pp (PP_first h) ys)"
    using assms by (simp add: is_hlist_def hchain_append hchain_Cons)
  then show "hlist_unhashed e M = Inr False" by (simp add: hlist_unhashed_def end_pp_def)
qed

lemma INIT_HLIST_HEAD_rep:
  assumes "h_first M h \<noteq> None"
  shows "\<exists>M'. INIT_HLIST_HEAD h M = Inr M' \<and> is_hlist M' h [] \<and> honly h {} M M'"
proof -
  have "at_pp M (PP_first h) \<noteq> None" using assms by (simp add: at_pp_def)
  then show ?thesis by (auto simp: INIT_HLIST_HEAD_def is_hlist_def hchain_def end_pp_def honly_def)
qed

text \<open>A node between two parts of a chain, as \<open>hlist_add_before\<close> and \<open>hlist_add_behind\<close> put it there.\<close>

lemma hlist_between:
  assumes "is_hlist M h (xs @ ys)" and "n \<notin> set (xs @ ys)" and "n \<in> dom (h_node M)" and "n \<noteq> 0"
    and pp: "pp = end_pp (PP_first h) xs"
    and at: "\<And>q. at_pp M' q = (if q = pp then Some n
      else if q = PP_next n then Some (if ys = [] then 0 else hd ys) else at_pp M q)"
    and pr: "\<And>a. pprev_of M' a = (if a = n then Some pp
      else if ys \<noteq> [] \<and> a = hd ys then Some (PP_next n) else pprev_of M a)"
  shows "is_hlist M' h (xs @ n # ys)"
proof -
  have c: "hseg M (PP_first h) xs" "hchain M pp ys" and d: "distinct (xs @ ys)"
    using assms(1) pp by (auto simp: is_hlist_def hchain_append)
  have y: "ys \<noteq> [] \<Longrightarrow> hd ys \<notin> set xs \<and> hd ys \<noteq> n" using d assms(2) hd_in_set [of ys] by auto
  have ppy: "PP_next a \<noteq> pp" if "a = n \<or> a \<in> set ys" for a
    using that d assms(2) by (auto simp: end_pp_def pp dest: last_in_set)
  have "hseg M' (PP_first h) xs = hseg M (PP_first h) xs"
    using c y d assms(2) ends_once(1) [of xs]
    by (intro hseg_cong) (auto simp: end_pp_def at pr pp dest: in_set_butlastD split: if_splits)
  moreover have "n \<notin> set (tl ys)" using assms(2) by (cases ys) auto
  then have "hchain M' (PP_next n) ys"
    using y d assms(2) ppy ends_once(2) [of ys]
    by (intro hchain_move [OF c(2)]) (auto simp: at pr dest: list.set_sel(2))
  ultimately show ?thesis
    using c(1) d assms(2,4) by (auto simp: is_hlist_def hchain_append hchain_Cons at pr pp)
qed

lemma hlist_add_before_rep:
  assumes "is_hlist M h (xs @ e # ys)" and "n \<notin> set (xs @ e # ys)" and "n \<in> dom (h_node M)" and "n \<noteq> 0"
  shows "\<exists>M'. hlist_add_before n e M = Inr M' \<and> is_hlist M' h (xs @ n # e # ys)"
proof -
  let ?pp = "end_pp (PP_first h) xs"
  let ?M = "upd_pp ?pp n (upd_pprev e (PP_next n) (upd_pp (PP_next n) e (upd_pprev n ?pp M)))"
  have c: "at_pp M ?pp = Some e" "pprev_of M e = Some ?pp" "e \<in> dom (h_node M)" "n \<noteq> e" "?pp \<noteq> PP_next n"
    using assms(1,2) is_hlist_dom [OF assms(1), of e]
    by (auto simp: is_hlist_def hchain_append hchain_Cons end_pp_def dest: last_in_set)
  have n: "at_pp M (PP_next n) \<noteq> None" using assms(3) by (simp add: hnode_dom)
  have "hlist_add_before n e M = Inr ?M" using c n assms(3) by (simp add: hlist_add_before_def)
  moreover have "is_hlist ?M h (xs @ n # e # ys)"
    using hlist_between [OF assms refl, of ?M] c n assms(3) by simp
  ultimately show ?thesis by blast
qed

lemma hlist_add_behind_rep:
  assumes "is_hlist M h (xs @ e # ys)" and "n \<notin> set (xs @ e # ys)" and "n \<in> dom (h_node M)" and "n \<noteq> 0"
  shows "\<exists>M'. hlist_add_behind n e M = Inr M' \<and> is_hlist M' h (xs @ e # n # ys)"
proof -
  let ?f = "if ys = [] then 0 else hd ys"
  let ?M1 = "upd_pprev n (PP_next e) (upd_pp (PP_next e) n (upd_pp (PP_next n) ?f M))"
  let ?M = "if ys = [] then ?M1 else upd_pprev ?f (PP_next n) ?M1"
  have c: "at_pp M (PP_next e) = Some ?f" "n \<noteq> e"
    using assms(1,2) hchain_first [of M "PP_next e" ys] by (auto simp: is_hlist_def hchain_append hchain_Cons)
  have y: "ys \<noteq> [] \<Longrightarrow> hd ys \<in> dom (h_node M) \<and> hd ys \<noteq> 0 \<and> hd ys \<noteq> n"
    using assms(2) is_hlist_dom [OF assms(1), of "hd ys"] hd_in_set [of ys] by auto
  have n: "at_pp M (PP_next n) \<noteq> None" using assms(3) by (simp add: hnode_dom)
  have "hlist_add_behind n e M = Inr ?M"
    using c n y assms(3) by (cases "ys = []") (simp_all add: hlist_add_behind_def)
  moreover have "is_hlist ?M h ((xs @ [e]) @ n # ys)"
    by (rule hlist_between [of M h "xs @ [e]" ys n "PP_next e" ?M])
      (use assms c n y in \<open>auto simp: end_pp_def\<close>)
  ultimately show ?thesis by auto
qed

lemma hlist_move_list_rep:
  assumes "is_hlist M old xs" and "new \<noteq> old" and "h_first M new \<noteq> None"
  shows "\<exists>M'. hlist_move_list old new M = Inr M' \<and> is_hlist M' new xs \<and> is_hlist M' old []"
proof -
  let ?f = "if xs = [] then 0 else hd xs"
  let ?M1 = "upd_pp (PP_first new) ?f M"
  let ?M = "upd_pp (PP_first old) 0 (if xs = [] then ?M1 else upd_pprev ?f (PP_first new) ?M1)"
  have c: "at_pp M (PP_first old) = Some ?f" "hchain M (PP_first old) xs" "distinct xs" "at_pp M (PP_first new) \<noteq> None"
    using assms hchain_first [of M "PP_first old" xs] by (simp_all add: is_hlist_def) (simp add: at_pp_def)
  have x: "xs \<noteq> [] \<Longrightarrow> hd xs \<in> dom (h_node M) \<and> hd xs \<noteq> 0" using is_hlist_dom [OF assms(1)] by simp
  have "hlist_move_list old new M = Inr ?M"
    using c x assms(2) by (cases "xs = []") (simp_all add: hlist_move_list_def)
  moreover have "hchain ?M (PP_first new) xs"
    using c x assms(2) ends_once(2) [of xs] by (intro hchain_move [OF c(2,3)]) (auto split: if_splits)
  ultimately show ?thesis
    using c assms(2) by (auto simp: is_hlist_def hchain_def end_pp_def)
qed

section \<open>Iteration and sequences of operations\<close>

abbreviation bucket_rep :: "u64 \<Rightarrow> u64 \<Rightarrow> hlist_mem \<Rightarrow> u64 list \<Rightarrow> bool" where
  "bucket_rep h off M ps \<equiv> is_hlist M h (nodes_at off ps) \<and> 0 \<notin> set ps"

lemma hlist_for_each_entry_fold:
  assumes "bucket_rep h off M ps"
    and "\<And>p st st'. p \<in> set ps \<Longrightarrow> bucket_rep h off (fst st) ps \<Longrightarrow> body p st = Inr (Continue st') \<Longrightarrow>
      bucket_rep h off (fst st') ps"
  shows "hlist_for_each_entry off body h (M, s) = Some (fold_body body ps (M, s))"
proof -
  let ?I = "\<lambda>st :: hlist_mem \<times> 'a. bucket_rep h off (fst st) ps"
  have entry: "hlist_entry_safe (if qs = [] then 0 else hd (nodes_at off qs)) off = hd (qs @ [0])"
    if "\<forall>q \<in> set qs. q + off \<noteq> 0" for qs
    using that by (cases qs) (auto simp: hlist_entry_safe_def)
  have nz: "q + off \<noteq> 0" if "q \<in> set ps" for q
    using is_hlist_dom(2) [of M h "nodes_at off ps" "q + off"] assms(1) that by auto
  have "hlist_next_entry off p (fst st) = Inr (hd (bs @ [0]))" if "ps = as @ p # bs" "?I st" for as p bs st
  proof -
    have "hchain (fst st) (PP_next (p + off)) (nodes_at off bs)"
      using that by (simp add: is_hlist_def hchain_append hchain_Cons)
    then show ?thesis using hchain_first [of "fst st" "PP_next (p + off)" "nodes_at off bs"] entry [of bs] nz that(1)
      by (simp add: hlist_next_entry_def)
  qed
  then have "cursor_loop (\<lambda>pos. pos = 0) (hlist_next_entry off) body (hd (ps @ [0])) (M, s) =
      Some (fold_body body ps (M, s))"
    by (intro cursor_loop_fold [where I = ?I]) (use assms in \<open>auto simp del: fold_body.simps\<close>)
  moreover have "at_pp M (PP_first h) = Some (if ps = [] then 0 else hd (nodes_at off ps))"
    using assms(1) hchain_first [of M "PP_first h" "nodes_at off ps"] by (simp add: is_hlist_def)
  ultimately show ?thesis using entry [of ps] nz by (simp add: hlist_for_each_entry_def run_loop_def)
qed

abbreviation spare_node :: "u64 \<Rightarrow> hlist_mem \<Rightarrow> u64 \<Rightarrow> bool" where
  "spare_node off M p \<equiv> p + off \<in> dom (h_node M) \<and> p + off \<noteq> 0 \<and> p \<noteq> 0"

interpretation headq: entry_seq "bucket_rep h off" "spare_node off" "\<lambda>x xs. x # xs"
  "\<lambda>p. hlist_add_head (p + off) h" "\<lambda>p. hlist_del (p + off)" for h off
proof unfold_locales
  fix M ps p assume a: "bucket_rep h off M ps" "p \<notin> set ps" "spare_node off M p"
  then have "p + off \<notin> set (nodes_at off ps)" by auto
  then show "\<exists>M'. hlist_add_head (p + off) h M = Inr M' \<and> bucket_rep h off M' (p # ps) \<and>
      (\<forall>y. spare_node off M y \<longrightarrow> spare_node off M' y)"
    using hlist_add_head_rep [of M h "nodes_at off ps" "p + off"] a by (auto simp: honly_def)
next
  fix M as p bs assume "bucket_rep h off M (as @ p # bs)"
  then show "\<exists>M'. hlist_del (p + off) M = Inr M' \<and> bucket_rep h off M' (as @ bs) \<and>
      (\<forall>y. spare_node off M y \<longrightarrow> spare_node off M' y)"
    using hlist_del_rep(1) [of M h "nodes_at off as" "p + off" "nodes_at off bs"] by (auto simp: honly_def)
next
  fix M ps assume "bucket_rep h off M ps"
  then have "distinct (nodes_at off ps)" by (simp add: is_hlist_def)
  then show "distinct ps" by (simp add: distinct_map)
qed

text \<open>C29: every sequence of \<open>hlist_add_head\<close> and \<open>hlist_del\<close> that adds structs which are allocated and not
  on the list, and deletes structs which are on it, runs without a fault, and
  \<open>hlist_for_each_entry\<close> then ends and sees exactly the structs that a HOL list under
  prepending and removing holds, the last one added first.\<close>

theorem hlist_run_refines:
  assumes "bucket_rep h off M ps" and "seq_run (\<lambda>x xs. x # xs) cs ps = Some qs"
    and "\<forall>x. Add x \<in> set cs \<longrightarrow> spare_node off M x"
  shows "\<exists>M'. mem_run (\<lambda>p. hlist_add_head (p + off) h) (\<lambda>p. hlist_del (p + off)) cs M = Inr M' \<and>
    bucket_rep h off M' qs \<and> hlist_for_each_entry off collect h (M', []) = Some (Inr (M', qs))"
proof -
  obtain M' where M': "mem_run (\<lambda>p. hlist_add_head (p + off) h) (\<lambda>p. hlist_del (p + off)) cs M = Inr M'"
      "bucket_rep h off M' qs"
    using headq.run_refines [OF assms] by blast
  have "hlist_for_each_entry off collect h (M', []) = Some (fold_body collect qs (M', []))"
    by (rule hlist_for_each_entry_fold [OF M'(2)]) (auto simp: collect_def)
  then show ?thesis using M' by (simp add: collect_fold)
qed

definition demo_hlist :: hlist_mem where
  "demo_hlist = \<lparr>h_first = [0x100 \<mapsto> 0], h_node = [0x270 \<mapsto> \<lparr>hn_next = 0, hn_pprev = PP_NULL\<rparr>, 0x370 \<mapsto> \<lparr>hn_next = 0, hn_pprev = PP_NULL\<rparr>]\<rparr>"

theorem hlist_run_refines_witness:
  "\<exists>M'. mem_run (\<lambda>p. hlist_add_head (p + 112) 0x100) (\<lambda>p. hlist_del (p + 112)) [Add 0x200, Add 0x300, Del 0x200, Add 0x200] demo_hlist = Inr M' \<and>
    hlist_for_each_entry 112 collect 0x100 (M', []) = Some (Inr (M', [0x200, 0x300]))"
proof -
  have "bucket_rep 0x100 112 demo_hlist []" by (simp add: demo_hlist_def is_hlist_def hchain_def end_pp_def at_pp_def)
  moreover have "seq_run (\<lambda>x xs. x # xs) [Add 0x200, Add 0x300, Del 0x200, Add 0x200] ([] :: u64 list) = Some [0x200, 0x300]" by simp
  ultimately show ?thesis
    using hlist_run_refines [of demo_hlist "0x100" 112 "[]" "[Add 0x200, Add 0x300, Del 0x200, Add 0x200]" "[0x200, 0x300]"]
    by (auto simp: demo_hlist_def)
qed

end
