(* ===== verification/ListLoops.thy ===== *)
theory ListLoops
  imports KernelHlist
begin

text \<open>
  The rest of \<open>include/linux/list.h\<close>: the loops that start at an entry, go backwards while entries are
  removed, or walk bare nodes, and the initialisers. A loop that starts in the middle runs its
  body once for each entry from there to the end of the list, whatever the body does to the
  entries it has left behind when the loop is a safe one.
\<close>

section \<open>Initialisers\<close>

definition LIST_HEAD :: "u64 \<Rightarrow> list_mem \<Rightarrow> list_mem" where
  "LIST_HEAD name m = m(name \<mapsto> \<lparr>lh_next = name, lh_prev = name\<rparr>)"

definition HLIST_HEAD :: "u64 \<Rightarrow> hlist_mem \<Rightarrow> hlist_mem" where
  "HLIST_HEAD name M = M\<lparr>h_first := (h_first M)(name \<mapsto> 0)\<rparr>"

lemma LIST_HEAD_empty: "is_list (LIST_HEAD name m) name []"
  by (simp add: LIST_HEAD_def ring_def adj_def nx_def pv_def)

lemma HLIST_HEAD_empty: "is_hlist (HLIST_HEAD name M) name []"
  by (simp add: HLIST_HEAD_def is_hlist_def hchain_def end_pp_def at_pp_def)

section \<open>Loops over circular lists\<close>

text \<open>\<open>pos ? : list_entry(head)\<close>: a start for the loops that continue.\<close>

definition list_prepare_entry :: "u64 \<Rightarrow> u64 \<Rightarrow> u64 \<Rightarrow> u64" where
  "list_prepare_entry pos head off = (if pos \<noteq> 0 then pos else list_entry head off)"

definition list_for_each_prev_safe :: "(list_mem, 's) body \<Rightarrow> u64 \<Rightarrow> list_mem \<times> 's \<Rightarrow> (list_mem \<times> 's) res option" where
  "list_for_each_prev_safe body head st =
     run_loop (get_prev head (fst st)) (\<lambda>pos.
     run_loop (get_prev pos (fst st)) (\<lambda>n.
     safe_loop (\<lambda>p. p = head) get_prev body pos n st))"

definition list_for_each_entry_continue :: "u64 \<Rightarrow> (list_mem, 's) body \<Rightarrow> u64 \<Rightarrow> u64 \<Rightarrow> list_mem \<times> 's \<Rightarrow> (list_mem \<times> 's) res option" where
  "list_for_each_entry_continue off body pos head st =
     run_loop (list_next_entry pos off (fst st)) (\<lambda>pos.
     cursor_loop (\<lambda>p. p + off = head) (\<lambda>p. list_next_entry p off) body pos st)"

definition list_for_each_entry_continue_reverse ::
    "u64 \<Rightarrow> (list_mem, 's) body \<Rightarrow> u64 \<Rightarrow> u64 \<Rightarrow> list_mem \<times> 's \<Rightarrow> (list_mem \<times> 's) res option" where
  "list_for_each_entry_continue_reverse off body pos head st =
     run_loop (list_prev_entry pos off (fst st)) (\<lambda>pos.
     cursor_loop (\<lambda>p. p + off = head) (\<lambda>p. list_prev_entry p off) body pos st)"

definition list_for_each_entry_from :: "u64 \<Rightarrow> (list_mem, 's) body \<Rightarrow> u64 \<Rightarrow> u64 \<Rightarrow> list_mem \<times> 's \<Rightarrow> (list_mem \<times> 's) res option" where
  "list_for_each_entry_from off body pos head st =
     cursor_loop (\<lambda>p. p + off = head) (\<lambda>p. list_next_entry p off) body pos st"

definition list_for_each_entry_safe_continue ::
    "u64 \<Rightarrow> (list_mem, 's) body \<Rightarrow> u64 \<Rightarrow> u64 \<Rightarrow> list_mem \<times> 's \<Rightarrow> (list_mem \<times> 's) res option" where
  "list_for_each_entry_safe_continue off body pos head st =
     run_loop (list_next_entry pos off (fst st)) (\<lambda>pos.
     run_loop (list_next_entry pos off (fst st)) (\<lambda>n.
     safe_loop (\<lambda>p. p + off = head) (\<lambda>p. list_next_entry p off) body pos n st))"

definition list_for_each_entry_safe_from :: "u64 \<Rightarrow> (list_mem, 's) body \<Rightarrow> u64 \<Rightarrow> u64 \<Rightarrow> list_mem \<times> 's \<Rightarrow> (list_mem \<times> 's) res option" where
  "list_for_each_entry_safe_from off body pos head st =
     run_loop (list_next_entry pos off (fst st)) (\<lambda>n.
     safe_loop (\<lambda>p. p + off = head) (\<lambda>p. list_next_entry p off) body pos n st)"

definition list_for_each_entry_safe_reverse :: "u64 \<Rightarrow> (list_mem, 's) body \<Rightarrow> u64 \<Rightarrow> list_mem \<times> 's \<Rightarrow> (list_mem \<times> 's) res option" where
  "list_for_each_entry_safe_reverse off body head st =
     run_loop (list_last_entry head off (fst st)) (\<lambda>pos.
     run_loop (list_prev_entry pos off (fst st)) (\<lambda>n.
     safe_loop (\<lambda>p. p + off = head) (\<lambda>p. list_prev_entry p off) body pos n st))"

text \<open>The new value of the cursor \<open>n\<close>, for a body that has inserted behind \<open>pos\<close>.\<close>

definition list_safe_reset_next :: "u64 \<Rightarrow> u64 \<Rightarrow> list_mem \<Rightarrow> u64 res" where
  "list_safe_reset_next pos off m = list_next_entry pos off m"

section \<open>Loops over chains\<close>

definition hlist_entry :: "u64 \<Rightarrow> u64 \<Rightarrow> u64" where
  "hlist_entry p off = p - off"

definition hlist_for_each :: "(hlist_mem, 's) body \<Rightarrow> u64 \<Rightarrow> hlist_mem \<times> 's \<Rightarrow> (hlist_mem \<times> 's) res option" where
  "hlist_for_each body head st =
     run_loop (get_pp (PP_first head) (fst st)) (\<lambda>pos.
     cursor_loop (\<lambda>pos. pos = 0) (\<lambda>p. get_pp (PP_next p)) body pos st)"

definition hlist_for_each_entry_continue :: "u64 \<Rightarrow> (hlist_mem, 's) body \<Rightarrow> u64 \<Rightarrow> hlist_mem \<times> 's \<Rightarrow> (hlist_mem \<times> 's) res option" where
  "hlist_for_each_entry_continue off body pos st =
     run_loop (hlist_next_entry off pos (fst st)) (\<lambda>pos.
     cursor_loop (\<lambda>pos. pos = 0) (hlist_next_entry off) body pos st)"

definition hlist_for_each_entry_from :: "u64 \<Rightarrow> (hlist_mem, 's) body \<Rightarrow> u64 \<Rightarrow> hlist_mem \<times> 's \<Rightarrow> (hlist_mem \<times> 's) res option" where
  "hlist_for_each_entry_from off body pos st = cursor_loop (\<lambda>pos. pos = 0) (hlist_next_entry off) body pos st"

text \<open>The condition of the two safe loops reads the next node before the body runs.\<close>

partial_function (option) ahead_loop ::
    "(u64 \<Rightarrow> 'm \<Rightarrow> u64 res) \<Rightarrow> (u64 \<Rightarrow> u64) \<Rightarrow> ('m, 's) body \<Rightarrow> u64 \<Rightarrow> 'm \<times> 's \<Rightarrow> ('m \<times> 's) res option" where
  "ahead_loop step entry body pos st =
     (if pos = 0 then Some (Inr st)
      else (case step pos (fst st) of
              Inl e \<Rightarrow> Some (Inl e)
            | Inr n \<Rightarrow>
                (case body pos st of
                   Inl e \<Rightarrow> Some (Inl e)
                 | Inr fl \<Rightarrow>
                     (case fl of
                        Break st' \<Rightarrow> Some (Inr st')
                      | Continue st' \<Rightarrow> ahead_loop step entry body (entry n) st'))))"

definition hlist_for_each_safe :: "(hlist_mem, 's) body \<Rightarrow> u64 \<Rightarrow> hlist_mem \<times> 's \<Rightarrow> (hlist_mem \<times> 's) res option" where
  "hlist_for_each_safe body head st =
     run_loop (get_pp (PP_first head) (fst st)) (\<lambda>pos. ahead_loop (\<lambda>p. get_pp (PP_next p)) (\<lambda>n. n) body pos st)"

definition hlist_for_each_entry_safe :: "u64 \<Rightarrow> (hlist_mem, 's) body \<Rightarrow> u64 \<Rightarrow> hlist_mem \<times> 's \<Rightarrow> (hlist_mem \<times> 's) res option" where
  "hlist_for_each_entry_safe off body head st =
     run_loop (get_pp (PP_first head) (fst st)) (\<lambda>first.
     ahead_loop (\<lambda>p. get_pp (PP_next (p + off))) (\<lambda>n. hlist_entry_safe n off) body (hlist_entry_safe first off) st)"

section \<open>What the loops do\<close>

lemma next_entry_nx: "nx m (p + off) = Some q \<Longrightarrow> list_next_entry p off m = Inr (q - off)"
  by (auto simp: list_next_entry_def get_next_def nx_def list_entry_def)

lemma prev_entry_pv: "pv m (p + off) = Some q \<Longrightarrow> list_prev_entry p off m = Inr (q - off)"
  by (auto simp: list_prev_entry_def get_prev_def pv_def list_entry_def)

lemma entry_links:
  assumes "is_list m h (nodes_at off (as @ p # bs))"
  shows "nx m (p + off) = Some (hd (nodes_at off bs @ [h]))" "pv m (p + off) = Some (hd (nodes_at off (rev as) @ [h]))"
proof -
  note s = ring_step [of m h "nodes_at off as" "p + off" "nodes_at off bs"]
  show "nx m (p + off) = Some (hd (nodes_at off bs @ [h]))" using s(1) assms by simp
  have "last (h # nodes_at off as) = hd (nodes_at off (rev as) @ [h])"
    by (cases as rule: rev_cases) simp_all
  then show "pv m (p + off) = Some (hd (nodes_at off (rev as) @ [h]))" using s(2) assms by simp
qed

text \<open>A cursor that starts at the entries \<open>qs\<close> of the list, forwards, or backwards.\<close>

lemma cursor_runs:
  assumes "is_list m h (nodes_at off (as @ qs))"
    and "\<And>p st st'. is_list (fst st) h (nodes_at off (as @ qs)) \<Longrightarrow> body p st = Inr (Continue st') \<Longrightarrow>
      is_list (fst st') h (nodes_at off (as @ qs))"
  shows "cursor_loop (\<lambda>p. p + off = h) (\<lambda>p. list_next_entry p off) body (hd (qs @ [h - off])) (m, s) = Some (fold_body body qs (m, s))"
    and "cursor_loop (\<lambda>p. p + off = h) (\<lambda>p. list_prev_entry p off) body (hd (rev as @ [h - off])) (m, s) = Some (fold_body body (rev as) (m, s))"
proof -
  let ?I = "\<lambda>st :: list_mem \<times> 'a. is_list (fst st) h (nodes_at off (as @ qs))"
  have h: "p + off \<noteq> h" if "p \<in> set (as @ qs)" for p using assms(1) that by (auto simp: ring_def)
  have "list_next_entry p off (fst st) = Inr (hd (bs @ [h - off]))" if "qs = cs @ p # bs" "?I st" for cs p bs st
    using entry_links(1) [of "fst st" h off "as @ cs" p bs] that next_entry_nx [of "fst st" p off] by (simp add: nodes_at_hd)
  then show "cursor_loop (\<lambda>p. p + off = h) (\<lambda>p. list_next_entry p off) body (hd (qs @ [h - off])) (m, s) = Some (fold_body body qs (m, s))"
    by (intro cursor_loop_fold [where I = ?I]) (use assms h in auto)
  have "list_prev_entry p off (fst st) = Inr (hd (bs @ [h - off]))" if "rev as = cs @ p # bs" "?I st" for cs p bs st
  proof -
    have "as = rev bs @ p # rev cs" using that(1) by (simp add: rev_eq_append_conv)
    then show ?thesis
      using entry_links(2) [of "fst st" h off "rev bs" p "rev cs @ qs"] that(2) prev_entry_pv [of "fst st" p off] by (simp add: nodes_at_hd)
  qed
  then show "cursor_loop (\<lambda>p. p + off = h) (\<lambda>p. list_prev_entry p off) body (hd (rev as @ [h - off])) (m, s) = Some (fold_body body (rev as) (m, s))"
    by (intro cursor_loop_fold [where I = ?I]) (use assms h in auto)
qed

lemma resumed_loops:
  assumes "is_list m h (nodes_at off (as @ p # bs))"
    and "\<And>p' st st'. is_list (fst st) h (nodes_at off (as @ p # bs)) \<Longrightarrow> body p' st = Inr (Continue st') \<Longrightarrow>
      is_list (fst st') h (nodes_at off (as @ p # bs))"
  shows "list_for_each_entry_continue off body p h (m, s) = Some (fold_body body bs (m, s))"
    and "list_for_each_entry_from off body p h (m, s) = Some (fold_body body (p # bs) (m, s))"
    and "list_for_each_entry_continue_reverse off body p h (m, s) = Some (fold_body body (rev as) (m, s))"
proof -
  note n = next_entry_nx [OF entry_links(1) [OF assms(1)]] prev_entry_pv [OF entry_links(2) [OF assms(1)]]
  show "list_for_each_entry_continue off body p h (m, s) = Some (fold_body body bs (m, s))"
    using n(1) cursor_runs(1) [of m h off "as @ [p]" bs body s] assms
    by (simp add: list_for_each_entry_continue_def run_loop_def nodes_at_hd)
  show "list_for_each_entry_from off body p h (m, s) = Some (fold_body body (p # bs) (m, s))"
    using cursor_runs(1) [of m h off as "p # bs" body s] assms
    by (simp add: list_for_each_entry_from_def del: fold_body.simps)
  show "list_for_each_entry_continue_reverse off body p h (m, s) = Some (fold_body body (rev as) (m, s))"
    using n(2) cursor_runs(2) [of m h off as "p # bs" body s] assms
    by (simp add: list_for_each_entry_continue_reverse_def run_loop_def nodes_at_hd)
qed

text \<open>The safe loops read the entry after the current one first. \<open>link\<close> is the field they follow.\<close>

lemma safe_runs:
  fixes link :: "list_mem \<Rightarrow> u64 \<Rightarrow> u64 option" and body :: "(list_mem, 'a) body"
  assumes step: "\<And>m p q. link m (p + off) = Some q \<Longrightarrow> step p m = Inr (q - off)" and head: "\<And>m. h \<in> dom m \<Longrightarrow> link m h \<noteq> None"
    and links: "\<And>cs q ds. qs = cs @ q # ds \<Longrightarrow> link m (q + off) = Some (hd (nodes_at off ds @ [h]))"
    and h: "h \<in> dom m" "\<And>q. q \<in> set qs \<Longrightarrow> q + off \<noteq> h"
    and keep: "\<And>as p bs st st'. qs = as @ p # bs \<Longrightarrow> body p st = Inr (Continue st') \<Longrightarrow> h \<in> dom (fst st) \<Longrightarrow>
      h \<in> dom (fst st') \<and> (\<forall>q \<in> set bs. link (fst st') (q + off) = link (fst st) (q + off))"
  shows "run_loop (step (hd (qs @ [h - off])) m) (\<lambda>n. safe_loop (\<lambda>p. p + off = h) step body (hd (qs @ [h - off])) n (m, s)) =
    Some (fold_body body qs (m, s))"
proof -
  let ?R = "\<lambda>bs st :: list_mem \<times> 'a. h \<in> dom (fst st) \<and>
    (\<forall>cs q ds. bs = cs @ q # ds \<longrightarrow> link (fst st) (q + off) = Some (hd (nodes_at off ds @ [h])))"
  have R: "?R qs (m, s)" using links h(1) by simp
  have end_step: "\<exists>w. step (h - off) m' = Inr w" if "h \<in> dom m'" for m'
    using head [OF that] step [of m' "h - off"] by auto
  obtain n where n: "step (hd (qs @ [h - off])) m = Inr n"
    using step [OF links [of "[]" "hd qs" "tl qs"]] end_step [OF h(1)] by (cases qs) auto
  have "safe_loop (\<lambda>p. p + off = h) step body (hd (qs @ [h - off])) n (m, s) = Some (fold_body body qs (m, s))"
  proof (rule safe_loop_fold [where R = ?R and z = "h - off"])
    fix q ds and st :: "list_mem \<times> 'a" assume "?R (q # ds) st"
    then have "link (fst st) (q + off) = Some (hd (nodes_at off ds @ [h]))" by (metis append_Nil)
    then show "step q (fst st) = Inr (hd (ds @ [h - off]))" by (simp add: step nodes_at_hd)
  next
    fix as p bs st st' assume a: "qs = as @ p # bs" "?R (p # bs) st" "body p st = Inr (Continue st')"
    have "link (fst st) (q + off) = Some (hd (nodes_at off ds @ [h]))" if "bs = cs @ q # ds" for cs q ds
      using a(2) that by (metis append_Cons)
    then show "?R bs st'" using keep [OF a(1,3)] a(2) by simp
  qed (use R n h end_step in auto)
  then show ?thesis using n by (simp add: run_loop_def)
qed

lemma head_fields: "h \<in> dom m \<Longrightarrow> nx m h \<noteq> None" "h \<in> dom m \<Longrightarrow> pv m h \<noteq> None"
  by (auto simp: nx_def pv_def)

lemma resumed_safe_loops:
  assumes "is_list m h (nodes_at off (as @ p # bs))"
    and keep: "\<And>cs q ds st st'. p # bs = cs @ q # ds \<Longrightarrow> body q st = Inr (Continue st') \<Longrightarrow> h \<in> dom (fst st) \<Longrightarrow>
      h \<in> dom (fst st') \<and> (\<forall>q \<in> set ds. nx (fst st') (q + off) = nx (fst st) (q + off))"
  shows "list_for_each_entry_safe_from off body p h (m, s) = Some (fold_body body (p # bs) (m, s))"
    and "list_for_each_entry_safe_continue off body p h (m, s) = Some (fold_body body bs (m, s))"
proof -
  have h: "h \<in> dom m" "q \<in> set (as @ p # bs) \<Longrightarrow> q + off \<noteq> h" for q
    using ring_dom [OF assms(1), of h] assms(1) by (auto simp: ring_def)
  have links: "nx m (q + off) = Some (hd (nodes_at off ds @ [h]))" if "p # bs = cs @ q # ds" for cs q ds
    using entry_links(1) [of m h off "as @ cs" q ds] assms(1) that by simp
  have "run_loop (list_next_entry (hd ((p # bs) @ [h - off])) off m) (\<lambda>n. safe_loop (\<lambda>p. p + off = h) (\<lambda>p. list_next_entry p off) body
      (hd ((p # bs) @ [h - off])) n (m, s)) = Some (fold_body body (p # bs) (m, s))"
  proof (rule safe_runs [where link = nx and qs = "p # bs"])
    fix cs q ds assume "p # bs = cs @ q # ds"
    then show "nx m (q + off) = Some (hd (nodes_at off ds @ [h]))" by (rule links)
  next
    fix cs q ds st st' assume "p # bs = cs @ q # ds" "body q st = Inr (Continue st')" "h \<in> dom (fst st)"
    then show "h \<in> dom (fst st') \<and> (\<forall>q \<in> set ds. nx (fst st') (q + off) = nx (fst st) (q + off))" by (rule keep)
  next
    fix q assume "q \<in> set (p # bs)"
    then show "q + off \<noteq> h" by (intro h(2)) auto
  qed (use next_entry_nx head_fields(1) h(1) in auto)
  then show "list_for_each_entry_safe_from off body p h (m, s) = Some (fold_body body (p # bs) (m, s))"
    by (simp add: list_for_each_entry_safe_from_def del: fold_body.simps)
  have "run_loop (list_next_entry (hd (bs @ [h - off])) off m) (\<lambda>n. safe_loop (\<lambda>p. p + off = h) (\<lambda>p. list_next_entry p off) body
      (hd (bs @ [h - off])) n (m, s)) = Some (fold_body body bs (m, s))"
  proof (rule safe_runs [where link = nx and qs = bs])
    fix cs q ds assume "bs = cs @ q # ds"
    then show "nx m (q + off) = Some (hd (nodes_at off ds @ [h]))" using links [of "p # cs" q ds] by simp
  next
    fix cs q ds st st' assume "bs = cs @ q # ds" "body q st = Inr (Continue st')" "h \<in> dom (fst st)"
    then show "h \<in> dom (fst st') \<and> (\<forall>q \<in> set ds. nx (fst st') (q + off) = nx (fst st) (q + off))"
      using keep [of "p # cs" q ds st st'] by simp
  qed (use next_entry_nx head_fields(1) h in auto)
  then show "list_for_each_entry_safe_continue off body p h (m, s) = Some (fold_body body bs (m, s))"
    using next_entry_nx [OF entry_links(1) [OF assms(1)]]
    by (simp add: list_for_each_entry_safe_continue_def run_loop_def nodes_at_hd)
qed

lemma safe_reverse_loop:
  assumes "is_list m h (nodes_at off ps)"
    and keep: "\<And>cs q ds st st'. rev ps = cs @ q # ds \<Longrightarrow> body q st = Inr (Continue st') \<Longrightarrow> h \<in> dom (fst st) \<Longrightarrow>
      h \<in> dom (fst st') \<and> (\<forall>q \<in> set ds. pv (fst st') (q + off) = pv (fst st) (q + off))"
  shows "list_for_each_entry_safe_reverse off body h (m, s) = Some (fold_body body (rev ps) (m, s))"
proof -
  have h: "h \<in> dom m" "q \<in> set ps \<Longrightarrow> q + off \<noteq> h" for q
    using ring_dom [OF assms(1), of h] assms(1) by (auto simp: ring_def)
  have links: "pv m (q + off) = Some (hd (nodes_at off ds @ [h]))" if "rev ps = cs @ q # ds" for cs q ds
  proof -
    have "ps = rev ds @ q # rev cs" using that by (simp add: rev_eq_append_conv)
    then show ?thesis using entry_links(2) [of m h off "rev ds" q "rev cs"] assms(1) by simp
  qed
  have "run_loop (list_prev_entry (hd (rev ps @ [h - off])) off m) (\<lambda>n. safe_loop (\<lambda>p. p + off = h) (\<lambda>p. list_prev_entry p off) body
      (hd (rev ps @ [h - off])) n (m, s)) = Some (fold_body body (rev ps) (m, s))"
  proof (rule safe_runs [where link = pv and qs = "rev ps"])
    fix cs q ds assume "rev ps = cs @ q # ds"
    then show "pv m (q + off) = Some (hd (nodes_at off ds @ [h]))" by (rule links)
  next
    fix cs q ds st st' assume "rev ps = cs @ q # ds" "body q st = Inr (Continue st')" "h \<in> dom (fst st)"
    then show "h \<in> dom (fst st') \<and> (\<forall>q \<in> set ds. pv (fst st') (q + off) = pv (fst st) (q + off))" by (rule keep)
  qed (use prev_entry_pv head_fields(2) h in auto)
  then show ?thesis
    using ring_ends(2) [OF assms(1)] nodes_at_hd [of off "rev ps" h]
    by (simp add: list_for_each_entry_safe_reverse_def list_last_entry_def list_entry_def run_loop_def rev_map)
qed

lemma list_for_each_prev_safe_entry: "list_for_each_prev_safe body h st = list_for_each_entry_safe_reverse 0 body h st"
proof -
  have "(\<lambda>p. list_prev_entry p 0) = get_prev" "list_last_entry h 0 = get_prev h"
    by (simp_all add: fun_eq_iff list_prev_entry_def list_last_entry_def list_entry_def bindR_def split: sum.split)
  then show ?thesis by (simp add: list_for_each_prev_safe_def list_for_each_entry_safe_reverse_def) (metis)
qed

section \<open>Chains\<close>

lemma chain_links:
  assumes "bucket_rep h off M (as @ p # bs)"
  shows "hlist_next_entry off p M = Inr (hd (bs @ [0]))"
    and "\<exists>n. get_pp (PP_next (p + off)) M = Inr n \<and> hlist_entry_safe n off = hd (bs @ [0])"
proof -
  have nz: "q + off \<noteq> 0" if "q \<in> set bs" for q
    using is_hlist_dom(2) [of M h "nodes_at off (as @ p # bs)" "q + off"] assms that by auto
  have "hchain M (PP_next (p + off)) (nodes_at off bs)" using assms by (simp add: is_hlist_def hchain_append hchain_Cons)
  then have "at_pp M (PP_next (p + off)) = Some (if bs = [] then 0 else hd (nodes_at off bs))"
    using hchain_first [of M "PP_next (p + off)" "nodes_at off bs"] by simp
  then show n: "\<exists>n. get_pp (PP_next (p + off)) M = Inr n \<and> hlist_entry_safe n off = hd (bs @ [0])"
    using nz by (cases bs) (auto simp: hlist_entry_safe_def)
  then show "hlist_next_entry off p M = Inr (hd (bs @ [0]))" by (auto simp: hlist_next_entry_def)
qed

lemma resumed_chain_loops:
  assumes "bucket_rep h off M (as @ p # bs)"
    and keep: "\<And>q st st'. bucket_rep h off (fst st) (as @ p # bs) \<Longrightarrow> body q st = Inr (Continue st') \<Longrightarrow>
      bucket_rep h off (fst st') (as @ p # bs)"
  shows "hlist_for_each_entry_from off body p (M, s) = Some (fold_body body (p # bs) (M, s))"
    and "hlist_for_each_entry_continue off body p (M, s) = Some (fold_body body bs (M, s))"
proof -
  let ?I = "\<lambda>st :: hlist_mem \<times> 'a. bucket_rep h off (fst st) (as @ p # bs)"
  have run: "cursor_loop (\<lambda>pos. pos = 0) (hlist_next_entry off) body (hd (qs @ [0])) (M, s) = Some (fold_body body qs (M, s))"
    if "as @ p # bs = cs @ qs" for cs qs
  proof (rule cursor_loop_fold [where I = ?I])
    fix ds q es st assume "qs = ds @ q # es" "?I st"
    then show "hlist_next_entry off q (fst st) = Inr (hd (es @ [0]))" using chain_links(1) [where h = h and off = off and M = "fst st" and as = "cs @ ds" and p = q and bs = es] that by simp
  next
    fix q assume "q \<in> set qs"
    then show "q \<noteq> 0" using assms(1) that by auto
  next
    fix q st st' assume "?I st" "body q st = Inr (Continue st')"
    then show "?I st'" by (rule keep)
  qed (use assms(1) in simp_all)
  show "hlist_for_each_entry_from off body p (M, s) = Some (fold_body body (p # bs) (M, s))"
    using run [of as "p # bs"] by (simp add: hlist_for_each_entry_from_def del: fold_body.simps)
  show "hlist_for_each_entry_continue off body p (M, s) = Some (fold_body body bs (M, s))"
    using run [of "as @ [p]" bs] chain_links(1) [OF assms(1)] by (simp add: hlist_for_each_entry_continue_def run_loop_def)
qed

text \<open>The body of a safe loop only has to leave alone the links of the entries it has not come to.\<close>

lemma ahead_loop_fold:
  assumes "R ps st" and "0 \<notin> set ps"
    and links: "\<And>q ds st. R (q # ds) st \<Longrightarrow> \<exists>n. step q (fst st) = Inr n \<and> entry n = hd (ds @ [0])"
    and keep: "\<And>as p bs st st'. ps = as @ p # bs \<Longrightarrow> R (p # bs) st \<Longrightarrow> body p st = Inr (Continue st') \<Longrightarrow> R bs st'"
  shows "ahead_loop step entry body (hd (ps @ [0])) st = Some (fold_body body ps st)"
  using assms(1,2,4)
proof (induction ps arbitrary: st)
  case Nil then show ?case by (subst ahead_loop.simps) simp
next
  case (Cons p ps)
  obtain n where n: "step p (fst st) = Inr n" "entry n = hd (ps @ [0])" using links [OF Cons.prems(1)] by blast
  have rest: "ahead_loop step entry body (hd (ps @ [0])) st' = Some (fold_body body ps st')" if "R ps st'" for st'
  proof (rule Cons.IH [OF that])
    fix as q bs s1 s2 assume "ps = as @ q # bs" "R (q # bs) s1" "body q s1 = Inr (Continue s2)"
    then show "R bs s2" using Cons.prems(3) [of "p # as" q bs s1 s2] by simp
  qed (use Cons.prems(2) in simp)
  show ?case
  proof (cases "body p st")
    case (Inr fl)
    then show ?thesis
      using n Cons.prems(1,2) Cons.prems(3) [of "[]" p ps st] rest by (subst ahead_loop.simps) (cases fl; simp)
  qed (use Cons.prems(2) n in \<open>subst ahead_loop.simps; simp\<close>)
qed

lemma hlist_for_each_entry_safe_fold:
  assumes "bucket_rep h off M ps"
    and keep: "\<And>as p bs q st st'. ps = as @ p # bs \<Longrightarrow> body p st = Inr (Continue st') \<Longrightarrow> q \<in> set bs \<Longrightarrow>
      get_pp (PP_next (q + off)) (fst st') = get_pp (PP_next (q + off)) (fst st)"
  shows "hlist_for_each_entry_safe off body h (M, s) = Some (fold_body body ps (M, s))"
proof -
  let ?R = "\<lambda>bs st :: hlist_mem \<times> 'a. \<forall>cs q ds. bs = cs @ q # ds \<longrightarrow>
    (\<exists>n. get_pp (PP_next (q + off)) (fst st) = Inr n \<and> hlist_entry_safe n off = hd (ds @ [0]))"
  have R: "?R ps (M, s)" using chain_links(2) assms(1) by fastforce
  have "ahead_loop (\<lambda>p. get_pp (PP_next (p + off))) (\<lambda>n. hlist_entry_safe n off) body (hd (ps @ [0])) (M, s) = Some (fold_body body ps (M, s))"
  proof (rule ahead_loop_fold [where R = ?R, OF R])
    fix as p bs st st' assume a: "ps = as @ p # bs" "?R (p # bs) st" "body p st = Inr (Continue st')"
    show "?R bs st'"
    proof (intro allI impI)
      fix cs q ds assume b: "bs = cs @ q # ds"
      then have "\<exists>n. get_pp (PP_next (q + off)) (fst st) = Inr n \<and> hlist_entry_safe n off = hd (ds @ [0])" using a(2) by (metis append_Cons)
      then show "\<exists>n. get_pp (PP_next (q + off)) (fst st') = Inr n \<and> hlist_entry_safe n off = hd (ds @ [0])"
        using keep [OF a(1,3), of q] b by simp
    qed
  next
    fix q ds and st :: "hlist_mem \<times> 'a" assume "?R (q # ds) st"
    then show "\<exists>n. get_pp (PP_next (q + off)) (fst st) = Inr n \<and> hlist_entry_safe n off = hd (ds @ [0])" by (metis append_Nil)
  qed (use assms(1) in simp)
  moreover have "at_pp M (PP_first h) = Some (if ps = [] then 0 else hd (nodes_at off ps))"
    using assms(1) hchain_first [of M "PP_first h" "nodes_at off ps"] by (simp add: is_hlist_def)
  moreover have "ps \<noteq> [] \<Longrightarrow> hd ps + off \<noteq> 0" using is_hlist_dom(2) [of M h "nodes_at off ps" "hd ps + off"] assms(1) by auto
  ultimately show ?thesis by (cases ps) (auto simp: hlist_for_each_entry_safe_def run_loop_def hlist_entry_safe_def simp del: fold_body.simps)
qed

text \<open>The loops over bare nodes are those over entries with the node at offset 0.\<close>

lemma bare_loops:
  "hlist_for_each body h st = hlist_for_each_entry 0 body h st" "hlist_for_each_safe body h st = hlist_for_each_entry_safe 0 body h st"
proof -
  have e: "hlist_entry_safe n 0 = n" for n by (simp add: hlist_entry_safe_def)
  have "hlist_next_entry 0 = (\<lambda>p. get_pp (PP_next p))"
    by (simp add: fun_eq_iff hlist_next_entry_def e bindR_def split: sum.split)
  then show "hlist_for_each body h st = hlist_for_each_entry 0 body h st" by (simp add: hlist_for_each_def hlist_for_each_entry_def e)
  show "hlist_for_each_safe body h st = hlist_for_each_entry_safe 0 body h st"
    by (simp add: hlist_for_each_safe_def hlist_for_each_entry_safe_def e)
qed

end
