(* ===== verification/Connection.thy ===== *)
theory Connection
  imports RecvHandler "HOL-Library.Multiset"
begin

text \<open>
  Connections: \<open>mid_rdma_connection.c\<close> and the epoll contexts of \<open>mid_epoll_context.c\<close>. The struct
  \<open>dhmp_transport\<close> has two parts here, the fields the data path uses (in \<open>Process\<close>) and the rest
  (\<open>Conn\<close>); both are named by the number of the transport. What the libraries hand out (event
  channels, completion channels and queues, queue pairs, connection identifiers) are numbered
  handles, and \<open>live\<close> lists those that were created and not yet destroyed; destroying one that is
  not alive is undefined. The outcome of every library call is given by \<open>rc\<close>, the contents of
  a fresh struct by \<open>blank_trans\<close> and \<open>blank_conn\<close>.
\<close>

section \<open>State\<close>

datatype handle = EVENT_CHANNEL nat | COMP_CHANNEL nat | CQ nat | QP nat | CM_ID nat

datatype ctx_id = CLIENT_CTX | SERVER_CTX

datatype event_handler = COMP_CHANNEL_HANDLER | EVENT_CHANNEL_HANDLER

record dhmp_event_data =
  ed_fd :: nat
  ed_handler :: event_handler

text \<open>\<open>watched\<close> is the interest list of the epoll descriptor, \<open>event_datas\<close> the blocks allocated
  for it.\<close>

record dhmp_context =
  watched :: "dhmp_event_data list"
  event_datas :: "dhmp_event_data list"
  stop :: bool

record sockaddr_in =
  sin_addr :: u32
  sin_port :: int

record rdma_conn_param =
  responder_resources :: nat
  initiator_depth :: nat
  retry_count :: nat
  rnr_retry_count :: nat

record dhmp_cq =
  cq :: nat
  comp_channel :: nat

record Conn =
  peer_addr :: sockaddr_in
  local_addr :: sockaddr_in
  trans_ctx :: ctx_id
  dcq :: "dhmp_cq option"
  qp :: "nat option"
  event_channel :: "nat option"
  cm_id :: "nat option"
  connect_params :: rdma_conn_param
  link_trans :: "nat option"
  is_server :: bool

record rdma_cm_id =
  id_context :: nat
  id_qp :: "nat option"
  route_src :: sockaddr_in
  route_dst :: sockaddr_in

record dhmp_server =
  cur_connections :: int
  client_list :: "nat list"
  listen_trans :: "nat option"

record Net =
  proc :: Proc
  conns :: "nat \<Rightarrow> Conn option"
  next_trans :: nat
  cm_ids :: "nat \<Rightarrow> rdma_cm_id option"
  next_handle :: nat
  live :: "handle list"
  ctxs :: "ctx_id \<Rightarrow> dhmp_context"
  server_instance :: "dhmp_server option"

datatype cm_call =
    Rdma_create_event_channel | Fcntl_GETFL | Fcntl_SETFL | Epoll_ctl_ADD event_handler | Rdma_create_id | Rdma_bind_addr
  | Rdma_listen | Rdma_resolve_addr | Rdma_resolve_route | Calloc | Ibv_create_comp_channel | Ibv_create_cq
  | Ibv_req_notify_cq | Rdma_create_qp | Rdma_connect | Rdma_accept | Epoll_create | Pthread_create

text \<open>For calls that return a pointer, any value but 0 stands for \<open>NULL\<close>. \<open>malloc_next\<close> is what
  \<open>malloc\<close> gives for the receive region, after \<open>malloc_at\<close> for the send region.\<close>

record CmEnv =
  rc :: "cm_call \<Rightarrow> int"
  base :: Env
  malloc_next :: "nat \<Rightarrow> u64 option"
  blank_trans :: dhmp_transport
  blank_conn :: Conn
  inet_pton :: "string \<Rightarrow> u32 option"

section \<open>Access\<close>

definition conn_at :: "nat \<Rightarrow> Net \<Rightarrow> Conn res" where
  "conn_at t s = (case conns s t of None \<Rightarrow> Inl UB | Some c \<Rightarrow> Inr c)"

definition trans_at :: "nat \<Rightarrow> Net \<Rightarrow> dhmp_transport res" where
  "trans_at t s = (case transports (proc s) t of None \<Rightarrow> Inl UB | Some tr \<Rightarrow> Inr tr)"

definition set_conn :: "nat \<Rightarrow> (Conn \<Rightarrow> Conn) \<Rightarrow> Net \<Rightarrow> Net" where
  "set_conn t f s = s\<lparr>conns := (conns s)(t := map_option f (conns s t))\<rparr>"

definition set_trans :: "nat \<Rightarrow> (dhmp_transport \<Rightarrow> dhmp_transport) \<Rightarrow> Net \<Rightarrow> Net" where
  "set_trans t f s = s\<lparr>proc := (proc s)\<lparr>transports := (transports (proc s))(t := map_option f (transports (proc s) t))\<rparr>\<rparr>"

definition set_state :: "nat \<Rightarrow> dhmp_transport_state \<Rightarrow> Net \<Rightarrow> Net" where
  "set_state t st = set_trans t (trans_state_update (\<lambda>_. st))"

definition new_handle :: "(nat \<Rightarrow> handle) \<Rightarrow> Net \<Rightarrow> nat \<times> Net" where
  "new_handle mk s = (next_handle s, s\<lparr>next_handle := next_handle s + 1, live := mk (next_handle s) # live s\<rparr>)"

definition destroy :: "handle \<Rightarrow> Net \<Rightarrow> Net res" where
  "destroy h s = guardR (h \<in> set (live s)) UB (Inr (s\<lparr>live := remove1 h (live s)\<rparr>))"

definition ptr :: "'a option \<Rightarrow> 'a res" where
  "ptr p = (case p of None \<Rightarrow> Inl UB | Some x \<Rightarrow> Inr x)"

section \<open>Epoll contexts\<close>

text \<open>\<open>Epoll_create\<close> is negative when it fails. A context starts with nothing to watch.\<close>

definition dhmp_context_init :: "CmEnv \<Rightarrow> ctx_id \<Rightarrow> Net \<Rightarrow> int \<times> Net" where
  "dhmp_context_init ce x s =
     (if rc ce Epoll_create < 0 then (- 1, s)
      else
        let s1 = s\<lparr>ctxs := (ctxs s)(x := \<lparr>watched = [], event_datas = [], stop = False\<rparr>)\<rparr>
        in if rc ce Pthread_create \<noteq> 0 then (- 1, s1) else (0, s1))"

definition dhmp_context_add_event_fd :: "CmEnv \<Rightarrow> ctx_id \<Rightarrow> nat \<Rightarrow> event_handler \<Rightarrow> Net \<Rightarrow> int \<times> Net" where
  "dhmp_context_add_event_fd ce x fd h s =
     (if \<not> malloc_ok (base ce) then (- 1, s)
      else let ed = \<lparr>ed_fd = fd, ed_handler = h\<rparr>; retval = rc ce (Epoll_ctl_ADD h); c = ctxs s x
           in if retval \<noteq> 0 then (retval, s)
              else (retval, s\<lparr>ctxs := (ctxs s)(x := c\<lparr>watched := ed # watched c, event_datas := ed # event_datas c\<rparr>)\<rparr>))"

text \<open>The block of the entry is not freed.\<close>

definition dhmp_context_del_event_fd :: "ctx_id \<Rightarrow> nat \<Rightarrow> Net \<Rightarrow> Net" where
  "dhmp_context_del_event_fd x fd s =
     (let c = ctxs s x in s\<lparr>ctxs := (ctxs s)(x := c\<lparr>watched := filter (\<lambda>ed. ed_fd ed \<noteq> fd) (watched c)\<rparr>)\<rparr>)"

text \<open>One round of \<open>dhmp_context_run\<close>: the handlers of the entries \<open>epoll_wait\<close> reports, in
  order; the second component says whether the loop ends.\<close>

fun run_handlers :: "(dhmp_event_data \<Rightarrow> Net \<Rightarrow> Net res) \<Rightarrow> dhmp_event_data list \<Rightarrow> Net \<Rightarrow> Net res" where
  "run_handlers handler [] s = Inr s"
| "run_handlers handler (ed # eds) s = bindR (handler ed s) (run_handlers handler eds)"

definition dhmp_context_run :: "(dhmp_event_data \<Rightarrow> Net \<Rightarrow> Net res) \<Rightarrow> ctx_id \<Rightarrow> dhmp_event_data list \<Rightarrow> Net \<Rightarrow> (bool \<times> Net) res" where
  "dhmp_context_run handler x events s = bindR (run_handlers handler events s) (\<lambda>s1. Inr (stop (ctxs s1 x), s1))"

section \<open>Listening and connecting\<close>

definition dhmp_transport_listen :: "CmEnv \<Rightarrow> nat \<Rightarrow> Net \<Rightarrow> (int \<times> Net) res" where
  "dhmp_transport_listen ce t s =
     bindR (conn_at t s) (\<lambda>c.
       if rc ce Rdma_create_id \<noteq> 0 then Inr (rc ce Rdma_create_id, s)
       else
         let (h, s1) = new_handle CM_ID s;
             s2 = set_conn t (\<lambda>c. c\<lparr>cm_id := Some h\<rparr>)
               (s1\<lparr>cm_ids := (cm_ids s1)(h \<mapsto> \<lparr>id_context = t, id_qp = None, route_src = local_addr c, route_dst = peer_addr c\<rparr>)\<rparr>);
             cleanid = (\<lambda>retval. bindR (destroy (CM_ID h) s2) (\<lambda>s3.
               Inr (retval, set_conn t (\<lambda>c. c\<lparr>cm_id := None\<rparr>) (s3\<lparr>cm_ids := (cm_ids s3)(h := None)\<rparr>))))
         in if rc ce Rdma_bind_addr \<noteq> 0 then cleanid (rc ce Rdma_bind_addr)
            else if rc ce Rdma_listen \<noteq> 0 then cleanid (rc ce Rdma_listen)
            else Inr (0, set_state t DHMP_TRANSPORT_STATE_LISTEN s2))"

text \<open>\<open>inet_pton\<close> returns 1 or, for a string that is no address, 0.\<close>

definition dhmp_port_uri_transfer :: "CmEnv \<Rightarrow> nat \<Rightarrow> string \<Rightarrow> int \<Rightarrow> Net \<Rightarrow> int \<times> Net" where
  "dhmp_port_uri_transfer ce t url port s =
     (case inet_pton ce url of
        None \<Rightarrow> (0, s)
      | Some a \<Rightarrow> (1, set_conn t (\<lambda>c. c\<lparr>peer_addr := \<lparr>sin_addr = a, sin_port = port mod 2 ^ 16\<rparr>\<rparr>) s))"

text \<open>\<open>url\<close> is \<open>None\<close> for \<open>NULL\<close>. The test on the conversion is \<open>retval < 0\<close>.\<close>

definition dhmp_transport_connect :: "CmEnv \<Rightarrow> nat \<Rightarrow> string option \<Rightarrow> int \<Rightarrow> Net \<Rightarrow> (int \<times> Net) res" where
  "dhmp_transport_connect ce t url port s =
     (case url of
        None \<Rightarrow> Inr (- 1, s)
      | Some u \<Rightarrow>
          if port \<le> 0 then Inr (- 1, s)
          else
            let (retval, s1) = dhmp_port_uri_transfer ce t u port s
            in if retval < 0 then Inr (retval, s1)
               else bindR (conn_at t s1) (\<lambda>c.
                 if rc ce Rdma_create_id \<noteq> 0 then Inr (rc ce Rdma_create_id, set_conn t (\<lambda>c. c\<lparr>cm_id := None\<rparr>) s1)
                 else
                   let (h, s2) = new_handle CM_ID s1;
                       s3 = set_conn t (\<lambda>c. c\<lparr>cm_id := Some h\<rparr>)
                         (s2\<lparr>cm_ids := (cm_ids s2)(h \<mapsto> \<lparr>id_context = t, id_qp = None, route_src = local_addr c, route_dst = peer_addr c\<rparr>)\<rparr>)
                   in if rc ce Rdma_resolve_addr \<noteq> 0
                      then bindR (destroy (CM_ID h) s3) (\<lambda>s4.
                        Inr (rc ce Rdma_resolve_addr, set_conn t (\<lambda>c. c\<lparr>cm_id := None\<rparr>) (s4\<lparr>cm_ids := (cm_ids s4)(h := None)\<rparr>)))
                      else Inr (0, set_state t DHMP_TRANSPORT_STATE_CONNECTING s3)))"

section \<open>Queues\<close>

text \<open>\<open>flags\<close> after the two calls of \<open>fcntl\<close>.\<close>

definition set_nonblock :: "CmEnv \<Rightarrow> int" where
  "set_nonblock ce = (if rc ce Fcntl_GETFL \<noteq> - 1 then rc ce Fcntl_SETFL else - 1)"

definition dhmp_cq_get :: "CmEnv \<Rightarrow> ctx_id \<Rightarrow> Net \<Rightarrow> (dhmp_cq option \<times> Net) res" where
  "dhmp_cq_get ce x s =
     (if rc ce Calloc \<noteq> 0 then Inr (None, s)
      else if \<not> has_dev (base ce) then Inl UB
      else if rc ce Ibv_create_comp_channel \<noteq> 0 then Inr (None, s)
      else
        let (ch, s1) = new_handle COMP_CHANNEL s;
            cleanchannel = (\<lambda>s'. bindR (destroy (COMP_CHANNEL ch) s') (\<lambda>s'. Inr (None, s')));
            cleaneventfd = (\<lambda>s'. cleanchannel (dhmp_context_del_event_fd x ch s'))
        in if set_nonblock ce = - 1 then cleanchannel s1
           else
             let (retval, s2) = dhmp_context_add_event_fd ce x ch COMP_CHANNEL_HANDLER s1
             in if retval \<noteq> 0 then cleanchannel s2
                else if rc ce Ibv_create_cq \<noteq> 0 then cleaneventfd s2
                else
                  let (q, s3) = new_handle CQ s2
                  in if rc ce Ibv_req_notify_cq \<noteq> 0 then cleaneventfd s3
                     else Inr (Some \<lparr>cq = q, comp_channel = ch\<rparr>, s3))"

text \<open>When the queue pair cannot be created only the struct \<open>dhmp_cq\<close> is freed.\<close>

definition dhmp_qp_create :: "CmEnv \<Rightarrow> nat \<Rightarrow> Net \<Rightarrow> (int \<times> Net) res" where
  "dhmp_qp_create ce t s =
     bindR (conn_at t s) (\<lambda>c.
       bindR (dhmp_cq_get ce (trans_ctx c) s) (\<lambda>(r, s1).
         case r of
           None \<Rightarrow> Inr (- 1, s1)
         | Some d \<Rightarrow>
             bindR (ptr (cm_id c)) (\<lambda>i.
               if rc ce Rdma_create_qp \<noteq> 0 then Inr (rc ce Rdma_create_qp, s1)
               else
                 let (q, s2) = new_handle QP s1
                 in Inr (0, set_conn t (\<lambda>c. c\<lparr>qp := Some q, dcq := Some d\<rparr>)
                      (s2\<lparr>cm_ids := (cm_ids s2)(i := map_option (id_qp_update (\<lambda>_. Some q)) (cm_ids s2 i))\<rparr>)))))"

definition dhmp_qp_release :: "nat \<Rightarrow> Net \<Rightarrow> Net res" where
  "dhmp_qp_release t s =
     bindR (conn_at t s) (\<lambda>c.
       case qp c of
         None \<Rightarrow> Inr s
       | Some q \<Rightarrow>
           bindR (destroy (QP q) s) (\<lambda>s1.
             bindR (ptr (dcq c)) (\<lambda>d.
               bindR (destroy (CQ (cq d)) s1) (\<lambda>s2.
                 Inr (set_conn t (\<lambda>c. c\<lparr>dcq := None\<rparr>) (dhmp_context_del_event_fd (trans_ctx c) (comp_channel d) s2))))))"

definition dhmp_event_channel_create :: "CmEnv \<Rightarrow> nat \<Rightarrow> Net \<Rightarrow> (int \<times> Net) res" where
  "dhmp_event_channel_create ce t s =
     bindR (conn_at t s) (\<lambda>c.
       if rc ce Rdma_create_event_channel \<noteq> 0 then Inr (- 1, set_conn t (\<lambda>c. c\<lparr>event_channel := None\<rparr>) s)
       else
         let (h, s1) = new_handle EVENT_CHANNEL s;
             s2 = set_conn t (\<lambda>c. c\<lparr>event_channel := Some h\<rparr>) s1
         in if set_nonblock ce = - 1 then bindR (destroy (EVENT_CHANNEL h) s2) (\<lambda>s3. Inr (- 1, s3))
            else Inr (0, snd (dhmp_context_add_event_fd ce (trans_ctx c) h EVENT_CHANNEL_HANDLER s2)))"

section \<open>Transports\<close>

definition dereg_mr :: "ibv_mr \<Rightarrow> Net \<Rightarrow> Net res" where
  "dereg_mr mr s = guardR (mr \<in> set (regs (proc s))) UB (Inr (s\<lparr>proc := (proc s)\<lparr>regs := remove1 mr (regs (proc s))\<rparr>\<rparr>))"

definition free_region :: "u64 \<Rightarrow> nat \<Rightarrow> Net \<Rightarrow> Net" where
  "free_region a n s = s\<lparr>proc := (proc s)\<lparr>mem := unmap_mem (mem (proc s)) a n\<rparr>\<rparr>"

definition free_struct :: "nat \<Rightarrow> Net \<Rightarrow> Net" where
  "free_struct t s = s\<lparr>conns := (conns s)(t := None), proc := (proc s)\<lparr>transports := (transports (proc s))(t := None)\<rparr>\<rparr>"

definition alloc_struct :: "CmEnv \<Rightarrow> ctx_id \<Rightarrow> Net \<Rightarrow> nat \<times> Net" where
  "alloc_struct ce x s =
     (let t = next_trans s
      in (t, s\<lparr>next_trans := t + 1, conns := (conns s)(t \<mapsto> (blank_conn ce)\<lparr>trans_ctx := x, is_server := True\<rparr>),
            proc := (proc s)\<lparr>transports := (transports (proc s))(t \<mapsto>
              (blank_trans ce)\<lparr>trans_state := DHMP_TRANSPORT_STATE_INIT, nvm_used_size := 0\<rparr>)\<rparr>\<rparr>))"

definition out_event_channel :: "nat \<Rightarrow> Net \<Rightarrow> (nat option \<times> Net) res" where
  "out_event_channel t s = bindR (conn_at t s) (\<lambda>c. bindR (ptr (event_channel c)) (\<lambda>h.
     bindR (destroy (EVENT_CHANNEL h) (dhmp_context_del_event_fd (trans_ctx c) h s)) (\<lambda>s'. Inr (None, free_struct t s'))))"

definition dhmp_transport_create :: "CmEnv \<Rightarrow> ctx_id \<Rightarrow> bool \<Rightarrow> bool \<Rightarrow> Net \<Rightarrow> (nat option \<times> Net) res" where
  "dhmp_transport_create ce x is_listen poll s =
     (if \<not> malloc_ok (base ce) then Inr (None, s)
      else
        let (t, s1) = alloc_struct ce x s
        in bindR (dhmp_event_channel_create ce t s1) (\<lambda>(err, s2).
             if err \<noteq> 0 then Inr (None, free_struct t s2)
                else if is_listen then Inr (Some t, s2)
                else if \<not> has_dev (base ce) then Inl UB
                else
                  case dhmp_memory_register (base ce) SEND_REGION_SIZE (proc s2) of
                    (None, p1) \<Rightarrow> out_event_channel t (s2\<lparr>proc := p1\<rparr>)
                  | (Some smr, p1) \<Rightarrow>
                      let s3 = set_trans t (send_mr_update (\<lambda>_. smr)) (s2\<lparr>proc := p1\<rparr>)
                      in (case dhmp_memory_register ((base ce)\<lparr>malloc_at := malloc_next ce\<rparr>) RECV_REGION_SIZE (proc s3) of
                            (None, p2) \<Rightarrow>
                              bindR (dereg_mr (dmr_mr smr) (s3\<lparr>proc := p2\<rparr>)) (\<lambda>s4.
                                out_event_channel t (free_region (dmr_addr smr) SEND_REGION_SIZE s4))
                          | (Some rmr, p2) \<Rightarrow>
                              Inr (Some t, set_trans t (\<lambda>tr. tr\<lparr>recv_mr := rmr, is_poll_qp := poll\<rparr>) (s3\<lparr>proc := p2\<rparr>)))))"

text \<open>The first client whose peer has the address. The code compares the dotted strings of
  \<open>inet_ntop\<close>, which are equal exactly when the addresses are.\<close>

fun same_peer :: "u32 \<Rightarrow> nat list \<Rightarrow> Net \<Rightarrow> nat option res" where
  "same_peer a [] s = Inr None"
| "same_peer a (t # ts) s = bindR (conn_at t s) (\<lambda>c. if sin_addr (peer_addr c) = a then Inr (Some t) else same_peer a ts s)"

definition dhmp_is_exist_connection :: "sockaddr_in \<Rightarrow> Net \<Rightarrow> nat option res" where
  "dhmp_is_exist_connection sock s = bindR (ptr (server_instance s)) (\<lambda>sv. same_peer (sin_addr sock) (client_list sv) s)"

definition release_mr :: "dhmp_mr \<Rightarrow> nat \<Rightarrow> Net \<Rightarrow> Net res" where
  "release_mr m n s =
     (if dmr_addr m \<noteq> 0 then bindR (dereg_mr (dmr_mr m) s) (\<lambda>s1. Inr (free_region (dmr_addr m) n s1)) else Inr s)"

definition dhmp_destroy_source :: "nat \<Rightarrow> Net \<Rightarrow> Net res" where
  "dhmp_destroy_source t s =
     bindR (trans_at t s) (\<lambda>tr.
       bindR (conn_at t s) (\<lambda>c.
         bindR (release_mr (send_mr tr) SEND_REGION_SIZE s) (\<lambda>s1.
           bindR (release_mr (recv_mr tr) RECV_REGION_SIZE s1) (\<lambda>s2.
             bindR (ptr (cm_id c)) (\<lambda>i.
               bindR (ptr (cm_ids s2 i)) (\<lambda>k.
                 bindR (ptr (id_qp k)) (\<lambda>q.
                   bindR (destroy (QP q) (s2\<lparr>cm_ids := (cm_ids s2)(i \<mapsto> k\<lparr>id_qp := None\<rparr>)\<rparr>)) (\<lambda>s3.
                     bindR (ptr (dcq c)) (\<lambda>d.
                       bindR (ptr (event_channel c)) (\<lambda>h.
                         Inr (dhmp_context_del_event_fd (trans_ctx c) h
                               (dhmp_context_del_event_fd (trans_ctx c) (comp_channel d) s3))))))))))))"

section \<open>Events\<close>

datatype rdma_cm_event_type =
    RDMA_CM_EVENT_ADDR_RESOLVED | RDMA_CM_EVENT_ADDR_ERROR | RDMA_CM_EVENT_ROUTE_RESOLVED | RDMA_CM_EVENT_ROUTE_ERROR
  | RDMA_CM_EVENT_CONNECT_REQUEST | RDMA_CM_EVENT_CONNECT_RESPONSE | RDMA_CM_EVENT_CONNECT_ERROR
  | RDMA_CM_EVENT_UNREACHABLE | RDMA_CM_EVENT_REJECTED | RDMA_CM_EVENT_ESTABLISHED | RDMA_CM_EVENT_DISCONNECTED
  | RDMA_CM_EVENT_DEVICE_REMOVAL | RDMA_CM_EVENT_MULTICAST_JOIN | RDMA_CM_EVENT_MULTICAST_ERROR
  | RDMA_CM_EVENT_ADDR_CHANGE | RDMA_CM_EVENT_TIMEWAIT_EXIT

definition CONN_PARAM :: rdma_conn_param where
  "CONN_PARAM = \<lparr>responder_resources = 1, initiator_depth = 1, retry_count = 100, rnr_retry_count = 200\<rparr>"

definition on_proc :: "(Proc \<Rightarrow> Proc res) \<Rightarrow> Net \<Rightarrow> Net res" where
  "on_proc f s = bindR (f (proc s)) (\<lambda>p. Inr (s\<lparr>proc := p\<rparr>))"

definition on_cm_addr_resolved :: "CmEnv \<Rightarrow> nat \<Rightarrow> Net \<Rightarrow> (int \<times> Net) res" where
  "on_cm_addr_resolved ce t s = bindR (conn_at t s) (\<lambda>_. Inr (rc ce Rdma_resolve_route, s))"

definition on_cm_route_resolved :: "CmEnv \<Rightarrow> nat \<Rightarrow> Net \<Rightarrow> (int \<times> Net) res" where
  "on_cm_route_resolved ce t s =
     bindR (dhmp_qp_create ce t s) (\<lambda>(retval, s1).
       if retval \<noteq> 0 then Inr (retval, s1)
       else
         let s2 = set_conn t (\<lambda>c. c\<lparr>connect_params := CONN_PARAM\<rparr>) s1
         in if rc ce Rdma_connect \<noteq> 0
            then bindR (dhmp_qp_release t s2) (\<lambda>s3.
              bindR (conn_at t s3) (\<lambda>c.
                Inr (rc ce Rdma_connect, set_state t DHMP_TRANSPORT_STATE_ERROR
                  (s3\<lparr>ctxs := (ctxs s3)(trans_ctx c := (ctxs s3 (trans_ctx c))\<lparr>stop := True\<rparr>)\<rparr>))))
            else bindR (on_proc (dhmp_post_all_recv (base ce) t) s2) (\<lambda>s3. Inr (0, s3)))"

text \<open>\<open>i\<close> is the identifier of the new connection, \<open>t\<close> the listening transport. The new entry
  has no peer address until the connection is established. The branch for a repeated
  connection that is not refused cannot be reached.\<close>

definition on_cm_connect_request :: "CmEnv \<Rightarrow> nat \<Rightarrow> nat \<Rightarrow> Net \<Rightarrow> (int \<times> Net) res" where
  "on_cm_connect_request ce i t s =
     bindR (ptr (cm_ids s i)) (\<lambda>k.
       bindR (dhmp_is_exist_connection (route_dst k) s) (\<lambda>normal_trans.
         if normal_trans \<noteq> None then Inr (- 1, s)
         else
           bindR (conn_at t s) (\<lambda>lc.
             bindR (dhmp_transport_create ce (trans_ctx lc) False False s) (\<lambda>(r, s1).
               case r of
                 None \<Rightarrow> Inr (- 1, s1)
               | Some new \<Rightarrow>
                   let s2 = set_conn new (\<lambda>c. c\<lparr>link_trans := None, cm_id := Some i\<rparr>)
                              (s1\<lparr>cm_ids := (cm_ids s1)(i \<mapsto> k\<lparr>id_context := new\<rparr>)\<rparr>)
                   in bindR (dhmp_qp_create ce new s2) (\<lambda>(retval, s3).
                        if retval \<noteq> 0 then Inr (retval, free_struct new s3)
                        else
                          bindR (ptr (server_instance s3)) (\<lambda>sv.
                            let s4 = s3\<lparr>server_instance := Some (sv\<lparr>cur_connections := cur_connections sv + 1,
                                       client_list := client_list sv @ [new]\<rparr>)\<rparr>
                            in if rc ce Rdma_accept \<noteq> 0 then Inr (- 1, s4)
                               else bindR (on_proc (dhmp_post_all_recv (base ce) new)
                                             (set_state new DHMP_TRANSPORT_STATE_CONNECTING s4)) (\<lambda>s5. Inr (0, s5))))))))"

definition on_cm_established :: "nat \<Rightarrow> Net \<Rightarrow> (int \<times> Net) res" where
  "on_cm_established t s =
     bindR (conn_at t s) (\<lambda>c.
       bindR (ptr (cm_id c)) (\<lambda>i.
         bindR (ptr (cm_ids s i)) (\<lambda>k.
           Inr (0, set_state t DHMP_TRANSPORT_STATE_CONNECTED
             (set_conn t (\<lambda>c. c\<lparr>local_addr := route_src k, peer_addr := route_dst k\<rparr>) s)))))"

text \<open>The list node of a transport that is on no list was never set, or holds the poison
  values of its removal.\<close>

definition drop_client :: "nat \<Rightarrow> dhmp_server \<Rightarrow> Net \<Rightarrow> Net res" where
  "drop_client t sv s =
     guardR (t \<in> set (client_list sv)) UB
       (Inr (s\<lparr>server_instance := Some (sv\<lparr>cur_connections := cur_connections sv - 1, client_list := remove1 t (client_list sv)\<rparr>)\<rparr>))"

definition on_cm_disconnected :: "nat \<Rightarrow> Net \<Rightarrow> (int \<times> Net) res" where
  "on_cm_disconnected t s =
     bindR (dhmp_destroy_source t s) (\<lambda>s1.
       let s2 = set_state t DHMP_TRANSPORT_STATE_DISCONNECTED s1
       in bindR (conn_at t s2) (\<lambda>c.
            bindR (case server_instance s2 of
                     Some sv \<Rightarrow> if is_server c then drop_client t sv s2 else Inr s2
                   | None \<Rightarrow> Inr s2) (\<lambda>s3. Inr (0, s3))))"

definition on_cm_error :: "nat \<Rightarrow> Net \<Rightarrow> (int \<times> Net) res" where
  "on_cm_error t s =
     bindR (dhmp_destroy_source t s) (\<lambda>s1.
       let s2 = set_state t DHMP_TRANSPORT_STATE_ERROR s1
       in bindR (case server_instance s2 of Some sv \<Rightarrow> drop_client t sv s2 | None \<Rightarrow> Inr s2) (\<lambda>s3. Inr (0, s3)))"

definition on_cm_rejected :: "nat \<Rightarrow> Net \<Rightarrow> (int \<times> Net) res" where
  "on_cm_rejected t s = Inr (0, set_state t DHMP_TRANSPORT_STATE_REJECT s)"

text \<open>The receive region is deregistered and stays allocated; the struct stays.\<close>

definition free_trans :: "nat \<Rightarrow> Net \<Rightarrow> Net res" where
  "free_trans t s =
     bindR (trans_at t s) (\<lambda>tr.
       bindR (dereg_mr (dmr_mr (send_mr tr)) s) (\<lambda>s1.
         bindR (dereg_mr (dmr_mr (recv_mr tr)) s1) (\<lambda>s2.
           bindR (dhmp_qp_release t (if dmr_addr (send_mr tr) \<noteq> 0 then free_region (dmr_addr (send_mr tr)) SEND_REGION_SIZE s2 else s2)) (\<lambda>s3.
             bindR (conn_at t s3) (\<lambda>c.
               bindR (ptr (cm_id c)) (\<lambda>i.
                 bindR (destroy (CM_ID i) s3) (\<lambda>s4.
                   bindR (ptr (event_channel c)) (\<lambda>h.
                     destroy (EVENT_CHANNEL h)
                       (dhmp_context_del_event_fd (trans_ctx c) h (s4\<lparr>cm_ids := (cm_ids s4)(i := None)\<rparr>))))))))))"

record rdma_cm_event =
  ev_id :: nat
  event :: rdma_cm_event_type

definition dhmp_handle_ec_event :: "CmEnv \<Rightarrow> rdma_cm_event \<Rightarrow> Net \<Rightarrow> (int \<times> Net) res" where
  "dhmp_handle_ec_event ce ev s =
     bindR (ptr (cm_ids s (ev_id ev))) (\<lambda>k.
       let t = id_context k
       in case event ev of
            RDMA_CM_EVENT_ADDR_RESOLVED \<Rightarrow> on_cm_addr_resolved ce t s
          | RDMA_CM_EVENT_ROUTE_RESOLVED \<Rightarrow> on_cm_route_resolved ce t s
          | RDMA_CM_EVENT_CONNECT_REQUEST \<Rightarrow> on_cm_connect_request ce (ev_id ev) t s
          | RDMA_CM_EVENT_ESTABLISHED \<Rightarrow> on_cm_established t s
          | RDMA_CM_EVENT_DISCONNECTED \<Rightarrow> on_cm_disconnected t s
          | RDMA_CM_EVENT_CONNECT_ERROR \<Rightarrow> on_cm_error t s
          | RDMA_CM_EVENT_REJECTED \<Rightarrow> on_cm_rejected t s
          | _ \<Rightarrow> Inr (- 1, s))"

text \<open>The events \<open>rdma_get_cm_event\<close> delivers, each with what the library calls of its handler
  return; a handler that fails leaves the rest in the channel.\<close>

fun dhmp_event_channel_handler :: "(CmEnv \<times> rdma_cm_event) list \<Rightarrow> Net \<Rightarrow> Net res" where
  "dhmp_event_channel_handler [] s = Inr s"
| "dhmp_event_channel_handler ((ce, ev) # evs) s =
     bindR (dhmp_handle_ec_event ce ev s) (\<lambda>(retval, s1). if retval \<noteq> 0 then Inr s1 else dhmp_event_channel_handler evs s1)"

end
