(* ===== verification/ConnRuns.thy ===== *)
theory ConnRuns
  imports Connection
begin

text \<open>
  What the handlers of \<open>Connection\<close> keep in every run, how a connection is made on either side,
  and what the error paths leave behind.
\<close>

section \<open>What the operations keep\<close>

text \<open>No operation but the two that change the list of clients touches the server, and a
  transport that exists stays, unless it is the one that was just made.\<close>

definition keeps :: "Net \<Rightarrow> Net \<Rightarrow> bool" where
  "keeps s s' \<longleftrightarrow> server_instance s' = server_instance s \<and> next_trans s \<le> next_trans s' \<and>
     (\<forall>t < next_trans s. conns s t \<noteq> None \<longrightarrow> conns s' t \<noteq> None)"

named_theorems keeping "operations that keep the server and its transports"

lemma keeps_refl [keeping]: "keeps s s"
  by (simp add: keeps_def)

lemma keeps_trans [trans]: "keeps s s1 \<Longrightarrow> keeps s1 s2 \<Longrightarrow> keeps s s2"
  by (fastforce simp: keeps_def)

lemma keeps_set_conn [keeping]: "keeps s (set_conn t f s)"
  by (simp add: keeps_def set_conn_def)

lemma keeps_set_trans [keeping]: "keeps s (set_trans t f s)" "keeps s (set_state t st s)"
  by (simp_all add: keeps_def set_trans_def set_state_def)

lemma keeps_fields [keeping]:
  "keeps s (s\<lparr>proc := p\<rparr>)" "keeps s (s\<lparr>cm_ids := ids\<rparr>)" "keeps s (s\<lparr>ctxs := x\<rparr>)" "keeps s (s\<lparr>live := l\<rparr>)"
  "keeps s (s\<lparr>next_handle := n, live := l\<rparr>)"
  by (simp_all add: keeps_def)

lemma keeps_destroy [keeping]: "destroy h s = Inr s' \<Longrightarrow> keeps s s'"
  by (auto simp: destroy_def guardR_eq_Inr keeping)

lemma keeps_new_handle [keeping]: "new_handle mk s = (h, s') \<Longrightarrow> keeps s s'"
  by (auto simp: new_handle_def keeping)

lemma keeps_add_fd [keeping]: "dhmp_context_add_event_fd ce x fd h s = (r, s') \<Longrightarrow> keeps s s'"
  by (auto simp: dhmp_context_add_event_fd_def Let_def keeping split: if_splits)

lemma keeps_del_fd [keeping]: "keeps s (dhmp_context_del_event_fd x fd s)"
  by (simp add: dhmp_context_del_event_fd_def Let_def keeping)

lemma keeps_dereg [keeping]: "dereg_mr mr s = Inr s' \<Longrightarrow> keeps s s'"
  by (auto simp: dereg_mr_def guardR_eq_Inr keeping)

lemma keeps_free_region [keeping]: "keeps s (free_region a n s)"
  by (simp add: free_region_def keeping)

lemma keeps_release [keeping]: "release_mr m n s = Inr s' \<Longrightarrow> keeps s s'"
  by (auto simp: release_mr_def bindR_eq_Inr split: if_splits intro: keeps_trans keeping)

lemma keeps_on_proc [keeping]: "on_proc f s = Inr s' \<Longrightarrow> keeps s s'"
  by (auto simp: on_proc_def bindR_eq_Inr keeping)

lemmas net_ops = new_handle_def destroy_def dhmp_context_add_event_fd_def dhmp_context_del_event_fd_def set_conn_def
  Let_def bindR_eq_Inr guardR_eq_Inr

lemma keeps_cq_get [keeping]: "dhmp_cq_get ce x s = Inr (r, s') \<Longrightarrow> keeps s s'"
  by (auto simp: dhmp_cq_get_def net_ops keeps_def split: if_splits)

lemma keeps_qp_create [keeping]: "dhmp_qp_create ce t s = Inr (r, s') \<Longrightarrow> keeps s s'"
  by (auto simp: dhmp_qp_create_def bindR_eq_Inr Let_def new_handle_def set_conn_def split: if_splits option.splits
      dest!: keeps_cq_get) (auto simp: keeps_def)

lemma keeps_qp_release [keeping]: "dhmp_qp_release t s = Inr s' \<Longrightarrow> keeps s s'"
  by (auto simp: dhmp_qp_release_def net_ops keeps_def split: option.splits)

lemma keeps_ec_create [keeping]: "dhmp_event_channel_create ce t s = Inr (r, s') \<Longrightarrow> keeps s s'"
  by (auto simp: dhmp_event_channel_create_def net_ops keeps_def split: if_splits)

lemma keeps_destroy_source [keeping]: "dhmp_destroy_source t s = Inr s' \<Longrightarrow> keeps s s'"
  by (auto simp: dhmp_destroy_source_def net_ops release_mr_def dereg_mr_def free_region_def keeps_def split: if_splits)

lemma keeps_free_struct: "keeps s s1 \<Longrightarrow> next_trans s \<le> t \<Longrightarrow> keeps s (free_struct t s1)"
  by (auto simp: keeps_def free_struct_def)

lemma keeps_alloc [keeping]: "alloc_struct ce x s = (t, s1) \<Longrightarrow> t = next_trans s \<and> keeps s s1"
  by (auto simp: keeps_def alloc_struct_def Let_def)

lemma keeps_undo: "out_event_channel t s1 = Inr (r, s') \<Longrightarrow> keeps s s1 \<Longrightarrow> next_trans s \<le> t \<Longrightarrow> keeps s s' \<and> r = None"
  by (auto simp: out_event_channel_def bindR_eq_Inr intro!: keeps_free_struct dest!: keeps_destroy
      intro: keeps_trans [OF keeps_trans [OF _ keeps_del_fd]])

lemma transport_create_cases:
  assumes "dhmp_transport_create ce x l poll s = Inr (r, s')"
  obtains (nomem) "\<not> malloc_ok (base ce)" "r = None" "s' = s"
  | (noec) s1 err s2 where "alloc_struct ce x s = (next_trans s, s1)" "dhmp_event_channel_create ce (next_trans s) s1 = Inr (err, s2)"
      "err \<noteq> 0" "r = None" "s' = free_struct (next_trans s) s2"
  | (listen) s1 where "alloc_struct ce x s = (next_trans s, s1)" "dhmp_event_channel_create ce (next_trans s) s1 = Inr (0, s')"
      "l" "r = Some (next_trans s)"
  | (nosend) s1 s2 p1 where "alloc_struct ce x s = (next_trans s, s1)" "dhmp_event_channel_create ce (next_trans s) s1 = Inr (0, s2)"
      "\<not> l" "dhmp_memory_register (base ce) SEND_REGION_SIZE (proc s2) = (None, p1)"
      "out_event_channel (next_trans s) (s2\<lparr>proc := p1\<rparr>) = Inr (r, s')"
  | (norecv) s1 s2 smr p1 s3 p2 s4 where "alloc_struct ce x s = (next_trans s, s1)"
      "dhmp_event_channel_create ce (next_trans s) s1 = Inr (0, s2)" "\<not> l"
      "dhmp_memory_register (base ce) SEND_REGION_SIZE (proc s2) = (Some smr, p1)"
      "s3 = set_trans (next_trans s) (send_mr_update (\<lambda>_. smr)) (s2\<lparr>proc := p1\<rparr>)"
      "dhmp_memory_register ((base ce)\<lparr>malloc_at := malloc_next ce\<rparr>) RECV_REGION_SIZE (proc s3) = (None, p2)"
      "dereg_mr (dmr_mr smr) (s3\<lparr>proc := p2\<rparr>) = Inr s4"
      "out_event_channel (next_trans s) (free_region (dmr_addr smr) SEND_REGION_SIZE s4) = Inr (r, s')"
  | (made) s1 s2 smr p1 s3 rmr p2 where "alloc_struct ce x s = (next_trans s, s1)"
      "dhmp_event_channel_create ce (next_trans s) s1 = Inr (0, s2)" "\<not> l"
      "dhmp_memory_register (base ce) SEND_REGION_SIZE (proc s2) = (Some smr, p1)"
      "s3 = set_trans (next_trans s) (send_mr_update (\<lambda>_. smr)) (s2\<lparr>proc := p1\<rparr>)"
      "dhmp_memory_register ((base ce)\<lparr>malloc_at := malloc_next ce\<rparr>) RECV_REGION_SIZE (proc s3) = (Some rmr, p2)" "r = Some (next_trans s)"
      "s' = set_trans (next_trans s) (\<lambda>tr. tr\<lparr>recv_mr := rmr, is_poll_qp := poll\<rparr>) (s3\<lparr>proc := p2\<rparr>)"
proof -
  note unfold = assms [unfolded dhmp_transport_create_def]
  have t: "fst (alloc_struct ce x s) = next_trans s" by (simp add: alloc_struct_def Let_def)
  obtain s1 where a: "alloc_struct ce x s = (next_trans s, s1)" using t by (cases "alloc_struct ce x s") auto
  show ?thesis
  proof (cases "malloc_ok (base ce)")
    case False
    then show ?thesis using unfold nomem by auto
  next
    case m: True
    obtain err s2 where e: "dhmp_event_channel_create ce (next_trans s) s1 = Inr (err, s2)"
      using unfold m a by (cases "dhmp_event_channel_create ce (next_trans s) s1") auto
    note u = unfold [simplified m a, simplified, unfolded Let_def]
    consider "err \<noteq> 0" | "err = 0" "l" | "err = 0" "\<not> l" by blast
    then show ?thesis
    proof cases
      case 1
      then show ?thesis using u e noec [OF a e] by auto
    next
      case 2
      then show ?thesis using u listen [OF a] e by auto
    next
      case 3
      obtain r1 p1 where r1: "dhmp_memory_register (base ce) SEND_REGION_SIZE (proc s2) = (r1, p1)" by fastforce
      note e = e [unfolded 3(1)]
      show ?thesis
      proof (cases r1)
        case None
        then show ?thesis using u e 3 r1 nosend [OF a e] by (auto split: if_splits)
      next
        case (Some smr)
        define s3 where "s3 = set_trans (next_trans s) (send_mr_update (\<lambda>_. smr)) (s2\<lparr>proc := p1\<rparr>)"
        obtain r2 p2 where r2: "dhmp_memory_register ((base ce)\<lparr>malloc_at := malloc_next ce\<rparr>) RECV_REGION_SIZE (proc s3) = (r2, p2)" by fastforce
        note r1 = r1 [unfolded Some]
        show ?thesis
        proof (cases r2)
          case None
          then show ?thesis using u e 3 r1 r2 norecv [OF a e 3(2) r1 s3_def]
            by (auto split: if_splits simp: bindR_eq_Inr simp flip: s3_def)
        next
          case rmr: (Some rmr)
          then show ?thesis using u e 3 r1 r2 made [OF a e 3(2) r1 s3_def] by (auto split: if_splits simp flip: s3_def)
        qed
      qed
    qed
  qed
qed

lemma create_start:
  assumes "alloc_struct ce x s = (t, s1)" and "dhmp_event_channel_create ce t s1 = Inr (err, s2)"
  shows "keeps s s2" "conns s2 t \<noteq> None" "t < next_trans s2"
proof -
  have "t < next_trans s1" "conns s1 t \<noteq> None" using assms(1) by (auto simp: alloc_struct_def Let_def)
  with keeps_ec_create [OF assms(2)] show "conns s2 t \<noteq> None" "t < next_trans s2" by (auto simp: keeps_def)
  show "keeps s s2" using keeps_alloc [OF assms(1)] keeps_ec_create [OF assms(2)] keeps_trans by blast
qed

lemma keeps_create [keeping]:
  assumes "dhmp_transport_create ce x l poll s = Inr (r, s')"
  shows "keeps s s' \<and> (\<forall>t. r = Some t \<longrightarrow> t = next_trans s \<and> t < next_trans s' \<and> conns s' t \<noteq> None)"
  using assms
proof (cases rule: transport_create_cases)
  case nomem
  then show ?thesis by (simp add: keeping)
next
  case (noec s1 err s2)
  with create_start(1) [OF noec(1,2)] show ?thesis by (simp add: keeps_free_struct)
next
  case (listen s1)
  with create_start [OF listen(1,2)] show ?thesis by simp
next
  case (nosend s1 s2 p1)
  have "keeps s (s2\<lparr>proc := p1\<rparr>)" using create_start(1) [OF nosend(1,2)] keeps_fields(1) keeps_trans by blast
  with keeps_undo [OF nosend(5)] show ?thesis by auto
next
  case (norecv s1 s2 smr p1 s3 p2 s4)
  have "keeps s s3" unfolding norecv(5)
    using create_start(1) [OF norecv(1,2)] keeps_trans keeps_fields(1) keeps_set_trans(1) by metis
  then have "keeps s s4" using keeps_dereg [OF norecv(7)] keeps_trans keeps_fields(1) by metis
  then have "keeps s (free_region (dmr_addr smr) SEND_REGION_SIZE s4)" using keeps_free_region keeps_trans by blast
  with keeps_undo [OF norecv(8)] show ?thesis by auto
next
  case (made s1 s2 smr p1 s3 rmr p2)
  have c: "conns s' = conns s2" "next_trans s' = next_trans s2" "server_instance s' = server_instance s2"
    unfolding made(5,8) by (simp_all add: set_trans_def)
  with create_start [OF made(1,2)] made(7) show ?thesis by (simp add: keeps_def)
qed

section \<open>The list of clients\<close>

definition conn_inv :: "Net \<Rightarrow> bool" where
  "conn_inv s \<longleftrightarrow> (case server_instance s of
     None \<Rightarrow> True
   | Some sv \<Rightarrow> cur_connections sv = int (length (client_list sv)) \<and> distinct (client_list sv) \<and>
       (\<forall>t \<in> set (client_list sv). t < next_trans s \<and> conns s t \<noteq> None))"

lemma inv_keeps: "conn_inv s \<Longrightarrow> keeps s s' \<Longrightarrow> conn_inv s'"
  by (fastforce simp: conn_inv_def keeps_def split: option.splits)

lemma inv_connect_request:
  assumes inv: "conn_inv s" and r: "on_cm_connect_request ce i t s = Inr (rv, s')"
  shows "conn_inv s'"
proof -
  obtain k nt where k: "cm_ids s i = Some k" and nt: "dhmp_is_exist_connection (route_dst k) s = Inr nt"
    using r by (auto simp: on_cm_connect_request_def bindR_eq_Inr ptr_def split: option.splits)
  show ?thesis
  proof (cases "nt = None")
    case False
    then show ?thesis using r k nt inv by (auto simp: on_cm_connect_request_def bindR_eq_Inr ptr_def split: if_splits)
  next
    case True
    then obtain lc r1 s1 where lc: "conn_at t s = Inr lc" and c: "dhmp_transport_create ce (trans_ctx lc) False False s = Inr (r1, s1)"
      using r k nt by (auto simp: on_cm_connect_request_def bindR_eq_Inr ptr_def)
    have inv1: "conn_inv s1" using inv keeps_create [OF c] inv_keeps by blast
    show ?thesis
    proof (cases r1)
      case None
      then show ?thesis using r k nt True lc c inv1 by (auto simp: on_cm_connect_request_def ptr_def)
    next
      case (Some new)
      define s2 where "s2 = set_conn new (\<lambda>c. c\<lparr>link_trans := None, cm_id := Some i\<rparr>) (s1\<lparr>cm_ids := (cm_ids s1)(i \<mapsto> k\<lparr>id_context := new\<rparr>)\<rparr>)"
      have k2: "keeps s1 s2" by (auto simp: s2_def keeps_def set_conn_def)
      obtain rv3 s3 where q: "dhmp_qp_create ce new s2 = Inr (rv3, s3)"
        using r k nt True lc c Some by (auto simp: on_cm_connect_request_def ptr_def bindR_eq_Inr simp flip: s2_def)
      have k3: "keeps s1 s3" using keeps_trans [OF k2 keeps_qp_create [OF q]] .
      have ks: "keeps s s3" using keeps_create [OF c] k3 keeps_trans by blast
      have "new = next_trans s" "new < next_trans s1" "conns s1 new \<noteq> None" using keeps_create [OF c] Some by auto
      with k3 have new: "new = next_trans s" "new < next_trans s3" "conns s3 new \<noteq> None" by (auto simp: keeps_def)
      show ?thesis
      proof (cases "rv3 = 0")
        case False
        then have "s' = free_struct new s3"
          using r k nt True lc c Some q by (auto simp: on_cm_connect_request_def ptr_def bindR_eq_Inr simp flip: s2_def)
        then show ?thesis using inv_keeps [OF inv keeps_free_struct [OF ks]] new by simp
      next
        case ok: True
        obtain sv where sv: "server_instance s3 = Some sv"
          using r k nt True lc c Some q ok
          by (auto simp: on_cm_connect_request_def ptr_def bindR_eq_Inr simp flip: s2_def split: option.splits)
        define s4 where "s4 = s3\<lparr>server_instance := Some (sv\<lparr>cur_connections := cur_connections sv + 1,
          client_list := client_list sv @ [new]\<rparr>)\<rparr>"
        have "server_instance s = Some sv" using ks sv by (simp add: keeps_def)
        then have inv4: "conn_inv s4" using inv ks new by (fastforce simp: conn_inv_def keeps_def s4_def)
        have "keeps s4 s'"
          using r k nt True lc c Some q ok sv
          by (auto simp: on_cm_connect_request_def ptr_def bindR_eq_Inr simp flip: s2_def s4_def split: if_splits
              dest!: keeps_on_proc intro: keeps_refl keeps_trans [OF keeps_set_trans(2)])
        then show ?thesis using inv4 inv_keeps by blast
      qed
    qed
  qed
qed

lemma inv_drop_client:
  assumes "conn_inv s" and "server_instance s = Some sv" and "drop_client t sv s = Inr s'"
  shows "conn_inv s'"
proof -
  have t: "t \<in> set (client_list sv)" using assms(3) by (simp add: drop_client_def guardR_eq_Inr)
  then have "int (length (remove1 t (client_list sv))) = int (length (client_list sv)) - 1"
    using length_pos_if_in_set [OF t] by (simp only: length_remove1 t if_True)
  then show ?thesis using assms by (auto simp: conn_inv_def drop_client_def guardR_eq_Inr)
qed

lemma inv_disconnected:
  assumes "conn_inv s" and "on_cm_disconnected t s = Inr (rv, s')"
  shows "conn_inv s'"
proof -
  obtain s1 where d: "dhmp_destroy_source t s = Inr s1" using assms(2) by (auto simp: on_cm_disconnected_def bindR_eq_Inr)
  have "conn_inv (set_state t DHMP_TRANSPORT_STATE_DISCONNECTED s1)"
    using assms(1) keeps_destroy_source [OF d] keeps_set_trans(2) inv_keeps by blast
  with assms(2) d show ?thesis
    by (auto simp: on_cm_disconnected_def bindR_eq_Inr Let_def split: option.splits if_splits intro: inv_drop_client)
qed

lemma inv_error:
  assumes "conn_inv s" and "on_cm_error t s = Inr (rv, s')"
  shows "conn_inv s'"
proof -
  obtain s1 where d: "dhmp_destroy_source t s = Inr s1" using assms(2) by (auto simp: on_cm_error_def bindR_eq_Inr)
  have "conn_inv (set_state t DHMP_TRANSPORT_STATE_ERROR s1)"
    using assms(1) keeps_destroy_source [OF d] keeps_set_trans(2) inv_keeps by blast
  with assms(2) d show ?thesis
    by (auto simp: on_cm_error_def bindR_eq_Inr Let_def split: option.splits intro: inv_drop_client)
qed

lemma keeps_route_resolved:
  assumes "on_cm_route_resolved ce t s = Inr (rv, s')"
  shows "keeps s s'"
proof -
  obtain r1 s1 where q: "dhmp_qp_create ce t s = Inr (r1, s1)" using assms by (auto simp: on_cm_route_resolved_def bindR_eq_Inr)
  have k: "keeps s (set_conn t f s1)" for f using keeps_qp_create [OF q] keeps_set_conn keeps_trans by blast
  show ?thesis
    using assms q k keeps_qp_create [OF q]
    by (auto simp: on_cm_route_resolved_def bindR_eq_Inr Let_def split: if_splits dest!: keeps_qp_release keeps_on_proc
        intro: keeps_trans keeps_trans [OF keeps_trans [OF keeps_trans [OF k]] keeps_set_trans(2)] keeps_fields(3))
qed

lemma inv_event:
  assumes "conn_inv s" and "dhmp_handle_ec_event ce ev s = Inr (rv, s')"
  shows "conn_inv s'"
proof -
  obtain k where k: "cm_ids s (ev_id ev) = Some k"
    using assms(2) by (auto simp: dhmp_handle_ec_event_def bindR_eq_Inr ptr_def split: option.splits)
  note h = assms(2) [unfolded dhmp_handle_ec_event_def k ptr_def, simplified, unfolded Let_def]
  show ?thesis
    using h assms(1)
    by (auto simp: on_cm_addr_resolved_def on_cm_established_def on_cm_rejected_def bindR_eq_Inr split: rdma_cm_event_type.splits
        intro: inv_connect_request inv_disconnected inv_error inv_keeps [OF _ keeps_route_resolved]
          inv_keeps [OF _ keeps_trans [OF keeps_set_conn keeps_set_trans(2)]] inv_keeps [OF _ keeps_set_trans(2)])
qed

lemma inv_events: "conn_inv s \<Longrightarrow> dhmp_event_channel_handler evs s = Inr s' \<Longrightarrow> conn_inv s'"
  by (induction evs s rule: dhmp_event_channel_handler.induct) (auto simp: bindR_eq_Inr split: if_splits dest: inv_event)

section \<open>Runs\<close>

text \<open>A run of a process, as far as connections go: events are handled, transports are made and
  connected by the client, the library changes its identifiers, and the data path changes
  everything it owns.\<close>

inductive net_run :: "Net \<Rightarrow> Net \<Rightarrow> bool" where
  start: "net_run s s"
| events: "net_run s s1 \<Longrightarrow> dhmp_event_channel_handler evs s1 = Inr s2 \<Longrightarrow> net_run s s2"
| create: "net_run s s1 \<Longrightarrow> dhmp_transport_create ce CLIENT_CTX False poll s1 = Inr (r, s2) \<Longrightarrow> net_run s s2"
| connect: "net_run s s1 \<Longrightarrow> dhmp_transport_connect ce t url port s1 = Inr (rv, s2) \<Longrightarrow> net_run s s2"
| library: "net_run s s1 \<Longrightarrow> net_run s (s1\<lparr>cm_ids := ids, next_handle := n, live := hs\<rparr>)"
| data_path: "net_run s s1 \<Longrightarrow> net_run s (s1\<lparr>proc := p\<rparr>)"

lemma keeps_connect:
  assumes "dhmp_transport_connect ce t url port s = Inr (rv, s')"
  shows "keeps s s'"
  using assms
  by (auto simp: dhmp_transport_connect_def dhmp_port_uri_transfer_def net_ops set_state_def set_trans_def keeps_def
      split: if_splits option.splits)

lemma inv_run: "net_run s s' \<Longrightarrow> conn_inv s \<Longrightarrow> conn_inv s'"
proof (induction rule: net_run.induct)
  case (create s s1 ce poll r s2)
  then show ?case using keeps_create inv_keeps by blast
next
  case (connect s s1 ce t url port rv s2)
  then show ?case using keeps_connect inv_keeps by blast
next
  case (library s s1 ids n hs)
  then show ?case using inv_keeps by (auto simp: keeps_def)
qed (auto intro: inv_events inv_keeps [OF _ keeps_fields(1)])

section \<open>Results of the operations\<close>

text \<open>The libraries do what they are asked for.\<close>

definition all_ok :: "CmEnv \<Rightarrow> bool" where
  "all_ok ce \<longleftrightarrow> (\<forall>c. rc ce c = 0) \<and> malloc_ok (base ce) \<and> has_dev (base ce) \<and> (\<forall>wr. \<not> recv_err (base ce) wr) \<and>
     (\<exists>a mr. malloc_at (base ce) SEND_REGION_SIZE = Some a \<and> reg_mr (base ce) a (word_of_nat SEND_REGION_SIZE) = Some mr) \<and>
     (\<exists>a mr. malloc_next ce RECV_REGION_SIZE = Some a \<and> reg_mr (base ce) a (word_of_nat RECV_REGION_SIZE) = Some mr)"

text \<open>A transport that was made: the struct, the channel, the two regions.\<close>

lemma create_ok:
  assumes ok: "all_ok ce"
  shows "\<exists>c tr p. dhmp_transport_create ce x False poll s =
      Inr (Some (next_trans s), s\<lparr>next_trans := next_trans s + 1, next_handle := next_handle s + 1,
        live := EVENT_CHANNEL (next_handle s) # live s, conns := (conns s)(next_trans s \<mapsto> c),
        ctxs := (ctxs s)(x := (ctxs s x)\<lparr>
          watched := \<lparr>ed_fd = next_handle s, ed_handler = EVENT_CHANNEL_HANDLER\<rparr> # watched (ctxs s x),
          event_datas := \<lparr>ed_fd = next_handle s, ed_handler = EVENT_CHANNEL_HANDLER\<rparr> # event_datas (ctxs s x)\<rparr>),
        proc := p\<rparr>) \<and>
    c = (blank_conn ce)\<lparr>trans_ctx := x, is_server := True, event_channel := Some (next_handle s)\<rparr> \<and>
    transports p = (transports (proc s))(next_trans s \<mapsto> tr) \<and> recvs p = recvs (proc s) \<and> connect_trans p = connect_trans (proc s) \<and>
    trans_state tr = DHMP_TRANSPORT_STATE_INIT \<and> is_poll_qp tr = poll"
  using ok unfolding all_ok_def dhmp_transport_create_def alloc_struct_def
  apply (clarsimp simp: dhmp_event_channel_create_def conn_at_def set_nonblock_def dhmp_context_add_event_fd_def
      new_handle_def set_conn_def set_trans_def dhmp_memory_register_def Let_def)
  apply (intro exI conjI, rule refl)
     apply simp_all
   apply simp_all
  done

lemma qp_create_ok:
  assumes "all_ok ce" and "conns s t = Some c" and "cm_id c = Some i" and "cm_ids s i = Some k"
  shows "\<exists>q d x. dhmp_qp_create ce t s = Inr (0, s\<lparr>next_handle := next_handle s + 3, live := QP q # CQ (cq d) # COMP_CHANNEL (comp_channel d) # live s,
    conns := (conns s)(t \<mapsto> c\<lparr>qp := Some q, dcq := Some d\<rparr>), cm_ids := (cm_ids s)(i \<mapsto> k\<lparr>id_qp := Some q\<rparr>), ctxs := x\<rparr>) \<and>
    (\<forall>y. y \<noteq> trans_ctx c \<longrightarrow> x y = ctxs s y) \<and>
    watched (x (trans_ctx c)) = \<lparr>ed_fd = comp_channel d, ed_handler = COMP_CHANNEL_HANDLER\<rparr> # watched (ctxs s (trans_ctx c))"
proof -
  let ?ed = "\<lparr>ed_fd = next_handle s, ed_handler = COMP_CHANNEL_HANDLER\<rparr>" and ?cx = "ctxs s (trans_ctx c)"
  show ?thesis
    by (rule exI [of _ "next_handle s + 2"], rule exI [of _ "\<lparr>cq = next_handle s + 1, comp_channel = next_handle s\<rparr>"],
        rule exI [of _ "(ctxs s)(trans_ctx c := ?cx\<lparr>watched := ?ed # watched ?cx, event_datas := ?ed # event_datas ?cx\<rparr>)"])
      (use assms in \<open>simp add: all_ok_def dhmp_qp_create_def conn_at_def dhmp_cq_get_def set_nonblock_def
        dhmp_context_add_event_fd_def new_handle_def ptr_def set_conn_def Let_def numeral_3_eq_3\<close>)
qed

lemma post_recv_frame: "dhmp_post_recv e t a p = Inr p' \<Longrightarrow> connect_trans p' = connect_trans p"
  by (auto simp: dhmp_post_recv_def dhmp_recv_task_create_def new_task_def Let_def bindR_eq_Inr split: option.splits if_splits)

lemma post_recvs_frame: "post_recvs e t as p = Inr p' \<Longrightarrow> connect_trans p' = connect_trans p"
  by (induction as arbitrary: p) (auto simp: bindR_eq_Inr dest: post_recv_frame)

lemma post_all_recv_ok:
  assumes "all_ok ce" and "transports p t = Some tr" and "trans_state tr \<le> DHMP_TRANSPORT_STATE_CONNECTED" and "\<not> is_poll_qp tr"
  shows "\<exists>p'. dhmp_post_all_recv (base ce) t p = Inr p' \<and> transports p' = transports p \<and> length (recvs p') = length (recvs p) + 8192 \<and>
    connect_trans p' = connect_trans p"
proof -
  define as where "as = map (\<lambda>i. dmr_addr (recv_mr tr) + word_of_nat (i * SINGLE_NORM_RECV_REGION)) [0..<RECV_REGION_SIZE div SINGLE_NORM_RECV_REGION]"
  have len: "length as = 8192" by (simp add: as_def RECV_REGION_SIZE_def SINGLE_NORM_RECV_REGION_def)
  obtain p' where "post_recvs (base ce) t as p = Inr p'" "transports p' = transports p"
      "recvs p' = recvs p @ map2 (recv_wr_at t tr) [next_task p..<next_task p + length as] as"
    using post_recvs_result [of "base ce" tr p t as] assms(1-3) by (auto simp: all_ok_def)
  moreover have "dhmp_post_all_recv (base ce) t p = post_recvs (base ce) t as p"
    using assms(2,4) by (simp add: dhmp_post_all_recv_def as_def Let_def)
  ultimately show ?thesis using len post_recvs_frame [of "base ce" t as p p'] by auto
qed

lemma route_resolved_ok:
  assumes ok: "all_ok ce" and c: "conns s t = Some c" "cm_id c = Some i" "cm_ids s i = Some k"
    and tr: "transports (proc s) t = Some tr" "trans_state tr \<le> DHMP_TRANSPORT_STATE_CONNECTED" "\<not> is_poll_qp tr"
  shows "\<exists>s' c' q. on_cm_route_resolved ce t s = Inr (0, s') \<and> conns s' t = Some c' \<and> cm_id c' = Some i \<and> qp c' = Some q \<and>
    QP q \<in> set (live s') \<and> cm_ids s' i = Some (k\<lparr>id_qp := Some q\<rparr>) \<and> transports (proc s') = transports (proc s) \<and>
    length (recvs (proc s')) = length (recvs (proc s)) + 8192 \<and> connect_trans (proc s') = connect_trans (proc s) \<and> next_trans s' = next_trans s"
proof -
  obtain q d x where q: "dhmp_qp_create ce t s = Inr (0, s\<lparr>next_handle := next_handle s + 3,
      live := QP q # CQ (cq d) # COMP_CHANNEL (comp_channel d) # live s,
      conns := (conns s)(t \<mapsto> c\<lparr>qp := Some q, dcq := Some d\<rparr>), cm_ids := (cm_ids s)(i \<mapsto> k\<lparr>id_qp := Some q\<rparr>), ctxs := x\<rparr>)"
    using qp_create_ok [OF ok c] by blast
  obtain p' where p': "dhmp_post_all_recv (base ce) t (proc s) = Inr p'" "transports p' = transports (proc s)"
      "length (recvs p') = length (recvs (proc s)) + 8192" "connect_trans p' = connect_trans (proc s)"
    using post_all_recv_ok [OF ok tr] by blast
  have "rc ce Rdma_connect = 0" using ok by (simp add: all_ok_def)
  with q p' c(2) show ?thesis by (simp add: on_cm_route_resolved_def on_proc_def set_conn_def)
qed

lemma same_peer_none:
  "(\<And>u. u \<in> set us \<Longrightarrow> \<exists>c. conns s u = Some c \<and> sin_addr (peer_addr c) \<noteq> a) \<Longrightarrow> same_peer a us s = Inr None"
  by (induction us) (fastforce simp: conn_at_def)+

lemma same_peer_last:
  "(\<And>u. u \<in> set us \<Longrightarrow> conns s u \<noteq> None) \<Longrightarrow> conns s t = Some c \<Longrightarrow> sin_addr (peer_addr c) = a \<Longrightarrow>
    \<exists>u. same_peer a (us @ [t]) s = Inr (Some u)"
  by (induction us) (fastforce simp: conn_at_def)+

lemma connect_request_ok:
  assumes ok: "all_ok ce" and k: "cm_ids s i = Some k" and lc: "conns s t = Some lc" and sv: "server_instance s = Some sv"
    and other: "\<And>u. u \<in> set (client_list sv) \<Longrightarrow> \<exists>c. conns s u = Some c \<and> sin_addr (peer_addr c) \<noteq> sin_addr (route_dst k)"
    and fresh: "next_trans s \<notin> set (client_list sv)"
  shows "\<exists>s' c q tr. on_cm_connect_request ce i t s = Inr (0, s') \<and>
    server_instance s' = Some (sv\<lparr>cur_connections := cur_connections sv + 1, client_list := client_list sv @ [next_trans s]\<rparr>) \<and>
    (\<forall>u. u \<noteq> next_trans s \<longrightarrow> conns s' u = conns s u) \<and> conns s' (next_trans s) = Some c \<and> cm_id c = Some i \<and>
    qp c = Some q \<and> QP q \<in> set (live s') \<and>
    cm_ids s' = (cm_ids s)(i \<mapsto> k\<lparr>id_context := next_trans s, id_qp := Some q\<rparr>) \<and>
    transports (proc s') (next_trans s) = Some tr \<and> trans_state tr = DHMP_TRANSPORT_STATE_CONNECTING \<and>
    length (recvs (proc s')) = length (recvs (proc s)) + 8192"
proof -
  let ?t = "next_trans s" and ?h = "next_handle s"
  have none: "dhmp_is_exist_connection (route_dst k) s = Inr None"
    using same_peer_none [of "client_list sv" s] other sv by (simp add: dhmp_is_exist_connection_def ptr_def)
  obtain c tr p s1 where c: "dhmp_transport_create ce (trans_ctx lc) False False s = Inr (Some ?t, s1)"
    and s1: "conns s1 = (conns s)(?t \<mapsto> c)" "cm_ids s1 = cm_ids s" "server_instance s1 = server_instance s" "proc s1 = p"
    and p: "transports p = (transports (proc s))(?t \<mapsto> tr)" "recvs p = recvs (proc s)" "is_poll_qp tr = False"
    using create_ok [OF ok, of "trans_ctx lc" False s] by fastforce
  define s2 where "s2 = set_conn ?t (\<lambda>c. c\<lparr>link_trans := None, cm_id := Some i\<rparr>) (s1\<lparr>cm_ids := (cm_ids s1)(i \<mapsto> k\<lparr>id_context := ?t\<rparr>)\<rparr>)"
  have s2: "conns s2 ?t = Some (c\<lparr>link_trans := None, cm_id := Some i\<rparr>)" "cm_ids s2 i = Some (k\<lparr>id_context := ?t\<rparr>)"
    by (simp_all add: s2_def set_conn_def s1)
  obtain q d x where q: "dhmp_qp_create ce ?t s2 = Inr (0, s2\<lparr>next_handle := next_handle s2 + 3,
      live := QP q # CQ (cq d) # COMP_CHANNEL (comp_channel d) # live s2,
      conns := (conns s2)(?t \<mapsto> c\<lparr>link_trans := None, cm_id := Some i\<rparr>\<lparr>qp := Some q, dcq := Some d\<rparr>),
      cm_ids := (cm_ids s2)(i \<mapsto> k\<lparr>id_context := ?t\<rparr>\<lparr>id_qp := Some q\<rparr>), ctxs := x\<rparr>)"
    using qp_create_ok [OF ok s2(1) _ s2(2)] by (auto simp del: fun_upd_apply)
  let ?tr = "tr\<lparr>trans_state := DHMP_TRANSPORT_STATE_CONNECTING\<rparr>" and ?p = "p\<lparr>transports := (transports p)(?t \<mapsto> tr\<lparr>trans_state := DHMP_TRANSPORT_STATE_CONNECTING\<rparr>)\<rparr>"
  obtain p' where p': "dhmp_post_all_recv (base ce) ?t ?p = Inr p'" "transports p' = transports ?p" "length (recvs p') = length (recvs ?p) + 8192"
    using post_all_recv_ok [OF ok, of ?p ?t ?tr] p(3) by (auto simp: state_order)
  have "rc ce Rdma_accept = 0" using ok by (simp add: all_ok_def)
  with none c q p' p k lc sv show ?thesis
    by (simp add: on_cm_connect_request_def ptr_def conn_at_def on_proc_def set_state_def set_trans_def s1 flip: s2_def)
      (simp add: s2_def set_conn_def s1 p p' sv ptr_def on_proc_def set_state_def set_trans_def)
qed

text \<open>The whole handshake on the client's side.\<close>

lemma client_handshake:
  assumes "all_ok ce" and "inet_pton ce url = Some a" and "0 < port"
  shows "\<exists>s1 s2 s3 h c q tr.
    dhmp_transport_create ce CLIENT_CTX False False s = Inr (Some (next_trans s), s1) \<and>
    dhmp_transport_connect ce (next_trans s) (Some url) port s1 = Inr (0, s2) \<and>
    dhmp_event_channel_handler [(ce, \<lparr>ev_id = h, event = RDMA_CM_EVENT_ADDR_RESOLVED\<rparr>),
      (ce, \<lparr>ev_id = h, event = RDMA_CM_EVENT_ROUTE_RESOLVED\<rparr>), (ce, \<lparr>ev_id = h, event = RDMA_CM_EVENT_ESTABLISHED\<rparr>)] s2 = Inr s3 \<and>
    cm_id (the (conns s2 (next_trans s))) = Some h \<and> conns s3 (next_trans s) = Some c \<and> qp c = Some q \<and> QP q \<in> set (live s3) \<and>
    peer_addr c = \<lparr>sin_addr = a, sin_port = port mod 2 ^ 16\<rparr> \<and>
    transports (proc s3) (next_trans s) = Some tr \<and> trans_state tr = DHMP_TRANSPORT_STATE_CONNECTED \<and>
    length (recvs (proc s3)) = length (recvs (proc s)) + 8192 \<and>
    connect_trans (proc s3) = connect_trans (proc s) \<and> next_trans s3 = next_trans s + 1 \<and>
    (\<forall>u. u \<noteq> next_trans s \<longrightarrow> transports (proc s3) u = transports (proc s) u)"
proof -
  let ?t = "next_trans s"
  obtain c tr p s1 where c: "dhmp_transport_create ce CLIENT_CTX False False s = Inr (Some ?t, s1)"
    and s1: "conns s1 = (conns s)(?t \<mapsto> c)" "proc s1 = p" "next_handle s1 = next_handle s + 1" "next_trans s1 = next_trans s + 1"
    and p: "transports p = (transports (proc s))(?t \<mapsto> tr)" "recvs p = recvs (proc s)" "is_poll_qp tr = False" "connect_trans p = connect_trans (proc s)"
    using create_ok [OF assms(1), of CLIENT_CTX False s] by fastforce
  let ?h = "next_handle s + 1" and ?a = "\<lparr>sin_addr = a, sin_port = port mod 2 ^ 16\<rparr>"
  let ?c2 = "c\<lparr>peer_addr := ?a, cm_id := Some ?h\<rparr>" and ?k = "\<lparr>id_context = ?t, id_qp = None, route_src = local_addr c, route_dst = ?a\<rparr>"
  let ?tr2 = "tr\<lparr>trans_state := DHMP_TRANSPORT_STATE_CONNECTING\<rparr>"
  have rc: "rc ce x = 0" for x using assms(1) by (simp add: all_ok_def)
  obtain s2 where s2: "dhmp_transport_connect ce ?t (Some url) port s1 = Inr (0, s2)" "conns s2 ?t = Some ?c2" "cm_ids s2 ?h = Some ?k"
    "transports (proc s2) ?t = Some ?tr2" "recvs (proc s2) = recvs (proc s)"
    "connect_trans (proc s2) = connect_trans (proc s)" "next_trans s2 = next_trans s + 1"
    "\<forall>u. u \<noteq> ?t \<longrightarrow> transports (proc s2) u = transports (proc s) u"
    using assms(2,3) rc by (simp add: dhmp_transport_connect_def dhmp_port_uri_transfer_def conn_at_def new_handle_def set_conn_def
        set_state_def set_trans_def s1 p)
  obtain s' c' q where s': "on_cm_route_resolved ce ?t s2 = Inr (0, s')" "conns s' ?t = Some c'" "cm_id c' = Some ?h" "qp c' = Some q"
      "QP q \<in> set (live s')" "cm_ids s' ?h = Some (?k\<lparr>id_qp := Some q\<rparr>)" "transports (proc s') = transports (proc s2)"
      "length (recvs (proc s')) = length (recvs (proc s2)) + 8192" "connect_trans (proc s') = connect_trans (proc s2)"
      "next_trans s' = next_trans s2"
    using route_resolved_ok [OF assms(1) s2(2) _ s2(3,4)] p(3) by (auto simp: state_order)
  have ev: "dhmp_event_channel_handler [(ce, \<lparr>ev_id = ?h, event = RDMA_CM_EVENT_ADDR_RESOLVED\<rparr>),
      (ce, \<lparr>ev_id = ?h, event = RDMA_CM_EVENT_ROUTE_RESOLVED\<rparr>), (ce, \<lparr>ev_id = ?h, event = RDMA_CM_EVENT_ESTABLISHED\<rparr>)] s2 =
      Inr (set_state ?t DHMP_TRANSPORT_STATE_CONNECTED (set_conn ?t (\<lambda>c'. c'\<lparr>local_addr := local_addr c, peer_addr := ?a\<rparr>) s'))"
    using s2(2,3) s' rc
    by (simp add: dhmp_handle_ec_event_def ptr_def on_cm_addr_resolved_def on_cm_established_def conn_at_def Let_def)
  show ?thesis
    by (rule exI [of _ s1], rule exI [of _ s2],
        rule exI [of _ "set_state ?t DHMP_TRANSPORT_STATE_CONNECTED (set_conn ?t (\<lambda>c'. c'\<lparr>local_addr := local_addr c, peer_addr := ?a\<rparr>) s')"],
        rule exI [of _ ?h], rule exI [of _ "c'\<lparr>local_addr := local_addr c, peer_addr := ?a\<rparr>"], rule exI [of _ q],
        rule exI [of _ "?tr2\<lparr>trans_state := DHMP_TRANSPORT_STATE_CONNECTED\<rparr>"], intro conjI, rule c, rule s2(1), rule ev)
      (use s2 s' in \<open>simp_all add: set_state_def set_trans_def set_conn_def\<close>)
qed

section \<open>A sample process\<close>

definition demo_addr :: "u32 \<Rightarrow> sockaddr_in" where
  "demo_addr a = \<lparr>sin_addr = a, sin_port = 39300\<rparr>"

definition demo_conn :: Conn where
  "demo_conn = \<lparr>peer_addr = demo_addr 0, local_addr = demo_addr 0, trans_ctx = SERVER_CTX, dcq = None, qp = None, event_channel = None,
     cm_id = None, connect_params = CONN_PARAM, link_trans = None, is_server = True\<rparr>"

definition demo_cm :: CmEnv where
  "demo_cm = \<lparr>rc = (\<lambda>_. 0), base = demo_env, malloc_next = (\<lambda>_. Some 0x60000000), blank_trans = demo_trans, blank_conn = demo_conn,
     inet_pton = (\<lambda>_. Some 0x0a0a0a02)\<rparr>"

definition demo_id :: "u32 \<Rightarrow> rdma_cm_id" where
  "demo_id a = \<lparr>id_context = 0, id_qp = None, route_src = demo_addr 0x0a0a0a01, route_dst = demo_addr a\<rparr>"

definition demo_net :: Net where
  "demo_net = \<lparr>proc = demo_proc\<lparr>transports := [0 \<mapsto> demo_trans]\<rparr>, conns = [0 \<mapsto> demo_conn], next_trans = 1, cm_ids = [7 \<mapsto> demo_id 5, 8 \<mapsto> demo_id 5], next_handle = 10,
     live = [CM_ID 7, CM_ID 8], ctxs = (\<lambda>_. \<lparr>watched = [], event_datas = [], stop = False\<rparr>),
     server_instance = Some \<lparr>cur_connections = 0, client_list = [], listen_trans = Some 0\<rparr>\<rparr>"

lemma demo_cm_ok: "all_ok demo_cm"
  by (simp add: all_ok_def demo_cm_def demo_env_def SEND_REGION_SIZE_def RECV_REGION_SIZE_def)

section \<open>Properties\<close>

text \<open>C25: In every run the server's count of connections is the length of its list of clients,
  no client is on the list twice, and every client on it is an allocated transport, whatever
  events arrive and whatever the library calls return.\<close>

theorem client_count_exact:
  assumes "net_run s s'" and "server_instance s = Some \<lparr>cur_connections = 0, client_list = [], listen_trans = l\<rparr>"
    and "server_instance s' = Some sv"
  shows "cur_connections sv = int (length (client_list sv)) \<and> distinct (client_list sv) \<and>
    (\<forall>t \<in> set (client_list sv). conns s' t \<noteq> None)"
proof -
  have "conn_inv s" using assms(2) by (simp add: conn_inv_def)
  then have "conn_inv s'" by (rule inv_run [OF assms(1)])
  with assms(3) show ?thesis by (simp add: conn_inv_def)
qed

theorem client_count_exact_witness:
  "\<exists>s' sv. net_run demo_net s' \<and> server_instance s' = Some sv \<and> client_list sv = [1] \<and> cur_connections sv = 1 \<and> conns s' 1 \<noteq> None"
proof -
  obtain s' where s': "on_cm_connect_request demo_cm 7 0 demo_net = Inr (0, s')"
      "server_instance s' = Some \<lparr>cur_connections = 1, client_list = [1], listen_trans = Some 0\<rparr>"
    using connect_request_ok [OF demo_cm_ok, of demo_net 7 "demo_id 5" 0 demo_conn] by (auto simp: demo_net_def)
  let ?ev = "\<lparr>ev_id = 7, event = RDMA_CM_EVENT_CONNECT_REQUEST\<rparr>"
  have "cm_ids demo_net 7 = Some (demo_id 5)" "id_context (demo_id 5) = 0" by (simp_all add: demo_net_def demo_id_def)
  with s'(1) have "dhmp_event_channel_handler [(demo_cm, ?ev)] demo_net = Inr s'"
    by (simp add: dhmp_handle_ec_event_def ptr_def)
  then have run: "net_run demo_net s'" by (rule events [OF start])
  show ?thesis
    using client_count_exact [OF run, of "Some 0"] run s'(2) by (auto simp: demo_net_def)
qed

text \<open>C23: A client gets its connection. When the library calls succeed and the address is one,
  making a transport and connecting it starts the address resolution, and the three events
  of an undisturbed connection, address resolved, route resolved, established, leave it
  connected to the address with a queue pair and 8192 receive buffers posted.\<close>

theorem client_connects:
  assumes "all_ok ce" and "inet_pton ce url = Some a" and "0 < port"
  shows "\<exists>s1 s2 s3 h c q tr.
    dhmp_transport_create ce CLIENT_CTX False False s = Inr (Some (next_trans s), s1) \<and>
    dhmp_transport_connect ce (next_trans s) (Some url) port s1 = Inr (0, s2) \<and>
    dhmp_event_channel_handler [(ce, \<lparr>ev_id = h, event = RDMA_CM_EVENT_ADDR_RESOLVED\<rparr>),
      (ce, \<lparr>ev_id = h, event = RDMA_CM_EVENT_ROUTE_RESOLVED\<rparr>), (ce, \<lparr>ev_id = h, event = RDMA_CM_EVENT_ESTABLISHED\<rparr>)] s2 = Inr s3 \<and>
    cm_id (the (conns s2 (next_trans s))) = Some h \<and> conns s3 (next_trans s) = Some c \<and> qp c = Some q \<and> QP q \<in> set (live s3) \<and>
    peer_addr c = \<lparr>sin_addr = a, sin_port = port mod 2 ^ 16\<rparr> \<and>
    transports (proc s3) (next_trans s) = Some tr \<and> trans_state tr = DHMP_TRANSPORT_STATE_CONNECTED \<and>
    length (recvs (proc s3)) = length (recvs (proc s)) + 8192"
  using client_handshake [OF assms, of s] by blast

theorem client_connects_witness:
  "\<exists>s1 s2 s3 h tr.
    dhmp_transport_create demo_cm CLIENT_CTX False False demo_net = Inr (Some 1, s1) \<and>
    dhmp_transport_connect demo_cm 1 (Some ''10.10.10.2'') 39300 s1 = Inr (0, s2) \<and>
    dhmp_event_channel_handler [(demo_cm, \<lparr>ev_id = h, event = RDMA_CM_EVENT_ADDR_RESOLVED\<rparr>),
      (demo_cm, \<lparr>ev_id = h, event = RDMA_CM_EVENT_ROUTE_RESOLVED\<rparr>), (demo_cm, \<lparr>ev_id = h, event = RDMA_CM_EVENT_ESTABLISHED\<rparr>)] s2 = Inr s3 \<and>
    transports (proc s3) 1 = Some tr \<and> trans_state tr = DHMP_TRANSPORT_STATE_CONNECTED"
proof -
  have "next_trans demo_net = 1" by (simp add: demo_net_def)
  then show ?thesis
    using client_connects [of demo_cm "''10.10.10.2''" "0x0a0a0a02" 39300 demo_net] demo_cm_ok by (auto simp: demo_cm_def)
qed

text \<open>C24: A server takes a client once. A connection request from an address that no client on
  the list has makes a transport with a queue pair and receive buffers and puts it at the end
  of the list; when it is established it is connected and has the peer's address. A further
  request from that address is then refused and changes nothing.\<close>

theorem server_accepts_once:
  assumes "all_ok ce" and "server_instance s = Some sv" and "cm_ids s i = Some k" and "conns s (id_context k) = Some lc"
    and "\<forall>u \<in> set (client_list sv). u \<noteq> next_trans s \<and> (\<exists>c. conns s u = Some c \<and> sin_addr (peer_addr c) \<noteq> sin_addr (route_dst k))"
    and "cm_ids s j = Some k'" and "j \<noteq> i" and "sin_addr (route_dst k') = sin_addr (route_dst k)"
  shows "\<exists>s' c q tr. dhmp_event_channel_handler [(ce, \<lparr>ev_id = i, event = RDMA_CM_EVENT_CONNECT_REQUEST\<rparr>),
      (ce, \<lparr>ev_id = i, event = RDMA_CM_EVENT_ESTABLISHED\<rparr>)] s = Inr s' \<and>
    server_instance s' = Some (sv\<lparr>cur_connections := cur_connections sv + 1, client_list := client_list sv @ [next_trans s]\<rparr>) \<and>
    conns s' (next_trans s) = Some c \<and> qp c = Some q \<and> QP q \<in> set (live s') \<and> peer_addr c = route_dst k \<and>
    transports (proc s') (next_trans s) = Some tr \<and> trans_state tr = DHMP_TRANSPORT_STATE_CONNECTED \<and>
    length (recvs (proc s')) = length (recvs (proc s)) + 8192 \<and>
    dhmp_handle_ec_event ce' \<lparr>ev_id = j, event = RDMA_CM_EVENT_CONNECT_REQUEST\<rparr> s' = Inr (- 1, s')"
proof -
  let ?t = "next_trans s" and ?sv = "sv\<lparr>cur_connections := cur_connections sv + 1, client_list := client_list sv @ [next_trans s]\<rparr>"
  obtain s1 c q tr where r: "on_cm_connect_request ce i (id_context k) s = Inr (0, s1)" "server_instance s1 = Some ?sv"
    "\<forall>u. u \<noteq> ?t \<longrightarrow> conns s1 u = conns s u" "conns s1 ?t = Some c" "cm_id c = Some i" "qp c = Some q" "QP q \<in> set (live s1)"
    "cm_ids s1 = (cm_ids s)(i \<mapsto> k\<lparr>id_context := ?t, id_qp := Some q\<rparr>)" "transports (proc s1) ?t = Some tr"
    "length (recvs (proc s1)) = length (recvs (proc s)) + 8192"
    using connect_request_ok [OF assms(1,3,4,2)] assms(5) by blast
  let ?c = "c\<lparr>local_addr := route_src k, peer_addr := route_dst k\<rparr>"
  let ?s = "set_state ?t DHMP_TRANSPORT_STATE_CONNECTED (set_conn ?t (\<lambda>c. c\<lparr>local_addr := route_src k, peer_addr := route_dst k\<rparr>) s1)"
  have h: "dhmp_event_channel_handler [(ce, \<lparr>ev_id = i, event = RDMA_CM_EVENT_CONNECT_REQUEST\<rparr>),
      (ce, \<lparr>ev_id = i, event = RDMA_CM_EVENT_ESTABLISHED\<rparr>)] s = Inr ?s"
    using assms(3) r by (simp add: dhmp_handle_ec_event_def ptr_def on_cm_established_def conn_at_def Let_def)
  have c: "conns ?s u = (if u = ?t then Some ?c else conns s u)" for u
    using r(3,4) by (auto simp: set_state_def set_trans_def set_conn_def)
  have "\<exists>u. same_peer (sin_addr (route_dst k)) (client_list sv @ [?t]) ?s = Inr (Some u)"
    using assms(5) c by (intro same_peer_last [of _ _ _ ?c]) fastforce+
  moreover have "server_instance ?s = Some ?sv" "cm_ids ?s j = Some k'"
    using r(2,8) assms(6,7) by (simp_all add: set_state_def set_trans_def set_conn_def)
  ultimately have again: "dhmp_handle_ec_event ce' \<lparr>ev_id = j, event = RDMA_CM_EVENT_CONNECT_REQUEST\<rparr> ?s = Inr (- 1, ?s)"
    using assms(8) by (auto simp: dhmp_handle_ec_event_def ptr_def on_cm_connect_request_def dhmp_is_exist_connection_def Let_def)
  show ?thesis
    by (rule exI [of _ ?s], rule exI [of _ ?c]) (use h c [of ?t] again r in \<open>simp add: set_state_def set_trans_def set_conn_def\<close>)
qed

theorem server_accepts_once_witness:
  "\<exists>s' sv. dhmp_event_channel_handler [(demo_cm, \<lparr>ev_id = 7, event = RDMA_CM_EVENT_CONNECT_REQUEST\<rparr>),
      (demo_cm, \<lparr>ev_id = 7, event = RDMA_CM_EVENT_ESTABLISHED\<rparr>)] demo_net = Inr s' \<and>
    server_instance s' = Some sv \<and> client_list sv = [1] \<and>
    dhmp_handle_ec_event demo_cm \<lparr>ev_id = 8, event = RDMA_CM_EVENT_CONNECT_REQUEST\<rparr> s' = Inr (- 1, s')"
proof -
  have "\<exists>s' c q tr. dhmp_event_channel_handler [(demo_cm, \<lparr>ev_id = 7, event = RDMA_CM_EVENT_CONNECT_REQUEST\<rparr>),
      (demo_cm, \<lparr>ev_id = 7, event = RDMA_CM_EVENT_ESTABLISHED\<rparr>)] demo_net = Inr s' \<and>
    server_instance s' = Some (\<lparr>cur_connections = 0, client_list = [], listen_trans = Some 0\<rparr>
      \<lparr>cur_connections := cur_connections \<lparr>cur_connections = 0, client_list = [], listen_trans = Some 0\<rparr> + 1,
       client_list := client_list \<lparr>cur_connections = 0, client_list = [], listen_trans = Some 0\<rparr> @ [next_trans demo_net]\<rparr>) \<and>
    conns s' (next_trans demo_net) = Some c \<and> qp c = Some q \<and> QP q \<in> set (live s') \<and> peer_addr c = route_dst (demo_id 5) \<and>
    transports (proc s') (next_trans demo_net) = Some tr \<and> trans_state tr = DHMP_TRANSPORT_STATE_CONNECTED \<and>
    length (recvs (proc s')) = length (recvs (proc demo_net)) + 8192 \<and>
    dhmp_handle_ec_event demo_cm \<lparr>ev_id = 8, event = RDMA_CM_EVENT_CONNECT_REQUEST\<rparr> s' = Inr (- 1, s')"
    by (rule server_accepts_once [where lc = demo_conn and k' = "demo_id 5", OF demo_cm_ok]) (simp_all add: demo_net_def demo_id_def)
  then show ?thesis by (auto simp: demo_net_def)
qed

text \<open>The failure paths of the channel and of the undoing.\<close>

lemma ec_create_fail:
  assumes "dhmp_event_channel_create ce t s = Inr (err, s')" and "err \<noteq> 0"
  shows "live s' = live s" "ctxs s' = ctxs s" "proc s' = proc s" "server_instance s' = server_instance s"
    "conns s' = (conns s)(t := conns s' t)" "rc ce Rdma_create_event_channel \<noteq> 0 \<or> set_nonblock ce = - 1"
  using assms by (auto simp: dhmp_event_channel_create_def net_ops split: if_splits)

text \<open>The blocks that the channel's entry in the interest list takes.\<close>

definition channel_entry :: "CmEnv \<Rightarrow> nat \<Rightarrow> dhmp_event_data list" where
  "channel_entry ce h =
     (if malloc_ok (base ce) \<and> rc ce Rdma_create_event_channel = 0 \<and> set_nonblock ce \<noteq> - 1 \<and> rc ce (Epoll_ctl_ADD EVENT_CHANNEL_HANDLER) = 0
      then [\<lparr>ed_fd = h, ed_handler = EVENT_CHANNEL_HANDLER\<rparr>] else [])"

lemma ec_create_done:
  assumes "dhmp_event_channel_create ce t s = Inr (0, s')" and "conns s t = Some c"
  shows "live s' = EVENT_CHANNEL (next_handle s) # live s" "proc s' = proc s" "server_instance s' = server_instance s"
    "conns s' = (conns s)(t \<mapsto> c\<lparr>event_channel := Some (next_handle s)\<rparr>)"
    "filter (\<lambda>ed. ed_fd ed \<noteq> next_handle s) (watched (ctxs s' (trans_ctx c))) =
       filter (\<lambda>ed. ed_fd ed \<noteq> next_handle s) (watched (ctxs s (trans_ctx c)))"
    "y \<noteq> trans_ctx c \<Longrightarrow> watched (ctxs s' y) = watched (ctxs s y)"
    "event_datas (ctxs s' y) = (if y = trans_ctx c then channel_entry ce (next_handle s) else []) @ event_datas (ctxs s y)"
  using assms by (auto simp: dhmp_event_channel_create_def conn_at_def net_ops channel_entry_def split: if_splits)

lemma out_event_channel_result:
  assumes "out_event_channel t s = Inr (r, s')" and "conns s t = Some c" and "event_channel c = Some h"
  shows "live s' = remove1 (EVENT_CHANNEL h) (live s)" "server_instance s' = server_instance s" "conns s' = (conns s)(t := None)"
    "transports (proc s') = (transports (proc s))(t := None)" "regs (proc s') = regs (proc s)"
    "watched (ctxs s' (trans_ctx c)) = filter (\<lambda>ed. ed_fd ed \<noteq> h) (watched (ctxs s (trans_ctx c)))"
    "y \<noteq> trans_ctx c \<Longrightarrow> watched (ctxs s' y) = watched (ctxs s y)"
    "event_datas (ctxs s' z) = event_datas (ctxs s z)" "mem (proc s') = mem (proc s)"
  using assms by (auto simp: out_event_channel_def conn_at_def ptr_def free_struct_def net_ops)

text \<open>\<open>malloc\<close> returns memory that is not in use.\<close>

definition malloc_fresh :: "CmEnv \<Rightarrow> memory \<Rightarrow> bool" where
  "malloc_fresh ce m \<longleftrightarrow>
     (\<forall>a y. malloc_at (base ce) SEND_REGION_SIZE = Some a \<and> unat (y - a) < SEND_REGION_SIZE \<longrightarrow> m y = None) \<and>
     (\<forall>a y. malloc_next ce RECV_REGION_SIZE = Some a \<and> unat (y - a) < RECV_REGION_SIZE \<longrightarrow> m y = None)"

lemma memory_register_fail:
  assumes "dhmp_memory_register e n p = (None, p')"
  shows "regs p' = regs p" "transports p' = transports p"
    "mem p' = mem p \<or> (\<exists>a. malloc_at e n = Some a \<and> mem p' = unmap_mem (mem p) a n)"
  using assms by (auto simp: dhmp_memory_register_def unmap_mem_def map_mem_def Let_def fun_eq_iff split: option.splits)

lemma memory_register_done:
  assumes "dhmp_memory_register e n p = (Some m, p')"
  shows "regs p' = regs p @ [dmr_mr m]" "transports p' = transports p"
    "malloc_at e n = Some (dmr_addr m)" "y \<notin> {y. unat (y - dmr_addr m) < n} \<Longrightarrow> mem p' y = mem p y"
  using assms by (auto simp: dhmp_memory_register_def map_mem_def Let_def split: option.splits)

lemma alloc_struct_start:
  assumes "alloc_struct ce x s = (next_trans s, s1)" and "conns s (next_trans s) = None" and "transports (proc s) (next_trans s) = None"
  shows "conns s1 = (conns s)(next_trans s \<mapsto> (blank_conn ce)\<lparr>trans_ctx := x, is_server := True\<rparr>)" "live s1 = live s"
    "next_handle s1 = next_handle s" "ctxs s1 = ctxs s" "regs (proc s1) = regs (proc s)" "server_instance s1 = server_instance s"
    "(transports (proc s1))(next_trans s := None) = transports (proc s)" "(conns s1)(next_trans s := None) = conns s"
    "mem (proc s1) = mem (proc s)"
  using assms by (auto simp: alloc_struct_def Let_def fun_upd_idem)

text \<open>Everything is as before, but for the block of the channel's entry.\<close>

definition left_behind :: "CmEnv \<Rightarrow> ctx_id \<Rightarrow> Net \<Rightarrow> Net \<Rightarrow> bool" where
  "left_behind ce x s s' \<longleftrightarrow>
     live s' = live s \<and> (\<forall>y. watched (ctxs s' y) = watched (ctxs s y)) \<and> mset (regs (proc s')) = mset (regs (proc s)) \<and>
     conns s' = conns s \<and> transports (proc s') = transports (proc s) \<and> server_instance s' = server_instance s \<and>
     mem (proc s') = mem (proc s) \<and>
     (\<forall>y. event_datas (ctxs s' y) = (if y = x then channel_entry ce (next_handle s) else []) @ event_datas (ctxs s y))"

lemma create_undone:
  assumes a: "alloc_struct ce x s = (next_trans s, s1)" "conns s (next_trans s) = None" "transports (proc s) (next_trans s) = None"
    and fresh: "\<forall>y. \<forall>ed \<in> set (watched (ctxs s y)). ed_fd ed < next_handle s"
    and e: "dhmp_event_channel_create ce (next_trans s) s1 = Inr (0, s2)" and o: "out_event_channel (next_trans s) s3 = Inr (None, s')"
    and s3: "live s3 = live s2" "ctxs s3 = ctxs s2" "conns s3 = conns s2" "server_instance s3 = server_instance s2"
      "(transports (proc s3))(next_trans s := None) = (transports (proc s2))(next_trans s := None)"
      "mset (regs (proc s3)) = mset (regs (proc s2))" "mem (proc s3) = mem (proc s2)"
  shows "left_behind ce x s s'"
proof -
  let ?t = "next_trans s" and ?c = "(blank_conn ce)\<lparr>trans_ctx := x, is_server := True\<rparr>"
  note start = alloc_struct_start [OF a]
  have old: "filter (\<lambda>ed. ed_fd ed \<noteq> next_handle s) (watched (ctxs s y)) = watched (ctxs s y)" for y
    using fresh by (fastforce simp: filter_id_conv)
  have c1: "conns s1 ?t = Some ?c" using start(1) by simp
  note d = ec_create_done [OF e c1, simplified start(3)]
  have c3: "conns s3 ?t = Some (?c\<lparr>event_channel := Some (next_handle s)\<rparr>)" using d(4) s3(3) by simp
  note u = out_event_channel_result [OF o c3]
  have "watched (ctxs s' y) = watched (ctxs s y)" for y
    using u(6,7) d(5,6) s3(2) old start(4) by (cases "y = x") auto
  moreover have "event_datas (ctxs s' y) = (if y = x then channel_entry ce (next_handle s) else []) @ event_datas (ctxs s y)" for y
    using u(8) d(7) s3(2) start(4) by simp
  moreover have "mem (proc s') = mem (proc s)" using u(9) s3(7) d(2) start(9) by simp
  ultimately show ?thesis using u(1-5) d(1-4) s3 start by (auto simp: left_behind_def fun_upd_idem)
qed

lemma create_left_behind:
  assumes "dhmp_transport_create ce x l poll s = Inr (None, s')"
    and fresh: "\<forall>y. \<forall>ed \<in> set (watched (ctxs s y)). ed_fd ed < next_handle s"
    and "conns s (next_trans s) = None" and "transports (proc s) (next_trans s) = None" and "malloc_fresh ce (mem (proc s))"
  shows "left_behind ce x s s'"
proof -
  note start = alloc_struct_start [OF _ assms(3,4)] and undone = create_undone [OF _ assms(3,4) fresh]
  from assms(1) show ?thesis
  proof (cases rule: transport_create_cases)
    case nomem
    then show ?thesis by (simp add: left_behind_def channel_entry_def)
  next
    case (noec s1 err s2)
    note f = ec_create_fail [OF noec(2,3)] and st = start [OF noec(1)]
    have "(conns s2)(next_trans s := None) = conns s" using f(5) st(8) by (metis fun_upd_upd)
    moreover have "channel_entry ce h = []" for h using f(6) by (auto simp: channel_entry_def)
    ultimately show ?thesis using noec(5) f(1-4) st by (simp add: free_struct_def left_behind_def)
  next
    case (listen s1)
    then show ?thesis by simp
  next
    case (nosend s1 s2 p1)
    note st = start [OF nosend(1)] and m = memory_register_fail [OF nosend(4)]
    have "mem (proc s2) = mem (proc s)" using ec_create_done(2) [OF nosend(2)] st(1,9) by simp
    then have "mem p1 = mem (proc s2)" using m(3) assms(5) by (auto simp: unmap_mem_def malloc_fresh_def fun_eq_iff)
    then show ?thesis using m(1,2) by (intro undone [OF nosend(1,2,5)]) auto
  next
    case (norecv s1 s2 smr p1 s3 p2 s4)
    note st = start [OF norecv(1)] and m = memory_register_done [OF norecv(4)] and f = memory_register_fail [OF norecv(6)]
    have s4: "s4 = s3\<lparr>proc := p2\<lparr>regs := remove1 (dmr_mr smr) (regs p2)\<rparr>\<rparr>"
      using norecv(7) by (simp add: dereg_mr_def guardR_eq_Inr)
    have same: "mem (proc s2) = mem (proc s)" using ec_create_done(2) [OF norecv(2)] st(1,9) by simp
    have "unmap_mem (mem p2) (dmr_addr smr) SEND_REGION_SIZE = mem (proc s2)"
    proof
      fix y
      have "mem (proc s3) = mem p1" by (simp add: norecv(5) set_trans_def)
      then show "unmap_mem (mem p2) (dmr_addr smr) SEND_REGION_SIZE y = mem (proc s2) y"
        using f(3) m(3) m(4) [of y] assms(5) same by (auto simp: unmap_mem_def malloc_fresh_def)
    qed
    then show ?thesis using m(1,2) f(1,2) norecv(5)
      by (intro undone [OF norecv(1,2,8)]) (auto simp: s4 free_region_def set_trans_def mset_remove1)
  next
    case (made s1 s2 smr p1 s3 rmr p2)
    then show ?thesis by simp
  qed
qed

text \<open>C31: What a transport that cannot be made leaves behind. When \<open>dhmp_transport_create\<close> returns \<open>NULL\<close>, for whatever
  reason, and \<open>malloc\<close> gives memory that is not in use, the handles, the watched descriptors, the registrations, the transports, the server and the allocated memory of
  the regions are what they were before. One thing leaks: the block \<open>dhmp_event_data\<close> that was allocated to watch the
  event channel is never freed, so it stays on \<open>event_datas\<close> of the context, exactly when the channel had been created,
  made non-blocking and watched.\<close>

theorem transport_create_clean:
  assumes "dhmp_transport_create ce x l poll s = Inr (None, s')"
    and fresh: "\<forall>y. \<forall>ed \<in> set (watched (ctxs s y)). ed_fd ed < next_handle s"
    and "conns s (next_trans s) = None" and "transports (proc s) (next_trans s) = None" and "malloc_fresh ce (mem (proc s))"
  shows "live s' = live s \<and> (\<forall>y. watched (ctxs s' y) = watched (ctxs s y)) \<and> mset (regs (proc s')) = mset (regs (proc s)) \<and>
    conns s' = conns s \<and> transports (proc s') = transports (proc s) \<and> server_instance s' = server_instance s \<and>
    mem (proc s') = mem (proc s) \<and>
    (\<forall>y. event_datas (ctxs s' y) =
       (if y = x \<and> malloc_ok (base ce) \<and> rc ce Rdma_create_event_channel = 0 \<and> set_nonblock ce \<noteq> - 1 \<and>
           rc ce (Epoll_ctl_ADD EVENT_CHANNEL_HANDLER) = 0
        then [\<lparr>ed_fd = next_handle s, ed_handler = EVENT_CHANNEL_HANDLER\<rparr>] else []) @ event_datas (ctxs s y))"
  using create_left_behind [OF assms] by (simp add: left_behind_def channel_entry_def)

theorem transport_create_clean_witness:
  "let ce = demo_cm\<lparr>malloc_next := (\<lambda>_. None)\<rparr>; s = demo_net\<lparr>proc := (proc demo_net)\<lparr>mem := \<lambda>_. None\<rparr>\<rparr>
   in \<exists>s'. dhmp_transport_create ce CLIENT_CTX False False s = Inr (None, s') \<and> live s' = live s \<and>
        mset (regs (proc s')) = {#} \<and> conns s' = conns s \<and> mem (proc s') = (\<lambda>_. None) \<and>
        event_datas (ctxs s' CLIENT_CTX) = [\<lparr>ed_fd = 10, ed_handler = EVENT_CHANNEL_HANDLER\<rparr>]"
proof -
  let ?ce = "demo_cm\<lparr>malloc_next := (\<lambda>_. None)\<rparr>" and ?s = "demo_net\<lparr>proc := (proc demo_net)\<lparr>mem := \<lambda>_. None\<rparr>\<rparr>"
  have "\<exists>s'. dhmp_transport_create ?ce CLIENT_CTX False False ?s = Inr (None, s')"
    by (simp add: dhmp_transport_create_def alloc_struct_def dhmp_event_channel_create_def conn_at_def set_nonblock_def
        dhmp_context_add_event_fd_def new_handle_def set_conn_def set_trans_def dhmp_memory_register_def dereg_mr_def
        out_event_channel_def ptr_def destroy_def free_region_def dhmp_context_del_event_fd_def demo_cm_def demo_net_def demo_env_def
        SEND_REGION_SIZE_def Let_def)
  then obtain s' where s': "dhmp_transport_create ?ce CLIENT_CTX False False ?s = Inr (None, s')" by blast
  have "live s' = live ?s \<and> (\<forall>y. watched (ctxs s' y) = watched (ctxs ?s y)) \<and>
      mset (regs (proc s')) = mset (regs (proc ?s)) \<and> conns s' = conns ?s \<and>
      transports (proc s') = transports (proc ?s) \<and> server_instance s' = server_instance ?s \<and> mem (proc s') = mem (proc ?s) \<and>
      (\<forall>y. event_datas (ctxs s' y) =
         (if y = CLIENT_CTX \<and> malloc_ok (base ?ce) \<and> rc ?ce Rdma_create_event_channel = 0 \<and> set_nonblock ?ce \<noteq> - 1 \<and>
             rc ?ce (Epoll_ctl_ADD EVENT_CHANNEL_HANDLER) = 0
          then [\<lparr>ed_fd = next_handle ?s, ed_handler = EVENT_CHANNEL_HANDLER\<rparr>] else []) @ event_datas (ctxs ?s y))"
    by (rule transport_create_clean [OF s']) (simp_all add: demo_net_def malloc_fresh_def)
  with s' show ?thesis by (auto simp: Let_def demo_net_def demo_proc_def demo_cm_def demo_env_def set_nonblock_def)
qed

text \<open>The next level up does not clean up: when the queue pair cannot be created, the completion
  channel and queue stay alive and the descriptor stays watched, with the freed struct as the
  data of its handler.\<close>

lemma qp_create_failure_leaks:
  assumes "conns s t = Some c" and "cm_id c = Some i" and "malloc_ok (base ce)" and "has_dev (base ce)"
    and "\<And>f. f \<noteq> Rdma_create_qp \<Longrightarrow> rc ce f = 0" and "rc ce Rdma_create_qp = e" and "e \<noteq> 0"
  shows "\<exists>s'. dhmp_qp_create ce t s = Inr (e, s') \<and> live s' = CQ (next_handle s + 1) # COMP_CHANNEL (next_handle s) # live s \<and>
    watched (ctxs s' (trans_ctx c)) = \<lparr>ed_fd = next_handle s, ed_handler = COMP_CHANNEL_HANDLER\<rparr> # watched (ctxs s (trans_ctx c))"
  using assms
  by (simp add: dhmp_qp_create_def conn_at_def dhmp_cq_get_def set_nonblock_def dhmp_context_add_event_fd_def new_handle_def ptr_def Let_def)

end
