(* ===== verification/Config.thy ===== *)
theory Config
  imports AddrTable
begin

text \<open>
  The configuration: \<open>dhmp_config.c\<close>. The XML library is a parameter: the document it has
  parsed is a tree of \<open>xmlNode\<close>s, and \<open>get\<close> is \<open>xmlNodeListGetString\<close> on the children of a node,
  \<open>None\<close> for \<open>NULL\<close>. The interfaces that \<open>SIOCGIFCONF\<close> reports are the list \<open>ifs\<close>. The log level is
  a global variable and is passed along. A copy that does not fit its array, an index past
  the three entries and a string function on \<open>NULL\<close> are undefined.
\<close>

section \<open>Data\<close>

record dhmp_net_info =
  nic_name :: string
  net_addr :: string
  net_port :: int

record dhmp_simu_info =
  rdelay :: int
  wdelay :: int
  knum :: int

record dhmp_mem_info =
  dram_node :: int
  nvm_node :: int

record dhmp_config =
  net_infos :: "dhmp_net_info list"
  simu_infos :: "dhmp_simu_info list"
  mem_infos :: "dhmp_mem_info list"
  curnet_id :: int
  nets_cnt :: nat
  watcher_addr :: string
  watcher_port :: int

definition DHMP_ADDR_LEN :: nat where
  "DHMP_ADDR_LEN = 18"

definition DHMA_NIC_NAME_LEN :: nat where
  "DHMA_NIC_NAME_LEN = 10"

datatype xmlNode = Element string "xmlNode list" | Text string

fun node_name :: "xmlNode \<Rightarrow> string" where
  "node_name (Element n ns) = n"
| "node_name (Text s) = ''text''"

fun xmlChildrenNode :: "xmlNode \<Rightarrow> xmlNode list" where
  "xmlChildrenNode (Element n ns) = ns"
| "xmlChildrenNode (Text s) = []"

type_synonym getString = "xmlNode list \<Rightarrow> string option"

section \<open>Strings\<close>

text \<open>\<open>memcpy\<close> of a string with its terminator into an array of \<open>n\<close> characters.\<close>

definition copy_str :: "nat \<Rightarrow> string \<Rightarrow> string res" where
  "copy_str n s = guardR (length s + 1 \<le> n) UB (Inr s)"

definition code_of :: "char \<Rightarrow> int" where
  "code_of c = int (of_char c)"

definition is_digit :: "char \<Rightarrow> bool" where
  "is_digit c \<longleftrightarrow> 48 \<le> code_of c \<and> code_of c \<le> 57"

definition is_space :: "char \<Rightarrow> bool" where
  "is_space c \<longleftrightarrow> code_of c = 32 \<or> (9 \<le> code_of c \<and> code_of c \<le> 13)"

fun digits_val :: "int \<Rightarrow> string \<Rightarrow> int" where
  "digits_val acc [] = acc"
| "digits_val acc (c # cs) = (if is_digit c then digits_val (acc * 10 + (code_of c - 48)) cs else acc)"

definition atoi_val :: "string \<Rightarrow> int" where
  "atoi_val s =
     (case dropWhile is_space s of
        [] \<Rightarrow> 0
      | c # cs \<Rightarrow> if code_of c = 45 then - digits_val 0 cs
                  else if code_of c = 43 then digits_val 0 cs else digits_val 0 (c # cs))"

text \<open>\<open>atoi\<close> of a number that is no \<open>int\<close> is undefined.\<close>

definition int_range :: "int \<Rightarrow> bool" where
  "int_range v \<longleftrightarrow> - (2 ^ 31) \<le> v \<and> v < 2 ^ 31"

definition atoi :: "string \<Rightarrow> int res" where
  "atoi s = guardR (int_range (atoi_val s)) UB (Inr (atoi_val s))"

definition with_string :: "getString \<Rightarrow> xmlNode \<Rightarrow> (string \<Rightarrow> 'a res) \<Rightarrow> 'a res" where
  "with_string get nd f = (case get (xmlChildrenNode nd) of None \<Rightarrow> Inl UB | Some v \<Rightarrow> f v)"

definition with_int :: "getString \<Rightarrow> xmlNode \<Rightarrow> (int \<Rightarrow> 'a res) \<Rightarrow> 'a res" where
  "with_int get nd f = with_string get nd (\<lambda>v. bindR (atoi v) f)"

section \<open>Parsing\<close>

fun parse_watcher_fields :: "getString \<Rightarrow> xmlNode list \<Rightarrow> dhmp_config \<Rightarrow> dhmp_config res" where
  "parse_watcher_fields get [] c = Inr c"
| "parse_watcher_fields get (nd # nds) c =
     bindR (if node_name nd = ''addr''
            then with_string get nd (\<lambda>v. bindR (copy_str DHMP_ADDR_LEN v) (\<lambda>v. Inr (c\<lparr>watcher_addr := v\<rparr>)))
            else if node_name nd = ''port'' then with_int get nd (\<lambda>n. Inr (c\<lparr>watcher_port := n\<rparr>))
            else Inr c) (parse_watcher_fields get nds)"

definition dhmp_parse_watcher_node :: "getString \<Rightarrow> xmlNode \<Rightarrow> dhmp_config \<Rightarrow> dhmp_config res" where
  "dhmp_parse_watcher_node get nd c = parse_watcher_fields get (xmlChildrenNode nd) c"

fun parse_client_fields :: "getString \<Rightarrow> xmlNode list \<Rightarrow> int \<Rightarrow> int res" where
  "parse_client_fields get [] lvl = Inr lvl"
| "parse_client_fields get (nd # nds) lvl =
     bindR (if node_name nd = ''log_level'' then with_int get nd Inr else Inr lvl) (parse_client_fields get nds)"

definition dhmp_parse_client_node :: "getString \<Rightarrow> xmlNode \<Rightarrow> int \<Rightarrow> int res" where
  "dhmp_parse_client_node get nd lvl = parse_client_fields get (xmlChildrenNode nd) lvl"

definition upd_at :: "nat \<Rightarrow> ('a \<Rightarrow> 'a) \<Rightarrow> 'a list \<Rightarrow> 'a list res" where
  "upd_at i f xs = guardR (i < length xs) UB (Inr (xs[i := f (xs ! i)]))"

definition upd_net :: "nat \<Rightarrow> (dhmp_net_info \<Rightarrow> dhmp_net_info) \<Rightarrow> dhmp_config \<Rightarrow> dhmp_config res" where
  "upd_net i f c = bindR (upd_at i f (net_infos c)) (\<lambda>xs. Inr (c\<lparr>net_infos := xs\<rparr>))"

definition upd_simu :: "nat \<Rightarrow> (dhmp_simu_info \<Rightarrow> dhmp_simu_info) \<Rightarrow> dhmp_config \<Rightarrow> dhmp_config res" where
  "upd_simu i f c = bindR (upd_at i f (simu_infos c)) (\<lambda>xs. Inr (c\<lparr>simu_infos := xs\<rparr>))"

definition upd_mem :: "nat \<Rightarrow> (dhmp_mem_info \<Rightarrow> dhmp_mem_info) \<Rightarrow> dhmp_config \<Rightarrow> dhmp_config res" where
  "upd_mem i f c = bindR (upd_at i f (mem_infos c)) (\<lambda>xs. Inr (c\<lparr>mem_infos := xs\<rparr>))"

text \<open>The names are distinct, so at most one of the eight tests of a node holds.\<close>

definition parse_server_field :: "getString \<Rightarrow> nat \<Rightarrow> xmlNode \<Rightarrow> dhmp_config \<Rightarrow> dhmp_config res" where
  "parse_server_field get i nd c =
     (if node_name nd = ''nic_name''
      then with_string get nd (\<lambda>v. bindR (copy_str DHMA_NIC_NAME_LEN v) (\<lambda>v. upd_net i (nic_name_update (\<lambda>_. v)) c))
      else if node_name nd = ''addr''
      then with_string get nd (\<lambda>v. bindR (copy_str DHMP_ADDR_LEN v) (\<lambda>v. upd_net i (net_addr_update (\<lambda>_. v)) c))
      else if node_name nd = ''port'' then with_int get nd (\<lambda>n. upd_net i (net_port_update (\<lambda>_. n)) c)
      else if node_name nd = ''rdelay'' then with_int get nd (\<lambda>n. upd_simu i (rdelay_update (\<lambda>_. n)) c)
      else if node_name nd = ''wdelay'' then with_int get nd (\<lambda>n. upd_simu i (wdelay_update (\<lambda>_. n)) c)
      else if node_name nd = ''knum'' then with_int get nd (\<lambda>n. upd_simu i (knum_update (\<lambda>_. n)) c)
      else if node_name nd = ''dram_node'' then with_int get nd (\<lambda>n. upd_mem i (dram_node_update (\<lambda>_. n)) c)
      else if node_name nd = ''nvm_node'' then with_int get nd (\<lambda>n. upd_mem i (nvm_node_update (\<lambda>_. n)) c)
      else Inr c)"

fun parse_server_fields :: "getString \<Rightarrow> nat \<Rightarrow> xmlNode list \<Rightarrow> dhmp_config \<Rightarrow> dhmp_config res" where
  "parse_server_fields get i [] c = Inr c"
| "parse_server_fields get i (nd # nds) c = bindR (parse_server_field get i nd c) (parse_server_fields get i nds)"

definition dhmp_parse_server_node :: "getString \<Rightarrow> nat \<Rightarrow> xmlNode \<Rightarrow> dhmp_config \<Rightarrow> dhmp_config res" where
  "dhmp_parse_server_node get i nd c = parse_server_fields get i (xmlChildrenNode nd) c"

section \<open>The own node\<close>

record ifreq =
  ifr_name :: string
  ifr_loopback :: bool
  ifr_up :: bool
  ifr_addr :: string

definition nic_matches :: "string \<Rightarrow> ifreq \<Rightarrow> bool" where
  "nic_matches nic r \<longleftrightarrow> \<not> ifr_loopback r \<and> ifr_up r \<and> ifr_name r = nic"

text \<open>\<open>scan_ifs ifs nic n pos\<close> is the inner loop with \<open>n\<close> rounds to go and \<open>ifr\<close> at \<open>pos\<close>: the
  interface that was found, if any, and where \<open>ifr\<close> is then.\<close>

fun scan_ifs :: "ifreq list \<Rightarrow> string \<Rightarrow> nat \<Rightarrow> nat \<Rightarrow> (ifreq option \<times> nat) res" where
  "scan_ifs ifs nic 0 pos = Inr (None, pos)"
| "scan_ifs ifs nic (Suc n) pos =
     guardR (pos < length ifs) UB
       (if nic_matches nic (ifs ! pos) then Inr (Some (ifs ! pos), pos) else scan_ifs ifs nic n (pos + 1))"

fun find_addr :: "dhmp_net_info list \<Rightarrow> string \<Rightarrow> nat option" where
  "find_addr [] a = None"
| "find_addr (x # xs) a = (if net_addr x = a then Some 0 else map_option Suc (find_addr xs a))"

text \<open>The outer loop over the entries; \<open>ifr\<close> is not set back between its rounds.\<close>

fun find_curnode :: "ifreq list \<Rightarrow> dhmp_net_info list \<Rightarrow> dhmp_net_info list \<Rightarrow> nat \<Rightarrow> nat option res" where
  "find_curnode ifs nets [] pos = Inr None"
| "find_curnode ifs nets (x # xs) pos =
     bindR (scan_ifs ifs (nic_name x) (length ifs) pos) (\<lambda>(r, pos').
       case r of
         None \<Rightarrow> find_curnode ifs nets xs pos'
       | Some ifr \<Rightarrow>
           (case find_addr nets (ifr_addr ifr) of
              Some i \<Rightarrow> Inr (Some i)
            | None \<Rightarrow> find_curnode ifs nets xs pos'))"

definition dhmp_set_curnode_id :: "ifreq list \<Rightarrow> dhmp_config \<Rightarrow> dhmp_config res" where
  "dhmp_set_curnode_id ifs c =
     guardR (nets_cnt c \<le> length (net_infos c)) UB
       (let nets = take (nets_cnt c) (net_infos c)
        in bindR (find_curnode ifs nets nets 0) (\<lambda>r.
             case r of None \<Rightarrow> Inl Exit | Some i \<Rightarrow> Inr (c\<lparr>curnet_id := int i\<rparr>)))"

section \<open>Initialisation\<close>

fun parse_nodes :: "getString \<Rightarrow> nat \<Rightarrow> xmlNode list \<Rightarrow> dhmp_config \<times> int \<Rightarrow> (dhmp_config \<times> int) res" where
  "parse_nodes get i [] s = Inr s"
| "parse_nodes get i (nd # nds) (c, lvl) =
     bindR (if node_name nd = ''watcher'' then dhmp_parse_watcher_node get nd c else Inr c) (\<lambda>c1.
       bindR (if node_name nd = ''client'' then dhmp_parse_client_node get nd lvl else Inr lvl) (\<lambda>lvl1.
         if node_name nd = ''server''
         then bindR (dhmp_parse_server_node get i nd c1) (\<lambda>c2.
                parse_nodes get (i + 1) nds (c2\<lparr>nets_cnt := nets_cnt c2 + 1\<rparr>, lvl1))
         else parse_nodes get i nds (c1, lvl1)))"

text \<open>\<open>doc\<close> is what \<open>xmlParseFile\<close> and \<open>xmlDocGetRootElement\<close> return. The result is the return
  value with the configuration and the log level.\<close>

definition dhmp_config_init ::
    "getString \<Rightarrow> ifreq list \<Rightarrow> xmlNode option option \<Rightarrow> bool \<Rightarrow> dhmp_config \<Rightarrow> int \<Rightarrow> (int \<times> dhmp_config \<times> int) res" where
  "dhmp_config_init get ifs doc is_client c lvl =
     (case doc of
        None \<Rightarrow> Inr (- 1, c, lvl)
      | Some None \<Rightarrow> Inr (- 1, c, lvl)
      | Some (Some curnode) \<Rightarrow>
          if node_name curnode \<noteq> ''dhmp_config'' then Inr (- 1, c, lvl)
          else bindR (parse_nodes get 0 (xmlChildrenNode curnode) (c\<lparr>nets_cnt := 0, curnet_id := - 1\<rparr>, lvl)) (\<lambda>(c1, lvl1).
                 bindR (if is_client then Inr c1 else dhmp_set_curnode_id ifs c1) (\<lambda>c2. Inr (0, c2, lvl1))))"

section \<open>Numbers\<close>

definition digit :: "nat \<Rightarrow> char" where
  "digit d = char_of (48 + d)"

fun dec_nat :: "nat \<Rightarrow> string" where
  "dec_nat n = (if n < 10 then [digit n] else dec_nat (n div 10) @ [digit (n mod 10)])"

declare dec_nat.simps [simp del]

definition dec_int :: "int \<Rightarrow> string" where
  "dec_int z = (if z < 0 then CHR ''-'' # dec_nat (nat (- z)) else dec_nat (nat z))"

lemma code_of_digit: "d < 10 \<Longrightarrow> code_of (digit d) = 48 + int d"
  by (simp add: code_of_def digit_def)

lemma is_digit_digit: "d < 10 \<Longrightarrow> is_digit (digit d)"
  by (simp add: is_digit_def code_of_digit)

lemma dec_nat_digits: "c \<in> set (dec_nat n) \<Longrightarrow> is_digit c"
proof (induction n rule: dec_nat.induct)
  case (1 n)
  then show ?case by (subst (asm) (2) dec_nat.simps) (auto simp: is_digit_digit split: if_splits)
qed

lemma dec_nat_not_Nil: "dec_nat n \<noteq> []"
  by (subst dec_nat.simps) simp

lemma digits_val_snoc:
  "(\<And>c. c \<in> set cs \<Longrightarrow> is_digit c) \<Longrightarrow> is_digit d \<Longrightarrow> digits_val acc (cs @ [d]) = digits_val acc cs * 10 + (code_of d - 48)"
  by (induction cs arbitrary: acc) auto

lemma digits_val_dec: "digits_val 0 (dec_nat n) = int n"
proof (induction n rule: dec_nat.induct)
  case (1 n)
  have "int (n div 10) * 10 + int (n mod 10) = int n" by (metis div_mult_mod_eq of_nat_add of_nat_mult of_nat_numeral)
  with 1 show ?case
    by (subst dec_nat.simps)
      (auto simp: is_digit_digit code_of_digit digits_val_snoc dec_nat_digits)
qed

lemma atoi_val_dec: "atoi_val (dec_int z) = z"
proof (cases "z < 0")
  case True
  have "code_of (CHR ''-'') = 45" by (simp add: code_of_def)
  with True show ?thesis by (simp add: dec_int_def atoi_val_def is_space_def digits_val_dec)
next
  case False
  obtain c cs where c: "dec_nat (nat z) = c # cs" using dec_nat_not_Nil list.exhaust by meson
  then have "is_digit c" using dec_nat_digits [of c "nat z"] by simp
  then have "\<not> is_space c" "code_of c \<noteq> 45" "code_of c \<noteq> 43" by (auto simp: is_digit_def is_space_def)
  with False c show ?thesis using digits_val_dec [of "nat z"] by (simp add: dec_int_def atoi_val_def)
qed

lemma atoi_dec: "int_range z \<Longrightarrow> atoi (dec_int z) = Inr z"
  by (simp add: atoi_def atoi_val_dec)

section \<open>Documents\<close>

text \<open>The document that describes a configuration, with the text \<open>ws\<close> (white space) before
  every element.\<close>

type_synonym server_conf = "dhmp_net_info \<times> dhmp_simu_info \<times> dhmp_mem_info"

definition leaf :: "string \<Rightarrow> string \<Rightarrow> xmlNode" where
  "leaf n v = Element n [Text v]"

definition spaced :: "string \<Rightarrow> xmlNode list \<Rightarrow> xmlNode list" where
  "spaced ws ns = concat (map (\<lambda>n. [Text ws, n]) ns)"

definition server_node :: "string \<Rightarrow> server_conf \<Rightarrow> xmlNode" where
  "server_node ws = (\<lambda>(n, s, m). Element ''server'' (spaced ws
     [leaf ''nic_name'' (nic_name n), leaf ''addr'' (net_addr n), leaf ''port'' (dec_int (net_port n)),
      leaf ''rdelay'' (dec_int (rdelay s)), leaf ''wdelay'' (dec_int (wdelay s)), leaf ''knum'' (dec_int (knum s)),
      leaf ''dram_node'' (dec_int (dram_node m)), leaf ''nvm_node'' (dec_int (nvm_node m))]))"

definition config_doc :: "string \<Rightarrow> int \<Rightarrow> string \<Rightarrow> int \<Rightarrow> server_conf list \<Rightarrow> xmlNode" where
  "config_doc ws lvl wa wp srv = Element ''dhmp_config'' (spaced ws
     (Element ''client'' (spaced ws [leaf ''log_level'' (dec_int lvl)])
      # Element ''watcher'' (spaced ws [leaf ''addr'' wa, leaf ''port'' (dec_int wp)])
      # map (server_node ws) srv))"

definition server_fits :: "server_conf \<Rightarrow> bool" where
  "server_fits = (\<lambda>(n, s, m). length (nic_name n) < DHMA_NIC_NAME_LEN \<and> length (net_addr n) < DHMP_ADDR_LEN \<and>
     int_range (net_port n) \<and> int_range (rdelay s) \<and> int_range (wdelay s) \<and> int_range (knum s) \<and>
     int_range (dram_node m) \<and> int_range (nvm_node m))"

definition arrays_ok :: "dhmp_config \<Rightarrow> bool" where
  "arrays_ok c \<longleftrightarrow> length (net_infos c) = DHMP_SERVER_NODE_NUM \<and> length (simu_infos c) = DHMP_SERVER_NODE_NUM \<and>
     length (mem_infos c) = DHMP_SERVER_NODE_NUM"

lemma net_info_all: "(r::dhmp_net_info)\<lparr>nic_name := nic_name n, net_addr := net_addr n, net_port := net_port n\<rparr> = n"
  by (cases r; cases n) simp

lemma simu_info_all: "(r::dhmp_simu_info)\<lparr>rdelay := rdelay n, wdelay := wdelay n, knum := knum n\<rparr> = n"
  by (cases r; cases n) simp

lemma mem_info_all: "(r::dhmp_mem_info)\<lparr>dram_node := dram_node n, nvm_node := nvm_node n\<rparr> = n"
  by (cases r; cases n) simp

lemma parse_server_node:
  assumes get: "\<And>s. get [Text s] = Some s" and fit: "server_fits (n, s, m)" and c: "arrays_ok c" and i: "i < DHMP_SERVER_NODE_NUM"
  shows "dhmp_parse_server_node get i (server_node ws (n, s, m)) c =
    Inr (c\<lparr>net_infos := (net_infos c)[i := n], simu_infos := (simu_infos c)[i := s], mem_infos := (mem_infos c)[i := m]\<rparr>)"
  using assms
  by (simp add: dhmp_parse_server_node_def server_node_def spaced_def leaf_def parse_server_field_def with_string_def
      with_int_def get copy_str_def atoi_dec server_fits_def upd_net_def upd_simu_def upd_mem_def upd_at_def arrays_ok_def
      net_info_all simu_info_all mem_info_all)

lemma spaced_Cons [simp]: "spaced ws (n # ns) = Text ws # n # spaced ws ns"
  by (simp add: spaced_def)

lemma spaced_Nil [simp]: "spaced ws [] = []"
  by (simp add: spaced_def)

definition conf_after :: "nat \<Rightarrow> server_conf list \<Rightarrow> dhmp_config \<Rightarrow> dhmp_config" where
  "conf_after i srv c = c\<lparr>
     net_infos := take i (net_infos c) @ map fst srv @ drop (i + length srv) (net_infos c),
     simu_infos := take i (simu_infos c) @ map (fst \<circ> snd) srv @ drop (i + length srv) (simu_infos c),
     mem_infos := take i (mem_infos c) @ map (snd \<circ> snd) srv @ drop (i + length srv) (mem_infos c),
     nets_cnt := nets_cnt c + length srv\<rparr>"

lemma put_then_rest: "i < length ys \<Longrightarrow> take (Suc i) (ys[i := x]) @ zs @ drop (Suc (i + n)) (ys[i := x]) = take i ys @ (x # zs) @ drop (Suc (i + n)) ys"
  by (simp add: take_Suc_conv_app_nth take_update_swap list_update_append)

lemma parse_servers:
  assumes get: "\<And>s. get [Text s] = Some s"
  shows "list_all server_fits srv \<Longrightarrow> arrays_ok c \<Longrightarrow> i + length srv \<le> DHMP_SERVER_NODE_NUM \<Longrightarrow>
    parse_nodes get i (spaced ws (map (server_node ws) srv)) (c, lvl) = Inr (conf_after i srv c, lvl)"
proof (induction srv arbitrary: i c)
  case Nil
  then show ?case by (simp add: conf_after_def)
next
  case (Cons x srv)
  obtain n s m where x: "x = (n, s, m)" by (cases x) auto
  let ?c1 = "c\<lparr>net_infos := (net_infos c)[i := n], simu_infos := (simu_infos c)[i := s], mem_infos := (mem_infos c)[i := m]\<rparr>"
  have p: "dhmp_parse_server_node get i (server_node ws (n, s, m)) c = Inr ?c1"
    using Cons.prems x by (intro parse_server_node get) auto
  have name: "node_name (server_node ws (n, s, m)) = ''server''" by (simp add: server_node_def)
  have "parse_nodes get (i + 1) (spaced ws (map (server_node ws) srv)) (?c1\<lparr>nets_cnt := nets_cnt ?c1 + 1\<rparr>, lvl)
      = Inr (conf_after (i + 1) srv (?c1\<lparr>nets_cnt := nets_cnt ?c1 + 1\<rparr>), lvl)"
    using Cons.prems by (intro Cons.IH) (auto simp: arrays_ok_def)
  also have "conf_after (i + 1) srv (?c1\<lparr>nets_cnt := nets_cnt ?c1 + 1\<rparr>) = conf_after i (x # srv) c"
    using Cons.prems x by (simp add: conf_after_def put_then_rest [simplified] arrays_ok_def)
  finally show ?case using p name x by simp
qed

section \<open>Properties\<close>

text \<open>C37: A configuration that is written down as a document is read back. For at most three
  servers whose names, addresses and numbers fit the fields, \<open>dhmp_config_init\<close> on the document
  stores server \<open>i\<close> in entry \<open>i\<close> of the three arrays, counts the servers, leaves the other
  entries alone, and takes over the watcher and the log level.\<close>

theorem config_round_trip:
  assumes "\<forall>s. get [Text s] = Some s" and "list_all server_fits srv" and "length srv \<le> DHMP_SERVER_NODE_NUM"
    and "arrays_ok c" and "int_range lvl" and "length wa < DHMP_ADDR_LEN" and "int_range wp"
  shows "dhmp_config_init get ifs (Some (Some (config_doc ws lvl wa wp srv))) True c lvl0 =
    Inr (0, c\<lparr>net_infos := map fst srv @ drop (length srv) (net_infos c),
              simu_infos := map (fst \<circ> snd) srv @ drop (length srv) (simu_infos c),
              mem_infos := map (snd \<circ> snd) srv @ drop (length srv) (mem_infos c),
              curnet_id := - 1, nets_cnt := length srv, watcher_addr := wa, watcher_port := wp\<rparr>, lvl)"
proof -
  let ?c0 = "c\<lparr>nets_cnt := 0, curnet_id := - 1, watcher_addr := wa, watcher_port := wp\<rparr>"
  have "parse_nodes get 0 (spaced ws (map (server_node ws) srv)) (?c0, lvl) = Inr (conf_after 0 srv ?c0, lvl)"
    using assms by (intro parse_servers) (auto simp: arrays_ok_def)
  with assms show ?thesis
    by (simp add: dhmp_config_init_def config_doc_def leaf_def dhmp_parse_client_node_def dhmp_parse_watcher_node_def
        with_string_def with_int_def copy_str_def atoi_dec conf_after_def)
qed

definition demo_config :: dhmp_config where
  "demo_config = \<lparr>net_infos = replicate 3 \<lparr>nic_name = [], net_addr = [], net_port = 0\<rparr>,
     simu_infos = replicate 3 \<lparr>rdelay = 0, wdelay = 0, knum = 0\<rparr>, mem_infos = replicate 3 \<lparr>dram_node = 0, nvm_node = 0\<rparr>,
     curnet_id = 0, nets_cnt = 0, watcher_addr = [], watcher_port = 0\<rparr>"

definition demo_server :: "string \<Rightarrow> server_conf" where
  "demo_server a = (\<lparr>nic_name = ''ib0'', net_addr = a, net_port = 39300\<rparr>, \<lparr>rdelay = 780, wdelay = 2340, knum = 1\<rparr>,
     \<lparr>dram_node = 0, nvm_node = 4\<rparr>)"

definition demo_get :: getString where
  "demo_get ns = (case ns of [] \<Rightarrow> None | n # _ \<Rightarrow> (case n of Text s \<Rightarrow> Some s | Element _ _ \<Rightarrow> None))"

theorem config_round_trip_witness:
  "\<exists>c. dhmp_config_init demo_get [] (Some (Some (config_doc '' '' 6 ''127.0.0.1'' 3333
        [demo_server ''10.10.10.1'', demo_server ''10.10.10.2'']))) True demo_config 0 = Inr (0, c, 6) \<and>
     nets_cnt c = 2 \<and> map net_addr (net_infos c) = [''10.10.10.1'', ''10.10.10.2'', []] \<and> watcher_port c = 3333"
  using config_round_trip [of demo_get "[demo_server ''10.10.10.1'', demo_server ''10.10.10.2'']" demo_config 6 "''127.0.0.1''" 3333
      "[]" "'' ''" 0]
  by (simp add: demo_get_def demo_server_def demo_config_def server_fits_def arrays_ok_def DHMP_SERVER_NODE_NUM_def
      DHMA_NIC_NAME_LEN_def DHMP_ADDR_LEN_def int_range_def numeral_3_eq_3)

lemma scan_ifs_find:
  "pos + n = length ifs \<Longrightarrow>
    (case List.find (nic_matches nic) (drop pos ifs) of
       Some r \<Rightarrow> \<exists>pos'. scan_ifs ifs nic n pos = Inr (Some r, pos')
     | None \<Rightarrow> scan_ifs ifs nic n pos = Inr (None, length ifs))"
proof (induction n arbitrary: pos)
  case (Suc n)
  then have "drop pos ifs = ifs ! pos # drop (pos + 1) ifs" by (simp add: Cons_nth_drop_Suc)
  then show ?case using Suc.IH [of "pos + 1"] Suc.prems by (auto split: option.splits)
qed simp

lemma find_addr_first:
  "i < length nets \<Longrightarrow> net_addr (nets ! i) = a \<Longrightarrow> (\<And>k. k < i \<Longrightarrow> net_addr (nets ! k) \<noteq> a) \<Longrightarrow> find_addr nets a = Some i"
proof (induction nets arbitrary: i)
  case (Cons x nets)
  show ?case
  proof (cases i)
    case (Suc j)
    have "net_addr (nets ! k) \<noteq> a" if "k < j" for k using Cons.prems(3) [of "Suc k"] that Suc by simp
    then have "find_addr nets a = Some j" using Cons.prems Suc by (intro Cons.IH) auto
    then show ?thesis using Cons.prems(3) [of 0] Suc by auto
  qed (use Cons.prems in auto)
qed simp

text \<open>The node finds its own number by its network card. When an interface that is up, no
  loopback and has the card name of the first entry exists, the node's number is the first
  entry with the address of that interface. When there is none, a configuration of one node
  ends the program; with more nodes the search goes on behind the last interface, because
  the cursor is not set back, and reads what the system never wrote.\<close>

lemma curnode_result:
  assumes "0 < nets_cnt c" and "nets_cnt c \<le> length (net_infos c)"
  shows "(\<forall>r i. List.find (nic_matches (nic_name (net_infos c ! 0))) ifs = Some r \<longrightarrow> i < nets_cnt c \<longrightarrow>
      net_addr (net_infos c ! i) = ifr_addr r \<longrightarrow> (\<forall>k < i. net_addr (net_infos c ! k) \<noteq> ifr_addr r) \<longrightarrow>
      dhmp_set_curnode_id ifs c = Inr (c\<lparr>curnet_id := int i\<rparr>)) \<and>
    (List.find (nic_matches (nic_name (net_infos c ! 0))) ifs = None \<longrightarrow>
      dhmp_set_curnode_id ifs c = (if nets_cnt c = 1 \<or> ifs = [] then Inl Exit else Inl UB))"
proof -
  define nets where "nets = take (nets_cnt c) (net_infos c)"
  obtain x xs where nets: "nets = x # xs" and len: "nets_cnt c = Suc (length xs)"
    using assms unfolding nets_def by (cases "take (nets_cnt c) (net_infos c)") (auto, metis length_Cons length_take min.absorb2)
  have nth: "net_infos c ! k = nets ! k" if "k < nets_cnt c" for k using that by (simp add: nets_def)
  have x: "net_infos c ! 0 = x" using nth [of 0] nets assms(1) by simp
  have set: "dhmp_set_curnode_id ifs c = bindR (find_curnode ifs nets nets 0) (\<lambda>r.
      case r of None \<Rightarrow> Inl Exit | Some i \<Rightarrow> Inr (c\<lparr>curnet_id := int i\<rparr>))"
    using assms(2) by (simp add: dhmp_set_curnode_id_def nets_def Let_def)
  have found: "dhmp_set_curnode_id ifs c = Inr (c\<lparr>curnet_id := int i\<rparr>)"
    if f: "List.find (nic_matches (nic_name x)) ifs = Some r" "i < nets_cnt c" "net_addr (net_infos c ! i) = ifr_addr r"
      "\<forall>k < i. net_addr (net_infos c ! k) \<noteq> ifr_addr r" for r i
  proof -
    have "find_addr nets (ifr_addr r) = Some i" using that nth len nets by (intro find_addr_first) auto
    moreover obtain pos where "scan_ifs ifs (nic_name x) (length ifs) 0 = Inr (Some r, pos)"
      using scan_ifs_find [of 0 "length ifs" ifs "nic_name x"] f(1) by auto
    ultimately have "find_curnode ifs nets (x # xs) 0 = Inr (Some i)" by simp
    then have "find_curnode ifs nets nets 0 = Inr (Some i)" by (simp only: nets)
    then show ?thesis by (simp add: set)
  qed
  have none: "dhmp_set_curnode_id ifs c = (if nets_cnt c = 1 \<or> ifs = [] then Inl Exit else Inl UB)"
    if "List.find (nic_matches (nic_name x)) ifs = None"
  proof -
    have past: "find_curnode ifs nets ys (length ifs) = (if ys = [] \<or> ifs = [] then Inr None else Inl UB)" for ys
    proof (induction ys)
      case (Cons y ys)
      then show ?case by (cases "length ifs") auto
    qed simp
    have "scan_ifs ifs (nic_name x) (length ifs) 0 = Inr (None, length ifs)"
      using scan_ifs_find [of 0 "length ifs" ifs "nic_name x"] that by auto
    then have "find_curnode ifs nets (x # xs) 0 = (if xs = [] \<or> ifs = [] then Inr None else Inl UB)" using past by simp
    then have "find_curnode ifs nets nets 0 = (if xs = [] \<or> ifs = [] then Inr None else Inl UB)" by (simp only: nets)
    then show ?thesis using len by (simp add: set)
  qed
  show ?thesis unfolding x using found none by blast
qed

definition demo_if :: "string \<Rightarrow> string \<Rightarrow> ifreq" where
  "demo_if n a = \<lparr>ifr_name = n, ifr_loopback = False, ifr_up = True, ifr_addr = a\<rparr>"

lemma curnode_result_witness:
  "let c = demo_config\<lparr>net_infos := map fst [demo_server ''10.10.10.1'', demo_server ''10.10.10.2''], nets_cnt := 2\<rparr>
   in dhmp_set_curnode_id [demo_if ''eth0'' ''192.168.0.7'', demo_if ''ib0'' ''10.10.10.2''] c = Inr (c\<lparr>curnet_id := 1\<rparr>) \<and>
      dhmp_set_curnode_id [demo_if ''eth0'' ''192.168.0.7''] c = Inl UB"
proof -
  let ?c = "demo_config\<lparr>net_infos := map fst [demo_server ''10.10.10.1'', demo_server ''10.10.10.2''], nets_cnt := 2\<rparr>"
  have "0 < nets_cnt ?c" "nets_cnt ?c \<le> length (net_infos ?c)" by simp_all
  note r = curnode_result [OF this]
  have "dhmp_set_curnode_id [demo_if ''eth0'' ''192.168.0.7'', demo_if ''ib0'' ''10.10.10.2''] ?c = Inr (?c\<lparr>curnet_id := int 1\<rparr>)"
    by (rule r [THEN conjunct1, rule_format, of _ "demo_if ''ib0'' ''10.10.10.2''"])
      (simp_all add: demo_server_def demo_if_def nic_matches_def)
  moreover have "dhmp_set_curnode_id [demo_if ''eth0'' ''192.168.0.7''] ?c = Inl UB"
    by (subst r [THEN conjunct2, rule_format]) (simp_all add: demo_server_def demo_if_def nic_matches_def)
  ultimately show ?thesis by (simp add: Let_def)
qed

end
