(* ===== verification/Init.thy ===== *)
theory Init
  imports ConnRuns Config TopApi LogBuffer
begin

text \<open>
  Start of a process: the RDMA devices (\<open>dhmp_dev.c\<close>) and \<open>mid_rdma_init.c\<close>. A node connects to
  the nodes it sends to, according to its place in the chain. \<open>dhmp_connect\<close> repeats until a
  connection is there; the list it takes gives, for every round, what the library calls
  return and what the event thread does while the caller sleeps. A list that ends before
  the connection is made stands for waiting forever.
\<close>

section \<open>Devices\<close>

record dhmp_device =
  dev_verbs :: "nat option"
  dev_pd :: "nat option"

text \<open>What the libraries answer for one device: its context, whether \<open>malloc\<close> succeeds, the
  result of \<open>ibv_query_device\<close> and of \<open>ibv_alloc_pd\<close>.\<close>

record dev_probe =
  probe_ctx :: "nat option"
  probe_mem :: bool
  probe_query :: int
  probe_pd :: "nat option"

definition dhmp_dev_init :: "nat \<Rightarrow> dev_probe \<Rightarrow> int \<times> dhmp_device" where
  "dhmp_dev_init verbs pr =
     (if probe_query pr < 0 then (probe_query pr, \<lparr>dev_verbs = None, dev_pd = None\<rparr>)
      else (case probe_pd pr of
              None \<Rightarrow> (- 1, \<lparr>dev_verbs = None, dev_pd = None\<rparr>)
            | Some pd \<Rightarrow> (probe_query pr, \<lparr>dev_verbs = Some verbs, dev_pd = Some pd\<rparr>)))"

fun add_devices :: "dev_probe list \<Rightarrow> dhmp_device list \<Rightarrow> dhmp_device list" where
  "add_devices [] devs = devs"
| "add_devices (pr # prs) devs =
     (case probe_ctx pr of
        None \<Rightarrow> add_devices prs devs
      | Some verbs \<Rightarrow>
          if \<not> probe_mem pr then devs
          else let d = snd (dhmp_dev_init verbs pr)
               in add_devices prs (if dev_verbs d = None then devs else devs @ [d]))"

text \<open>\<open>None\<close> when \<open>rdma_get_devices\<close> fails.\<close>

definition dhmp_dev_list_init :: "dev_probe list option \<Rightarrow> dhmp_device list \<Rightarrow> dhmp_device list" where
  "dhmp_dev_list_init prs devs = (case prs of None \<Rightarrow> devs | Some ps \<Rightarrow> add_devices ps devs)"

text \<open>The protection domains that are given back; every struct is freed.\<close>

definition dhmp_dev_list_destroy :: "dhmp_device list \<Rightarrow> nat list" where
  "dhmp_dev_list_destroy devs = map (the \<circ> dev_pd) (filter (\<lambda>d. dev_verbs d \<noteq> None) devs)"

definition dhmp_get_dev_from_client :: "dhmp_device list \<Rightarrow> dhmp_device option" where
  "dhmp_get_dev_from_client devs = (if devs \<noteq> [] then Some (hd devs) else None)"

definition dhmp_get_dev_from_server :: "dhmp_device list \<Rightarrow> dhmp_device option" where
  "dhmp_get_dev_from_server devs = (if devs \<noteq> [] then Some (hd devs) else None)"

definition with_dev :: "dhmp_device option \<Rightarrow> CmEnv \<Rightarrow> CmEnv" where
  "with_dev d ce = ce\<lparr>base := (base ce)\<lparr>has_dev := (d \<noteq> None)\<rparr>\<rparr>"

section \<open>The client\<close>

definition init_read_mr :: "Env \<Rightarrow> nat \<Rightarrow> Proc \<Rightarrow> (ibv_mr option \<times> Proc) res" where
  "init_read_mr e n p =
     guardR (malloc_ok e) UB
       (case malloc_at e n of
          None \<Rightarrow> Inl UB
        | Some a \<Rightarrow>
            let p1 = p\<lparr>mem := map_mem (mem p) a n 0\<rparr>
            in (case reg_mr e a (word_of_nat n) of
                  None \<Rightarrow> Inr (None, p1)
                | Some mr \<Rightarrow> Inr (Some mr, p1\<lparr>regs := regs p1 @ [mr]\<rparr>)))"

type_synonym round = "CmEnv \<times> (nat \<Rightarrow> Net \<Rightarrow> Net) \<times> CmEnv"

text \<open>After a rejection the new transport is made and not used: the loop makes another one.\<close>

fun dhmp_connect :: "round list \<Rightarrow> dhmp_device list \<Rightarrow> dhmp_config \<Rightarrow> nat \<Rightarrow> Net \<Rightarrow> (nat option \<times> Net) res" where
  "dhmp_connect [] devs cfg node s = Inl Spin"
| "dhmp_connect ((ce, others, ce2) # rs) devs cfg node s =
     bindR (dhmp_transport_create (with_dev (dhmp_get_dev_from_client devs) ce) CLIENT_CTX False False s) (\<lambda>(r, s1).
       case r of
         None \<Rightarrow> Inr (None, s1)
       | Some conn \<Rightarrow>
           guardR (node < length (net_infos cfg)) UB
             (bindR (dhmp_transport_connect ce conn (Some (net_addr (net_infos cfg ! node))) (net_port (net_infos cfg ! node)) s1) (\<lambda>(_, s2).
                let s3 = others conn s2
                in bindR (trans_at conn s3) (\<lambda>tr.
                     if trans_state tr < DHMP_TRANSPORT_STATE_CONNECTED then dhmp_connect rs devs cfg node s3
                     else if trans_state tr = DHMP_TRANSPORT_STATE_REJECT then
                       bindR (free_trans conn s3) (\<lambda>s4.
                         bindR (dhmp_transport_create (with_dev (dhmp_get_dev_from_client devs) ce2) CLIENT_CTX False False
                                  (free_struct conn s4)) (\<lambda>(r2, s5).
                           case r2 of
                             None \<Rightarrow> dhmp_connect rs devs cfg node s5
                           | Some conn2 \<Rightarrow>
                               dhmp_connect rs devs cfg node (set_conn conn2 (\<lambda>c. c\<lparr>is_server := False\<rparr>)
                                 (set_trans conn2 (\<lambda>tr. tr\<lparr>trans_node_id := int node\<rparr>) s5))))
                     else if trans_state tr = DHMP_TRANSPORT_STATE_CONNECTED then Inr (Some conn, s3)
                     else dhmp_connect rs devs cfg node s3))))"

definition set_proc :: "(Proc \<Rightarrow> Proc) \<Rightarrow> Net \<Rightarrow> Net" where
  "set_proc f s = s\<lparr>proc := f (proc s)\<rparr>"

definition set_connect_trans :: "nat \<Rightarrow> nat option \<Rightarrow> Net \<Rightarrow> Net res" where
  "set_connect_trans i t s =
     guardR (i < length (connect_trans (proc s))) UB (Inr (set_proc (\<lambda>p. p\<lparr>connect_trans := (connect_trans p)[i := t]\<rparr>) s))"

text \<open>What follows a connection to node \<open>i\<close>.\<close>

definition adopt :: "CmEnv \<Rightarrow> nat \<Rightarrow> nat \<Rightarrow> nat \<Rightarrow> Net \<Rightarrow> Net res" where
  "adopt ce n i t s =
     (let s1 = set_trans t (\<lambda>tr. tr\<lparr>trans_node_id := int i\<rparr>) (set_conn t (\<lambda>c. c\<lparr>is_server := False\<rparr>) s)
      in bindR (init_read_mr (base ce) n (proc s1)) (\<lambda>(mr, p). Inr (s1\<lparr>proc := p\<lparr>read_mr := (read_mr p)(i := mr)\<rparr>\<rparr>)))"

fun connect_all ::
    "(nat \<Rightarrow> round list) \<Rightarrow> CmEnv \<Rightarrow> dhmp_device list \<Rightarrow> dhmp_config \<Rightarrow> nat \<Rightarrow> nat \<Rightarrow> nat list \<Rightarrow> Net \<Rightarrow> Net res" where
  "connect_all net ce devs cfg n own [] s = Inr s"
| "connect_all net ce devs cfg n own (i # js) s =
     bindR (if own = i then set_connect_trans i None (set_proc (\<lambda>p. p\<lparr>client_node_id := int i\<rparr>) s)
            else bindR (dhmp_connect (net i) devs cfg i s) (\<lambda>(r, s1).
                   bindR (set_connect_trans i r s1) (\<lambda>s2. case r of None \<Rightarrow> Inr s2 | Some t \<Rightarrow> adopt ce n i t s2)))
       (connect_all net ce devs cfg n own js)"

definition connect_next ::
    "(nat \<Rightarrow> round list) \<Rightarrow> CmEnv \<Rightarrow> dhmp_device list \<Rightarrow> dhmp_config \<Rightarrow> nat \<Rightarrow> nat \<Rightarrow> Net \<Rightarrow> Net res" where
  "connect_next net ce devs cfg n own s =
     (let i = own + 1
      in bindR (dhmp_connect (net i) devs cfg i s) (\<lambda>(r, s1).
           bindR (set_connect_trans i r s1) (\<lambda>s2. case r of None \<Rightarrow> Inl Exit | Some t \<Rightarrow> adopt ce n i t s2)))"

text \<open>\<open>cfg0\<close> is what \<open>malloc\<close> left in the configuration, \<open>cfg_res\<close> the configuration parser.
  The results of the configuration, the context and the devices are not checked.\<close>

definition dhmp_client_init ::
    "(nat \<Rightarrow> round list) \<Rightarrow> CmEnv \<Rightarrow> dev_probe list option \<Rightarrow> (dhmp_config \<Rightarrow> (int \<times> dhmp_config \<times> int) res) \<Rightarrow> dhmp_config \<Rightarrow>
     nat \<Rightarrow> nat \<Rightarrow> nodeClass \<Rightarrow> Net \<Rightarrow> (dhmp_config \<times> dhmp_device list \<times> Net) option res" where
  "dhmp_client_init net ce probes parse cfg0 n own cls s =
     (if \<not> malloc_ok (base ce) then Inr None
      else bindR (parse cfg0) (\<lambda>(_, cfg, _).
        let (_, s1) = dhmp_context_init ce CLIENT_CTX s;
            devs = dhmp_dev_list_init probes [];
            s2 = set_proc (\<lambda>p. p\<lparr>addr_info_ht := (\<lambda>_. []), connect_trans := replicate DHMP_SERVER_NODE_NUM None\<rparr>) s1
        in bindR (case cls of
                    HEAD \<Rightarrow> connect_all net ce devs cfg n own [0..<nets_cnt cfg] s2
                  | NORMAL \<Rightarrow> connect_next net ce devs cfg n own s2
                  | TAIL \<Rightarrow> Inr s2) (\<lambda>s3.
             Inr (Some (cfg, devs, set_proc (\<lambda>p. p\<lparr>work_list := []\<rparr>) s3)))))"

section \<open>The server\<close>

definition dhmp_server_init ::
    "CmEnv \<Rightarrow> dev_probe list option \<Rightarrow> (dhmp_config \<Rightarrow> (int \<times> dhmp_config \<times> int) res) \<Rightarrow> dhmp_config \<Rightarrow> Net \<Rightarrow>
     (dhmp_config \<times> dhmp_device list \<times> Net) option res" where
  "dhmp_server_init ce probes parse cfg0 s =
     (if \<not> malloc_ok (base ce) then Inr None
      else bindR (parse cfg0) (\<lambda>(_, cfg, _).
        let (_, s1) = dhmp_context_init ce SERVER_CTX s;
            s2 = set_proc (\<lambda>p. p\<lparr>server_id := curnet_id cfg\<rparr>)
                   (s1\<lparr>server_instance := Some \<lparr>cur_connections = 0, client_list = [], listen_trans = None\<rparr>\<rparr>);
            devs = dhmp_dev_list_init probes []
        in bindR (dhmp_transport_create (with_dev (dhmp_get_dev_from_server devs) ce) SERVER_CTX True False s2) (\<lambda>(r, s3).
             case r of
               None \<Rightarrow> Inl Exit
             | Some t \<Rightarrow>
                 guardR (0 \<le> curnet_id cfg \<and> curnet_id cfg < int (length (net_infos cfg))) UB
                   (bindR (dhmp_transport_listen ce t
                             (s3\<lparr>server_instance := map_option (\<lambda>sv. sv\<lparr>listen_trans := Some t\<rparr>) (server_instance s3)\<rparr>)) (\<lambda>(err, s4).
                      if err \<noteq> 0 then Inl Exit else Inr (Some (cfg, devs, s4)))))))"

text \<open>After the epoll thread has ended.\<close>

definition dhmp_server_destroy :: "Net \<Rightarrow> Net res" where
  "dhmp_server_destroy s =
     guardR (stop (ctxs s SERVER_CTX)) Spin
       (case server_instance s of None \<Rightarrow> Inl UB | Some _ \<Rightarrow> Inr (s\<lparr>server_instance := None\<rparr>))"

section \<open>The place in the chain\<close>

text \<open>How \<open>main\<close> of \<open>test/test.c\<close> chooses the class of a node from its number and the number of
  nodes.\<close>

definition choose_class :: "int \<Rightarrow> int \<Rightarrow> nodeClass res" where
  "choose_class own num_chain_clusters =
     (if num_chain_clusters \<le> 1 then Inl Exit
      else if own = num_chain_clusters - 1 then Inr TAIL
      else if own = 0 then Inr HEAD
      else Inr NORMAL)"

section \<open>Who is connected to whom\<close>

text \<open>What the event thread does with a peer that answers: the three events of an undisturbed
  connection.\<close>

definition answer :: "CmEnv \<Rightarrow> nat \<Rightarrow> Net \<Rightarrow> Net" where
  "answer ce t s =
     (case cm_id (the (conns s t)) of
        None \<Rightarrow> s
      | Some h \<Rightarrow>
          (case dhmp_event_channel_handler [(ce, \<lparr>ev_id = h, event = RDMA_CM_EVENT_ADDR_RESOLVED\<rparr>),
                  (ce, \<lparr>ev_id = h, event = RDMA_CM_EVENT_ROUTE_RESOLVED\<rparr>), (ce, \<lparr>ev_id = h, event = RDMA_CM_EVENT_ESTABLISHED\<rparr>)] s of
             Inl _ \<Rightarrow> s
           | Inr s' \<Rightarrow> s'))"

definition linked :: "Net \<Rightarrow> nat \<Rightarrow> bool" where
  "linked s i \<longleftrightarrow> (\<exists>t tr. connect_trans (proc s) ! i = Some t \<and> t < next_trans s \<and> transports (proc s) t = Some tr \<and>
     trans_state tr = DHMP_TRANSPORT_STATE_CONNECTED \<and> trans_node_id tr = int i)"

text \<open>The nodes a node of a class opens a connection to.\<close>

definition targets :: "nodeClass \<Rightarrow> nat \<Rightarrow> nat \<Rightarrow> nat \<Rightarrow> bool" where
  "targets cls own cnt i \<longleftrightarrow> (case cls of HEAD \<Rightarrow> i < cnt \<and> i \<noteq> own | NORMAL \<Rightarrow> i = own + 1 | TAIL \<Rightarrow> False)"

text \<open>The new connection does not disturb the others.\<close>

definition extends :: "Net \<Rightarrow> Net \<Rightarrow> nat \<Rightarrow> bool" where
  "extends s s' i \<longleftrightarrow> length (connect_trans (proc s')) = length (connect_trans (proc s)) \<and>
     (\<forall>j. j \<noteq> i \<longrightarrow> connect_trans (proc s') ! j = connect_trans (proc s) ! j) \<and> next_trans s \<le> next_trans s' \<and>
     (\<forall>t < next_trans s. transports (proc s') t = transports (proc s) t)"

lemma with_dev_id: "all_ok ce \<Longrightarrow> d \<noteq> None \<Longrightarrow> with_dev d ce = ce"
  by (simp add: with_dev_def all_ok_def)

lemma connect_ok:
  assumes ok: "all_ok ce" and "devs \<noteq> []" and i: "i < length (net_infos cfg)" and "inet_pton ce (net_addr (net_infos cfg ! i)) = Some a"
    and "0 < net_port (net_infos cfg ! i)"
  shows "\<exists>s' tr. dhmp_connect ((ce, answer ce, ce2) # rs) devs cfg i s = Inr (Some (next_trans s), s') \<and>
    transports (proc s') (next_trans s) = Some tr \<and> trans_state tr = DHMP_TRANSPORT_STATE_CONNECTED \<and>
    connect_trans (proc s') = connect_trans (proc s) \<and> next_trans s' = next_trans s + 1 \<and>
    (\<forall>u. u \<noteq> next_trans s \<longrightarrow> transports (proc s') u = transports (proc s) u)"
proof -
  let ?t = "next_trans s" and ?url = "net_addr (net_infos cfg ! i)" and ?port = "net_port (net_infos cfg ! i)"
  obtain s1 s2 s3 h tr where r: "dhmp_transport_create ce CLIENT_CTX False False s = Inr (Some ?t, s1)"
    "dhmp_transport_connect ce ?t (Some ?url) ?port s1 = Inr (0, s2)"
    "dhmp_event_channel_handler [(ce, \<lparr>ev_id = h, event = RDMA_CM_EVENT_ADDR_RESOLVED\<rparr>),
      (ce, \<lparr>ev_id = h, event = RDMA_CM_EVENT_ROUTE_RESOLVED\<rparr>), (ce, \<lparr>ev_id = h, event = RDMA_CM_EVENT_ESTABLISHED\<rparr>)] s2 = Inr s3"
    "cm_id (the (conns s2 ?t)) = Some h" "transports (proc s3) ?t = Some tr" "trans_state tr = DHMP_TRANSPORT_STATE_CONNECTED"
    "connect_trans (proc s3) = connect_trans (proc s)" "next_trans s3 = next_trans s + 1"
    "\<forall>u. u \<noteq> ?t \<longrightarrow> transports (proc s3) u = transports (proc s) u"
    using client_handshake [OF ok assms(4,5), of s] by blast
  have "answer ce ?t s2 = s3" using r(3,4) by (simp add: answer_def)
  moreover have "with_dev (dhmp_get_dev_from_client devs) ce = ce"
    using assms(2) by (intro with_dev_id ok) (simp add: dhmp_get_dev_from_client_def)
  ultimately have "dhmp_connect ((ce, answer ce, ce2) # rs) devs cfg i s = Inr (Some ?t, s3)"
    using r i by (simp add: trans_at_def)
  with r show ?thesis by blast
qed

lemma link_made:
  assumes ok: "all_ok ce" and "devs \<noteq> []" and i: "i < length (net_infos cfg)" and "inet_pton ce (net_addr (net_infos cfg ! i)) = Some a"
    and "0 < net_port (net_infos cfg ! i)" and len: "i < length (connect_trans (proc s))" and "malloc_at (base ce) n = Some b"
  shows "\<exists>t s1 s2 s'. dhmp_connect ((ce, answer ce, ce2) # rs) devs cfg i s = Inr (Some t, s1) \<and>
    set_connect_trans i (Some t) s1 = Inr s2 \<and> adopt ce n i t s2 = Inr s' \<and> linked s' i \<and> extends s s' i"
proof -
  let ?t = "next_trans s"
  obtain s1 tr where r: "dhmp_connect ((ce, answer ce, ce2) # rs) devs cfg i s = Inr (Some ?t, s1)"
    "transports (proc s1) ?t = Some tr" "trans_state tr = DHMP_TRANSPORT_STATE_CONNECTED"
    "connect_trans (proc s1) = connect_trans (proc s)" "next_trans s1 = next_trans s + 1"
    "\<forall>u. u \<noteq> ?t \<longrightarrow> transports (proc s1) u = transports (proc s) u"
    using connect_ok [OF assms(1-5)] by blast
  let ?s2 = "set_proc (\<lambda>p. p\<lparr>connect_trans := (connect_trans p)[i := Some ?t]\<rparr>) s1"
  have s2: "set_connect_trans i (Some ?t) s1 = Inr ?s2" using len r(4) by (simp add: set_connect_trans_def)
  have "malloc_ok (base ce)" using ok by (simp add: all_ok_def)
  then obtain s' where s': "adopt ce n i ?t ?s2 = Inr s'" "connect_trans (proc s') = connect_trans (proc ?s2)" "next_trans s' = next_trans s1"
      "transports (proc s') = (transports (proc s1))(?t \<mapsto> tr\<lparr>trans_node_id := int i\<rparr>)"
    using assms(7) r(2)
    by (cases "reg_mr (base ce) b (word_of_nat n)")
      (simp_all add: adopt_def init_read_mr_def set_proc_def set_trans_def set_conn_def Let_def)
  then have "linked s' i" "extends s s' i"
    using r len by (auto simp: linked_def extends_def set_proc_def)
  with r(1) s2 s'(1) show ?thesis by blast
qed

lemma linked_extends: "extends s s' i \<Longrightarrow> j \<noteq> i \<Longrightarrow> linked s j \<Longrightarrow> linked s' j"
  unfolding extends_def linked_def by (metis order_less_le_trans)

text \<open>The entry of a node that can be reached.\<close>

definition peer_ok :: "CmEnv \<Rightarrow> dhmp_config \<Rightarrow> nat \<Rightarrow> bool" where
  "peer_ok ce cfg i \<longleftrightarrow> i < length (net_infos cfg) \<and> inet_pton ce (net_addr (net_infos cfg ! i)) \<noteq> None \<and>
     0 < net_port (net_infos cfg ! i)"

lemma connect_all_ok:
  assumes ok: "all_ok ce" and dev: "devs \<noteq> []" and mem: "malloc_at (base ce) n = Some b"
    and net: "\<And>i. net i = (ce, answer ce, ce2) # rs i"
  shows "distinct js \<Longrightarrow> (\<And>i. i \<in> set js \<Longrightarrow> i < length (connect_trans (proc s))) \<Longrightarrow>
      (\<And>i. i \<in> set js \<Longrightarrow> i \<noteq> own \<Longrightarrow> peer_ok ce cfg i) \<Longrightarrow>
    \<exists>s'. connect_all net ce devs cfg n own js s = Inr s' \<and> length (connect_trans (proc s')) = length (connect_trans (proc s)) \<and>
      (\<forall>i. i \<in> set js \<longrightarrow> i \<noteq> own \<longrightarrow> linked s' i) \<and> (own \<in> set js \<longrightarrow> connect_trans (proc s') ! own = None) \<and>
      (\<forall>i. i \<notin> set js \<longrightarrow> connect_trans (proc s') ! i = connect_trans (proc s) ! i \<and> (linked s i \<longrightarrow> linked s' i))"
proof (induction js arbitrary: s)
  case (Cons i js)
  let ?first = "if own = i then set_connect_trans i None (set_proc (\<lambda>p. p\<lparr>client_node_id := int i\<rparr>) s)
    else bindR (dhmp_connect (net i) devs cfg i s) (\<lambda>(r, s1).
      bindR (set_connect_trans i r s1) (\<lambda>s2. case r of None \<Rightarrow> Inr s2 | Some t \<Rightarrow> adopt ce n i t s2))"
  have "\<exists>s1. ?first = Inr s1 \<and> extends s s1 i \<and> (if own = i then connect_trans (proc s1) ! i = None else linked s1 i)"
  proof (cases "own = i")
    case True
    then show ?thesis using Cons.prems(2) [of i] by (auto simp: set_connect_trans_def set_proc_def extends_def)
  next
    case False
    with Cons.prems have re: "peer_ok ce cfg i" and len: "i < length (connect_trans (proc s))" by auto
    then obtain a where "i < length (net_infos cfg)" "inet_pton ce (net_addr (net_infos cfg ! i)) = Some a" "0 < net_port (net_infos cfg ! i)"
      by (auto simp: peer_ok_def)
    from link_made [OF ok dev this len mem, of ce2 "rs i"] obtain t s1 s2 s'
      where "dhmp_connect (net i) devs cfg i s = Inr (Some t, s1)" "set_connect_trans i (Some t) s1 = Inr s2" "adopt ce n i t s2 = Inr s'"
        "linked s' i" "extends s s' i" unfolding net by blast
    with False show ?thesis by simp
  qed
  then obtain s1 where s1: "?first = Inr s1" "extends s s1 i" "if own = i then connect_trans (proc s1) ! i = None else linked s1 i" by blast
  have len: "length (connect_trans (proc s1)) = length (connect_trans (proc s))" using s1(2) by (simp add: extends_def)
  obtain s' where s': "connect_all net ce devs cfg n own js s1 = Inr s'" "length (connect_trans (proc s')) = length (connect_trans (proc s1))"
      "\<forall>i. i \<in> set js \<longrightarrow> i \<noteq> own \<longrightarrow> linked s' i" "own \<in> set js \<longrightarrow> connect_trans (proc s') ! own = None"
      "\<forall>i. i \<notin> set js \<longrightarrow> connect_trans (proc s') ! i = connect_trans (proc s1) ! i \<and> (linked s1 i \<longrightarrow> linked s' i)"
    using Cons.IH [of s1] Cons.prems len by auto
  have "connect_all net ce devs cfg n own (i # js) s = Inr s'" using s1(1) s'(1) by simp
  moreover have "connect_trans (proc s1) ! j = connect_trans (proc s) ! j" "linked s j \<Longrightarrow> linked s1 j" if "j \<noteq> i" for j
    using s1(2) that linked_extends by (auto simp: extends_def)
  ultimately show ?case using s' s1(3) len Cons.prems(1) by (auto split: if_splits)
qed simp

section \<open>Properties\<close>

lemma connect_targets:
  assumes "all_ok ce" and "devs \<noteq> []" and "malloc_at (base ce) n = Some b" and net: "\<And>i. net i = (ce, answer ce, ce2) # rs i"
    and "nets_cnt cfg \<le> DHMP_SERVER_NODE_NUM" and "\<forall>i. targets cls own (nets_cnt cfg) i \<longrightarrow> i < DHMP_SERVER_NODE_NUM \<and> peer_ok ce cfg i"
    and ct: "connect_trans (proc s2) = replicate DHMP_SERVER_NODE_NUM None"
  shows "\<exists>s3. (case cls of HEAD \<Rightarrow> connect_all net ce devs cfg n own [0..<nets_cnt cfg] s2
      | NORMAL \<Rightarrow> connect_next net ce devs cfg n own s2 | TAIL \<Rightarrow> Inr s2) = Inr s3 \<and>
    length (connect_trans (proc s3)) = DHMP_SERVER_NODE_NUM \<and>
    (\<forall>i < DHMP_SERVER_NODE_NUM. if targets cls own (nets_cnt cfg) i then linked s3 i else connect_trans (proc s3) ! i = None)"
proof (cases cls)
  case HEAD
  have "\<exists>s'. connect_all net ce devs cfg n own [0..<nets_cnt cfg] s2 = Inr s' \<and>
    length (connect_trans (proc s')) = length (connect_trans (proc s2)) \<and>
    (\<forall>i. i \<in> set [0..<nets_cnt cfg] \<longrightarrow> i \<noteq> own \<longrightarrow> linked s' i) \<and>
    (own \<in> set [0..<nets_cnt cfg] \<longrightarrow> connect_trans (proc s') ! own = None) \<and>
    (\<forall>i. i \<notin> set [0..<nets_cnt cfg] \<longrightarrow> connect_trans (proc s') ! i = connect_trans (proc s2) ! i \<and> (linked s2 i \<longrightarrow> linked s' i))"
    using assms(5,6) HEAD by (intro connect_all_ok [OF assms(1-3) net]) (auto simp: ct targets_def)
  then show ?thesis using HEAD by (auto simp: ct targets_def)
next
  case NORMAL
  let ?i = "own + 1"
  have i: "?i < DHMP_SERVER_NODE_NUM" "peer_ok ce cfg ?i" using assms(6) NORMAL by (auto simp: targets_def)
  then obtain a where "?i < length (net_infos cfg)" "inet_pton ce (net_addr (net_infos cfg ! ?i)) = Some a" "0 < net_port (net_infos cfg ! ?i)"
    by (auto simp: peer_ok_def)
  from link_made [OF assms(1,2) this _ assms(3), of s2 ce2 "rs ?i"] i(1) obtain t s1 s3 s'
    where "dhmp_connect (net ?i) devs cfg ?i s2 = Inr (Some t, s1)" "set_connect_trans ?i (Some t) s1 = Inr s3" "adopt ce n ?i t s3 = Inr s'"
      and l: "linked s' ?i" "extends s2 s' ?i" unfolding net by (auto simp: ct)
  then have "connect_next net ce devs cfg n own s2 = Inr s'" by (simp add: connect_next_def)
  then show ?thesis using l NORMAL by (auto simp: extends_def ct targets_def)
next
  case TAIL
  then show ?thesis by (simp add: ct targets_def)
qed

text \<open>C22: The connections form the chain. When the peers answer, \<open>dhmp_client_init\<close> returns; the
  head node is then connected to every other node of the configuration, a middle node to
  the next node only, the tail to none. \<open>dhmp_node_select_by_id\<close> finds, for exactly these
  nodes, a connected transport that carries the number of the node.\<close>

theorem client_topology:
  assumes "all_ok ce" and "dhmp_dev_list_init probes [] \<noteq> []" and "malloc_at (base ce) n = Some b"
    and "\<forall>i. net i = (ce, answer ce, ce2) # rs i" and "parse cfg0 = Inr (r, cfg, lvl)"
    and "nets_cnt cfg \<le> DHMP_SERVER_NODE_NUM" and "\<forall>i. targets cls own (nets_cnt cfg) i \<longrightarrow> i < DHMP_SERVER_NODE_NUM \<and> peer_ok ce cfg i"
  shows "\<exists>s'. dhmp_client_init net ce probes parse cfg0 n own cls s = Inr (Some (cfg, dhmp_dev_list_init probes [], s')) \<and>
    (\<forall>i < DHMP_SERVER_NODE_NUM.
       if targets cls own (nets_cnt cfg) i
       then \<exists>t tr. dhmp_node_select_by_id (proc s') (int i) = Inr (Some t) \<and> transports (proc s') t = Some tr \<and>
              trans_state tr = DHMP_TRANSPORT_STATE_CONNECTED \<and> trans_node_id tr = int i
       else dhmp_node_select_by_id (proc s') (int i) = Inr None)"
proof -
  let ?devs = "dhmp_dev_list_init probes []"
  define s2 where "s2 = set_proc (\<lambda>p. p\<lparr>addr_info_ht := (\<lambda>_. []), connect_trans := replicate DHMP_SERVER_NODE_NUM None\<rparr>)
    (snd (dhmp_context_init ce CLIENT_CTX s))"
  have ct: "connect_trans (proc s2) = replicate DHMP_SERVER_NODE_NUM None" by (simp add: s2_def set_proc_def)
  obtain s3 where s3: "(case cls of HEAD \<Rightarrow> connect_all net ce ?devs cfg n own [0..<nets_cnt cfg] s2
      | NORMAL \<Rightarrow> connect_next net ce ?devs cfg n own s2 | TAIL \<Rightarrow> Inr s2) = Inr s3"
    "length (connect_trans (proc s3)) = DHMP_SERVER_NODE_NUM"
    "\<forall>i < DHMP_SERVER_NODE_NUM. if targets cls own (nets_cnt cfg) i then linked s3 i else connect_trans (proc s3) ! i = None"
    using connect_targets [OF assms(1-3) _ assms(6,7) ct, of net ce2 rs] assms(4) by blast
  let ?s = "set_proc (\<lambda>p. p\<lparr>work_list := []\<rparr>) s3"
  show ?thesis
  proof (rule exI [of _ ?s], intro conjI allI impI)
    show "dhmp_client_init net ce probes parse cfg0 n own cls s = Inr (Some (cfg, ?devs, ?s))"
      using assms(1,5) s3(1) by (cases cls) (simp_all add: dhmp_client_init_def s2_def all_ok_def Let_def split_beta)
    fix i assume "i < DHMP_SERVER_NODE_NUM"
    with s3(2,3) show "if targets cls own (nets_cnt cfg) i
       then \<exists>t tr. dhmp_node_select_by_id (proc ?s) (int i) = Inr (Some t) \<and> transports (proc ?s) t = Some tr \<and>
              trans_state tr = DHMP_TRANSPORT_STATE_CONNECTED \<and> trans_node_id tr = int i
       else dhmp_node_select_by_id (proc ?s) (int i) = Inr None"
      by (auto simp: set_proc_def linked_def dhmp_node_select_by_id_def split: if_splits)
  qed
qed

definition demo_probes :: "dev_probe list option" where
  "demo_probes = Some [\<lparr>probe_ctx = Some 3, probe_mem = True, probe_query = 0, probe_pd = Some 4\<rparr>]"

definition demo_cluster :: dhmp_config where
  "demo_cluster = demo_config\<lparr>net_infos := map (fst \<circ> demo_server) [''10.10.10.1'', ''10.10.10.2'', ''10.10.10.3''], nets_cnt := 3\<rparr>"

theorem client_topology_witness:
  "\<exists>s'. dhmp_client_init (\<lambda>i. [(demo_cm, answer demo_cm, demo_cm)]) demo_cm demo_probes (\<lambda>_. Inr (0, demo_cluster, 6)) demo_config
       1024 0 HEAD demo_net = Inr (Some (demo_cluster, dhmp_dev_list_init demo_probes [], s')) \<and>
     dhmp_node_select_by_id (proc s') 0 = Inr None \<and>
     (\<exists>t tr. dhmp_node_select_by_id (proc s') 2 = Inr (Some t) \<and> transports (proc s') t = Some tr \<and> trans_node_id tr = 2)"
proof -
  have d: "dhmp_dev_list_init demo_probes [] \<noteq> []" by (simp add: demo_probes_def dhmp_dev_list_init_def dhmp_dev_init_def)
  have m: "malloc_at (base demo_cm) 1024 = Some 0x20000" by (simp add: demo_cm_def demo_env_def)
  have "\<exists>s'. dhmp_client_init (\<lambda>i. [(demo_cm, answer demo_cm, demo_cm)]) demo_cm demo_probes (\<lambda>_. Inr (0, demo_cluster, 6)) demo_config
      1024 0 HEAD demo_net = Inr (Some (demo_cluster, dhmp_dev_list_init demo_probes [], s')) \<and>
    (\<forall>i < DHMP_SERVER_NODE_NUM.
       if targets HEAD 0 (nets_cnt demo_cluster) i
       then \<exists>t tr. dhmp_node_select_by_id (proc s') (int i) = Inr (Some t) \<and> transports (proc s') t = Some tr \<and>
              trans_state tr = DHMP_TRANSPORT_STATE_CONNECTED \<and> trans_node_id tr = int i
       else dhmp_node_select_by_id (proc s') (int i) = Inr None)"
    by (rule client_topology [OF demo_cm_ok d m, where rs = "\<lambda>_. []" and r = 0 and lvl = 6])
      (auto simp: demo_cluster_def targets_def peer_ok_def demo_cm_def DHMP_SERVER_NODE_NUM_def less_Suc_eq numeral_3_eq_3 demo_server_def)
  then obtain s' where "dhmp_client_init (\<lambda>i. [(demo_cm, answer demo_cm, demo_cm)]) demo_cm demo_probes (\<lambda>_. Inr (0, demo_cluster, 6)) demo_config
      1024 0 HEAD demo_net = Inr (Some (demo_cluster, dhmp_dev_list_init demo_probes [], s'))"
    and s': "\<And>i. i < DHMP_SERVER_NODE_NUM \<Longrightarrow> if targets HEAD 0 (nets_cnt demo_cluster) i
       then \<exists>t tr. dhmp_node_select_by_id (proc s') (int i) = Inr (Some t) \<and> transports (proc s') t = Some tr \<and>
              trans_state tr = DHMP_TRANSPORT_STATE_CONNECTED \<and> trans_node_id tr = int i
       else dhmp_node_select_by_id (proc s') (int i) = Inr None" by blast
  then show ?thesis using s' [of 0] s' [of 2] by (auto simp: targets_def demo_cluster_def DHMP_SERVER_NODE_NUM_def)
qed

end
