(* ===== verification/ListUsers.thy ===== *)
theory ListUsers
  imports KernelHlist ClientWork Init
begin

text \<open>
  The intrusive lists of the program at the level of pointers: the devices (\<open>src/dhmp_dev.c\<close>), the
  buckets of the address table and the work list (\<open>src/mid_client_work.c\<close>) and the clients of a
  server (\<open>src/mid_rdma_connection.c\<close>). The other theories model these lists as HOL lists; here the
  code that works on them calls the functions of \<open>KernelList\<close> and \<open>KernelHlist\<close>, and is shown to
  return what the models on HOL lists return. A struct and its list node are two parts of one
  allocation: they are in two stores, at an address and at this address plus the offset of the
  member, and \<open>free\<close> takes away both.
\<close>

section \<open>Devices\<close>

type_synonym dev_store = "u64 \<Rightarrow> dhmp_device option"

text \<open>The body of the loop of \<open>dhmp_dev_list_destroy\<close>; the last component lists the protection
  domains given back.\<close>

definition dev_destroy_body :: "u64 \<Rightarrow> (list_mem, dev_store \<times> nat list) body" where
  "dev_destroy_body off dev st =
     (case st of (m, ds, pds) \<Rightarrow>
        (case ds dev of
           None \<Rightarrow> Inl UB
         | Some d \<Rightarrow>
             bindR (if dev_verbs d \<noteq> None then bindR (ptr (dev_pd d)) (\<lambda>pd. Inr (pds @ [pd])) else Inr pds) (\<lambda>pds'.
               Inr (Continue (m(dev + off := None), ds(dev := None), pds')))))"

definition dev_list_destroy_ptr ::
    "u64 \<Rightarrow> u64 \<Rightarrow> list_mem \<times> dev_store \<times> nat list \<Rightarrow> (list_mem \<times> dev_store \<times> nat list) res option" where
  "dev_list_destroy_ptr off head st = list_for_each_entry_safe off (dev_destroy_body off) head st"

text \<open>The loop of \<open>dhmp_dev_list_init\<close>; with each answer of the library comes the address
  that \<open>malloc\<close> returns, whose content is not set yet.\<close>

fun add_devices_ptr ::
    "u64 \<Rightarrow> u64 \<Rightarrow> (dev_probe \<times> u64) list \<Rightarrow> list_mem \<times> dev_store \<Rightarrow> (list_mem \<times> dev_store) res" where
  "add_devices_ptr off head [] st = Inr st"
| "add_devices_ptr off head ((pr, dev) # prs) (m, ds) =
     (case probe_ctx pr of
        None \<Rightarrow> add_devices_ptr off head prs (m, ds)
      | Some verbs \<Rightarrow>
          if \<not> probe_mem pr then Inr (m, ds)
          else
            let d = snd (dhmp_dev_init verbs pr);
                m1 = m(dev + off \<mapsto> \<lparr>lh_next = 0, lh_prev = 0\<rparr>);
                ds1 = ds(dev \<mapsto> d)
            in if dev_verbs d = None then add_devices_ptr off head prs (m1, ds1)
               else bindR (list_add_tail (dev + off) head m1) (\<lambda>m2. add_devices_ptr off head prs (m2, ds1)))"

text \<open>A device list in memory: the structs behind the head, and what they hold.\<close>

definition dev_list_rep :: "u64 \<Rightarrow> u64 \<Rightarrow> list_mem \<Rightarrow> dev_store \<Rightarrow> u64 list \<Rightarrow> dhmp_device list \<Rightarrow> bool" where
  "dev_list_rep off head m ds ps devs \<longleftrightarrow> queue_rep head off m ps \<and> map ds ps = map Some devs"

lemma restrict_upd_None:
  "(f(a := None)) |` (- A) = f |` (- insert a A)"
  by (auto simp: restrict_map_def fun_eq_iff)

lemma destroy_fold:
  assumes "distinct ps" and "map ds ps = map Some devs" and "\<forall>d \<in> set devs. dev_verbs d \<noteq> None \<longrightarrow> dev_pd d \<noteq> None"
  shows "fold_body (dev_destroy_body off) ps (m, ds, pds) =
    Inr (m |` (- set (nodes_at off ps)), ds |` (- set ps), pds @ dhmp_dev_list_destroy devs)"
  using assms
proof (induction ps arbitrary: m ds pds devs)
  case (Cons p ps)
  then obtain d devs' where devs: "devs = d # devs'" "ds p = Some d" "map ds ps = map Some devs'" by (cases devs) auto
  obtain pds1 where b: "dev_destroy_body off p (m, ds, pds) = Inr (Continue (m(p + off := None), ds(p := None), pds1))"
      "pds1 @ dhmp_dev_list_destroy devs' = pds @ dhmp_dev_list_destroy devs"
    using Cons.prems(3) devs
    by (cases "dev_verbs d = None") (auto simp: dev_destroy_body_def dhmp_dev_list_destroy_def ptr_def)
  have eq: "map (ds(p := None)) ps = map Some devs'" using Cons.prems(1) devs(3) by (simp add: map_fun_upd)
  have "fold_body (dev_destroy_body off) ps (m(p + off := None), ds(p := None), pds1) =
      Inr ((m(p + off := None)) |` (- set (nodes_at off ps)), (ds(p := None)) |` (- set ps), pds1 @ dhmp_dev_list_destroy devs')"
    by (rule Cons.IH [OF _ eq]) (use Cons.prems devs in auto)
  then show ?case using b unfolding restrict_upd_None by simp
qed (simp add: dhmp_dev_list_destroy_def restrict_map_def)

lemma dev_list_destroy_fold:
  assumes "queue_rep head off m ps"
  shows "dev_list_destroy_ptr off head (m, s) = Some (fold_body (dev_destroy_body off) ps (m, s))"
  unfolding dev_list_destroy_ptr_def
proof (rule list_for_each_entry_safe_fold [OF assms])
  fix as p bs st st'
  assume ps: "ps = as @ p # bs" and b: "dev_destroy_body off p st = Inr (Continue st')" and h: "head \<in> dom (fst st)"
  have "fst st' = (fst st)(p + off := None)"
    using b by (auto simp: dev_destroy_body_def bindR_def split: prod.splits option.splits sum.splits)
  moreover have "p + off \<noteq> head" "\<forall>q \<in> set bs. q \<noteq> p" using assms ps by (auto simp: ring_def)
  ultimately show "head \<in> dom (fst st') \<and> (\<forall>q \<in> set bs. nx (fst st') (q + off) = nx (fst st) (q + off))"
    using h by (auto simp: nx_def)
qed

lemma add_devices_refines:
  assumes "dev_list_rep off head m ds ps devs"
    and "distinct (map snd prs)" and "\<forall>dev \<in> snd ` set prs. dev \<notin> dom ds \<and> dev \<notin> set ps \<and> dev + off \<noteq> head \<and> dev + off \<notin> dom m"
  shows "\<exists>m' ds' ps'. add_devices_ptr off head prs (m, ds) = Inr (m', ds') \<and>
    dev_list_rep off head m' ds' ps' (add_devices (map fst prs) devs)"
  using assms
proof (induction off head prs "(m, ds)" arbitrary: m ds ps devs rule: add_devices_ptr.induct)
  case (2 off head pr dev prs m ds)
  show ?case
  proof (cases "probe_ctx pr")
    case None
    then show ?thesis using 2(1) [of ps devs] 2(4-6) by auto
  next
    case (Some verbs)
    let ?m = "m(dev + off \<mapsto> \<lparr>lh_next = 0, lh_prev = 0\<rparr>)" and ?d = "snd (dhmp_dev_init verbs pr)"
    let ?ds = "ds(dev \<mapsto> ?d)"
    have fresh: "dev \<notin> set ps" "dev + off \<noteq> head" "dev \<notin> snd ` set prs" using 2(5,6) by auto
    have "queue_rep head off ?m ps = queue_rep head off m ps"
      using fresh by (intro ring_frame) auto
    then have rep: "dev_list_rep off head ?m ?ds ps devs"
      using 2(4) fresh(1) by (auto simp: dev_list_rep_def)
    have out: "\<forall>a \<in> snd ` set prs. a \<notin> dom ?ds \<and> a \<notin> set ps \<and> a + off \<noteq> head \<and> a + off \<notin> dom ?m"
      using 2(6) fresh(3) by auto
    show ?thesis
    proof (cases "probe_mem pr")
      case False then show ?thesis using Some 2(4) by auto
    next
      case mem: True
      show ?thesis
      proof (cases "dev_verbs ?d = None")
        case True
        then show ?thesis using 2(2) [OF Some _ refl refl refl True, of ps devs] mem Some rep out 2(5) by auto
      next
        case False
        obtain m2 where m2: "list_add_tail (dev + off) head ?m = Inr m2" "queue_rep head off m2 (ps @ [dev])"
            "only (set (head # (dev + off) # nodes_at off ps)) ?m m2"
          using list_add_tail_ring [of ?m head "nodes_at off ps" "dev + off"] rep fresh
          by (fastforce simp: dev_list_rep_def)
        have "dev_list_rep off head m2 ?ds (ps @ [dev]) (devs @ [?d])"
          using m2(2) rep by (simp add: dev_list_rep_def)
        moreover have "\<forall>a \<in> snd ` set prs. a \<notin> dom ?ds \<and> a \<notin> set (ps @ [dev]) \<and> a + off \<noteq> head \<and> a + off \<notin> dom m2"
          using out fresh(3) m2(3) by (auto simp: only_def)
        ultimately show ?thesis
          using 2(3) [OF Some _ refl refl refl False, of m2 "ps @ [dev]" "devs @ [?d]"] mem Some m2(1) False 2(5)
          by (auto simp: Let_def)
      qed
    qed
  qed
qed auto

section \<open>The address table\<close>

text \<open>The member \<open>addr_entry\<close> follows two \<open>struct ibv_mr\<close> of 48 bytes and four scalars in 16; a bucket is
  one pointer.\<close>

definition addr_entry_off :: u64 where
  "addr_entry_off = 112"

definition bucket :: "u64 \<Rightarrow> nat \<Rightarrow> u64" where
  "bucket tab index = tab + 8 * word_of_nat index"

definition addr_info_insert_ht_ptr :: "u64 \<Rightarrow> u64 \<Rightarrow> u64 \<Rightarrow> infos \<times> hlist_mem \<Rightarrow> (infos \<times> hlist_mem) res" where
  "addr_info_insert_ht_ptr tab dhmp_addr ai st =
     (case st of (ifs, M) \<Rightarrow>
        (case ifs ai of
           None \<Rightarrow> Inl UB
         | Some i \<Rightarrow>
             let index = dhmp_hash_in_client dhmp_addr
             in bindR (hlist_add_head (ai + addr_entry_off) (bucket tab index) M) (\<lambda>M'.
                  Inr (ifs(ai \<mapsto> i\<lparr>dram_mr := (dram_mr i)\<lparr>mr_addr := 0\<rparr>\<rparr>), M'))))"

text \<open>The second component of the loop state is the cursor after the loop: the struct at which it was
  left, or \<open>NULL\<close>.\<close>

definition find_body :: "infos \<Rightarrow> u64 \<Rightarrow> (hlist_mem, u64) body" where
  "find_body ifs normal_addr ai st =
     (case ifs ai of
        None \<Rightarrow> Inl UB
      | Some i \<Rightarrow> if mr_addr (nvm_mr i) = normal_addr then Inr (Break (fst st, ai)) else Inr (Continue (fst st, 0)))"

definition get_addr_info_from_ht_ptr :: "u64 \<Rightarrow> infos \<Rightarrow> hlist_mem \<Rightarrow> nat \<Rightarrow> u64 \<Rightarrow> u64 res option" where
  "get_addr_info_from_ht_ptr tab ifs M index dhmp_addr =
     run_loop (hlist_empty (bucket tab index) M) (\<lambda>e.
       if e then Some (Inr 0)
       else map_option (\<lambda>r. bindR r (\<lambda>st. Inr (snd st)))
              (hlist_for_each_entry addr_entry_off (find_body ifs (dhmp_transfer_normal_addr dhmp_addr))
                 (bucket tab index) (M, 0)))"

definition ht_del_ptr :: "u64 \<Rightarrow> hlist_mem \<Rightarrow> hlist_mem res" where
  "ht_del_ptr ai M = hlist_del (ai + addr_entry_off) M"

text \<open>The table in memory: each bucket is a chain, and no struct is in two of them.\<close>

definition ht_rep :: "u64 \<Rightarrow> hlist_mem \<Rightarrow> addr_ht \<Rightarrow> bool" where
  "ht_rep tab M ht \<longleftrightarrow>
     (\<forall>i < DHMP_CLIENT_HT_SIZE. bucket_rep (bucket tab i) addr_entry_off M (ht i) \<and>
        (\<forall>j < DHMP_CLIENT_HT_SIZE. i \<noteq> j \<longrightarrow> set (ht i) \<inter> set (ht j) = {}))"

text \<open>\<open>NULL\<close> for a struct that was not found.\<close>

definition or_null :: "u64 option \<Rightarrow> u64" where
  "or_null r = (case r of None \<Rightarrow> 0 | Some a \<Rightarrow> a)"

lemma bucket_inj:
  assumes "bucket b i = bucket b j" and "i < DHMP_CLIENT_HT_SIZE" and "j < DHMP_CLIENT_HT_SIZE"
  shows "i = j"
proof -
  have "(8 * word_of_nat i :: u64) = 8 * word_of_nat j" using assms(1) by (simp add: bucket_def)
  then have "unat (word_of_nat (8 * i) :: u64) = unat (word_of_nat (8 * j) :: u64)" by simp
  moreover have "unat (word_of_nat (8 * k) :: u64) = 8 * k" if "k < DHMP_CLIENT_HT_SIZE" for k
    using that by (subst unat_of_nat) (simp add: DHMP_CLIENT_HT_SIZE_def)
  ultimately show ?thesis using assms(2,3) by simp
qed

lemma find_body_fold:
  assumes "0 \<notin> set ps"
  shows "bindR (fold_body (find_body ifs a) ps (M, 0)) (\<lambda>st. Inr (snd st)) = bindR (find_info ifs a ps) (\<lambda>r. Inr (or_null r))"
  using assms by (induction ps) (auto simp: find_body_def or_null_def split: option.split)

lemma get_addr_info_refines:
  assumes "ht_rep b M ht" and "index < DHMP_CLIENT_HT_SIZE"
  shows "get_addr_info_from_ht_ptr b ifs M index dhmp_addr =
    Some (bindR (dhmp_get_addr_info_from_ht ifs ht index dhmp_addr) (\<lambda>r. Inr (or_null r)))"
proof -
  have r: "bucket_rep (bucket b index) addr_entry_off M (ht index)" using assms by (simp add: ht_rep_def)
  have "hlist_empty (bucket b index) M = Inr (ht index = [])"
    using hlist_tests(1) [of M "bucket b index" "nodes_at addr_entry_off (ht index)"] r by simp
  moreover have "hlist_for_each_entry addr_entry_off (find_body ifs a) (bucket b index) (M, 0) =
      Some (fold_body (find_body ifs a) (ht index) (M, 0))" for a
    by (rule hlist_for_each_entry_fold [OF r]) (auto simp: find_body_def split: option.splits if_splits)
  ultimately show ?thesis
    using find_body_fold [of "ht index"] r
    by (simp add: get_addr_info_from_ht_ptr_def dhmp_get_addr_info_from_ht_def run_loop_def or_null_def)
qed

text \<open>A change of one bucket leaves the others as they are.\<close>

lemma ht_rep_upd:
  assumes "ht_rep b M ht" and i: "i < DHMP_CLIENT_HT_SIZE"
    and new: "bucket_rep (bucket b i) addr_entry_off M' ps"
    and only: "honly (bucket b i) (set (nodes_at addr_entry_off qs)) M M'"
    and out: "\<And>j. j < DHMP_CLIENT_HT_SIZE \<Longrightarrow> j \<noteq> i \<Longrightarrow> set (ht j) \<inter> set qs = {}"
    and sub: "set ps \<subseteq> set qs"
  shows "ht_rep b M' (ht(i := ps))"
proof -
  have "bucket_rep (bucket b j) addr_entry_off M' (ht j)" if j: "j < DHMP_CLIENT_HT_SIZE" "j \<noteq> i" for j
  proof -
    have "is_hlist M' (bucket b j) (nodes_at addr_entry_off (ht j)) = is_hlist M (bucket b j) (nodes_at addr_entry_off (ht j))"
      using bucket_inj [OF _ j(1) i] j out [OF j] by (intro honly_hlist [OF only]) auto
    then show ?thesis using assms(1) j(1) by (simp add: ht_rep_def)
  qed
  then show ?thesis using assms(1) new out sub by (fastforce simp: ht_rep_def)
qed

lemma hash_in_client_bound: "dhmp_hash_in_client a < DHMP_CLIENT_HT_SIZE"
  by (simp add: dhmp_hash_in_client_def DHMP_CLIENT_HT_SIZE_def)

lemma addr_info_insert_refines:
  assumes "ht_rep b M ht" and "ifs ai \<noteq> None" and "spare_node addr_entry_off M ai"
    and "\<And>j. j < DHMP_CLIENT_HT_SIZE \<Longrightarrow> ai \<notin> set (ht j)"
  shows "\<exists>ifs' M' ht'. addr_info_insert_ht_ptr b dhmp_addr ai (ifs, M) = Inr (ifs', M') \<and>
    dhmp_addr_info_insert_ht dhmp_addr ai ifs ht = Inr (ifs', ht') \<and> ht_rep b M' ht' \<and>
    dom (h_node M') = dom (h_node M)"
proof -
  let ?i = "dhmp_hash_in_client dhmp_addr"
  have r: "bucket_rep (bucket b ?i) addr_entry_off M (ht ?i)" and ai: "ai \<notin> set (ht ?i)"
    using assms(1,4) hash_in_client_bound by (auto simp: ht_rep_def)
  have "ai + addr_entry_off \<notin> set (nodes_at addr_entry_off (ht ?i))" using ai by auto
  then obtain M' where M': "hlist_add_head (ai + addr_entry_off) (bucket b ?i) M = Inr M'"
      "is_hlist M' (bucket b ?i) (nodes_at addr_entry_off (ai # ht ?i))"
      "honly (bucket b ?i) (set (nodes_at addr_entry_off (ai # ht ?i))) M M'"
    using hlist_add_head_rep [of M "bucket b ?i" "nodes_at addr_entry_off (ht ?i)" "ai + addr_entry_off"] r ai assms(3) by auto
  have "ht_rep b M' (ht(?i := ai # ht ?i))"
  proof (rule ht_rep_upd [OF assms(1) hash_in_client_bound _ M'(3)])
    fix j assume "j < DHMP_CLIENT_HT_SIZE" "j \<noteq> ?i"
    then show "set (ht j) \<inter> set (ai # ht ?i) = {}" using assms(1,4) hash_in_client_bound by (fastforce simp: ht_rep_def)
  qed (use M' r assms(3) in auto)
  then show ?thesis
    using M'(1,3) assms(2)
    by (auto simp: addr_info_insert_ht_ptr_def dhmp_addr_info_insert_ht_def Let_def honly_def)
qed

lemma ht_del_refines:
  assumes "ht_rep b M ht" and i: "i < DHMP_CLIENT_HT_SIZE" and "ai \<in> set (ht i)"
  shows "\<exists>M'. ht_del_ptr ai M = Inr M' \<and> ht_rep b M' (ht_del i ai ht) \<and> dom (h_node M') = dom (h_node M)"
proof -
  obtain as bs where s: "ht i = as @ ai # bs" "ai \<notin> set as" using split_list_first [OF assms(3)] by blast
  have r: "bucket_rep (bucket b i) addr_entry_off M (ht i)" using assms by (simp add: ht_rep_def)
  then obtain M' where M': "hlist_del (ai + addr_entry_off) M = Inr M'"
      "is_hlist M' (bucket b i) (nodes_at addr_entry_off (as @ bs))" "honly (bucket b i) (set (nodes_at addr_entry_off (ht i))) M M'"
    using hlist_del_rep(1) [of M "bucket b i" "nodes_at addr_entry_off as" "ai + addr_entry_off" "nodes_at addr_entry_off bs"] s by auto
  have "ht_rep b M' (ht(i := as @ bs))"
  proof (rule ht_rep_upd [OF assms(1) i _ M'(3)])
    fix j assume "j < DHMP_CLIENT_HT_SIZE" "j \<noteq> i"
    then show "set (ht j) \<inter> set (ht i) = {}" using assms(1) i by (auto simp: ht_rep_def)
  qed (use M' r s in auto)
  then show ?thesis using M'(1,3) s by (simp add: ht_del_ptr_def ht_del_def remove1_append honly_def)
qed

text \<open>Runs of the two operations that change the table: the insertion after an allocation, and the
  lookup with \<open>hlist_del\<close> at the start of \<open>dhmp_free_work_handler\<close>.\<close>

datatype tab_op = Ins u64 u64 | Rem u64

definition rem_info :: "u64 \<Rightarrow> infos \<times> addr_ht \<Rightarrow> (infos \<times> addr_ht) res" where
  "rem_info dhmp_addr st =
     (case st of (ifs, ht) \<Rightarrow>
        let index = dhmp_hash_in_client dhmp_addr
        in bindR (dhmp_get_addr_info_from_ht ifs ht index dhmp_addr) (\<lambda>r.
             case r of None \<Rightarrow> Inr (ifs, ht) | Some ai \<Rightarrow> Inr (ifs, ht_del index ai ht)))"

definition rem_info_ptr :: "u64 \<Rightarrow> u64 \<Rightarrow> infos \<times> hlist_mem \<Rightarrow> (infos \<times> hlist_mem) res option" where
  "rem_info_ptr tab dhmp_addr st =
     (case st of (ifs, M) \<Rightarrow>
        map_option (\<lambda>r. bindR r (\<lambda>ai. if ai = 0 then Inr (ifs, M) else bindR (ht_del_ptr ai M) (\<lambda>M'. Inr (ifs, M'))))
          (get_addr_info_from_ht_ptr tab ifs M (dhmp_hash_in_client dhmp_addr) dhmp_addr))"

fun tab_run :: "tab_op list \<Rightarrow> infos \<times> addr_ht \<Rightarrow> (infos \<times> addr_ht) res" where
  "tab_run [] st = Inr st"
| "tab_run (Ins a ai # ops) st = bindR (dhmp_addr_info_insert_ht a ai (fst st) (snd st)) (tab_run ops)"
| "tab_run (Rem a # ops) st = bindR (rem_info a st) (tab_run ops)"

fun tab_run_ptr :: "u64 \<Rightarrow> tab_op list \<Rightarrow> infos \<times> hlist_mem \<Rightarrow> (infos \<times> hlist_mem) res option" where
  "tab_run_ptr tab [] st = Some (Inr st)"
| "tab_run_ptr tab (Ins a ai # ops) st = run_loop (addr_info_insert_ht_ptr tab a ai st) (tab_run_ptr tab ops)"
| "tab_run_ptr tab (Rem a # ops) st =
     (case rem_info_ptr tab a st of None \<Rightarrow> None | Some r \<Rightarrow> run_loop r (tab_run_ptr tab ops))"

text \<open>Each inserted struct is a new one: not in the table, and inserted once.\<close>

fun inserted :: "tab_op list \<Rightarrow> u64 list" where
  "inserted [] = []"
| "inserted (Ins a ai # ops) = ai # inserted ops"
| "inserted (Rem a # ops) = inserted ops"

lemma find_info_in:
  "find_info ifs a ps = Inr (Some ai) \<Longrightarrow> ai \<in> set ps"
  by (induction ps) (auto split: option.splits if_splits)

lemma rem_info_refines:
  assumes "ht_rep b M ht" and "rem_info a (ifs, ht) = Inr (ifs', ht')"
  shows "\<exists>M'. rem_info_ptr b a (ifs, M) = Some (Inr (ifs', M')) \<and> ht_rep b M' ht' \<and>
    (\<forall>j. set (ht' j) \<subseteq> set (ht j)) \<and> dom (h_node M') = dom (h_node M)"
proof -
  let ?i = "dhmp_hash_in_client a"
  obtain r where r: "dhmp_get_addr_info_from_ht ifs ht ?i a = Inr r"
    using assms(2) by (auto simp: rem_info_def Let_def bindR_def split: sum.splits)
  have g: "get_addr_info_from_ht_ptr b ifs M ?i a = Some (Inr (or_null r))"
    using get_addr_info_refines [OF assms(1) hash_in_client_bound] r by simp
  show ?thesis
  proof (cases r)
    case None
    then show ?thesis using assms r g by (auto simp: rem_info_def rem_info_ptr_def or_null_def Let_def)
  next
    case (Some ai)
    then have ai: "ai \<in> set (ht ?i)"
      using r find_info_in by (auto simp: dhmp_get_addr_info_from_ht_def split: if_splits)
    then have nz: "ai \<noteq> 0" using assms(1) hash_in_client_bound by (auto simp: ht_rep_def)
    moreover have "set (ht_del ?i ai ht j) \<subseteq> set (ht j)" for j
      using set_remove1_subset [of ai "ht j"] by (auto simp: ht_del_def)
    ultimately show ?thesis
      using ht_del_refines [OF assms(1) hash_in_client_bound ai] assms(2) r g Some
      by (auto simp: rem_info_def rem_info_ptr_def or_null_def Let_def)
  qed
qed

lemma tab_run_refines:
  assumes "ht_rep b M ht" and "tab_run ops (ifs, ht) = Inr (ifs', ht')" and "distinct (inserted ops)"
    and "\<forall>ai \<in> set (inserted ops). spare_node addr_entry_off M ai \<and> (\<forall>j < DHMP_CLIENT_HT_SIZE. ai \<notin> set (ht j))"
  shows "\<exists>M'. tab_run_ptr b ops (ifs, M) = Some (Inr (ifs', M')) \<and> ht_rep b M' ht'"
  using assms
proof (induction ops arbitrary: ifs M ht rule: inserted.induct)
  case 1
  then show ?case by auto
next
  case (2 a ai ops)
  have "ifs ai \<noteq> None" using "2.prems"(2) by (cases "ifs ai") (auto simp: dhmp_addr_info_insert_ht_def)
  moreover have sp: "spare_node addr_entry_off M ai" "\<And>j. j < DHMP_CLIENT_HT_SIZE \<Longrightarrow> ai \<notin> set (ht j)"
    using "2.prems"(4) by auto
  ultimately obtain ifs1 M1 ht1 where s: "addr_info_insert_ht_ptr b a ai (ifs, M) = Inr (ifs1, M1)"
      "dhmp_addr_info_insert_ht a ai ifs ht = Inr (ifs1, ht1)" "ht_rep b M1 ht1"
      "dom (h_node M1) = dom (h_node M)"
    using addr_info_insert_refines [OF "2.prems"(1), of ifs ai a] by blast
  have "set (ht1 j) \<subseteq> insert ai (set (ht j))" for j
    using s(2) by (auto simp: dhmp_addr_info_insert_ht_def Let_def split: option.splits if_splits)
  then have "\<forall>x \<in> set (inserted ops). spare_node addr_entry_off M1 x \<and> (\<forall>j < DHMP_CLIENT_HT_SIZE. x \<notin> set (ht1 j))"
    using "2.prems"(3,4) s(4) by fastforce
  then show ?case
    using "2.IH" [OF s(3), of ifs1] "2.prems"(2,3) s by (simp add: run_loop_def)
next
  case (3 a ops)
  obtain ifs1 ht1 where r: "rem_info a (ifs, ht) = Inr (ifs1, ht1)" "tab_run ops (ifs1, ht1) = Inr (ifs', ht')"
    using "3.prems"(2) by (auto simp: bindR_def split: sum.splits)
  obtain M1 where M1: "rem_info_ptr b a (ifs, M) = Some (Inr (ifs1, M1))" "ht_rep b M1 ht1"
      "\<forall>j. set (ht1 j) \<subseteq> set (ht j)" "dom (h_node M1) = dom (h_node M)"
    using rem_info_refines [OF "3.prems"(1) r(1)] by blast
  show ?case using "3.IH" [OF M1(2) r(2)] "3.prems"(3,4) M1 by (fastforce simp: run_loop_def)
qed

section \<open>The work list\<close>

text \<open>The member \<open>work_entry\<close> follows the type and the data pointer.\<close>

definition work_entry_off :: u64 where
  "work_entry_off = 16"

text \<open>What a caller does with the lock held, and what the work thread does with it held: it takes
  the first work, or none.\<close>

definition put_work :: "u64 \<Rightarrow> u64 \<Rightarrow> list_mem \<Rightarrow> list_mem res" where
  "put_work head w m = list_add_tail (w + work_entry_off) head m"

definition take_work :: "u64 \<Rightarrow> list_mem \<Rightarrow> (u64 option \<times> list_mem) res" where
  "take_work head m =
     bindR (list_empty head m) (\<lambda>e.
       if \<not> e then
         bindR (list_first_entry head work_entry_off m) (\<lambda>w.
           bindR (list_del (w + work_entry_off) m) (\<lambda>m'. Inr (Some w, m')))
       else Inr (None, m))"

datatype wq_op = Put u64 | Take

fun puts :: "wq_op list \<Rightarrow> u64 list" where
  "puts [] = []"
| "puts (Put w # ops) = w # puts ops"
| "puts (Take # ops) = puts ops"

text \<open>The works that the turns of the thread take, and what stays on the list: on a HOL list and in
  memory.\<close>

fun wq_run :: "wq_op list \<Rightarrow> u64 list \<Rightarrow> u64 option list \<times> u64 list" where
  "wq_run [] ws = ([], ws)"
| "wq_run (Put w # ops) ws = wq_run ops (ws @ [w])"
| "wq_run (Take # ops) ws =
     (case ws of
        [] \<Rightarrow> (case wq_run ops [] of (rs, ws') \<Rightarrow> (None # rs, ws'))
      | w # ws' \<Rightarrow> (case wq_run ops ws' of (rs, ws2) \<Rightarrow> (Some w # rs, ws2)))"

fun wq_run_ptr :: "u64 \<Rightarrow> wq_op list \<Rightarrow> list_mem \<Rightarrow> (u64 option list \<times> list_mem) res" where
  "wq_run_ptr head [] m = Inr ([], m)"
| "wq_run_ptr head (Put w # ops) m = bindR (put_work head w m) (wq_run_ptr head ops)"
| "wq_run_ptr head (Take # ops) m =
     bindR (take_work head m) (\<lambda>(r, m1). bindR (wq_run_ptr head ops m1) (\<lambda>(rs, m2). Inr (r # rs, m2)))"

lemma take_work_refines:
  assumes "queue_rep head work_entry_off m ws"
  shows "\<exists>m'. take_work head m = Inr (case ws of [] \<Rightarrow> None | w # _ \<Rightarrow> Some w, m') \<and>
    queue_rep head work_entry_off m' (tl ws) \<and> dom m' = dom m"
proof (cases ws)
  case Nil
  then show ?thesis using list_tests(1) [OF assms] assms by (simp add: take_work_def)
next
  case (Cons w ws')
  obtain m' where "list_del (w + work_entry_off) m = Inr m'" "queue_rep head work_entry_off m' ws'" "dom m' = dom m"
    using list_del_ring [of m head "[]" "w + work_entry_off" "nodes_at work_entry_off ws'"] assms Cons by (auto simp: only_def)
  moreover have "list_first_entry head work_entry_off m = Inr w"
    using ring_ends(1) [OF assms] Cons by (simp add: list_first_entry_def list_entry_def)
  ultimately show ?thesis using list_tests(1) [OF assms] Cons by (simp add: take_work_def)
qed

lemma wq_run_refines:
  assumes "queue_rep head work_entry_off m ws" and "distinct (ws @ puts ops)"
    and "\<forall>w \<in> set (puts ops). spare_entry head work_entry_off m w"
  shows "\<exists>m'. wq_run_ptr head ops m = Inr (fst (wq_run ops ws), m') \<and>
    queue_rep head work_entry_off m' (snd (wq_run ops ws))"
  using assms
proof (induction ops arbitrary: m ws rule: puts.induct)
  case (2 w ops)
  obtain m1 where m1: "put_work head w m = Inr m1" "queue_rep head work_entry_off m1 (ws @ [w])"
      "\<forall>y. spare_entry head work_entry_off m y \<longrightarrow> spare_entry head work_entry_off m1 y"
    using tailq.add_rep [OF "2.prems"(1), of w] "2.prems" by (auto simp: put_work_def)
  then show ?case using "2.IH" [OF m1(2)] "2.prems"(2,3) by auto
next
  case (3 ops)
  obtain m1 where m1: "take_work head m = Inr (case ws of [] \<Rightarrow> None | w # _ \<Rightarrow> Some w, m1)"
      "queue_rep head work_entry_off m1 (tl ws)" "dom m1 = dom m"
    using take_work_refines [OF "3.prems"(1)] by blast
  have "distinct (tl ws @ puts ops)" "\<forall>w \<in> set (puts ops). spare_entry head work_entry_off m1 w"
    using "3.prems"(2,3) m1(3) by (cases ws; auto)+
  then show ?case using "3.IH" [OF m1(2)] m1(1) by (cases ws) (auto split: prod.splits)
qed auto

section \<open>The clients of a server\<close>

definition peer_body :: "Net \<Rightarrow> u32 \<Rightarrow> (list_mem, u64) body" where
  "peer_body s a rdma_trans st =
     bindR (conn_at (unat rdma_trans) s) (\<lambda>c.
       if sin_addr (peer_addr c) = a then Inr (Break (fst st, rdma_trans)) else Inr (Continue st))"

definition is_exist_connection_ptr :: "u64 \<Rightarrow> u64 \<Rightarrow> Net \<Rightarrow> sockaddr_in \<Rightarrow> list_mem \<Rightarrow> u64 res option" where
  "is_exist_connection_ptr off head s sock m =
     map_option (\<lambda>r. bindR r (\<lambda>st. Inr (snd st)))
       (list_for_each_entry off (peer_body s (sin_addr sock)) head (m, 0))"

lemma peer_body_fold:
  "bindR (fold_body (peer_body s a) ps (m, 0)) (\<lambda>st. Inr (snd st)) =
   bindR (same_peer a (map unat ps) s) (\<lambda>r. Inr (case r of None \<Rightarrow> 0 | Some t \<Rightarrow> word_of_nat t))"
  by (induction ps) (auto simp: peer_body_def bindR_def split: sum.splits)

section \<open>Properties of the list users\<close>

text \<open>C27: \<open>dhmp_dev_list_destroy\<close>, which frees each struct inside the loop without taking it off
  the list, ends and never touches a struct it has freed: it frees every device of the list, its list
  node with it, exactly once, frees nothing else, and gives back the protection domains of the
  opened devices in the order of the list.\<close>

theorem dev_list_destroy_frees:
  assumes "dev_list_rep off head m ds ps devs" and "\<forall>d \<in> set devs. dev_verbs d \<noteq> None \<longrightarrow> dev_pd d \<noteq> None"
  shows "dev_list_destroy_ptr off head (m, ds, []) =
    Some (Inr (m |` (- set (nodes_at off ps)), ds |` (- set ps), dhmp_dev_list_destroy devs))"
  using dev_list_destroy_fold [of m head off ps] destroy_fold [of ps ds devs off m "[]"] assms tailq.rep_distinct
  by (auto simp: dev_list_rep_def)

definition demo_devs :: dev_store where
  "demo_devs = [0x200 \<mapsto> \<lparr>dev_verbs = Some 1, dev_pd = Some 7\<rparr>, 0x300 \<mapsto> \<lparr>dev_verbs = Some 2, dev_pd = Some 8\<rparr>]"

theorem dev_list_destroy_frees_witness:
  "\<exists>m' ds'. dev_list_destroy_ptr 16 0x100 (demo_list, demo_devs, []) = Some (Inr (m', ds', [7, 8])) \<and>
    m' 0x210 = None \<and> m' 0x310 = None \<and> m' 0x100 \<noteq> None \<and> ds' 0x200 = None \<and> ds' 0x300 = None"
proof -
  let ?devs = "[\<lparr>dev_verbs = Some 1, dev_pd = Some 7\<rparr>, \<lparr>dev_verbs = Some 2, dev_pd = Some 8\<rparr>]"
  have "dev_list_rep 16 0x100 demo_list demo_devs [0x200, 0x300] ?devs"
    using demo_list_is(1) by (simp add: dev_list_rep_def demo_devs_def)
  then have "dev_list_destroy_ptr 16 0x100 (demo_list, demo_devs, []) =
      Some (Inr (demo_list |` (- set (nodes_at 16 [0x200, 0x300])), demo_devs |` (- set [0x200, 0x300]), dhmp_dev_list_destroy ?devs))"
    by (rule dev_list_destroy_frees) simp
  then show ?thesis by (simp add: dhmp_dev_list_destroy_def demo_list_def)
qed

text \<open>C21: the client's table of remote regions, with its buckets as linked lists, behaves under any
  sequence of insertions of new structs and of removals like the table of HOL lists: the
  pointer operations do not fault, and a lookup ends and returns the struct that the list model finds,
  or \<open>NULL\<close>.\<close>

theorem addr_table_refines:
  assumes "ht_rep tab M ht" and "tab_run ops (ifs, ht) = Inr (ifs', ht')" and "distinct (inserted ops)"
    and "\<forall>ai \<in> set (inserted ops). spare_node addr_entry_off M ai \<and> (\<forall>j < DHMP_CLIENT_HT_SIZE. ai \<notin> set (ht j))"
  shows "\<exists>M'. tab_run_ptr tab ops (ifs, M) = Some (Inr (ifs', M')) \<and> ht_rep tab M' ht' \<and>
    get_addr_info_from_ht_ptr tab ifs' M' (dhmp_hash_in_client a) a =
      Some (bindR (dhmp_get_addr_info_from_ht ifs' ht' (dhmp_hash_in_client a) a) (\<lambda>r. Inr (or_null r)))"
  using tab_run_refines [OF assms] get_addr_info_refines [OF _ hash_in_client_bound] by blast

text \<open>A table just after its heads were set, with one struct allocated.\<close>

definition demo_tab :: hlist_mem where
  "demo_tab = \<lparr>h_first = (\<lambda>_. Some 0), h_node = [0x370 \<mapsto> \<lparr>hn_next = 0, hn_pprev = PP_NULL\<rparr>]\<rparr>"

theorem addr_table_refines_witness:
  "\<exists>M'. tab_run_ptr 0x10000 [Ins 0x7000 0x300] ([0x300 \<mapsto> fresh_info\<lparr>nvm_mr := null_mr\<lparr>mr_addr := 0x7000\<rparr>\<rparr>], demo_tab) =
      Some (Inr ([0x300 \<mapsto> fresh_info\<lparr>nvm_mr := null_mr\<lparr>mr_addr := 0x7000\<rparr>\<rparr>], M')) \<and>
    get_addr_info_from_ht_ptr 0x10000 [0x300 \<mapsto> fresh_info\<lparr>nvm_mr := null_mr\<lparr>mr_addr := 0x7000\<rparr>\<rparr>] M'
      (dhmp_hash_in_client 0x7000) 0x7000 = Some (Inr 0x300)"
proof -
  let ?ifs = "[0x300 \<mapsto> fresh_info\<lparr>nvm_mr := null_mr\<lparr>mr_addr := 0x7000\<rparr>\<rparr>]"
  let ?ht = "(\<lambda>_. [])(dhmp_hash_in_client 0x7000 := [0x300])"
  have "ht_rep 0x10000 demo_tab (\<lambda>_. [])"
    by (simp add: ht_rep_def demo_tab_def is_hlist_def hchain_def end_pp_def at_pp_def)
  moreover have run: "tab_run [Ins 0x7000 0x300] (?ifs, \<lambda>_. []) = Inr (?ifs, ?ht)"
    by (simp add: dhmp_addr_info_insert_ht_def fresh_info_def null_mr_def Let_def)
  ultimately obtain M' where "tab_run_ptr 0x10000 [Ins 0x7000 0x300] (?ifs, demo_tab) = Some (Inr (?ifs, M'))"
      "get_addr_info_from_ht_ptr 0x10000 ?ifs M' (dhmp_hash_in_client 0x7000) 0x7000 =
        Some (bindR (dhmp_get_addr_info_from_ht ?ifs ?ht (dhmp_hash_in_client 0x7000) 0x7000) (\<lambda>r. Inr (or_null r)))"
    using addr_table_refines [of "0x10000" demo_tab "\<lambda>_. []" "[Ins 0x7000 0x300]" ?ifs ?ifs ?ht "0x7000"]
    by (auto simp: demo_tab_def addr_entry_off_def)
  then show ?thesis
    by (auto simp: dhmp_get_addr_info_from_ht_def dhmp_transfer_normal_addr_def or_null_def fresh_info_def null_mr_def)
qed

text \<open>C20: callers that append works and the thread that takes them, in any interleaving of whole
  critical sections, see a queue: no call faults, the thread gets the works in the order in which they
  were appended, each once, and nothing when the list is empty.\<close>

theorem work_list_is_queue:
  assumes "queue_rep head work_entry_off m ws" and "distinct (ws @ puts ops)"
    and "\<forall>w \<in> set (puts ops). spare_entry head work_entry_off m w"
  shows "\<exists>m'. wq_run_ptr head ops m = Inr (fst (wq_run ops ws), m') \<and>
    queue_rep head work_entry_off m' (snd (wq_run ops ws))"
  using wq_run_refines [OF assms] .

theorem work_list_is_queue_witness:
  "\<exists>m'. wq_run_ptr 0x500 [Put 0x400, Take, Take] demo_list = Inr ([Some 0x400, None], m')"
  using work_list_is_queue [of demo_list "0x500" "[]" "[Put 0x400, Take, Take]"] demo_list_is(2,3)
  by (auto simp: work_entry_off_def)

text \<open>C26: \<open>dhmp_is_exist_connection\<close> walks the linked list of clients, ends, and returns the client that the
  search through the list of the model returns, \<open>NULL\<close> for none; and faults exactly when
  that search does.\<close>

theorem is_exist_connection_refines:
  assumes "server_instance s = Some sv" and "queue_rep head off m ps" and "client_list sv = map unat ps"
  shows "is_exist_connection_ptr off head s sock m =
    Some (bindR (dhmp_is_exist_connection sock s) (\<lambda>r. Inr (case r of None \<Rightarrow> 0 | Some t \<Rightarrow> word_of_nat t)))"
proof -
  have "list_for_each_entry off (peer_body s (sin_addr sock)) head (m, 0) =
      Some (fold_body (peer_body s (sin_addr sock)) ps (m, 0))"
    by (rule list_for_each_entry_fold(1) [OF assms(2)]) (auto simp: peer_body_def bindR_def split: sum.splits if_splits)
  then show ?thesis
    using assms(1,3) by (simp add: is_exist_connection_ptr_def dhmp_is_exist_connection_def ptr_def peer_body_fold)
qed

text \<open>A server with the two clients of the example list, the second one with the address 9.\<close>

definition demo_clients :: Net where
  "demo_clients = demo_net\<lparr>conns := [0x200 \<mapsto> demo_conn\<lparr>peer_addr := demo_addr 4\<rparr>, 0x300 \<mapsto> demo_conn\<lparr>peer_addr := demo_addr 9\<rparr>],
     server_instance := Some \<lparr>cur_connections = 2, client_list = [0x200, 0x300], listen_trans = Some 0\<rparr>\<rparr>"

theorem is_exist_connection_refines_witness:
  "is_exist_connection_ptr 16 0x100 demo_clients (demo_addr 9) demo_list = Some (Inr 0x300)"
  using is_exist_connection_refines [of demo_clients "\<lparr>cur_connections = 2, client_list = [0x200, 0x300], listen_trans = Some 0\<rparr>"
      demo_list "0x100" 16 "[0x200, 0x300]" "demo_addr 9"] demo_list_is(1)
  by (simp add: demo_clients_def demo_addr_def dhmp_is_exist_connection_def conn_at_def ptr_def)

end
