(* ===== verification/Logging.thy ===== *)
theory Logging
  imports Config
begin

text \<open>
  The logging of \<open>src/dhmp_log.c\<close> and \<open>include/dhmp_log.h\<close>: which messages are printed, and the line
  that is printed. What \<open>vsnprintf\<close> makes of the format and its arguments is an argument, \<open>None\<close> if it
  reports an error; so is the text of the time. The line goes to the standard error stream.
\<close>

section \<open>Levels\<close>

datatype dhmp_log_level =
  DHMP_LOG_LEVEL_ERROR | DHMP_LOG_LEVEL_WARN | DHMP_LOG_LEVEL_INFO | DHMP_LOG_LEVEL_DEBUG |
  DHMP_LOG_LEVEL_TRACE | DHMP_LOG_LEVEL_MID | DHMP_LOG_LEVEL_LAST

primrec level_no :: "dhmp_log_level \<Rightarrow> nat" where
  "level_no DHMP_LOG_LEVEL_ERROR = 0"
| "level_no DHMP_LOG_LEVEL_WARN = 1"
| "level_no DHMP_LOG_LEVEL_INFO = 2"
| "level_no DHMP_LOG_LEVEL_DEBUG = 3"
| "level_no DHMP_LOG_LEVEL_TRACE = 4"
| "level_no DHMP_LOG_LEVEL_MID = 5"
| "level_no DHMP_LOG_LEVEL_LAST = 6"

text \<open>The level in force is an object of the enumeration type, which is unsigned; the configuration
  stores any integer in it. The program starts with the highest level.\<close>

definition global_log_level :: u32 where
  "global_log_level = word_of_nat (level_no DHMP_LOG_LEVEL_MID)"

definition level_str :: "string list" where
  "level_str = [''ERROR'', ''WARN'', ''INFO'', ''DEBUG'', ''TRACE'', ''MID'']"

section \<open>One line\<close>

definition MBUF_SIZE :: nat where
  "MBUF_SIZE = 2048"

definition FILEBUF_SIZE :: nat where
  "FILEBUF_SIZE = 270"

text \<open>\<open>strrchr(file, '/')\<close>: the part behind the last slash, or the whole name.\<close>

definition short_filename :: "string \<Rightarrow> string" where
  "short_filename file = rev (takeWhile (\<lambda>c. c \<noteq> CHR ''/'') (rev file))"

text \<open>\<open>%-ns\<close>.\<close>

definition pad :: "nat \<Rightarrow> string \<Rightarrow> string" where
  "pad n s = s @ replicate (n - length s) CHR '' ''"

text \<open>\<open>vsnprintf\<close> cuts the text to the buffer but returns its full length, and the code stores a
  terminator at this length.\<close>

definition dhmp_log_impl :: "string \<Rightarrow> string \<Rightarrow> nat \<Rightarrow> nat \<Rightarrow> string option \<Rightarrow> string res" where
  "dhmp_log_impl stamp file line log_level formatted =
     (case formatted of
        None \<Rightarrow> Inl UB
      | Some msg \<Rightarrow>
          guardR (length msg < MBUF_SIZE) UB
            (let mbuf = take (MBUF_SIZE - 1) msg;
                 filebuf = take (FILEBUF_SIZE - 1) (short_filename file @ '':'' @ dec_nat line)
             in guardR (log_level < length level_str) UB
                  (Inr (''['' @ stamp @ ''] '' @ pad 28 filebuf @ '' ['' @ pad 5 (level_str ! log_level) @ ''] - '' @
                        mbuf @ [CHR 0x0A]))))"

text \<open>The macro: the lines a call adds to the output.\<close>

definition dhmp_log :: "u32 \<Rightarrow> string \<Rightarrow> string \<Rightarrow> nat \<Rightarrow> dhmp_log_level \<Rightarrow> string option \<Rightarrow> string list res" where
  "dhmp_log global stamp file line level formatted =
     (if level_no level < level_no DHMP_LOG_LEVEL_LAST \<and> level_no level \<le> unat global
      then bindR (dhmp_log_impl stamp file line (level_no level) formatted) (\<lambda>l. Inr [l])
      else Inr [])"

section \<open>Lemmas\<close>

lemma level_str_covers: "level \<noteq> DHMP_LOG_LEVEL_LAST \<Longrightarrow> level_no level < length level_str"
  by (cases level) (simp_all add: level_str_def)

lemma level_no_inj: "level_no l = level_no l' \<Longrightarrow> l = l'"
  by (cases l; cases l') simp_all

lemma short_filename_split:
  "\<exists>dir. file = dir @ short_filename file \<and> CHR ''/'' \<notin> set (short_filename file) \<and>
     (dir = [] \<or> last dir = CHR ''/'')"
proof -
  let ?p = "\<lambda>c. c \<noteq> CHR ''/''"
  have "file = rev (dropWhile ?p (rev file)) @ short_filename file"
    unfolding short_filename_def rev_append [symmetric] by simp
  moreover have "CHR ''/'' \<notin> set (short_filename file)"
    using set_takeWhileD [of "CHR ''/''" ?p "rev file"] by (auto simp: short_filename_def)
  moreover have "dropWhile ?p (rev file) = [] \<or> last (rev (dropWhile ?p (rev file))) = CHR ''/''"
    using hd_dropWhile [of ?p "rev file"] by (auto simp: last_rev)
  ultimately show ?thesis by (intro exI [of _ "rev (dropWhile ?p (rev file))"]) simp
qed

lemma every_level_on: "level \<noteq> DHMP_LOG_LEVEL_LAST \<Longrightarrow> level_no level \<le> unat global_log_level"
  by (cases level) (simp_all add: global_log_level_def)

lemma dhmp_log_shown:
  assumes "level \<noteq> DHMP_LOG_LEVEL_LAST" and "level_no level \<le> unat global" and "length msg < MBUF_SIZE"
  shows "\<exists>pre. dhmp_log global stamp file line level (Some msg) = Inr [pre @ level_str ! level_no level @
    replicate (5 - length (level_str ! level_no level)) CHR '' '' @ ''] - '' @ msg @ [CHR 0x0A]]"
proof -
  have "level_no level < level_no DHMP_LOG_LEVEL_LAST" using assms(1) by (cases level) simp_all
  then show ?thesis
    using level_str_covers [OF assms(1)] assms(2,3)
    by (simp add: dhmp_log_def dhmp_log_impl_def pad_def MBUF_SIZE_def Let_def)
qed

section \<open>Printing the configuration\<close>

text \<open>The messages of \<open>dhmp_print_config\<close> for one server, with their lines in \<open>src/dhmp_config.c\<close>.\<close>

definition config_messages :: "dhmp_net_info \<Rightarrow> dhmp_simu_info \<Rightarrow> dhmp_mem_info \<Rightarrow> (nat \<times> string) list" where
  "config_messages n s m =
     [(37, ''nic name '' @ nic_name n), (38, ''addr '' @ net_addr n), (39, ''port '' @ dec_int (net_port n)),
      (40, ''rdelay '' @ dec_int (rdelay s)), (41, ''wdelay '' @ dec_int (wdelay s)), (42, ''knum '' @ dec_int (knum s)),
      (43, ''dram_node '' @ dec_int (dram_node m)), (44, ''nvm_node '' @ dec_int (nvm_node m))]"

fun log_infos :: "u32 \<Rightarrow> string \<Rightarrow> (nat \<times> string) list \<Rightarrow> string list res" where
  "log_infos global stamp [] = Inr []"
| "log_infos global stamp ((line, msg) # ms) =
     bindR (dhmp_log global stamp ''src/dhmp_config.c'' line DHMP_LOG_LEVEL_INFO (Some msg)) (\<lambda>ls.
     bindR (log_infos global stamp ms) (\<lambda>ls'. Inr (ls @ ls')))"

fun print_servers :: "u32 \<Rightarrow> string \<Rightarrow> dhmp_config \<Rightarrow> nat list \<Rightarrow> string list res" where
  "print_servers global stamp c [] = Inr []"
| "print_servers global stamp c (i # js) =
     guardR (i < length (net_infos c) \<and> i < length (simu_infos c) \<and> i < length (mem_infos c)) UB
       (bindR (log_infos global stamp (config_messages (net_infos c ! i) (simu_infos c ! i) (mem_infos c ! i))) (\<lambda>ls.
        bindR (print_servers global stamp c js) (\<lambda>ls'. Inr (ls @ ls'))))"

definition dhmp_print_config :: "u32 \<Rightarrow> string \<Rightarrow> dhmp_config \<Rightarrow> string list res" where
  "dhmp_print_config global stamp c = print_servers global stamp c [0..<nets_cnt c]"

lemma length_dec_nat: "n < 10 ^ k \<Longrightarrow> 0 < k \<Longrightarrow> length (dec_nat n) \<le> k"
proof (induction k arbitrary: n)
  case (Suc k)
  show ?case
  proof (cases "n < 10")
    case True then show ?thesis by (subst dec_nat.simps) simp
  next
    case False
    then have "0 < k" using Suc.prems(1) by (cases k) auto
    moreover have "n div 10 < 10 ^ k" using Suc.prems(1) by (simp add: div_less_iff_less_mult mult.commute)
    ultimately show ?thesis using Suc.IH [of "n div 10"] False by (subst dec_nat.simps) simp
  qed
qed simp

lemma length_dec_int:
  assumes "int_range z"
  shows "length (dec_int z) \<le> 11"
proof -
  have "nat (- z) < 10 ^ 10" "nat z < 10 ^ 10" using assms unfolding int_range_def by simp_all linarith+
  then show ?thesis using length_dec_nat [of "nat (- z)" 10] length_dec_nat [of "nat z" 10] by (auto simp: dec_int_def)
qed

lemma log_infos_shown:
  assumes "\<forall>(line, msg) \<in> set ms. length msg < MBUF_SIZE"
  shows "\<exists>ls. log_infos global stamp ms = Inr ls \<and> length ls = (if 2 \<le> unat global then length ms else 0)"
  using assms
proof (induction ms)
  case (Cons x ms)
  obtain line msg where x: "x = (line, msg)" by (cases x)
  have "\<exists>l. dhmp_log global stamp ''src/dhmp_config.c'' line DHMP_LOG_LEVEL_INFO (Some msg) =
      Inr (if 2 \<le> unat global then [l] else [])"
    using dhmp_log_shown [of DHMP_LOG_LEVEL_INFO global msg stamp "''src/dhmp_config.c''" line] Cons.prems x
    by (auto simp: dhmp_log_def)
  then show ?case using Cons x by auto
qed simp

text \<open>A configuration whose fields fit, such as the one that the document of \<open>config_round_trip\<close> gives, is
  printed without a fault, eight lines for each server.\<close>

lemma config_printed:
  assumes "\<forall>i < nets_cnt c. i < length (net_infos c) \<and> i < length (simu_infos c) \<and> i < length (mem_infos c) \<and>
    server_fits (net_infos c ! i, simu_infos c ! i, mem_infos c ! i)"
  shows "\<exists>ls. dhmp_print_config global stamp c = Inr ls \<and> length ls = (if 2 \<le> unat global then 8 * nets_cnt c else 0)"
proof -
  have one: "\<exists>ls. log_infos global stamp (config_messages n s m) = Inr ls \<and> length ls = (if 2 \<le> unat global then 8 else 0)"
    if "server_fits (n, s, m)" for n s m
  proof -
    have "length (dec_int z) < n" if "int_range z" "11 < n" for z n using length_dec_int [OF that(1)] that(2) by simp
    then have "\<forall>(line, msg) \<in> set (config_messages n s m). length msg < MBUF_SIZE"
      using that by (auto simp: config_messages_def server_fits_def MBUF_SIZE_def DHMA_NIC_NAME_LEN_def DHMP_ADDR_LEN_def)
    moreover have "length (config_messages n s m) = 8" by (simp add: config_messages_def)
    ultimately show ?thesis using log_infos_shown [of "config_messages n s m" global stamp] by metis
  qed
  have "\<exists>ls. print_servers global stamp c js = Inr ls \<and> length ls = (if 2 \<le> unat global then 8 * length js else 0)"
    if "set js \<subseteq> {..<nets_cnt c}" for js
    using that
  proof (induction js)
    case (Cons j js)
    then show ?case using one [of "net_infos c ! j" "simu_infos c ! j" "mem_infos c ! j"] assms by fastforce
  qed simp
  from this [of "[0..<nets_cnt c]"]
  have "\<exists>ls. print_servers global stamp c [0..<nets_cnt c] = Inr ls \<and> length ls = (if 2 \<le> unat global then 8 * nets_cnt c else 0)"
    by (auto simp: lessThan_atLeast0)
  then show ?thesis unfolding dhmp_print_config_def .
qed

section \<open>Properties\<close>

text \<open>C40: A message of a real level is printed exactly when its level is not above the one in force; the
  line holds the name of the level and the complete message, provided that the
  formatted message has at most 2047 characters. A longer one is not cut, as the size passed to
  \<open>vsnprintf\<close> suggests: the terminator is stored behind the end of the buffer.\<close>

theorem log_message_bounds:
  assumes "level \<noteq> DHMP_LOG_LEVEL_LAST"
  shows "if unat global < level_no level then dhmp_log global stamp file line level (Some msg) = Inr []
    else if length msg < 2048
    then \<exists>pre. dhmp_log global stamp file line level (Some msg) = Inr [pre @ level_str ! level_no level @
           replicate (5 - length (level_str ! level_no level)) CHR '' '' @ ''] - '' @ msg @ [CHR 0x0A]]
    else dhmp_log global stamp file line level (Some msg) = Inl UB"
proof -
  have "level_no level < level_no DHMP_LOG_LEVEL_LAST" using assms by (cases level) simp_all
  then show ?thesis
    using dhmp_log_shown [OF assms, of global msg] by (auto simp: dhmp_log_def dhmp_log_impl_def MBUF_SIZE_def)
qed

theorem log_message_bounds_witness:
  "dhmp_log global_log_level ''t'' ''src/a.c'' 7 DHMP_LOG_LEVEL_ERROR (Some (replicate 2048 CHR ''x'')) = Inl UB"
  using log_message_bounds [of DHMP_LOG_LEVEL_ERROR global_log_level "''t''" "''src/a.c''" 7 "replicate 2048 CHR ''x''"] by simp

lemma log_line_sample:
  "dhmp_log global_log_level ''t'' ''src/a.c'' 7 DHMP_LOG_LEVEL_WARN (Some ''hi'') =
     Inr [''[t] a.c:7                        [WARN ] - hi'' @ [CHR 0x0A]]"
  by code_simp

end
