(* ===== verification/Spec2Isabelle.thy ===== *)
theory Spec2Isabelle
  imports QueueSteps DirtyTable RingBuffer LogStale LogWriter LogExamples RingCalls HashExtras HashRuns ListLoops ListUsers Logging
begin

text \<open>
  A verification of the RDMA middleware: a chain of nodes replicates key/value logs from a head
  node to a tail node through ring buffers in remote memory, on top of a layer that allocates
  and accesses remote memory over RDMA connections.

  \<^bold>\<open>Parts of the program and theories.\<close>

  \<^item> \<open>Prelude\<close>: machine words, outcomes of C code (\<open>res\<close>: a value, or \<open>Exit\<close>, \<open>UB\<close>, \<open>Spin\<close>), byte
    regions, little-endian integers, C strings.
  \<^item> \<open>UnlockQueue\<close> (\<open>src/unlock_queue.c\<close>): the single-producer single-consumer queue. Entries come
    out in order and once; put and pop commute; a queue is freed once. \<open>QueueSteps\<close>: a producer and a
    consumer interleaved at every access to the struct, without a lock; nothing is lost, doubled
    or torn.
  \<^item> \<open>HashCodes\<close> (\<open>src/murmur3_hash.c\<close>, the hash functions of \<open>src/mid_hashmap.c\<close> and
    \<open>src/mid_client_work.c\<close>), \<open>HashTable\<close> (\<open>src/mid_hashmap.c\<close>): the map with its rehashing refines
    map update and deletion. \<open>DirtyTable\<close>: the table of dirty keys is a multiset of keys.
    \<open>HashExtras\<close> (\<open>src/dhmp_hash.c\<close>, \<open>murmur3_32\<close> of \<open>src/mid_hashmap.c\<close>): the pointer to the hash function, and the
    unused hash on signed integers, which is undefined for almost every key. \<open>HashRuns\<close>: whole runs of
    the map from its creation.
  \<^item> \<open>RingBuffer\<close> (\<open>src/log_buffer.c\<close>, \<open>include/log_copy.h\<close>): both ends of the ring; what the writer
    posts is what the reader finds, and the write pointer is published last.
  \<^item> \<open>LogBuffer\<close> (\<open>src/log_buffer.c\<close>): the node with its logs, its heap, its four queues and the
    operations of the reader, the head writer and \<open>NIC_thread\<close>. \<open>LogFrames\<close>, \<open>LogTail\<close> and
    \<open>LogChain\<close> compose a head and a tail over one ring as a step relation. The step relation lets the head
    write any strings whose log has a length of type \<open>int\<close>, over whatever bytes are in the ring and with any bytes in the
    fields of the header that the code leaves unset. The code does not clear the ring, so a byte of the log before
    may be taken for the tag of the next. On the runs without such a byte (\<open>no_stale_tag\<close>, a condition on the
    logs written, stated in each theorem) the tail serves a
    prefix of what the head wrote, it can always drain, no call faults, and the dirty table
    counts the keys in flight. \<open>LogStale\<close>: the condition is needed; a run that serves a value nobody
    wrote. A middle node frees logs that are still to be forwarded.
    \<open>LogWriter\<close> adds \<open>writer_thread\<close>: its 20 strings meet the condition whatever the unset bytes
    hold, so every run of the program's threads delivers them, and can always complete.
    \<open>LogExamples\<close>: the functions that demonstrate the use of the log.
  \<^item> \<open>Wire\<close> (\<open>include/dhmp.h\<close>): layout of the control messages; the locale \<open>wire_struct\<close> is the
    interface of a struct that travels, interpreted for every message.
  \<^item> \<open>AddrTable\<close> (\<open>src/mid_client_work.c\<close>): global addresses and the client's table.
  \<^item> \<open>Process\<close>: memory, transports, tasks and works of one process. \<open>Transport\<close>
    (\<open>src/mid_rdma_task.c\<close>, \<open>src/mid_rdma_transport.c\<close>), \<open>RecvHandler\<close> (\<open>src/mid_rdma_recv_handler.c\<close>,
    \<open>src/mid_rdma_cq_handler.c\<close>, \<open>src/mid_rdma_utils.c\<close>), \<open>ClientWork\<close> (\<open>src/mid_client_work.c\<close>) and
    \<open>TopApi\<close> (\<open>src/mid_rdma_top_api.c\<close>) hold one definition per function.
  \<^item> \<open>Exchange\<close>: a client and a server together; remote allocation, two-sided and one-sided reads
    and writes do what they are for, and the error paths that never return are shown to hang. A message longer than the
    64 KiB that every receive offers is not delivered, and the call that waits for the reply never returns. The wait of
    \<open>dhmp_malloc_work_handler\<close> may end while the other thread is still copying the registration: \<open>mid_copy\<close>
    is the struct with some of the bytes copied, and the result is right if the address comes before the length.
    \<open>RingSetup\<close>: the buffer request that gives the log layer its ring. \<open>RingMemory\<close>: the ring as the
    bytes of its struct and its buffer; a write of the log layer that is carried out as an RDMA
    write changes these bytes as the model of the ring says.
    \<open>Session\<close>: a program that allocates a remote region and uses it, with its calls, the work thread, both
    sides' handlers and the network card running together. The specification is a list of bytes;
    every call returns and the region refines it. \<open>RingCalls\<close>: the writer's side of the ring on memory, where
    \<open>remote_buff\<close> is a struct in the process and the remote operations are calls of the API; it
    simulates the functions of \<open>RingBuffer\<close>.
  \<^item> \<open>Connection\<close> (\<open>src/mid_rdma_connection.c\<close>, \<open>src/mid_epoll_context.c\<close>): connections as a state
    machine over events, with every library handle accounted for. \<open>ConnRuns\<close>: invariants of all
    runs, the handshake on both sides, the error paths of creation with the block they leak.
  \<^item> \<open>Config\<close> (\<open>src/dhmp_config.c\<close>): the configuration is read back from its document; how a node
    finds its own number.
  \<^item> \<open>Init\<close> (\<open>src/dhmp_dev.c\<close>, \<open>src/mid_rdma_init.c\<close>): start-up, and which nodes are connected.
  \<^item> \<open>KernelList\<close>, \<open>KernelHlist\<close> (\<open>include/linux/list.h\<close>): the intrusive lists on a memory of nodes. Every
    operation is shown to do to the circle, or chain, of nodes what its list operation does to a
    sequence; loops end and visit each entry once. The locale \<open>entry_seq\<close> is the interface of an
    intrusive list, interpreted for both kinds. \<open>ListLoops\<close>: the loops that resume at an entry, run
    backwards or look ahead.
  \<^item> \<open>ListUsers\<close>: the code that works on these lists at the level of pointers, in \<open>src/dhmp_dev.c\<close>,
    \<open>src/mid_client_work.c\<close> and \<open>src/mid_rdma_connection.c\<close>: it returns what the other theories, in which
    the lists are HOL lists, say, and no freed struct is touched.
  \<^item> \<open>Logging\<close> (\<open>src/dhmp_log.c\<close>, \<open>include/dhmp_log.h\<close>): the line a message is printed as, and the messages
    that overrun the buffer.

  \<^bold>\<open>Conventions.\<close> State is passed explicitly in records (\<open>Node\<close>, \<open>Proc\<close>, \<open>Net\<close>). Undefined
  behaviour, \<open>exit\<close> and endless waiting are outcomes, so a theorem that a call returns also says
  that it does none of these. Libraries, the network card and the kernel are parameters: \<open>Env\<close> and
  \<open>CmEnv\<close> give the outcome of every call, \<open>others\<close> what the other threads do during a busy wait
  (one look after they acted; if the flag is still unset the wait is \<open>Spin\<close>), the parsed XML
  document and the interfaces of the host are arguments. Work requests that were posted are kept
  in order and executed in that order, as on a reliable connection.

  \<^bold>\<open>Integers.\<close> An \<open>int\<close> of the code is an \<open>int\<close> of the model; where a sum of lengths that the caller chooses can leave
  the 32 bits (\<open>totalLen\<close> in \<open>rb_write_mate\<close>), the result is \<open>UB\<close>, and where a \<open>size_t\<close> becomes \<open>int\<close> (\<open>head_node_write_log\<close>,
  the length of a one-sided operation) the conversion is written out. Positions in a ring and sums of a position and an admitted
  length stay in range, as the size of a ring is a power of two below 2^31 (\<open>ring_sums_fit\<close>).

  \<^bold>\<open>Bounds and fuel.\<close> Loops with a count are recursive on it. \<open>read_log_key\<close> takes its limit from
  the code. \<open>dhmp_connect\<close> runs for as many rounds as its list of outcomes has, a list that ends
  too early being an endless wait; the topology theorem needs one round per peer. Walks over linked
  lists have no bound: they are partial functions into \<open>option\<close>, and shown to return.

  \<^bold>\<open>Not modelled.\<close> The texts of the log messages, \<open>dhmp_print_config\<close> apart; the creation of the threads; the empty
  stub \<open>src/log_copy/database_api.c\<close>; the vendored headers of libraries, whose enumerations and structs
  are datatypes and records where the code uses them; mutual exclusion of the client list and the
  work list, which are accessed under their locks, so that their operations are single steps.
\<close>

end
